(* ===== verification/Prelude.thy ===== *)
theory Prelude
  imports Main "HOL-Library.Word" "HOL-Library.Monad_Syntax"
begin

text \<open>
  Shared vocabulary of the development. The target is \<^verbatim>\<open>wasm32-unknown-unknown\<close>: \<open>char\<close> is a
  signed byte, \<open>int\<close>, \<open>long\<close>, \<open>size_t\<close> and pointers have 32 bits, \<open>long long\<close> has 64.
  Memory is the flat linear memory of the module, a list of bytes indexed by address; an
  access past its end traps, which is the value \<open>None\<close>. The generic facts about bytes,
  little-endian words and first occurrences that every string routine needs are here.
\<close>

unbundle bit_operations_syntax

named_theorems mem_simps "loads and stores of the linear memory"

type_synonym u8 = "8 word"
type_synonym u32 = "32 word"
type_synonym u64 = "64 word"
type_synonym addr = nat
type_synonym mem = "u8 list"

section \<open>Linear memory\<close>

definition ld8 :: "mem \<Rightarrow> addr \<Rightarrow> u8 option" where
  "ld8 m a = (if a < length m then Some (m ! a) else None)"

definition st8 :: "mem \<Rightarrow> addr \<Rightarrow> u8 \<Rightarrow> mem option" where
  "st8 m a b = (if a < length m then Some (m[a := b]) else None)"

text \<open>A little-endian 32-bit word of four bytes, and the load and store of one.\<close>

definition word_of_bytes :: "u8 \<Rightarrow> u8 \<Rightarrow> u8 \<Rightarrow> u8 \<Rightarrow> u32" where
  "word_of_bytes b0 b1 b2 b3 =
     word_of_int (uint b0 + 256 * uint b1 + 65536 * uint b2 + 16777216 * uint b3)"

definition byte_of_word :: "u32 \<Rightarrow> nat \<Rightarrow> u8" where
  "byte_of_word w i = ucast (drop_bit (8 * i) w)"

definition ld32 :: "mem \<Rightarrow> addr \<Rightarrow> u32 option" where
  "ld32 m a = (if a + 3 < length m
     then Some (word_of_bytes (m ! a) (m ! (a + 1)) (m ! (a + 2)) (m ! (a + 3))) else None)"

definition st32 :: "mem \<Rightarrow> addr \<Rightarrow> u32 \<Rightarrow> mem option" where
  "st32 m a w = (if a + 3 < length m
     then Some (m[a := byte_of_word w 0, a + 1 := byte_of_word w 1,
                  a + 2 := byte_of_word w 2, a + 3 := byte_of_word w 3]) else None)"

text \<open>The memory with the bytes \<open>bs\<close> written at address \<open>a\<close> (in range).\<close>

definition put_bytes :: "mem \<Rightarrow> addr \<Rightarrow> u8 list \<Rightarrow> mem" where
  "put_bytes m a bs = take a m @ bs @ drop (a + length bs) m"

lemma ld8_Some [mem_simps]: "ld8 m a = Some b \<longleftrightarrow> a < length m \<and> b = m ! a"
  by (auto simp: ld8_def)

lemma ld8_None [mem_simps]: "ld8 m a = None \<longleftrightarrow> length m \<le> a"
  by (simp add: ld8_def not_less)

lemma ld8_in [simp]: "a < length m \<Longrightarrow> ld8 m a = Some (m ! a)"
  by (simp add: ld8_def)

lemma ld32_in [simp]: "a + 3 < length m \<Longrightarrow>
    ld32 m a = Some (word_of_bytes (m ! a) (m ! (a + 1)) (m ! (a + 2)) (m ! (a + 3)))"
  by (simp add: ld32_def)

lemma ld32_Some [mem_simps]: "ld32 m a = Some w \<longleftrightarrow> a + 3 < length m \<and>
    w = word_of_bytes (m ! a) (m ! (a + 1)) (m ! (a + 2)) (m ! (a + 3))"
  by (auto simp: ld32_def)

lemma st8_in [simp]: "a < length m \<Longrightarrow> st8 m a b = Some (m[a := b])"
  by (simp add: st8_def)

lemma length_put_bytes [simp]: "a + length bs \<le> length m \<Longrightarrow> length (put_bytes m a bs) = length m"
  by (simp add: put_bytes_def)

lemma put_bytes_Nil [simp]: "put_bytes m a [] = m"
  by (simp add: put_bytes_def)

lemma nth_put_bytes:
  "a + length bs \<le> length m \<Longrightarrow> i < length m \<Longrightarrow>
     put_bytes m a bs ! i = (if a \<le> i \<and> i < a + length bs then bs ! (i - a) else m ! i)"
  by (auto simp: put_bytes_def nth_append min_def)

lemma put_bytes_snoc:
  assumes "a + length bs < length m"
  shows "(put_bytes m a bs)[a + length bs := b] = put_bytes m a (bs @ [b])"
proof (rule nth_equalityI)
  show "length ((put_bytes m a bs)[a + length bs := b]) = length (put_bytes m a (bs @ [b]))"
    using assms by simp
next
  fix i assume "i < length ((put_bytes m a bs)[a + length bs := b])"
  then show "(put_bytes m a bs)[a + length bs := b] ! i = put_bytes m a (bs @ [b]) ! i"
    using assms by (auto simp: nth_put_bytes nth_list_update nth_append)
qed

section \<open>Bytes of words\<close>

lemma uint_u8_bounds: "0 \<le> uint (b :: u8)" "uint (b :: u8) \<le> 255"
  using uint_lt2p [of b] by simp_all

lemma uint_of_int_u32: "0 \<le> k \<Longrightarrow> k < 4294967296 \<Longrightarrow> uint (word_of_int k :: u32) = k"
  by (subst uint_word_of_int) simp

lemma uint_word_of_bytes:
  "uint (word_of_bytes b0 b1 b2 b3) =
     uint b0 + 256 * uint b1 + 65536 * uint b2 + 16777216 * uint b3"
  unfolding word_of_bytes_def
  by (rule uint_of_int_u32)
    (use uint_u8_bounds [of b0] uint_u8_bounds [of b1] uint_u8_bounds [of b2]
      uint_u8_bounds [of b3] in linarith)+

lemma byte_eq_iff_uint: "(a :: u8) = b \<longleftrightarrow> uint a = uint b"
  by (simp add: word_uint_eq_iff)

lemma uint_drop_bit: "uint (drop_bit n w) = drop_bit n (uint w)"
  by (rule bit_eqI) (simp add: bit_unsigned_iff bit_drop_bit_eq)

lemma uint_byte_of_word: "uint (byte_of_word w i) = (uint w div 2 ^ (8 * i)) mod 256"
proof -
  have "uint (drop_bit (8 * i) w) = uint w div 2 ^ (8 * i)"
    by (subst uint_drop_bit) (rule drop_bit_eq_div)
  then show ?thesis
    by (simp add: byte_of_word_def unsigned_ucast_eq take_bit_eq_mod)
qed

lemma base256_split:
  fixes b k :: int
  assumes "0 \<le> b" "b < 256"
  shows "(b + 256 * k) mod 256 = b" "(b + 256 * k) div 256 = k"
  using assms by simp_all

lemma bytes_base256:
  fixes b0 b1 b2 b3 :: int
  assumes b: "0 \<le> b0" "b0 < 256" "0 \<le> b1" "b1 < 256" "0 \<le> b2" "b2 < 256" "0 \<le> b3" "b3 < 256"
    and x: "x = b0 + 256 * b1 + 65536 * b2 + 16777216 * b3"
  shows "x mod 256 = b0" "x div 256 mod 256 = b1"
    "x div 65536 mod 256 = b2" "x div 16777216 mod 256 = b3"
proof -
  define k2 where "k2 = b2 + 256 * b3"
  define k1 where "k1 = b1 + 256 * k2"
  have x0: "x = b0 + 256 * k1" using x by (simp add: k1_def k2_def)
  have q1: "x div 256 = k1" and r: "x mod 256 = b0"
    unfolding x0 using b base256_split by blast+
  have q2: "x div 65536 = k2"
    using q1 zdiv_zmult2_eq [of 256 x 256] base256_split(2) [OF b(3,4), of k2]
    by (simp add: k1_def)
  have q3: "x div 16777216 = b3"
    using q2 zdiv_zmult2_eq [of 256 x 65536] base256_split(2) [OF b(5,6), of b3]
    by (simp add: k2_def)
  show "x mod 256 = b0" by (rule r)
  show "x div 256 mod 256 = b1" unfolding q1 k1_def using b(3,4) by (rule base256_split)
  show "x div 65536 mod 256 = b2" unfolding q2 k2_def using b(5,6) by (rule base256_split)
  show "x div 16777216 mod 256 = b3" unfolding q3 using b(7,8) by simp
qed

lemma byte_of_word_of_bytes [simp]:
  "byte_of_word (word_of_bytes b0 b1 b2 b3) 0 = b0"
  "byte_of_word (word_of_bytes b0 b1 b2 b3) 1 = b1"
  "byte_of_word (word_of_bytes b0 b1 b2 b3) (Suc 0) = b1"
  "byte_of_word (word_of_bytes b0 b1 b2 b3) 2 = b2"
  "byte_of_word (word_of_bytes b0 b1 b2 b3) 3 = b3"
proof -
  have "uint b0 < 256" "uint b1 < 256" "uint b2 < 256" "uint b3 < 256"
    using uint_u8_bounds(2) [of b0] uint_u8_bounds(2) [of b1] uint_u8_bounds(2) [of b2]
      uint_u8_bounds(2) [of b3] by simp_all
  note B = bytes_base256 [OF uint_u8_bounds(1) this(1) uint_u8_bounds(1) this(2)
      uint_u8_bounds(1) this(3) uint_u8_bounds(1) this(4) uint_word_of_bytes]
  show "byte_of_word (word_of_bytes b0 b1 b2 b3) 0 = b0"
    unfolding byte_eq_iff_uint uint_byte_of_word using B(1) by (simp only: mult_0_right power_0 div_by_1)
  show *: "byte_of_word (word_of_bytes b0 b1 b2 b3) 1 = b1"
    unfolding byte_eq_iff_uint uint_byte_of_word using B(2) by (simp only: power_numeral mult_1_right) simp
  show "byte_of_word (word_of_bytes b0 b1 b2 b3) (Suc 0) = b1"
    using * by simp
  show "byte_of_word (word_of_bytes b0 b1 b2 b3) 2 = b2"
    unfolding byte_eq_iff_uint uint_byte_of_word using B(3) by simp
  show "byte_of_word (word_of_bytes b0 b1 b2 b3) 3 = b3"
    unfolding byte_eq_iff_uint uint_byte_of_word using B(4) by simp
qed

section \<open>The word-at-a-time test for a zero byte\<close>

text \<open>
  The macros \<open>ONES\<close>, \<open>HIGHS\<close> and \<open>HASZERO\<close> of \<^verbatim>\<open>shim/musl/string/strlen.c\<close> (repeated in
  \<^verbatim>\<open>memchr.c\<close>, \<^verbatim>\<open>strchrnul.c\<close>, \<^verbatim>\<open>stpcpy.c\<close> and \<^verbatim>\<open>stpncpy.c\<close>), at the 32-bit \<open>size_t\<close>.
\<close>

definition ONES :: u32 where "ONES = 0x01010101"

definition HIGHS :: u32 where "HIGHS = ONES * 128"

definition haszero :: "u32 \<Rightarrow> bool" where
  "haszero x \<longleftrightarrow> ((x - ONES) AND NOT x AND HIGHS) \<noteq> 0"

lemma bit7_iff: "bit (b :: u8) 7 \<longleftrightarrow> 128 \<le> uint b"
proof -
  have "bit b 7 = odd (uint b div 128)"
    using bit_iff_odd [of "uint b" 7] by (simp add: bit_unsigned_iff)
  also have "\<dots> = (128 \<le> uint b)"
  proof (cases "128 \<le> uint b")
    case True
    then have "uint b div 128 = 1" using uint_u8_bounds [of b] by simp
    then show ?thesis using True by simp
  next
    case False
    then have "uint b div 128 = 0" using uint_u8_bounds [of b] by simp
    then show ?thesis using False by simp
  qed
  finally show ?thesis .
qed

lemma bit7_byte_of_word: "bit (byte_of_word w i) 7 \<longleftrightarrow> bit w (8 * i + 7)"
  by (simp add: byte_of_word_def bit_ucast_iff bit_drop_bit_eq ac_simps)

lemma ex_less_4: "(\<exists>i<4. P i) \<longleftrightarrow> P 0 \<or> P 1 \<or> P 2 \<or> P (3::nat)"
  by (auto simp: eval_nat_numeral Ex_less_Suc)

lemma bit_HIGHS: "bit HIGHS n \<longleftrightarrow> (\<exists>i<4. n = 8 * i + 7)"
proof -
  have *: "HIGHS = push_bit 7 1 OR push_bit 15 1 OR push_bit 23 1 OR push_bit 31 1"
    by (simp add: HIGHS_def ONES_def)
  have "bit HIGHS n \<longleftrightarrow> n = 7 \<or> n = 15 \<or> n = 23 \<or> n = 31"
    unfolding * bit_or_iff bit_push_bit_iff bit_1_iff by (auto simp: possible_bit_def)
  also have "\<dots> \<longleftrightarrow> (\<exists>i<4. n = 8 * i + 7)"
    by (simp add: ex_less_4)
  finally show ?thesis .
qed

lemma haszero_bytes:
  "haszero x \<longleftrightarrow> (\<exists>i<4. 128 \<le> uint (byte_of_word (x - ONES) i) \<and> uint (byte_of_word x i) < 128)"
proof -
  have "haszero x \<longleftrightarrow> (\<exists>n. bit (x - ONES) n \<and> \<not> bit x n \<and> bit HIGHS n)"
  proof
    assume "haszero x"
    then obtain n where "bit (x - ONES AND NOT x AND HIGHS) n"
      unfolding haszero_def by (auto simp: bit_eq_iff [of _ "0 :: u32"])
    then show "\<exists>n. bit (x - ONES) n \<and> \<not> bit x n \<and> bit HIGHS n"
      by (auto simp: bit_and_iff bit_not_iff)
  next
    assume "\<exists>n. bit (x - ONES) n \<and> \<not> bit x n \<and> bit HIGHS n"
    then obtain n where n: "bit (x - ONES) n" "\<not> bit x n" "bit HIGHS n" by blast
    from n(1) have "n < 32" using bit_imp_le_length [of "x - ONES" n] by simp
    with n have "bit (x - ONES AND NOT x AND HIGHS) n"
      by (simp add: bit_and_iff bit_not_iff possible_bit_word)
    then show "haszero x" unfolding haszero_def by auto
  qed
  also have "\<dots> \<longleftrightarrow> (\<exists>i<4. bit (x - ONES) (8 * i + 7) \<and> \<not> bit x (8 * i + 7))"
    by (auto simp: bit_HIGHS)
  finally show ?thesis
    by (simp add: not_le flip: bit7_byte_of_word add: bit7_iff)
qed

lemma uint_byte_of_int:
  assumes "i < 4"
  shows "uint (byte_of_word (word_of_int k :: u32) i) = (k div 2 ^ (8 * i)) mod 256"
proof -
  have "8 \<le> 32 - 8 * i" using assms by simp
  then have "take_bit 8 (drop_bit (8 * i) (take_bit 32 k)) = take_bit 8 (drop_bit (8 * i) k)"
    by (simp add: drop_bit_take_bit take_bit_take_bit min_def)
  then show ?thesis
    by (simp add: uint_byte_of_word uint_word_of_int flip: take_bit_eq_mod drop_bit_eq_div)
      (simp add: take_bit_eq_mod)
qed

lemma word_of_bytes_minus_ONES:
  "word_of_bytes b0 b1 b2 b3 - ONES = word_of_int ((uint b0 - 1)
     + 256 * ((uint b1 - 1) + 256 * ((uint b2 - 1) + 256 * (uint b3 - 1))))"
  by (simp add: word_of_bytes_def ONES_def algebra_simps)

lemma minus1_mod_256: "(0 - 1 + 256 * k) mod 256 = (255 :: int)"
  by presburger

text \<open>The test is exact: it fires just when one of the four bytes is zero.\<close>

lemma haszero_word_of_bytes:
  "haszero (word_of_bytes b0 b1 b2 b3) \<longleftrightarrow> b0 = 0 \<or> b1 = 0 \<or> b2 = 0 \<or> b3 = 0"
proof -
  define k3 where "k3 = uint b3 - 1"
  define k2 where "k2 = uint b2 - 1 + 256 * k3"
  define k1 where "k1 = uint b1 - 1 + 256 * k2"
  define k0 where "k0 = uint b0 - 1 + 256 * k1"
  let ?y = "word_of_bytes b0 b1 b2 b3 - ONES"
  have y: "?y = word_of_int k0"
    by (simp add: word_of_bytes_minus_ONES k0_def k1_def k2_def k3_def)
  have y_bytes: "uint (byte_of_word ?y 0) = k0 mod 256" "uint (byte_of_word ?y 1) = k0 div 256 mod 256"
    "uint (byte_of_word ?y 2) = k0 div 256 div 256 mod 256"
    "uint (byte_of_word ?y 3) = k0 div 256 div 256 div 256 mod 256"
    unfolding y using zdiv_zmult2_eq [of 256 k0 256] zdiv_zmult2_eq [of 256 k0 65536]
      zdiv_zmult2_eq [of 256 "k0 div 256" 256]
    by (simp_all add: uint_byte_of_int del: One_nat_def)
  note H = haszero_bytes [of "word_of_bytes b0 b1 b2 b3"]
  have dig: "uint b - 1 + 256 * k = 256 * k + (uint b - 1) \<and> 0 \<le> uint b - 1 \<and> uint b - 1 < 256"
    if "b \<noteq> 0" for b :: u8 and k :: int
  proof -
    have "uint b \<noteq> 0" using that by (simp add: byte_eq_iff_uint)
    then show ?thesis using uint_u8_bounds [of b] by linarith
  qed
  have step: "(uint b - 1 + 256 * k) mod 256 = uint b - 1" "(uint b - 1 + 256 * k) div 256 = k"
    if "b \<noteq> 0" for b :: u8 and k :: int
    using dig [OF that, of k] base256_split [of "uint b - 1" k] by simp_all
  show ?thesis
  proof (cases "b0 = 0")
    case True
    have "k0 mod 256 = 255" unfolding k0_def using True minus1_mod_256 [of k1] by simp
    then show ?thesis unfolding H ex_less_4 y_bytes using True by simp
  next
    case b0: False
    note s0 = step [OF b0, of k1, folded k0_def]
    show ?thesis
    proof (cases "b1 = 0")
      case True
      have "k1 mod 256 = 255" unfolding k1_def using True minus1_mod_256 [of k2] by simp
      then show ?thesis unfolding H ex_less_4 y_bytes s0 using True by simp
    next
      case b1: False
      note s1 = step [OF b1, of k2, folded k1_def]
      show ?thesis
      proof (cases "b2 = 0")
        case True
        have "k2 mod 256 = 255" unfolding k2_def using True minus1_mod_256 [of k3] by simp
        then show ?thesis unfolding H ex_less_4 y_bytes s0 s1 using True by simp
      next
        case b2: False
        note s2 = step [OF b2, of k3, folded k2_def]
        have "(uint b3 - 1) mod 256 = (if b3 = 0 then 255 else uint b3 - 1)"
          using step(1) [of b3 0] by auto
        then show ?thesis
          unfolding H ex_less_4 y_bytes s0 s1 s2 using b0 b1 b2
          by (auto simp add: k3_def simp del: One_nat_def)
      qed
    qed
  qed
qed

text \<open>Every word is the word of its four bytes, and the operations used by the tests are bytewise.\<close>

lemma base256_recombine:
  fixes x :: int
  assumes "0 \<le> x" "x < 4294967296"
  shows "x mod 256 + 256 * (x div 256 mod 256) + 65536 * (x div 65536 mod 256)
    + 16777216 * (x div 16777216 mod 256) = x"
proof -
  define a b c where "a = x div 256" and "b = x div 65536" and "c = x div 16777216"
  have ab: "b = a div 256" and bc: "c = b div 256"
    using zdiv_zmult2_eq [of 256 x 256] zdiv_zmult2_eq [of 256 x 65536]
      zdiv_zmult2_eq [of 256 "x div 256" 256] by (simp_all add: a_def b_def c_def)
  have "0 \<le> c" "c < 256" using assms unfolding c_def by linarith+
  then have c: "c mod 256 = c" by simp
  have "x = 256 * a + x mod 256" unfolding a_def by simp
  moreover have "a = 256 * b + a mod 256" unfolding ab by simp
  moreover have "b = 256 * c + b mod 256" unfolding bc by simp
  ultimately have "x mod 256 + 256 * (a mod 256) + 65536 * (b mod 256) + 16777216 * c = x"
    by linarith
  then show ?thesis unfolding a_def [symmetric] b_def [symmetric] c_def [symmetric] c .
qed

lemma word_of_bytes_byte_of_word:
  "word_of_bytes (byte_of_word w 0) (byte_of_word w 1) (byte_of_word w 2) (byte_of_word w 3) = w"
proof -
  have "0 \<le> uint w" "uint w < 4294967296" using uint_lt2p [of w] by simp_all
  note R = base256_recombine [OF this]
  have p: "(2::int) ^ (8 * 0) = 1" "(2::int) ^ (8 * 1) = 256" "(2::int) ^ (8 * 2) = 65536"
    "(2::int) ^ (8 * 3) = 16777216" by simp_all
  show ?thesis
    unfolding word_uint_eq_iff uint_word_of_bytes uint_byte_of_word p div_by_1 by (rule R)
qed

lemma haszero_iff: "haszero w \<longleftrightarrow> (\<exists>i<4. byte_of_word w i = 0)"
  using haszero_word_of_bytes [of "byte_of_word w 0" "byte_of_word w 1" "byte_of_word w 2"
      "byte_of_word w 3"]
  by (simp add: word_of_bytes_byte_of_word ex_less_4 del: One_nat_def)

lemma byte_of_word_xor: "byte_of_word (v XOR w) i = byte_of_word v i XOR byte_of_word w i"
  by (rule bit_word_eqI) (auto simp: byte_of_word_def bit_xor_iff bit_ucast_iff bit_drop_bit_eq)

lemma ONES_times: "ONES * ucast (c :: u8) = word_of_bytes c c c c"
  by (simp add: ONES_def word_of_bytes_def algebra_simps)

lemma haszero_xor:
  "haszero (word_of_bytes b0 b1 b2 b3 XOR ONES * ucast c) \<longleftrightarrow> b0 = c \<or> b1 = c \<or> b2 = c \<or> b3 = c"
proof -
  have "(a XOR c = 0) = (a = c)" for a :: u8
    by (metis xor.assoc xor.left_neutral xor_self_eq)
  then show ?thesis
    unfolding haszero_iff ONES_times byte_of_word_xor ex_less_4
    by (simp del: One_nat_def)
qed

section \<open>First occurrences\<close>

text \<open>
  The address \<open>e\<close> holds the first byte from \<open>s\<close> on that satisfies \<open>P\<close>: what every scanning
  loop computes. The C string at \<open>s\<close> ends at the first zero byte.
\<close>

definition first_at :: "(u8 \<Rightarrow> bool) \<Rightarrow> mem \<Rightarrow> addr \<Rightarrow> addr \<Rightarrow> bool" where
  "first_at P m s e \<longleftrightarrow> s \<le> e \<and> e < length m \<and> P (m ! e) \<and> (\<forall>i. s \<le> i \<and> i < e \<longrightarrow> \<not> P (m ! i))"

definition cstr :: "mem \<Rightarrow> addr \<Rightarrow> u8 list" where
  "cstr m s = takeWhile (\<lambda>b. b \<noteq> 0) (drop s m)"

definition terminated :: "mem \<Rightarrow> addr \<Rightarrow> bool" where
  "terminated m s \<longleftrightarrow> 0 \<in> set (drop s m)"

lemma first_at_unique: "first_at P m s e \<Longrightarrow> first_at P m s e' \<Longrightarrow> e = e'"
  unfolding first_at_def by (metis linorder_neqE_nat)

lemma first_at_later: "first_at P m s e \<Longrightarrow> s \<le> t \<Longrightarrow> t \<le> e \<Longrightarrow> first_at P m t e"
  by (auto simp: first_at_def)

lemma first_at_here: "s < length m \<Longrightarrow> P (m ! s) \<Longrightarrow> first_at P m s s"
  by (auto simp: first_at_def)

lemma first_at_step: "first_at P m s e \<Longrightarrow> \<not> P (m ! s) \<Longrightarrow> first_at P m (Suc s) e"
  unfolding first_at_def by (metis Suc_leD Suc_leI le_neq_implies_less)

lemma first_at_in: "first_at P m s e \<Longrightarrow> s < length m"
  by (simp add: first_at_def)

lemma first_at_takeWhile:
  assumes "\<exists>b\<in>set (drop s m). P b"
  shows "first_at P m s (s + length (takeWhile (\<lambda>b. \<not> P b) (drop s m)))"
proof -
  let ?t = "takeWhile (\<lambda>b. \<not> P b) (drop s m)"
  have len: "length ?t < length (drop s m)"
    using assms by (metis length_takeWhile_le le_neq_implies_less set_takeWhileD takeWhile_eq_take take_all order_refl)
  moreover have "P (drop s m ! length ?t)"
    using nth_length_takeWhile [OF len] by simp
  moreover have "\<not> P (drop s m ! i)" if "i < length ?t" for i
    using that by (metis nth_mem set_takeWhileD takeWhile_nth)
  moreover have "s \<le> length m" using len by simp
  ultimately show ?thesis
    unfolding first_at_def by (auto simp: le_iff_add nth_drop)
qed

lemma first_at_iff:
  "first_at P m s e \<longleftrightarrow> (\<exists>b\<in>set (drop s m). P b) \<and> e = s + length (takeWhile (\<lambda>b. \<not> P b) (drop s m))"
proof
  assume f: "first_at P m s e"
  then have "m ! e = drop s m ! (e - s)" "e - s < length (drop s m)" by (auto simp: first_at_def)
  then have "\<exists>b\<in>set (drop s m). P b" using f nth_mem first_at_def by metis
  with f show "(\<exists>b\<in>set (drop s m). P b) \<and> e = s + length (takeWhile (\<lambda>b. \<not> P b) (drop s m))"
    using first_at_takeWhile first_at_unique by blast
qed (use first_at_takeWhile in blast)

lemma terminated_first_at:
  "terminated m s \<longleftrightarrow> first_at (\<lambda>b. b = 0) m s (s + length (cstr m s))"
  by (auto simp: first_at_iff terminated_def cstr_def)

lemma nth_cstr:
  assumes i: "i < length (cstr m s)"
  shows "s + i < length m" "cstr m s ! i = m ! (s + i)" "m ! (s + i) \<noteq> 0"
proof -
  have "length (cstr m s) \<le> length (drop s m)"
    unfolding cstr_def by (rule length_takeWhile_le)
  with i show s: "s + i < length m" by simp
  from i have c: "cstr m s ! i = drop s m ! i"
    unfolding cstr_def by (rule takeWhile_nth)
  with s show "cstr m s ! i = m ! (s + i)" by simp
  moreover have "cstr m s ! i \<in> set (cstr m s)" using i by simp
  then have "cstr m s ! i \<noteq> 0" unfolding cstr_def by (blast dest: set_takeWhileD)
  ultimately show "m ! (s + i) \<noteq> 0" by simp
qed

lemma terminated_nul: "terminated m s \<Longrightarrow> s + length (cstr m s) < length m \<and> m ! (s + length (cstr m s)) = 0"
  by (simp add: terminated_first_at first_at_def)

end
