(* ===== verification/MuslString.thy ===== *)
theory MuslString
  imports Prelude
begin

text \<open>
  The string routines of \<^verbatim>\<open>shim/musl/string\<close>. Each loop of the C code is a recursive function
  over the linear memory; the loops that all routines share (walk bytes, walk bytes up to a
  word boundary, walk words) take their exit test as a parameter. Reads and writes past the end
  of memory trap (\<open>None\<close>). Results are stated over \<open>cstr m s\<close>, the bytes of the C string
  at \<open>s\<close>; a page-sized memory has a length divisible by 4, so that an aligned word read never
  crosses its end.
\<close>

section \<open>Loops\<close>

text \<open>\<^verbatim>\<open>for (; !P(*s); s++);\<close>\<close>

function scan_bytes :: "(u8 \<Rightarrow> bool) \<Rightarrow> mem \<Rightarrow> addr \<Rightarrow> addr option" where
  "scan_bytes P m s = do {
     b \<leftarrow> ld8 m s;
     if P b then Some s else scan_bytes P m (s + 1) }"
  by pat_completeness auto
termination
  by (relation "measure (\<lambda>(P, m, s). length m - s)") (auto simp: mem_simps)

text \<open>\<^verbatim>\<open>for (; (uintptr_t)s % ALIGN; s++) if (P(*s)) return ...\<close>, with the flag for the return.\<close>

function scan_head :: "(u8 \<Rightarrow> bool) \<Rightarrow> mem \<Rightarrow> addr \<Rightarrow> (addr \<times> bool) option" where
  "scan_head P m s =
     (if s mod 4 = 0 then Some (s, False)
      else do {
        b \<leftarrow> ld8 m s;
        if P b then Some (s, True) else scan_head P m (s + 1) })"
  by pat_completeness auto
termination
  by (relation "measure (\<lambda>(P, m, s). length m - s)") (auto simp: mem_simps)

text \<open>\<^verbatim>\<open>for (w = s; !t(*w); w++);\<close> over 32-bit words.\<close>

function scan_words :: "(u32 \<Rightarrow> bool) \<Rightarrow> mem \<Rightarrow> addr \<Rightarrow> addr option" where
  "scan_words t m w = do {
     x \<leftarrow> ld32 m w;
     if t x then Some w else scan_words t m (w + 4) }"
  by pat_completeness auto
termination
  by (relation "measure (\<lambda>(t, m, w). length m - w)") (auto simp: mem_simps)

declare scan_bytes.simps [simp del] scan_head.simps [simp del] scan_words.simps [simp del]

section \<open>Searching\<close>

definition strlen :: "mem \<Rightarrow> addr \<Rightarrow> nat option" where
  "strlen m s = do {
     (t, hit) \<leftarrow> scan_head (\<lambda>b. b = 0) m s;
     if hit then Some (t - s)
     else do {
       w \<leftarrow> scan_words haszero m t;
       e \<leftarrow> scan_bytes (\<lambda>b. b = 0) m w;
       Some (e - s) } }"

definition strchrnul :: "mem \<Rightarrow> addr \<Rightarrow> int \<Rightarrow> addr option" where
  "strchrnul m s c = (let c = (word_of_int c :: u8) in
     if c = 0 then do { n \<leftarrow> strlen m s; Some (s + n) }
     else do {
       (t, hit) \<leftarrow> scan_head (\<lambda>b. b = 0 \<or> b = c) m s;
       if hit then Some t
       else do {
         let k = ONES * ucast c;
         w \<leftarrow> scan_words (\<lambda>x. haszero x \<or> haszero (x XOR k)) m t;
         scan_bytes (\<lambda>b. b = 0 \<or> b = c) m w } })"

definition strchr :: "mem \<Rightarrow> addr \<Rightarrow> int \<Rightarrow> addr option option" where
  "strchr m s c = do {
     r \<leftarrow> strchrnul m s c;
     b \<leftarrow> ld8 m r;
     Some (if b = word_of_int c then Some r else None) }"

text \<open>The three loops of \<open>memchr\<close> count \<open>n\<close> down; they return the pointer and what is left of \<open>n\<close>.\<close>

fun memchr_head :: "mem \<Rightarrow> u8 \<Rightarrow> addr \<Rightarrow> nat \<Rightarrow> (addr \<times> nat) option" where
  "memchr_head m c s n =
     (if s mod 4 \<noteq> 0 \<and> n \<noteq> 0 then do {
        b \<leftarrow> ld8 m s;
        if b \<noteq> c then memchr_head m c (s + 1) (n - 1) else Some (s, n) }
      else Some (s, n))"

fun memchr_words :: "mem \<Rightarrow> u32 \<Rightarrow> addr \<Rightarrow> nat \<Rightarrow> (addr \<times> nat) option" where
  "memchr_words m k w n =
     (if 4 \<le> n then do {
        x \<leftarrow> ld32 m w;
        if \<not> haszero (x XOR k) then memchr_words m k (w + 4) (n - 4) else Some (w, n) }
      else Some (w, n))"

fun memchr_tail :: "mem \<Rightarrow> u8 \<Rightarrow> addr \<Rightarrow> nat \<Rightarrow> (addr \<times> nat) option" where
  "memchr_tail m c s n =
     (if n \<noteq> 0 then do {
        b \<leftarrow> ld8 m s;
        if b \<noteq> c then memchr_tail m c (s + 1) (n - 1) else Some (s, n) }
      else Some (s, n))"

declare memchr_head.simps [simp del] memchr_words.simps [simp del] memchr_tail.simps [simp del]

definition memchr :: "mem \<Rightarrow> addr \<Rightarrow> int \<Rightarrow> nat \<Rightarrow> addr option option" where
  "memchr m src c n = (let c = (word_of_int c :: u8) in do {
     (s, n) \<leftarrow> memchr_head m c src n;
     (s, n) \<leftarrow> (if n \<noteq> 0 then do {
         b \<leftarrow> ld8 m s;
         if b \<noteq> c then memchr_words m (ONES * ucast c) s n else Some (s, n) }
       else Some (s, n));
     (s, n) \<leftarrow> memchr_tail m c s n;
     Some (if n \<noteq> 0 then Some s else None) })"

fun memrchr_loop :: "mem \<Rightarrow> addr \<Rightarrow> u8 \<Rightarrow> nat \<Rightarrow> addr option option" where
  "memrchr_loop m s c 0 = Some None"
| "memrchr_loop m s c (Suc n) = do {
     b \<leftarrow> ld8 m (s + n);
     if b = c then Some (Some (s + n)) else memrchr_loop m s c n }"

definition memrchr :: "mem \<Rightarrow> addr \<Rightarrow> int \<Rightarrow> nat \<Rightarrow> addr option option" where
  "memrchr m s c n = memrchr_loop m s (word_of_int c) n"

definition strrchr :: "mem \<Rightarrow> addr \<Rightarrow> int \<Rightarrow> addr option option" where
  "strrchr m s c = do { n \<leftarrow> strlen m s; memrchr m s c (n + 1) }"

section \<open>Sets of bytes: strspn and strcspn\<close>

text \<open>The 256-bit set is an array of eight 32-bit words, as in the C code.\<close>

definition byteset_set :: "u32 list \<Rightarrow> u8 \<Rightarrow> u32 list" where
  "byteset_set bs b = bs[unat b div 32 := (bs ! (unat b div 32)) OR push_bit (unat b mod 32) 1]"

definition byteset_test :: "u32 list \<Rightarrow> u8 \<Rightarrow> bool" where
  "byteset_test bs b \<longleftrightarrow> ((bs ! (unat b div 32)) AND push_bit (unat b mod 32) 1) \<noteq> 0"

text \<open>\<^verbatim>\<open>for (; *c && BITOP(byteset, *c, |=); c++);\<close> where the value of \<open>|=\<close> is the updated word.\<close>

function byteset_fill :: "mem \<Rightarrow> addr \<Rightarrow> u32 list \<Rightarrow> u32 list option" where
  "byteset_fill m c bs = do {
     b \<leftarrow> ld8 m c;
     if b \<noteq> 0
     then (let bs' = byteset_set bs b in
           if bs' ! (unat b div 32) \<noteq> 0 then byteset_fill m (c + 1) bs' else Some bs')
     else Some bs }"
  by pat_completeness auto
termination
  by (relation "measure (\<lambda>(m, c, bs). length m - c)") (auto simp: mem_simps)

declare byteset_fill.simps [simp del]

definition strcspn :: "mem \<Rightarrow> addr \<Rightarrow> addr \<Rightarrow> nat option" where
  "strcspn m s c = do {
     c0 \<leftarrow> ld8 m c;
     single \<leftarrow> (if c0 = 0 then Some True else do { c1 \<leftarrow> ld8 m (c + 1); Some (c1 = 0) });
     if single then do { r \<leftarrow> strchrnul m s (sint c0); Some (r - s) }
     else do {
       bs \<leftarrow> byteset_fill m c (replicate 8 0);
       e \<leftarrow> scan_bytes (\<lambda>b. b = 0 \<or> byteset_test bs b) m s;
       Some (e - s) } }"

definition strspn :: "mem \<Rightarrow> addr \<Rightarrow> addr \<Rightarrow> nat option" where
  "strspn m s c = do {
     c0 \<leftarrow> ld8 m c;
     if c0 = 0 then Some 0
     else do {
       c1 \<leftarrow> ld8 m (c + 1);
       if c1 = 0 then do { e \<leftarrow> scan_bytes (\<lambda>b. b \<noteq> c0) m s; Some (e - s) }
       else do {
         bs \<leftarrow> byteset_fill m c (replicate 8 0);
         e \<leftarrow> scan_bytes (\<lambda>b. b = 0 \<or> \<not> byteset_test bs b) m s;
         Some (e - s) } } }"

section \<open>Comparison\<close>

function strcmp :: "mem \<Rightarrow> addr \<Rightarrow> addr \<Rightarrow> int option" where
  "strcmp m l r = do {
     a \<leftarrow> ld8 m l;
     b \<leftarrow> ld8 m r;
     if a = b \<and> a \<noteq> 0 then strcmp m (l + 1) (r + 1) else Some (uint a - uint b) }"
  by pat_completeness auto
termination
  by (relation "measure (\<lambda>(m, l, r). length m - l)") (auto simp: mem_simps)

text \<open>The loop of \<open>strncmp\<close>, entered with \<open>n\<close> already decremented.\<close>

function strncmp_loop :: "mem \<Rightarrow> addr \<Rightarrow> addr \<Rightarrow> nat \<Rightarrow> int option" where
  "strncmp_loop m l r n = do {
     a \<leftarrow> ld8 m l;
     b \<leftarrow> ld8 m r;
     if a \<noteq> 0 \<and> b \<noteq> 0 \<and> n \<noteq> 0 \<and> a = b then strncmp_loop m (l + 1) (r + 1) (n - 1)
     else Some (uint a - uint b) }"
  by pat_completeness auto
termination
  by (relation "measure (\<lambda>(m, l, r, n). length m - l)") (auto simp: mem_simps)

declare strcmp.simps [simp del] strncmp_loop.simps [simp del]

definition strncmp :: "mem \<Rightarrow> addr \<Rightarrow> addr \<Rightarrow> nat \<Rightarrow> int option" where
  "strncmp m l r n = (if n = 0 then Some 0 else strncmp_loop m l r (n - 1))"

section \<open>What the loops compute\<close>

lemma scan_bytes_first: "first_at P m s e \<Longrightarrow> scan_bytes P m s = Some e"
proof (induction P m s rule: scan_bytes.induct)
  case (1 P m s)
  have s: "s < length m" using 1(2) by (rule first_at_in)
  show ?case
  proof (cases "P (m ! s)")
    case True
    then have "e = s" using first_at_unique [OF 1(2)] first_at_here [OF s] by blast
    then show ?thesis using True s by (simp add: scan_bytes.simps [of P m s])
  next
    case False
    then have "scan_bytes P m (s + 1) = Some e"
      using 1 s first_at_step [OF 1(2)] by (simp add: mem_simps)
    then show ?thesis using False s by (simp add: scan_bytes.simps [of P m s])
  qed
qed

lemma scan_bytes_none: "\<forall>b\<in>set (drop s m). \<not> P b \<Longrightarrow> scan_bytes P m s = None"
proof (induction P m s rule: scan_bytes.induct)
  case (1 P m s)
  show ?case
  proof (cases "s < length m")
    case True
    then have "drop s m = m ! s # drop (s + 1) m" by (simp add: Cons_nth_drop_Suc)
    then show ?thesis using 1 True by (simp add: scan_bytes.simps [of P m s])
  next
    case False
    then show ?thesis by (simp add: scan_bytes.simps [of P m s] ld8_def)
  qed
qed

lemma scan_head_cases:
  assumes "scan_head P m s = Some (t, hit)"
  shows "s \<le> t" "\<forall>i. s \<le> i \<and> i < t \<longrightarrow> \<not> P (m ! i)"
    "if hit then t < length m \<and> P (m ! t) else t mod 4 = 0"
  using assms
proof (induction P m s rule: scan_head.induct)
  case (1 P m s)
  case 1 then show ?case using "1.IH"(1) by (auto simp: scan_head.simps [of P m s] mem_simps split: if_splits bind_splits)
next
  case (1 P m s)
  case 2 then show ?case using "1.IH"(2)
    by (auto simp: scan_head.simps [of P m s] mem_simps split: if_splits bind_splits)
      (metis Suc_leI le_neq_implies_less)
next
  case (1 P m s)
  case 3 then show ?case using "1.IH"(3) by (auto simp: scan_head.simps [of P m s] mem_simps split: if_splits bind_splits)
qed

lemma scan_head_total:
  assumes "4 dvd length m" "s \<le> length m"
  shows "\<exists>t hit. scan_head P m s = Some (t, hit) \<and> t \<le> length m"
  using assms
proof (induction P m s rule: scan_head.induct)
  case (1 P m s)
  show ?case
  proof (cases "s mod 4 = 0")
    case True then show ?thesis using 1(3) by (auto simp: scan_head.simps [of P m s])
  next
    case False
    moreover have "length m mod 4 = 0" using 1(2) by (rule dvd_imp_mod_0)
    ultimately have "s \<noteq> length m" by auto
    then have "s < length m" using 1(3) by simp
    then show ?thesis using 1(1) [of "m ! s"] 1(2) False
      by (cases "P (m ! s)") (auto simp: scan_head.simps [of P m s])
  qed
qed

lemma scan_words_ge: "scan_words t m w = Some w' \<Longrightarrow> w \<le> w'"
proof (induction t m w rule: scan_words.induct)
  case (1 t m w)
  then show ?case
    by (auto simp: scan_words.simps [of t m w] mem_simps split: if_splits bind_splits)
qed

text \<open>
  The interface of the word tests: a test that fires on every word with a byte in \<open>P\<close>. The
  head, word and byte loops together then find the first such byte.
\<close>

locale word_test =
  fixes P :: "u8 \<Rightarrow> bool" and t :: "u32 \<Rightarrow> bool"
  assumes complete: "P b0 \<or> P b1 \<or> P b2 \<or> P b3 \<Longrightarrow> t (word_of_bytes b0 b1 b2 b3)"
begin

lemma words_first:
  assumes "first_at P m s e" "s mod 4 = 0" "4 dvd length m"
  shows "\<exists>w. scan_words t m s = Some w \<and> s \<le> w \<and> w \<le> e"
  using assms(1,2)
proof (induction "length m - s" arbitrary: s rule: less_induct)
  case less
  have "s < length m" using less(2) by (rule first_at_in)
  then have s: "s + 3 < length m" using less(3) assms(3) by presburger
  let ?x = "word_of_bytes (m ! s) (m ! (s + 1)) (m ! (s + 2)) (m ! (s + 3))"
  show ?case
  proof (cases "t ?x")
    case True
    then show ?thesis using s less(2) by (simp add: scan_words.simps [of t m s] first_at_def)
  next
    case False
    then have n: "\<not> P (m ! s)" "\<not> P (m ! (s + 1))" "\<not> P (m ! (s + 2))" "\<not> P (m ! (s + 3))"
      using complete by blast+
    have "s + 4 \<le> e"
    proof (rule ccontr)
      assume "\<not> s + 4 \<le> e"
      moreover have "s \<le> e" using less(2) by (simp add: first_at_def)
      ultimately have "e = s \<or> e = s + 1 \<or> e = s + 2 \<or> e = s + 3" by arith
      then show False using n less(2) by (auto simp: first_at_def)
    qed
    then have "first_at P m (s + 4) e" using less(2) first_at_later by auto
    then have "\<exists>w. scan_words t m (s + 4) = Some w \<and> s + 4 \<le> w \<and> w \<le> e"
      using less(1,3) s by simp
    then show ?thesis using False s by (auto simp: scan_words.simps [of t m s])
  qed
qed

lemma scan_first:
  assumes "first_at P m s e" "4 dvd length m"
  shows "\<exists>a hit. scan_head P m s = Some (a, hit) \<and> (if hit then a = e
    else \<exists>w. scan_words t m a = Some w \<and> scan_bytes P m w = Some e)"
proof -
  have "s \<le> length m" using first_at_in [OF assms(1)] by simp
  then obtain a hit where h: "scan_head P m s = Some (a, hit)" "a \<le> length m"
    using scan_head_total [OF assms(2)] by blast
  note c = scan_head_cases [OF h(1)]
  have ae: "a \<le> e" using c(2) assms(1) by (metis first_at_def not_le)
  show ?thesis
  proof (cases hit)
    case True
    then have "first_at P m s a" using c by (simp add: first_at_def)
    then show ?thesis using h True first_at_unique [OF assms(1)] by auto
  next
    case False
    have f: "first_at P m a e" using first_at_later [OF assms(1) c(1) ae] .
    obtain w where w: "scan_words t m a = Some w" "a \<le> w" "w \<le> e"
      using words_first [OF f] c(3) False assms(2) by auto
    have "scan_bytes P m w = Some e"
      using scan_bytes_first [OF first_at_later [OF f w(2,3)]] .
    then show ?thesis using h w False by auto
  qed
qed

end

section \<open>Searching: correctness\<close>

lemma not_first_drop:
  assumes "\<forall>b\<in>set (drop s m). \<not> P b" "s \<le> t"
  shows "\<forall>b\<in>set (drop t m). \<not> P b"
  using assms set_drop_subset_set_drop [of s t m] by blast

lemma set_drop_nth:
  assumes "s \<le> t" "t < length m"
  shows "m ! t \<in> set (drop s m)"
proof -
  have "drop s m ! (t - s) = m ! t" "t - s < length (drop s m)" using assms by simp_all
  then show ?thesis using nth_mem by metis
qed

interpretation zero_scan: word_test "\<lambda>b. b = 0" haszero
  by unfold_locales (simp add: haszero_word_of_bytes)

interpretation char_scan: word_test "\<lambda>b. b = 0 \<or> b = c" "\<lambda>x. haszero x \<or> haszero (x XOR ONES * ucast c)"
  for c
  by unfold_locales (auto simp: haszero_word_of_bytes haszero_xor)

lemma strlen_terminated:
  assumes "terminated m s" "4 dvd length m"
  shows "strlen m s = Some (length (cstr m s))"
proof -
  have "first_at (\<lambda>b. b = 0) m s (s + length (cstr m s))"
    using assms(1) by (simp add: terminated_first_at)
  then obtain a hit where h: "scan_head (\<lambda>b. b = 0) m s = Some (a, hit)"
    "if hit then a = s + length (cstr m s)
     else \<exists>w. scan_words haszero m a = Some w \<and> scan_bytes (\<lambda>b. b = 0) m w = Some (s + length (cstr m s))"
    using zero_scan.scan_first [OF _ assms(2)] by blast
  then show ?thesis by (cases hit) (auto simp: strlen_def)
qed

lemma strlen_unterminated: "\<not> terminated m s \<Longrightarrow> strlen m s = None"
proof -
  assume n: "\<not> terminated m s"
  then have no: "\<forall>b\<in>set (drop s m). \<not> b = 0" by (auto simp: terminated_def)
  show ?thesis
  proof (cases "scan_head (\<lambda>b. b = 0) m s")
    case None
    then show ?thesis by (simp add: strlen_def)
  next
    case (Some r)
    obtain a hit where r: "r = (a, hit)" by (cases r)
    note c = scan_head_cases [OF Some [unfolded r]]
    have "\<not> hit" using c set_drop_nth [of s a m] no by auto
    moreover have "scan_bytes (\<lambda>b. b = 0) m w = None" if "scan_words haszero m a = Some w" for w
      using scan_bytes_none [OF not_first_drop [OF no]] scan_words_ge [OF that] c(1) by simp
    ultimately show ?thesis using Some r by (cases "scan_words haszero m a") (auto simp: strlen_def)
  qed
qed

lemma takeWhile_cstr: "takeWhile (\<lambda>b. b \<noteq> 0 \<and> b \<noteq> c) (drop s m) = takeWhile (\<lambda>b. b \<noteq> c) (cstr m s)"
  by (simp add: cstr_def takeWhile_takeWhile conj_commute)

lemma takeWhile_cstr_nonzero [simp]: "takeWhile (\<lambda>b. b \<noteq> 0) (cstr m s) = cstr m s"
  by (simp add: cstr_def takeWhile_takeWhile)

lemma takeWhile_const [simp]: "takeWhile (\<lambda>b. True) xs = xs" "takeWhile (\<lambda>b. False) xs = []"
  by (induction xs) auto

lemma length_takeWhile_less: "x \<in> set xs \<Longrightarrow> \<not> P x \<Longrightarrow> length (takeWhile P xs) < length xs"
  by (induction xs) auto

lemma strchrnul_terminated:
  assumes t: "terminated m s" and "4 dvd length m"
  shows "strchrnul m s c = Some (s + length (takeWhile (\<lambda>b. b \<noteq> word_of_int c) (cstr m s)))"
proof (cases "word_of_int c = (0 :: u8)")
  case True
  then show ?thesis using strlen_terminated [OF assms] by (simp add: strchrnul_def)
next
  case False
  define d :: u8 where "d = word_of_int c"
  let ?e = "s + length (takeWhile (\<lambda>b. b \<noteq> d) (cstr m s))"
  have "first_at (\<lambda>b. b = 0 \<or> b = d) m s ?e"
    using t by (auto simp: first_at_iff terminated_def takeWhile_cstr)
  then obtain a hit where h: "scan_head (\<lambda>b. b = 0 \<or> b = d) m s = Some (a, hit)"
    "if hit then a = ?e
     else \<exists>w. scan_words (\<lambda>x. haszero x \<or> haszero (x XOR ONES * ucast d)) m a = Some w
       \<and> scan_bytes (\<lambda>b. b = 0 \<or> b = d) m w = Some ?e"
    using char_scan.scan_first [OF _ assms(2)] by blast
  then show ?thesis using False
    by (cases hit) (auto simp: strchrnul_def Let_def simp flip: d_def)
qed

text \<open>The position of the first (last) \<open>c\<close> in a list, the terminating zero included.\<close>

definition find_first :: "u8 \<Rightarrow> u8 list \<Rightarrow> nat option" where
  "find_first c bs = (if c \<in> set bs then Some (length (takeWhile (\<lambda>b. b \<noteq> c) bs)) else None)"

definition find_last :: "u8 \<Rightarrow> u8 list \<Rightarrow> nat option" where
  "find_last c bs = (if c \<in> set bs
     then Some (length bs - 1 - length (takeWhile (\<lambda>b. b \<noteq> c) (rev bs))) else None)"

lemma strchr_terminated:
  assumes t: "terminated m s" and m: "4 dvd length m"
  shows "strchr m s c = Some (map_option ((+) s) (find_first (word_of_int c) (cstr m s @ [0])))"
proof -
  define d :: u8 where "d = word_of_int c"
  let ?n = "length (takeWhile (\<lambda>b. b \<noteq> d) (cstr m s))"
  note r = strchrnul_terminated [OF assms, of c, folded d_def]
  show ?thesis
  proof (cases "d \<in> set (cstr m s)")
    case True
    then have "?n < length (cstr m s)"
      by (rule length_takeWhile_less) simp
    then have "s + ?n < length m" "m ! (s + ?n) = d"
      using nth_cstr [of ?n m s] nth_length_takeWhile [of "\<lambda>b. b \<noteq> d" "cstr m s"] by auto
    then show ?thesis using True r
      by (simp add: strchr_def find_first_def takeWhile_append1 [OF True] flip: d_def)
  next
    case False
    then have "\<forall>x\<in>set (cstr m s). x \<noteq> d" by blast
    then have "takeWhile (\<lambda>b. b \<noteq> d) (cstr m s) = cstr m s" unfolding takeWhile_eq_all_conv .
    then have n: "?n = length (cstr m s)" by (rule arg_cong)
    have "takeWhile (\<lambda>b. b \<noteq> d) (cstr m s @ [0]) = cstr m s @ takeWhile (\<lambda>b. b \<noteq> d) [0]"
      by (rule takeWhile_append2) (use False in blast)
    then show ?thesis using False r n terminated_nul [OF t]
      by (auto simp: strchr_def find_first_def simp flip: d_def)
  qed
qed

lemma memchr_tail_spec:
  assumes "s + n \<le> length m"
  shows "\<exists>t k. memchr_tail m c s n = Some (t, k) \<and>
    (if k = 0 then c \<notin> set (take n (drop s m))
     else t = s + length (takeWhile (\<lambda>b. b \<noteq> c) (take n (drop s m))) \<and> c \<in> set (take n (drop s m)))"
  using assms
proof (induction n arbitrary: s)
  case 0
  then show ?case by (simp add: memchr_tail.simps [of m c s])
next
  case (Suc n)
  then have "drop s m = m ! s # drop (s + 1) m" by (simp add: Cons_nth_drop_Suc)
  moreover obtain t k where "memchr_tail m c (s + 1) n = Some (t, k)"
    "if k = 0 then c \<notin> set (take n (drop (s + 1) m))
     else t = s + 1 + length (takeWhile (\<lambda>b. b \<noteq> c) (take n (drop (s + 1) m)))
       \<and> c \<in> set (take n (drop (s + 1) m))"
    using Suc.prems Suc.IH [of "s + 1"] by auto
  ultimately show ?case using Suc.prems
    by (cases "m ! s = c") (auto simp: memchr_tail.simps [of m c s])
qed

text \<open>Each earlier phase of \<open>memchr\<close> skips a prefix of the range that does not hold \<open>c\<close>.\<close>

definition skipped :: "mem \<Rightarrow> u8 \<Rightarrow> addr \<Rightarrow> nat \<Rightarrow> addr \<Rightarrow> nat \<Rightarrow> bool" where
  "skipped m c s n t k \<longleftrightarrow> (\<exists>j\<le>n. t = s + j \<and> k = n - j \<and> c \<notin> set (take j (drop s m)))"

lemma skipped_refl: "skipped m c s n s n"
  by (auto simp: skipped_def)

lemma skipped_step:
  assumes "skipped m c (s + j) (n - j) t k" "j \<le> n" "c \<notin> set (take j (drop s m))"
  shows "skipped m c s n t k"
proof -
  obtain i where i: "i \<le> n - j" "t = s + j + i" "k = n - j - i" "c \<notin> set (take i (drop (s + j) m))"
    using assms(1) by (auto simp: skipped_def)
  have "take (j + i) (drop s m) = take j (drop s m) @ take i (drop (s + j) m)"
    by (simp add: take_add add.commute [of j s])
  then show ?thesis using i assms(2,3) unfolding skipped_def by (intro exI [of _ "j + i"]) auto
qed

lemma memchr_head_spec:
  "s + n \<le> length m \<Longrightarrow> \<exists>t k. memchr_head m c s n = Some (t, k) \<and> skipped m c s n t k \<and>
    (k = 0 \<or> t mod 4 = 0 \<or> m ! t = c)"
proof (induction m c s n rule: memchr_head.induct)
  case (1 m c s n)
  show ?case
  proof (cases "s mod 4 \<noteq> 0 \<and> n \<noteq> 0 \<and> m ! s \<noteq> c")
    case True
    with "1.prems" have s: "s < length m" by simp
    then have "take 1 (drop s m) = [m ! s]" by (simp add: take_Suc_conv_app_nth)
    then have "c \<notin> set (take 1 (drop s m))" using True by auto
    moreover have "1 \<le> n" using True by simp
    ultimately show ?thesis
      using "1.IH" [of "m ! s"] "1.prems" True s skipped_step [of m c s 1 n]
      by (auto simp: memchr_head.simps [of m c s n])
  next
    case False
    then show ?thesis using "1.prems" skipped_refl [of m c s n]
      by (auto simp: memchr_head.simps [of m c s n])
  qed
qed

lemma memchr_words_spec:
  "s + n \<le> length m \<Longrightarrow> \<exists>t k. memchr_words m (ONES * ucast c) s n = Some (t, k) \<and> skipped m c s n t k"
proof (induction n arbitrary: s rule: less_induct)
  case (less n)
  let ?k = "ONES * ucast c :: u32"
  show ?case
  proof (cases "4 \<le> n")
    case False
    then show ?thesis using skipped_refl [of m c s n] by (simp add: memchr_words.simps [of m ?k s n])
  next
    case True
    then have s: "s + 3 < length m" using less.prems by simp
    let ?x = "word_of_bytes (m ! s) (m ! (s + 1)) (m ! (s + 2)) (m ! (s + 3))"
    show ?thesis
    proof (cases "haszero (?x XOR ?k)")
      case hit: True
      then show ?thesis using True s skipped_refl [of m c s n]
        by (simp add: memchr_words.simps [of m ?k s n])
    next
      case False
      have "take 4 (drop s m) = [m ! s, m ! (s + 1), m ! (s + 2), m ! (s + 3)]"
        using s by (intro nth_equalityI) (auto simp: less_Suc_eq numeral_eq_Suc)
      then have "c \<notin> set (take 4 (drop s m))" using False by (auto simp: haszero_xor)
      then show ?thesis
        using less.IH [of "n - 4" "s + 4"] less.prems True False s skipped_step [of m c s 4 n]
        by (auto simp: memchr_words.simps [of m ?k s n])
    qed
  qed
qed

lemma memchr_correct_aux:
  assumes n: "src + n \<le> length m"
  shows "memchr m src c n = Some (map_option ((+) src) (find_first (word_of_int c) (take n (drop src m))))"
proof -
  define d :: u8 where "d = word_of_int c"
  obtain t k where h: "memchr_head m d src n = Some (t, k)" "skipped m d src n t k"
    using memchr_head_spec [OF n] by blast
  have tk: "t + k \<le> length m" using h(2) n by (auto simp: skipped_def)
  obtain t' k' where w: "(if k \<noteq> 0 then do { b \<leftarrow> ld8 m t;
      if b \<noteq> d then memchr_words m (ONES * ucast d) t k else Some (t, k) } else Some (t, k)) = Some (t', k')"
    "skipped m d t k t' k'"
    using memchr_words_spec [OF tk, of d] skipped_refl [of m d t k] tk
    by (cases "k = 0"; cases "m ! t = d") auto
  obtain j where j: "j \<le> n" "t' = src + j" "k' = n - j" "d \<notin> set (take j (drop src m))"
    using h(2) w(2) skipped_step [of m d src _ n t' k'] by (metis skipped_def)
  have split: "take n (drop src m) = take j (drop src m) @ take k' (drop t' m)"
    using j(1-3) by (metis drop_drop le_add_diff_inverse take_add add.commute)
  have jl: "length (take j (drop src m)) = j" using j(1) n by simp
  obtain t3 k3 where e: "memchr_tail m d t' k' = Some (t3, k3)"
    "if k3 = 0 then d \<notin> set (take k' (drop t' m))
     else t3 = t' + length (takeWhile (\<lambda>b. b \<noteq> d) (take k' (drop t' m))) \<and> d \<in> set (take k' (drop t' m))"
    using memchr_tail_spec [of t' k' m d] j n by auto
  have tw: "takeWhile (\<lambda>b. b \<noteq> d) (take n (drop src m)) =
      take j (drop src m) @ takeWhile (\<lambda>b. b \<noteq> d) (take k' (drop t' m))"
    unfolding split by (rule takeWhile_append2) (use j(4) in blast)
  have "memchr m src c n = Some (if k3 \<noteq> 0 then Some t3 else None)"
    using h(1) w(1) e(1) by (simp add: memchr_def Let_def flip: d_def)
  moreover have "d \<in> set (take n (drop src m)) \<longleftrightarrow> d \<in> set (take k' (drop t' m))"
    unfolding split using j(4) by simp
  ultimately show ?thesis using e(2) tw jl j(2)
    by (cases "k3 = 0") (auto simp: find_first_def simp flip: d_def)
qed

section \<open>Searching from the end\<close>

lemma find_last_snoc: "find_last c (xs @ [b]) = (if b = c then Some (length xs) else find_last c xs)"
  by (auto simp: find_last_def)

lemma memrchr_loop_spec:
  "s + n \<le> length m \<Longrightarrow> memrchr_loop m s c n = Some (map_option ((+) s) (find_last c (take n (drop s m))))"
proof (induction n)
  case 0
  then show ?case by (simp add: find_last_def)
next
  case (Suc n)
  then have "take (Suc n) (drop s m) = take n (drop s m) @ [m ! (s + n)]"
    by (simp add: take_Suc_conv_app_nth)
  moreover have "length (take n (drop s m)) = n" using Suc.prems by simp
  ultimately show ?case using Suc by (simp add: find_last_snoc del: length_take)
qed

lemma terminated_unfold: "terminated m s \<longleftrightarrow> s < length m \<and> (m ! s = 0 \<or> terminated m (s + 1))"
proof (cases "s < length m")
  case True
  then have "drop s m = m ! s # drop (s + 1) m" by (simp add: Cons_nth_drop_Suc)
  then show ?thesis using True by (auto simp: terminated_def)
qed (simp add: terminated_def)

lemma cstr_unfold: "s < length m \<Longrightarrow> cstr m s = (if m ! s = 0 then [] else m ! s # cstr m (s + 1))"
proof -
  assume "s < length m"
  then have "drop s m = m ! s # drop (s + 1) m" by (simp add: Cons_nth_drop_Suc)
  then show ?thesis by (simp add: cstr_def)
qed

lemma take_cstr:
  assumes "terminated m s"
  shows "take (length (cstr m s) + 1) (drop s m) = cstr m s @ [0]"
proof -
  have "take (length (cstr m s)) (drop s m) = cstr m s"
    by (simp add: cstr_def takeWhile_eq_take [symmetric])
  moreover have "drop s m ! length (cstr m s) = 0" "length (cstr m s) < length (drop s m)"
    using terminated_nul [OF assms] by auto
  ultimately show ?thesis by (simp add: take_Suc_conv_app_nth)
qed

lemma strrchr_terminated:
  assumes "terminated m s" "4 dvd length m"
  shows "strrchr m s c = Some (map_option ((+) s) (find_last (word_of_int c) (cstr m s @ [0])))"
proof -
  have "s + (length (cstr m s) + 1) \<le> length m" using terminated_nul [OF assms(1)] by simp
  note r = memrchr_loop_spec [OF this, of "word_of_int c", unfolded take_cstr [OF assms(1)]]
  then show ?thesis using strlen_terminated [OF assms] by (simp add: strrchr_def memrchr_def)
qed

section \<open>Byte sets\<close>

lemma and_push_bit_1: "(x :: u32) AND push_bit i 1 \<noteq> 0 \<longleftrightarrow> bit x i"
proof
  assume "x AND push_bit i 1 \<noteq> 0"
  then obtain n where "bit (x AND push_bit i 1) n" by (auto simp: bit_eq_iff)
  then show "bit x i" by (auto simp: bit_and_iff bit_exp_iff)
next
  assume b: "bit x i"
  then have "i < 32" using bit_imp_le_length by force
  with b have "bit (x AND push_bit i 1) i"
    by (simp add: bit_and_iff bit_exp_iff possible_bit_word)
  then show "x AND push_bit i 1 \<noteq> 0" by auto
qed

lemma byteset_test_bit: "byteset_test bs b \<longleftrightarrow> bit (bs ! (unat b div 32)) (unat b mod 32)"
  unfolding byteset_test_def by (rule and_push_bit_1)

lemma unat_u8_div: "unat (b :: u8) div 32 < 8"
  using unsigned_less [of b, where ?'a = nat] by simp

lemma byteset_test_set:
  assumes "length bs = 8"
  shows "byteset_test (byteset_set bs b) b' \<longleftrightarrow> b' = b \<or> byteset_test bs b'"
proof -
  have eq: "b' = b \<longleftrightarrow> unat b' div 32 = unat b div 32 \<and> unat b' mod 32 = unat b mod 32"
    by (metis div_mult_mod_eq word_unat_eq_iff)
  have "unat b mod 32 < LENGTH(32)" by simp
  then show ?thesis
    using unat_u8_div [of b] assms unfolding byteset_test_bit eq
    by (auto simp: byteset_set_def nth_list_update bit_or_iff bit_exp_iff possible_bit_word)
qed

lemma byteset_set_nonzero: "length bs = 8 \<Longrightarrow> byteset_set bs b ! (unat b div 32) \<noteq> 0"
  using byteset_test_set [of bs b b] by (auto simp: byteset_test_bit)

lemma byteset_fill_spec:
  "length bs = 8 \<Longrightarrow> terminated m c \<Longrightarrow>
    \<exists>bs'. byteset_fill m c bs = Some bs' \<and> (\<forall>b. byteset_test bs' b \<longleftrightarrow> byteset_test bs b \<or> b \<in> set (cstr m c))"
proof (induction m c bs rule: byteset_fill.induct)
  case (1 m c bs)
  have c: "c < length m" using "1.prems"(2) terminated_unfold by blast
  show ?case
  proof (cases "m ! c = 0")
    case True
    then show ?thesis using c by (simp add: byteset_fill.simps [of m c bs] cstr_unfold [OF c])
  next
    case False
    let ?bs = "byteset_set bs (m ! c)"
    have "terminated m (c + 1)" using False "1.prems"(2) terminated_unfold by blast
    moreover have "length ?bs = 8" using "1.prems"(1) by (simp add: byteset_set_def)
    ultimately obtain bs' where bs': "byteset_fill m (c + 1) ?bs = Some bs'"
      "\<forall>b. byteset_test bs' b \<longleftrightarrow> byteset_test ?bs b \<or> b \<in> set (cstr m (c + 1))"
      using "1.IH" [of "m ! c" ?bs] c False byteset_set_nonzero [OF "1.prems"(1)] by auto
    then show ?thesis
      using c False byteset_set_nonzero [OF "1.prems"(1), of "m ! c"] byteset_test_set [OF "1.prems"(1)]
      by (auto simp: byteset_fill.simps [of m c bs] cstr_unfold [OF c])
  qed
qed

lemma byteset_empty: "\<not> byteset_test (replicate 8 0) b"
  using unat_u8_div [of b] by (simp add: byteset_test_bit)

lemma byteset_of_cstr:
  assumes "terminated m c"
  shows "\<exists>bs. byteset_fill m c (replicate 8 0) = Some bs \<and> byteset_test bs = (\<lambda>b. b \<in> set (cstr m c))"
  using byteset_fill_spec [OF _ assms, of "replicate 8 0"] byteset_empty by (auto simp: fun_eq_iff)

text \<open>A scan that also stops at the terminating zero measures a prefix of the string.\<close>

lemma scan_bytes_cstr:
  assumes "terminated m s"
  shows "scan_bytes (\<lambda>b. b = 0 \<or> Q b) m s = Some (s + length (takeWhile (\<lambda>b. \<not> Q b) (cstr m s)))"
proof (rule scan_bytes_first)
  show "first_at (\<lambda>b. b = 0 \<or> Q b) m s (s + length (takeWhile (\<lambda>b. \<not> Q b) (cstr m s)))"
    using assms by (auto simp: first_at_iff terminated_def cstr_def takeWhile_takeWhile)
qed

lemma strcspn_terminated:
  assumes s: "terminated m s" and c: "terminated m c" and m: "4 dvd length m"
  shows "strcspn m s c = Some (length (takeWhile (\<lambda>b. b \<notin> set (cstr m c)) (cstr m s)))"
proof -
  have cl: "c < length m" using c terminated_unfold by blast
  note r = strchrnul_terminated [OF s m, of "sint (m ! c)"]
  show ?thesis
  proof (cases "m ! c = 0 \<or> m ! (c + 1) = 0 \<and> c + 1 < length m")
    case True
    then have "cstr m c = (if m ! c = 0 then [] else [m ! c])"
      using cl cstr_unfold [of c m] cstr_unfold [of "c + 1" m] by auto
    moreover have "c + 1 < length m" if "m ! c \<noteq> 0"
      using that c terminated_unfold [of m c] terminated_unfold [of m "c + 1"] by simp
    ultimately show ?thesis using True cl r
      by (auto simp: strcspn_def)
  next
    case False
    moreover have "c + 1 < length m"
      using False c terminated_unfold [of m c] terminated_unfold [of m "c + 1"] by simp
    ultimately show ?thesis
      using byteset_of_cstr [OF c] cl scan_bytes_cstr [OF s, of "\<lambda>b. b \<in> set (cstr m c)"]
      by (auto simp: strcspn_def)
  qed
qed

lemma strspn_terminated:
  assumes s: "terminated m s" and c: "terminated m c"
  shows "strspn m s c = Some (length (takeWhile (\<lambda>b. b \<in> set (cstr m c)) (cstr m s)))"
proof -
  have cl: "c < length m" using c terminated_unfold by blast
  show ?thesis
  proof (cases "m ! c = 0")
    case True
    then show ?thesis using cl by (simp add: strspn_def cstr_unfold [OF cl])
  next
    case c0: False
    then have c1: "c + 1 < length m"
      using c terminated_unfold [of m c] terminated_unfold [of m "c + 1"] by simp
    show ?thesis
    proof (cases "m ! (c + 1) = 0")
      case True
      then have "cstr m c = [m ! c]"
        using c0 cl c1 cstr_unfold [of c m] cstr_unfold [of "c + 1" m] by simp
      moreover have "(\<lambda>b. b \<noteq> m ! c) = (\<lambda>b. b = 0 \<or> b \<noteq> m ! c)" using c0 by auto
      ultimately show ?thesis
        using scan_bytes_cstr [OF s, of "\<lambda>b. b \<noteq> m ! c"] True c0 cl c1 by (simp add: strspn_def)
    next
      case False
      then show ?thesis
        using byteset_of_cstr [OF c] cl c0 c1 scan_bytes_cstr [OF s, of "\<lambda>b. b \<notin> set (cstr m c)"]
        by (auto simp: strspn_def)
    qed
  qed
qed

section \<open>Comparison: correctness\<close>

lemma uint_diff_sign:
  "(uint (a :: u8) - uint b = 0) = (a = b)" "(uint (a :: u8) - uint b < 0) = (a < b)"
  by (auto simp: byte_eq_iff_uint word_less_def)

lemma strcmp_terminated:
  "terminated m l \<Longrightarrow> terminated m r \<Longrightarrow> \<exists>d. strcmp m l r = Some d \<and>
    (d = 0 \<longleftrightarrow> cstr m l = cstr m r) \<and> (d < 0 \<longleftrightarrow> ord_class.lexordp (cstr m l) (cstr m r))"
proof (induction m l r rule: strcmp.induct)
  case (1 m l r)
  have lr: "l < length m" "r < length m" using "1.prems" terminated_unfold by blast+
  note u = strcmp.simps [of m l r] cstr_unfold [OF lr(1)] cstr_unfold [OF lr(2)]
  show ?case
  proof (cases "m ! l = m ! r \<and> m ! l \<noteq> 0")
    case True
    then have "terminated m (l + 1)" "terminated m (r + 1)"
      using "1.prems" terminated_unfold [of m l] terminated_unfold [of m r] by auto
    then obtain d where d: "strcmp m (l + 1) (r + 1) = Some d"
      "d = 0 \<longleftrightarrow> cstr m (l + 1) = cstr m (r + 1)" "d < 0 \<longleftrightarrow> ord_class.lexordp (cstr m (l + 1)) (cstr m (r + 1))"
      using "1.IH" lr True by auto
    then show ?thesis using True lr by (simp add: u)
  next
    case False
    define d where "d = uint (m ! l) - uint (m ! r)"
    note sign = uint_diff_sign [of "m ! l" "m ! r", folded d_def]
    show ?thesis unfolding u using False lr
      by (auto simp: sign word_neq_0_conv simp flip: d_def)
  qed
qed

lemma strncmp_loop_terminated:
  "terminated m l \<Longrightarrow> terminated m r \<Longrightarrow> \<exists>d. strncmp_loop m l r n = Some d \<and>
    (d = 0 \<longleftrightarrow> take (n + 1) (cstr m l) = take (n + 1) (cstr m r)) \<and>
    (d < 0 \<longleftrightarrow> ord_class.lexordp (take (n + 1) (cstr m l)) (take (n + 1) (cstr m r)))"
proof (induction m l r n rule: strncmp_loop.induct)
  case (1 m l r n)
  have lr: "l < length m" "r < length m" using "1.prems" terminated_unfold by blast+
  note u = strncmp_loop.simps [of m l r n] cstr_unfold [OF lr(1)] cstr_unfold [OF lr(2)]
  show ?case
  proof (cases "m ! l \<noteq> 0 \<and> m ! r \<noteq> 0 \<and> n \<noteq> 0 \<and> m ! l = m ! r")
    case True
    then have "terminated m (l + 1)" "terminated m (r + 1)"
      using "1.prems" terminated_unfold [of m l] terminated_unfold [of m r] by auto
    then obtain d where d: "strncmp_loop m (l + 1) (r + 1) (n - 1) = Some d"
      "d = 0 \<longleftrightarrow> take n (cstr m (l + 1)) = take n (cstr m (r + 1))"
      "d < 0 \<longleftrightarrow> ord_class.lexordp (take n (cstr m (l + 1))) (take n (cstr m (r + 1)))"
      using "1.IH" lr True by auto
    then show ?thesis using True lr by (simp add: u)
  next
    case False
    define d where "d = uint (m ! l) - uint (m ! r)"
    note sign = uint_diff_sign [of "m ! l" "m ! r", folded d_def]
    show ?thesis unfolding u using False lr
      by (cases "n = 0") (auto simp: sign word_neq_0_conv simp flip: d_def)
  qed
qed

section \<open>Copying\<close>

text \<open>
  \<open>__stpcpy\<close>: the byte loop up to alignment (with the flag for its return), the word loop
  \<^verbatim>\<open>for (; !HASZERO(*ws); *wd++ = *ws++);\<close> and the byte loop \<^verbatim>\<open>for (; (*d=*s); s++, d++);\<close>.
\<close>

lemma st8_length: "st8 m a b = Some m' \<Longrightarrow> length m' = length m"
  by (auto simp: st8_def split: if_splits)

lemma st32_length: "st32 m a w = Some m' \<Longrightarrow> length m' = length m"
  by (auto simp: st32_def split: if_splits)

function stpcpy_head :: "mem \<Rightarrow> addr \<Rightarrow> addr \<Rightarrow> (mem \<times> addr \<times> addr \<times> bool) option" where
  "stpcpy_head m d s =
     (if s mod 4 = 0 then Some (m, d, s, False)
      else do {
        b \<leftarrow> ld8 m s;
        m' \<leftarrow> st8 m d b;
        if b = 0 then Some (m', d, s, True) else stpcpy_head m' (d + 1) (s + 1) })"
  by pat_completeness auto
termination
  by (relation "measure (\<lambda>(m, d, s). length m - s)") (auto simp: mem_simps st8_length)

function stpcpy_words :: "mem \<Rightarrow> addr \<Rightarrow> addr \<Rightarrow> (mem \<times> addr \<times> addr) option" where
  "stpcpy_words m wd ws = do {
     x \<leftarrow> ld32 m ws;
     if haszero x then Some (m, wd, ws)
     else do { m' \<leftarrow> st32 m wd x; stpcpy_words m' (wd + 4) (ws + 4) } }"
  by pat_completeness auto
termination
  by (relation "measure (\<lambda>(m, d, s). length m - s)") (auto simp: mem_simps st32_length)

function stpcpy_tail :: "mem \<Rightarrow> addr \<Rightarrow> addr \<Rightarrow> (mem \<times> addr) option" where
  "stpcpy_tail m d s = do {
     b \<leftarrow> ld8 m s;
     m' \<leftarrow> st8 m d b;
     if b \<noteq> 0 then stpcpy_tail m' (d + 1) (s + 1) else Some (m', d) }"
  by pat_completeness auto
termination
  by (relation "measure (\<lambda>(m, d, s). length m - s)") (auto simp: mem_simps st8_length)

declare stpcpy_head.simps [simp del] stpcpy_words.simps [simp del] stpcpy_tail.simps [simp del]

definition stpcpy :: "mem \<Rightarrow> addr \<Rightarrow> addr \<Rightarrow> (mem \<times> addr) option" where
  "stpcpy m d s =
     (if s mod 4 = d mod 4 then do {
        (m, d, s, ret) \<leftarrow> stpcpy_head m d s;
        if ret then Some (m, d)
        else do { (m, d, s) \<leftarrow> stpcpy_words m d s; stpcpy_tail m d s } }
      else stpcpy_tail m d s)"

definition strcpy :: "mem \<Rightarrow> addr \<Rightarrow> addr \<Rightarrow> (mem \<times> addr) option" where
  "strcpy m dest src = do { (m, _) \<leftarrow> stpcpy m dest src; Some (m, dest) }"

definition strcat :: "mem \<Rightarrow> addr \<Rightarrow> addr \<Rightarrow> (mem \<times> addr) option" where
  "strcat m dest src = do {
     n \<leftarrow> strlen m dest;
     (m, _) \<leftarrow> strcpy m (dest + n) src;
     Some (m, dest) }"

text \<open>\<open>memset(d, 0, n)\<close> of the C library.\<close>

definition memset0 :: "mem \<Rightarrow> addr \<Rightarrow> nat \<Rightarrow> mem option" where
  "memset0 m d n = (if d + n \<le> length m then Some (put_bytes m d (replicate n 0)) else None)"

text \<open>\<open>__stpncpy\<close>: its loops also count \<open>n\<close> down; \<open>goto tail\<close> is the flag of the first loop's state.\<close>

fun stpncpy_head :: "mem \<Rightarrow> addr \<Rightarrow> addr \<Rightarrow> nat \<Rightarrow> (mem \<times> addr \<times> addr \<times> nat) option" where
  "stpncpy_head m d s n =
     (if s mod 4 \<noteq> 0 \<and> n \<noteq> 0 then do {
        b \<leftarrow> ld8 m s;
        m' \<leftarrow> st8 m d b;
        if b \<noteq> 0 then stpncpy_head m' (d + 1) (s + 1) (n - 1) else Some (m', d, s, n) }
      else Some (m, d, s, n))"

fun stpncpy_words :: "mem \<Rightarrow> addr \<Rightarrow> addr \<Rightarrow> nat \<Rightarrow> (mem \<times> addr \<times> addr \<times> nat) option" where
  "stpncpy_words m wd ws n =
     (if 4 \<le> n then do {
        x \<leftarrow> ld32 m ws;
        if \<not> haszero x then do { m' \<leftarrow> st32 m wd x; stpncpy_words m' (wd + 4) (ws + 4) (n - 4) }
        else Some (m, wd, ws, n) }
      else Some (m, wd, ws, n))"

fun stpncpy_tail :: "mem \<Rightarrow> addr \<Rightarrow> addr \<Rightarrow> nat \<Rightarrow> (mem \<times> addr \<times> addr \<times> nat) option" where
  "stpncpy_tail m d s n =
     (if n \<noteq> 0 then do {
        b \<leftarrow> ld8 m s;
        m' \<leftarrow> st8 m d b;
        if b \<noteq> 0 then stpncpy_tail m' (d + 1) (s + 1) (n - 1) else Some (m', d, s, n) }
      else Some (m, d, s, n))"

declare stpncpy_head.simps [simp del] stpncpy_words.simps [simp del] stpncpy_tail.simps [simp del]

definition stpncpy_copy :: "mem \<Rightarrow> addr \<Rightarrow> addr \<Rightarrow> nat \<Rightarrow> (mem \<times> addr \<times> addr \<times> nat) option" where
  "stpncpy_copy m d s n =
     (if s mod 4 = d mod 4 then do {
        (m, d, s, n) \<leftarrow> stpncpy_head m d s n;
        stop \<leftarrow> (if n = 0 then Some True else do { b \<leftarrow> ld8 m s; Some (b = 0) });
        if stop then Some (m, d, s, n)
        else do { (m, d, s, n) \<leftarrow> stpncpy_words m d s n; stpncpy_tail m d s n } }
      else stpncpy_tail m d s n)"

definition stpncpy :: "mem \<Rightarrow> addr \<Rightarrow> addr \<Rightarrow> nat \<Rightarrow> (mem \<times> addr) option" where
  "stpncpy m d s n = do {
     (m, d, s, n) \<leftarrow> stpncpy_copy m d s n;
     m \<leftarrow> memset0 m d n;
     Some (m, d) }"

definition strncpy :: "mem \<Rightarrow> addr \<Rightarrow> addr \<Rightarrow> nat \<Rightarrow> (mem \<times> addr) option" where
  "strncpy m d s n = do { (m, _) \<leftarrow> stpncpy m d s n; Some (m, d) }"

text \<open>\<open>strncat\<close>: \<^verbatim>\<open>while (n && *s) n--, *d++ = *s++;\<close> and the terminating zero.\<close>

fun strncat_loop :: "mem \<Rightarrow> addr \<Rightarrow> addr \<Rightarrow> nat \<Rightarrow> (mem \<times> addr) option" where
  "strncat_loop m d s 0 = Some (m, d)"
| "strncat_loop m d s (Suc n) = do {
     b \<leftarrow> ld8 m s;
     if b \<noteq> 0 then do { m' \<leftarrow> st8 m d b; strncat_loop m' (d + 1) (s + 1) n } else Some (m, d) }"

definition strncat :: "mem \<Rightarrow> addr \<Rightarrow> addr \<Rightarrow> nat \<Rightarrow> (mem \<times> addr) option" where
  "strncat m d s n = do {
     k \<leftarrow> strlen m d;
     (m, e) \<leftarrow> strncat_loop m (d + k) s n;
     m \<leftarrow> st8 m e 0;
     Some (m, d) }"

section \<open>Copying: correctness\<close>

text \<open>
  \<open>copyable m d s bs\<close>: the bytes \<open>bs\<close> lie at \<open>s\<close> and fit at \<open>d\<close>, and the two ranges do not
  overlap (what \<open>restrict\<close> promises). Every loop of the copying routines is in a state
  \<open>copied m d bs j\<close> after \<open>j\<close> bytes.
\<close>

definition copyable :: "mem \<Rightarrow> addr \<Rightarrow> addr \<Rightarrow> u8 list \<Rightarrow> bool" where
  "copyable m d s bs \<longleftrightarrow> s + length bs \<le> length m \<and> d + length bs \<le> length m \<and>
     take (length bs) (drop s m) = bs \<and> (d + length bs \<le> s \<or> s + length bs \<le> d)"

definition copied :: "mem \<Rightarrow> addr \<Rightarrow> u8 list \<Rightarrow> nat \<Rightarrow> mem" where
  "copied m d bs j = put_bytes m d (take j bs)"

lemma copied_0 [simp]: "copied m d bs 0 = m"
  by (simp add: copied_def)

lemma copyable_nth:
  assumes "copyable m d s bs" "i < length bs"
  shows "m ! (s + i) = bs ! i" "s + i < length m" "d + i < length m"
  using assms nth_take [of i "length bs" "drop s m"] by (auto simp: copyable_def)

lemma length_copied: "copyable m d s bs \<Longrightarrow> length (copied m d bs j) = length m"
  unfolding copied_def by (rule length_put_bytes) (auto simp: copyable_def min_def)

lemma copied_nth:
  assumes c: "copyable m d s bs" and i: "i < length bs"
  shows "copied m d bs j ! (s + i) = bs ! i"
proof -
  have "d + length (take j bs) \<le> length m" using c by (auto simp: copyable_def min_def)
  moreover have "\<not> (d \<le> s + i \<and> s + i < d + length (take j bs))"
    using c i by (auto simp: copyable_def)
  ultimately show ?thesis
    using copyable_nth [OF c i] nth_put_bytes [of d "take j bs" m "s + i"] by (auto simp: copied_def)
qed

lemma copied_Suc:
  assumes c: "copyable m d s bs" and i: "i < length bs"
  shows "(copied m d bs i)[d + i := bs ! i] = copied m d bs (i + 1)"
proof -
  have l: "length (take i bs) = i" using i by simp
  have "d + length (take i bs) < length m" using l copyable_nth(3) [OF c i] by simp
  from put_bytes_snoc [OF this, of "bs ! i"] show ?thesis
    unfolding copied_def l using i by (simp add: take_Suc_conv_app_nth)
qed

lemma copy_ld8:
  "copyable m d s bs \<Longrightarrow> i < length bs \<Longrightarrow> ld8 (copied m d bs j) (s + i) = Some (bs ! i)"
  using copyable_nth(2) [of m d s bs i] by (simp add: mem_simps length_copied copied_nth)

lemma copy_st8:
  "copyable m d s bs \<Longrightarrow> i < length bs \<Longrightarrow>
    st8 (copied m d bs i) (d + i) (bs ! i) = Some (copied m d bs (i + 1))"
  using copyable_nth(3) [of m d s bs i] copied_Suc [of m d s bs i] by (simp add: length_copied)

lemma copy_ld32:
  assumes "copyable m d s bs" "i + 4 \<le> length bs"
  shows "ld32 (copied m d bs j) (s + i) =
    Some (word_of_bytes (bs ! i) (bs ! (i + 1)) (bs ! (i + 2)) (bs ! (i + 3)))"
proof -
  have n: "copied m d bs j ! (s + i + k) = bs ! (i + k) \<and> s + i + k < length m" if "k < 4" for k
    using copied_nth [OF assms(1), of "i + k" j] copyable_nth(2) [OF assms(1), of "i + k"] that assms(2)
    by (simp add: add.assoc)
  show ?thesis
    using n [of 0] n [of 1] n [of 2] n [of 3] by (simp add: ld32_def length_copied [OF assms(1)])
qed

lemma copy_st32:
  assumes c: "copyable m d s bs" and i: "i + 4 \<le> length bs"
  shows "st32 (copied m d bs i) (d + i)
      (word_of_bytes (bs ! i) (bs ! (i + 1)) (bs ! (i + 2)) (bs ! (i + 3))) =
    Some (copied m d bs (i + 4))"
proof -
  have "d + (i + 3) < length m" using copyable_nth(3) [OF c, of "i + 3"] i by simp
  moreover have "(copied m d bs i)[d + i := bs ! i, d + i + 1 := bs ! (i + 1),
      d + i + 2 := bs ! (i + 2), d + i + 3 := bs ! (i + 3)] = copied m d bs (i + 4)"
    using copied_Suc [OF c, of i] copied_Suc [OF c, of "i + 1"] copied_Suc [OF c, of "i + 2"]
      copied_Suc [OF c, of "i + 3"] i
    by (simp add: add.assoc numeral_eq_Suc)
  ultimately show ?thesis by (simp add: st32_def length_copied [OF c])
qed

text \<open>A string with its terminating zero.\<close>

lemma nth_nonzero: "j < length xs \<Longrightarrow> 0 \<notin> set xs \<Longrightarrow> (xs @ [0]) ! j \<noteq> (0 :: u8)"
  using nth_mem [of j xs] by (metis nth_append)

lemma stpcpy_tail_spec:
  assumes c: "copyable m d s (xs @ [0])" and z: "0 \<notin> set xs"
  shows "j \<le> length xs \<Longrightarrow> stpcpy_tail (copied m d (xs @ [0]) j) (d + j) (s + j) =
    Some (put_bytes m d (xs @ [0]), d + length xs)"
proof (induction "length xs - j" arbitrary: j rule: less_induct)
  case less
  let ?bs = "xs @ [0 :: u8]" and ?m = "copied m d (xs @ [0]) j"
  have j: "j < length ?bs" using less.prems by simp
  note u = stpcpy_tail.simps [of ?m "d + j" "s + j"] copy_ld8 [OF c j] copy_st8 [OF c j]
  show ?case
  proof (cases "j = length xs")
    case True
    have b: "?bs ! j = 0" and e: "copied m d ?bs (j + 1) = put_bytes m d ?bs"
      using True by (simp_all add: copied_def)
    show ?thesis by (simp add: u u(3) [unfolded b] b e [simplified]) (simp add: True)
  next
    case False
    then have "?bs ! j \<noteq> 0" using less.prems z by (intro nth_nonzero) simp_all
    then show ?thesis using less.hyps [of "j + 1"] less.prems False by (simp add: u)
  qed
qed

lemma stpcpy_head_spec:
  assumes c: "copyable m d s (xs @ [0])" and z: "0 \<notin> set xs"
  shows "j \<le> length xs \<Longrightarrow> stpcpy_head (copied m d (xs @ [0]) j) (d + j) (s + j) =
      Some (put_bytes m d (xs @ [0]), d + length xs, s + length xs, True) \<or>
    (\<exists>i\<le>length xs. (s + i) mod 4 = 0 \<and> stpcpy_head (copied m d (xs @ [0]) j) (d + j) (s + j) =
      Some (copied m d (xs @ [0]) i, d + i, s + i, False))"
proof (induction "length xs - j" arbitrary: j rule: less_induct)
  case less
  let ?bs = "xs @ [0 :: u8]" and ?m = "copied m d (xs @ [0]) j"
  have j: "j < length ?bs" using less.prems by simp
  note u = stpcpy_head.simps [of ?m "d + j" "s + j"] copy_ld8 [OF c j] copy_st8 [OF c j]
  show ?case
  proof (cases "(s + j) mod 4 = 0")
    case True
    then show ?thesis using less.prems by (auto simp: u)
  next
    case al: False
    show ?thesis
    proof (cases "j = length xs")
      case True
      have b: "?bs ! j = 0" and e: "copied m d ?bs (j + 1) = put_bytes m d ?bs"
        using True by (simp_all add: copied_def)
      show ?thesis using al by (simp add: u u(3) [unfolded b] b e [simplified]) (simp add: True)
    next
      case False
      then have "?bs ! j \<noteq> 0" using less.prems z by (intro nth_nonzero) simp_all
      then show ?thesis using less.hyps [of "j + 1"] less.prems False al by (simp add: u)
    qed
  qed
qed

text \<open>
  The bytes from \<open>j\<close> on either fill a word inside the string or the word at \<open>s + j\<close> holds
  its terminating zero.
\<close>

lemma word_at_end:
  assumes c: "copyable m d s (xs @ [0])" and m: "4 dvd length m" and a: "(s + j) mod 4 = 0"
    and j: "j \<le> length xs" "length xs < j + 4"
  shows "\<exists>x. ld32 (copied m d (xs @ [0]) j) (s + j) = Some x \<and> haszero x"
proof -
  let ?m = "copied m d (xs @ [0]) j"
  obtain k where k: "length xs = j + k" "k < 4" using j by (metis le_iff_add nat_add_left_cancel_less)
  have "s + j < length m" using copyable_nth(2) [OF c, of j] j by simp
  then have "s + j + 3 < length m" using a m by presburger
  then have "ld32 ?m (s + j) = Some (word_of_bytes (?m ! (s + j)) (?m ! (s + j + 1))
      (?m ! (s + j + 2)) (?m ! (s + j + 3)))"
    by (simp add: length_copied [OF c])
  moreover have "?m ! (s + j + k) = 0"
    using copied_nth [OF c, of "j + k" j] k by (simp add: add.assoc nth_append)
  ultimately show ?thesis
    using k(2) by (auto simp: haszero_word_of_bytes less_Suc_eq numeral_eq_Suc)
qed

lemma stpcpy_words_spec:
  assumes c: "copyable m d s (xs @ [0])" and z: "0 \<notin> set xs" and m: "4 dvd length m"
  shows "j \<le> length xs \<Longrightarrow> (s + j) mod 4 = 0 \<Longrightarrow>
    \<exists>i\<le>length xs. stpcpy_words (copied m d (xs @ [0]) j) (d + j) (s + j) =
      Some (copied m d (xs @ [0]) i, d + i, s + i)"
proof (induction "length xs - j" arbitrary: j rule: less_induct)
  case less
  let ?bs = "xs @ [0 :: u8]" and ?m = "copied m d (xs @ [0]) j"
  note u = stpcpy_words.simps [of ?m "d + j" "s + j"]
  show ?case
  proof (cases "length xs < j + 4")
    case True
    then show ?thesis using word_at_end [OF c m less.prems(2,1)] less.prems(1)
      by (auto simp: u)
  next
    case False
    then have j: "j + 4 \<le> length ?bs" by simp
    have nz: "?bs ! (j + k) \<noteq> 0" if "k < 4" for k
    proof -
      have "j + k < length xs" using that False by simp
      then show ?thesis using z by (rule nth_nonzero)
    qed
    have "\<not> haszero (word_of_bytes (?bs ! j) (?bs ! (j + 1)) (?bs ! (j + 2)) (?bs ! (j + 3)))"
      using nz [of 0] nz [of 1] nz [of 2] nz [of 3] by (simp add: haszero_word_of_bytes)
    moreover have "(s + (j + 4)) mod 4 = 0" using less.prems(2) by presburger
    ultimately show ?thesis
      using less.hyps [of "j + 4"] less.prems False copy_ld32 [OF c j] copy_st32 [OF c j]
      by (auto simp: u add.assoc)
  qed
qed

lemma stpcpy_spec:
  assumes c: "copyable m d s (xs @ [0])" and z: "0 \<notin> set xs" and m: "4 dvd length m"
  shows "stpcpy m d s = Some (put_bytes m d (xs @ [0]), d + length xs)"
proof (cases "s mod 4 = d mod 4")
  case False
  then show ?thesis using stpcpy_tail_spec [OF c z, of 0] by (simp add: stpcpy_def)
next
  case True
  consider "stpcpy_head m d s = Some (put_bytes m d (xs @ [0]), d + length xs, s + length xs, True)"
    | i where "i \<le> length xs" "(s + i) mod 4 = 0"
      "stpcpy_head m d s = Some (copied m d (xs @ [0]) i, d + i, s + i, False)"
    using stpcpy_head_spec [OF c z, of 0] by auto
  then show ?thesis
  proof cases
    case 1
    then show ?thesis using True by (simp add: stpcpy_def)
  next
    case 2
    obtain k where "k \<le> length xs" "stpcpy_words (copied m d (xs @ [0]) i) (d + i) (s + i) =
        Some (copied m d (xs @ [0]) k, d + k, s + k)"
      using stpcpy_words_spec [OF c z m 2(1,2)] by blast
    then show ?thesis using True 2(3) stpcpy_tail_spec [OF c z, of k] by (simp add: stpcpy_def)
  qed
qed

text \<open>
  The bounded copies: \<open>bounded xs n bs\<close> says that the source bytes \<open>bs\<close> a bounded copy reads are
  the nonzero prefix \<open>xs\<close> and, when it stops before \<open>n\<close>, the zero after it.
\<close>

definition bounded :: "u8 list \<Rightarrow> nat \<Rightarrow> u8 list \<Rightarrow> bool" where
  "bounded xs n bs \<longleftrightarrow> 0 \<notin> set xs \<and> length xs \<le> n \<and> bs = (if length xs < n then xs @ [0] else xs)"

text \<open>The state in which the byte loops end: all of \<open>xs\<close> copied, perhaps with the zero.\<close>

definition stpncpy_end :: "mem \<Rightarrow> addr \<Rightarrow> addr \<Rightarrow> nat \<Rightarrow> u8 list \<Rightarrow> u8 list \<Rightarrow> (mem \<times> addr \<times> addr \<times> nat) \<Rightarrow> bool" where
  "stpncpy_end m d s n xs bs r \<longleftrightarrow> (\<exists>k. r = (copied m d bs k, d + length xs, s + length xs, n - length xs)
     \<and> (k = length xs \<or> k = length bs))"

lemma bounded_length: "bounded xs n bs \<Longrightarrow> length bs \<le> n \<and> length xs \<le> length bs \<and> length bs \<le> length xs + 1"
  by (auto simp: bounded_def)

lemma bounded_nth: "bounded xs n bs \<Longrightarrow> j < length xs \<Longrightarrow> bs ! j \<noteq> 0"
  by (auto simp: bounded_def nth_append dest: nth_mem)

lemma bounded_end: "bounded xs n bs \<Longrightarrow> length xs < n \<Longrightarrow> bs ! length xs = 0 \<and> length bs = length xs + 1"
  by (auto simp: bounded_def)

lemma stpncpy_tail_spec:
  assumes c: "copyable m d s bs" and b: "bounded xs n bs"
  shows "j \<le> length xs \<Longrightarrow> \<exists>r. stpncpy_tail (copied m d bs j) (d + j) (s + j) (n - j) = Some r \<and>
    stpncpy_end m d s n xs bs r"
proof (induction "length xs - j" arbitrary: j rule: less_induct)
  case less
  let ?m = "copied m d bs j"
  note u = stpncpy_tail.simps [of ?m "d + j" "s + j" "n - j"]
  note B = bounded_length [OF b]
  show ?case
  proof (cases "j = n")
    case True
    then have "length xs = n" using B less.prems by simp
    then show ?thesis unfolding u using True by (auto simp: stpncpy_end_def)
  next
    case False
    then have jn: "n - j \<noteq> 0" using B less.prems by simp
    have j: "j < length bs" using False B less.prems bounded_end [OF b] by linarith
    show ?thesis
    proof (cases "j = length xs")
      case True
      then have "bs ! j = 0" "length bs = j + 1" using bounded_end [OF b] B False by auto
      then show ?thesis unfolding u using jn copy_ld8 [OF c j] copy_st8 [OF c j] True
        by (auto simp: stpncpy_end_def)
    next
      case jx: False
      then have "bs ! j \<noteq> 0" using less.prems bounded_nth [OF b] by simp
      moreover have "n - j - 1 = n - (j + 1)" by simp
      ultimately show ?thesis
        using less.hyps [of "j + 1"] less.prems jx jn copy_ld8 [OF c j] copy_st8 [OF c j]
        by (simp add: u)
    qed
  qed
qed

lemma stpncpy_head_spec:
  assumes c: "copyable m d s bs" and b: "bounded xs n bs"
  shows "j \<le> length xs \<Longrightarrow> \<exists>r. stpncpy_head (copied m d bs j) (d + j) (s + j) (n - j) = Some r \<and>
    (stpncpy_end m d s n xs bs r \<or>
     (\<exists>i\<le>length xs. (s + i) mod 4 = 0 \<and> r = (copied m d bs i, d + i, s + i, n - i)))"
proof (induction "length xs - j" arbitrary: j rule: less_induct)
  case less
  let ?m = "copied m d bs j"
  note u = stpncpy_head.simps [of ?m "d + j" "s + j" "n - j"]
  note B = bounded_length [OF b]
  show ?case
  proof (cases "(s + j) mod 4 = 0 \<or> j = n")
    case True
    then show ?thesis using less.prems B by (auto simp: u stpncpy_end_def)
  next
    case False
    then have jn: "n - j \<noteq> 0" using B less.prems by simp
    have j: "j < length bs" using False B less.prems bounded_end [OF b] by linarith
    show ?thesis
    proof (cases "j = length xs")
      case True
      then have "bs ! j = 0" "length bs = j + 1" using bounded_end [OF b] B False by auto
      then show ?thesis unfolding u using jn False copy_ld8 [OF c j] copy_st8 [OF c j] True
        by (auto simp: stpncpy_end_def)
    next
      case jx: False
      then have "bs ! j \<noteq> 0" using less.prems bounded_nth [OF b] by simp
      moreover have "n - j - 1 = n - (j + 1)" by simp
      ultimately show ?thesis
        using less.hyps [of "j + 1"] less.prems jx jn False copy_ld8 [OF c j] copy_st8 [OF c j]
        by (simp add: u)
    qed
  qed
qed

lemma stpncpy_words_spec:
  assumes c: "copyable m d s bs" and b: "bounded xs n bs" and m: "4 dvd length m"
  shows "j \<le> length xs \<Longrightarrow> (s + j) mod 4 = 0 \<Longrightarrow>
    \<exists>i\<le>length xs. stpncpy_words (copied m d bs j) (d + j) (s + j) (n - j) =
      Some (copied m d bs i, d + i, s + i, n - i)"
proof (induction "length xs - j" arbitrary: j rule: less_induct)
  case less
  let ?m = "copied m d bs j"
  note u = stpncpy_words.simps [of ?m "d + j" "s + j" "n - j"]
  note B = bounded_length [OF b]
  consider "n - j < 4" | "4 \<le> n - j" "length xs < j + 4" | "4 \<le> n - j" "j + 4 \<le> length xs"
    by linarith
  then show ?case
  proof cases
    case 1
    then show ?thesis using less.prems by (auto simp: u)
  next
    case 2
    then have e: "bs = xs @ [0]" using b by (auto simp: bounded_def)
    show ?thesis unfolding u
      using 2 less.prems word_at_end [OF c [unfolded e] m less.prems(2,1)] e by auto
  next
    case 3
    then have j: "j + 4 \<le> length bs" using B by simp
    have nz: "bs ! (j + k) \<noteq> 0" if "k < 4" for k using that 3 bounded_nth [OF b] by simp
    have "\<not> haszero (word_of_bytes (bs ! j) (bs ! (j + 1)) (bs ! (j + 2)) (bs ! (j + 3)))"
      using nz [of 0] nz [of 1] nz [of 2] nz [of 3] by (simp add: haszero_word_of_bytes)
    moreover have "(s + (j + 4)) mod 4 = 0" using less.prems(2) by presburger
    moreover have "n - j - 4 = n - (j + 4)" by simp
    ultimately show ?thesis
      using less.hyps [of "j + 4"] less.prems 3 copy_ld32 [OF c j] copy_st32 [OF c j]
      by (auto simp: u add.assoc)
  qed
qed

lemma stpncpy_pad:
  assumes c: "copyable m d s bs" and b: "bounded xs n bs" and n: "d + n \<le> length m"
    and k: "k = length xs \<or> k = length bs"
  shows "memset0 (copied m d bs k) (d + length xs) (n - length xs) =
    Some (put_bytes m d (xs @ replicate (n - length xs) 0))"
proof -
  note B = bounded_length [OF b]
  have "put_bytes (copied m d bs k) (d + length xs) (replicate (n - length xs) 0) =
      put_bytes m d (xs @ replicate (n - length xs) 0)"
  proof (rule nth_equalityI)
    show "length (put_bytes (copied m d bs k) (d + length xs) (replicate (n - length xs) 0)) =
        length (put_bytes m d (xs @ replicate (n - length xs) 0))"
      using B n by (simp add: length_copied [OF c])
  next
    fix i assume "i < length (put_bytes (copied m d bs k) (d + length xs) (replicate (n - length xs) 0))"
    then have i: "i < length m" using B n by (simp add: length_copied [OF c])
    have tk: "d + length (take k bs) \<le> length m" using B n k by auto
    show "put_bytes (copied m d bs k) (d + length xs) (replicate (n - length xs) 0) ! i =
        put_bytes m d (xs @ replicate (n - length xs) 0) ! i"
      using i B n k tk b
      by (auto simp: nth_put_bytes length_copied [OF c] copied_def nth_append bounded_def split: if_splits)
  qed
  then show ?thesis using B n by (simp add: memset0_def length_copied [OF c])
qed

lemma stpncpy_spec:
  assumes c: "copyable m d s bs" and b: "bounded xs n bs" and n: "d + n \<le> length m"
    and m: "4 dvd length m"
  shows "stpncpy m d s n = Some (put_bytes m d (xs @ replicate (n - length xs) 0), d + length xs)"
proof -
  note B = bounded_length [OF b]
  have "\<exists>r. stpncpy_copy m d s n = Some r \<and> stpncpy_end m d s n xs bs r"
  proof (cases "s mod 4 = d mod 4")
    case False
    then show ?thesis using stpncpy_tail_spec [OF c b, of 0] by (simp add: stpncpy_copy_def)
  next
    case al: True
    obtain r where r: "stpncpy_head m d s n = Some r" "stpncpy_end m d s n xs bs r \<or>
        (\<exists>i\<le>length xs. (s + i) mod 4 = 0 \<and> r = (copied m d bs i, d + i, s + i, n - i))"
      using stpncpy_head_spec [OF c b, of 0] by auto
    have ld: "ld8 (copied m d bs k) (s + length xs) = Some 0" if "length xs < n" for k
      using that copy_ld8 [OF c, of "length xs"] bounded_end [OF b] by simp
    have at_end: ?thesis if e: "stpncpy_end m d s n xs bs r"
    proof -
      obtain k where k: "r = (copied m d bs k, d + length xs, s + length xs, n - length xs)"
        using e unfolding stpncpy_end_def by blast
      have "stpncpy_copy m d s n = Some r"
      proof (cases "length xs < n")
        case True
        then show ?thesis using al r(1) k ld [OF True] by (simp add: stpncpy_copy_def)
      next
        case False
        then show ?thesis using al r(1) k by (simp add: stpncpy_copy_def)
      qed
      then show ?thesis using e by blast
    qed
    from r(2) show ?thesis
    proof
      assume "stpncpy_end m d s n xs bs r"
      then show ?thesis by (rule at_end)
    next
      assume "\<exists>i\<le>length xs. (s + i) mod 4 = 0 \<and> r = (copied m d bs i, d + i, s + i, n - i)"
      then obtain i where i: "i \<le> length xs" "(s + i) mod 4 = 0"
        "r = (copied m d bs i, d + i, s + i, n - i)" by (elim exE conjE)
      show ?thesis
      proof (cases "i = length xs")
        case True
        have "stpncpy_end m d s n xs bs r" unfolding stpncpy_end_def i(3) True by blast
        then show ?thesis by (rule at_end)
      next
        case False
        then have ix: "i < length xs" "i < length bs" "n - i \<noteq> 0" using i(1) B by auto
        obtain k where k: "k \<le> length xs" "stpncpy_words (copied m d bs i) (d + i) (s + i) (n - i) =
            Some (copied m d bs k, d + k, s + k, n - k)"
          using stpncpy_words_spec [OF c b m i(1,2)] by blast
        then show ?thesis
          using al r(1) i(3) ix copy_ld8 [OF c ix(2), of i] bounded_nth [OF b ix(1)]
            stpncpy_tail_spec [OF c b k(1)] by (simp add: stpncpy_copy_def)
      qed
    qed
  qed
  then obtain k where "stpncpy_copy m d s n =
      Some (copied m d bs k, d + length xs, s + length xs, n - length xs)"
    "k = length xs \<or> k = length bs" unfolding stpncpy_end_def by blast
  then show ?thesis unfolding stpncpy_def using stpncpy_pad [OF c b n] by simp
qed

lemma strncat_loop_spec:
  assumes c: "copyable m d s bs" and b: "bounded xs n bs"
  shows "j \<le> length xs \<Longrightarrow> strncat_loop (copied m d bs j) (d + j) (s + j) (n - j) =
    Some (copied m d bs (length xs), d + length xs)"
proof (induction "length xs - j" arbitrary: j rule: less_induct)
  case less
  note B = bounded_length [OF b]
  show ?case
  proof (cases "j = length xs")
    case True
    show ?thesis
    proof (cases "length xs = n")
      case nn: True
      then show ?thesis using True by simp
    next
      case False
      then obtain k where "n - length xs = Suc k" using B by (cases "n - length xs") auto
      then show ?thesis
        using True False B bounded_end [OF b] copy_ld8 [OF c, of "length xs" "length xs"] by simp
    qed
  next
    case False
    then have j: "j < length xs" "j < length bs" using less.prems B by auto
    then obtain k where k: "n - j = Suc k" "k = n - (j + 1)" using B by (cases "n - j") auto
    then show ?thesis
      using less.hyps [of "j + 1"] j False copy_ld8 [OF c j(2), of j] copy_st8 [OF c j(2)]
        bounded_nth [OF b j(1)] by simp
  qed
qed

section \<open>Properties\<close>

text \<open>
  C8: On every memory whose length is a multiple of the word size, the word-at-a-time
  \<open>strlen\<close> returns the length of the C string at \<open>s\<close> for every alignment of \<open>s\<close>, and traps
  exactly when there is no terminating zero: it never reads past the word of the terminator.
\<close>
theorem strlen_correct:
  assumes "4 dvd length m"
  shows "strlen m s = (if terminated m s then Some (length (cstr m s)) else None)"
  using strlen_terminated [OF _ assms] strlen_unterminated by simp

theorem strlen_correct_witness:
  "strlen [0, 104, 105, 33, 52, 50, 0, 7] 1 = Some 5 \<and> strlen [1, 2, 3, 4] 1 = None"
proof -
  have m: "4 dvd length [0, 104, 105, 33, 52, 50, 0, 7 :: u8]" "4 dvd length [1, 2, 3, 4 :: u8]"
    by code_simp+
  show ?thesis
    using strlen_correct [OF m(1), of 1] strlen_correct [OF m(2), of 1]
    by (simp add: terminated_def cstr_def)
qed

text \<open>
  C9: The three-phase \<open>memchr\<close> (bytes up to alignment, words with \<open>HASZERO(*w ^ k)\<close>, bytes)
  returns the address of the first occurrence of the byte \<open>c\<close> among the \<open>n\<close> bytes at \<open>src\<close>, or
  null when there is none, and reads nothing outside those \<open>n\<close> bytes.
\<close>
theorem memchr_correct:
  assumes "src + n \<le> length m"
  shows "memchr m src c n =
    Some (map_option ((+) src) (find_first (word_of_int c) (take n (drop src m))))"
  using assms by (rule memchr_correct_aux)

theorem memchr_correct_witness:
  "memchr [9, 1, 2, 3, 4, 5, 6, 7, 8, 9] 1 7 9 = Some (Some 7) \<and>
   memchr [9, 1, 2, 3, 4, 5, 6, 7, 8, 9] 1 7 6 = Some None"
proof -
  let ?m = "[9, 1, 2, 3, 4, 5, 6, 7, 8, 9 :: u8]"
  have n: "1 + 9 \<le> length ?m" "1 + 6 \<le> length ?m" by simp_all
  show ?thesis
    using memchr_correct [OF n(1), of 7] memchr_correct [OF n(2), of 7]
    by (simp add: find_first_def)
qed

text \<open>
  C14: \<open>strchr\<close> and \<open>strrchr\<close> return the first and the last occurrence of \<open>(unsigned char)c\<close> in
  the string with its terminator (so that \<open>c = 0\<close> finds the terminator), or null.
\<close>
theorem strchr_strrchr_correct:
  assumes "terminated m s" "4 dvd length m"
  shows "strchr m s c = Some (map_option ((+) s) (find_first (word_of_int c) (cstr m s @ [0]))) \<and>
    strrchr m s c = Some (map_option ((+) s) (find_last (word_of_int c) (cstr m s @ [0])))"
  using strchr_terminated [OF assms] strrchr_terminated [OF assms] by blast

theorem strchr_strrchr_correct_witness:
  "strchr [98, 97, 98, 97, 99, 0, 98, 98] 0 98 = Some (Some 0) \<and>
   strrchr [98, 97, 98, 97, 99, 0, 98, 98] 0 98 = Some (Some 2)"
proof -
  let ?m = "[98, 97, 98, 97, 99, 0, 98, 98 :: u8]"
  have h: "terminated ?m 0" "4 dvd length ?m" by (simp add: terminated_def, code_simp)
  show ?thesis
    using strchr_strrchr_correct [OF h, of 98]
    by (simp add: find_first_def find_last_def cstr_def)
qed

text \<open>
  C13: \<open>strspn\<close> and \<open>strcspn\<close> return the length of the longest prefix of the string at \<open>s\<close> whose
  bytes all are, respectively are not, bytes of the string at \<open>c\<close>, on each of the three paths of
  the code (empty set, single byte, 256-bit table).
\<close>
theorem strspn_strcspn_correct:
  assumes "terminated m s" "terminated m c" "4 dvd length m"
  shows "strspn m s c = Some (length (takeWhile (\<lambda>b. b \<in> set (cstr m c)) (cstr m s))) \<and>
    strcspn m s c = Some (length (takeWhile (\<lambda>b. b \<notin> set (cstr m c)) (cstr m s)))"
  using strspn_terminated [OF assms(1,2)] strcspn_terminated [OF assms] by blast

theorem strspn_strcspn_correct_witness:
  "strspn [97, 98, 97, 99, 0, 98, 97, 0] 0 5 = Some 3 \<and>
   strcspn [97, 98, 97, 99, 0, 99, 98, 0] 0 5 = Some 1"
proof -
  let ?m = "[97, 98, 97, 99, 0, 98, 97, 0 :: u8]" and ?m' = "[97, 98, 97, 99, 0, 99, 98, 0 :: u8]"
  have h: "terminated ?m 0" "terminated ?m 5" "4 dvd length ?m"
    "terminated ?m' 0" "terminated ?m' 5" "4 dvd length ?m'" by code_simp+
  show ?thesis
    using strspn_strcspn_correct [OF h(1-3)] strspn_strcspn_correct [OF h(4-6)]
    by (simp add: cstr_def)
qed

text \<open>
  C12: \<open>strcmp\<close> and \<open>strncmp\<close> order strings (their first \<open>n\<close> bytes) lexicographically by unsigned
  byte: the result is zero exactly on equal strings and negative exactly when the first is smaller.
\<close>
theorem strcmp_strncmp_correct:
  assumes "terminated m l" "terminated m r"
  shows "(\<exists>d. strcmp m l r = Some d \<and> (d = 0 \<longleftrightarrow> cstr m l = cstr m r) \<and>
      (d < 0 \<longleftrightarrow> ord_class.lexordp (cstr m l) (cstr m r))) \<and>
    (\<exists>d. strncmp m l r n = Some d \<and> (d = 0 \<longleftrightarrow> take n (cstr m l) = take n (cstr m r)) \<and>
      (d < 0 \<longleftrightarrow> ord_class.lexordp (take n (cstr m l)) (take n (cstr m r))))"
proof (cases n)
  case 0
  then show ?thesis using strcmp_terminated [OF assms] by (simp add: strncmp_def)
next
  case (Suc k)
  then show ?thesis using strcmp_terminated [OF assms] strncmp_loop_terminated [OF assms, of k]
    by (simp add: strncmp_def)
qed

theorem strcmp_strncmp_correct_witness:
  "(\<exists>d<0. strcmp [97, 98, 0, 97, 200, 0] 0 3 = Some d) \<and> strncmp [97, 98, 0, 97, 200, 0] 0 3 1 = Some 0"
proof -
  let ?m = "[97, 98, 0, 97, 200, 0 :: u8]"
  have h: "terminated ?m 0" "terminated ?m 3" by (simp_all add: terminated_def)
  show ?thesis
    using strcmp_strncmp_correct [OF h, of 1] by (auto simp: cstr_def)
qed

lemma copyable_cstr:
  assumes t: "terminated m s" and fit: "d + length (cstr m s) < length m"
    and dis: "d + length (cstr m s) < s \<or> s + length (cstr m s) < d"
  shows "copyable m d s (cstr m s @ [0])"
  using take_cstr [OF t] terminated_nul [OF t] fit dis by (auto simp: copyable_def)

lemma cstr_nonzero: "0 \<notin> set (cstr m s)"
  by (auto simp: cstr_def dest: set_takeWhileD)

text \<open>
  C10: \<open>strcpy\<close> (through \<open>__stpcpy\<close>, in words when the two strings are equally aligned) writes
  exactly the string and its terminator at \<open>dest\<close>, leaves every other byte of memory as it was,
  and returns \<open>dest\<close>; \<open>__stpcpy\<close> returns the address of the terminator.
\<close>
theorem strcpy_correct:
  assumes "terminated m src" "d + length (cstr m src) < length m" "4 dvd length m"
    and "d + length (cstr m src) < src \<or> src + length (cstr m src) < d"
  shows "strcpy m d src = Some (put_bytes m d (cstr m src @ [0]), d) \<and>
    stpcpy m d src = Some (put_bytes m d (cstr m src @ [0]), d + length (cstr m src))"
proof -
  have "stpcpy m d src = Some (put_bytes m d (cstr m src @ [0]), d + length (cstr m src))"
    using stpcpy_spec [OF copyable_cstr [OF assms(1,2,4)] cstr_nonzero assms(3)] .
  then show ?thesis by (simp add: strcpy_def)
qed

theorem strcpy_correct_witness:
  "strcpy [1, 2, 3, 4, 5, 6, 0, 8, 9, 9, 9, 9, 9, 9, 9, 9] 9 1 =
     Some ([1, 2, 3, 4, 5, 6, 0, 8, 9, 2, 3, 4, 5, 6, 0, 9], 9)"
proof -
  let ?m = "[1, 2, 3, 4, 5, 6, 0, 8, 9, 9, 9, 9, 9, 9, 9, 9 :: u8]"
  have c: "cstr ?m 1 = [2, 3, 4, 5, 6]" by (simp add: cstr_def)
  have h: "terminated ?m 1" "9 + length (cstr ?m 1) < length ?m" "4 dvd length ?m"
    "9 + length (cstr ?m 1) < 1 \<or> 1 + length (cstr ?m 1) < 9"
    by (simp_all only: c) code_simp+
  show ?thesis using strcpy_correct [OF h] by (simp add: c [simplified] put_bytes_def)
qed

text \<open>
  C11: \<open>strncpy\<close> writes exactly \<open>n\<close> bytes: the first \<open>n\<close> bytes of the string, padded with zeros
  when the string is shorter, and nothing else; the source may be unterminated when it has \<open>n\<close>
  bytes. \<open>__stpncpy\<close> returns the end of the copied bytes.
\<close>
theorem strncpy_correct:
  assumes "terminated m src \<or> src + n \<le> length m" "d + n \<le> length m" "4 dvd length m"
    and "d + n \<le> src \<or> src + n \<le> d"
  shows "strncpy m d src n =
      Some (put_bytes m d (take n (cstr m src) @ replicate (n - length (cstr m src)) 0), d) \<and>
    stpncpy m d src n =
      Some (put_bytes m d (take n (cstr m src) @ replicate (n - length (cstr m src)) 0),
        d + min n (length (cstr m src)))"
proof -
  let ?xs = "take n (cstr m src)"
  let ?bs = "if length ?xs < n then ?xs @ [0] else ?xs"
  have b: "bounded ?xs n ?bs"
    using cstr_nonzero [of m src] by (auto simp: bounded_def dest: in_set_takeD)
  have pre: "take (length (cstr m src)) (drop src m) = cstr m src"
    by (simp add: cstr_def takeWhile_eq_take [symmetric])
  have c: "copyable m d src ?bs"
  proof (cases "length (cstr m src) < n")
    case True
    have t: "terminated m src"
    proof (rule ccontr)
      assume u: "\<not> terminated m src"
      then have "cstr m src = drop src m"
        unfolding cstr_def by (simp add: terminated_def takeWhile_eq_all_conv) auto
      then show False using True assms(1) u by auto
    qed
    then show ?thesis using True assms take_cstr [OF t] terminated_nul [OF t]
      by (auto simp: copyable_def)
  next
    case False
    then have tn: "take n (drop src m) = take n (cstr m src)"
      by (metis pre min.absorb1 not_less take_take)
    moreover have "length (cstr m src) \<le> length (drop src m)"
      unfolding cstr_def by (rule length_takeWhile_le)
    ultimately have "src + n \<le> length m \<or> n = 0" using False by auto
    moreover have "src \<le> length m"
      using assms(1) terminated_nul [of m src] by auto
    ultimately show ?thesis using False assms tn
      by (cases "n = 0") (auto simp: copyable_def)
  qed
  have "n - length ?xs = n - length (cstr m src)" "length ?xs = min n (length (cstr m src))" by auto
  then have "stpncpy m d src n = Some (put_bytes m d (?xs @ replicate (n - length (cstr m src)) 0),
      d + min n (length (cstr m src)))"
    using stpncpy_spec [OF c b assms(2,3)] by simp
  then show ?thesis by (simp add: strncpy_def)
qed

theorem strncpy_correct_witness:
  "strncpy [65, 66, 0, 7, 9, 9, 9, 9, 9, 9, 9, 9] 6 0 5 = Some ([65, 66, 0, 7, 9, 9, 65, 66, 0, 0, 0, 9], 6)"
proof -
  let ?m = "[65, 66, 0, 7, 9, 9, 9, 9, 9, 9, 9, 9 :: u8]"
  have h: "terminated ?m 0 \<or> 0 + 5 \<le> length ?m" "6 + 5 \<le> length ?m" "4 dvd length ?m"
    "6 + 5 \<le> (0 :: nat) \<or> 0 + 5 \<le> (6 :: nat)" by code_simp+
  have c: "cstr ?m 0 = [65, 66]" by (simp add: cstr_def)
  have "put_bytes ?m 6 (take 5 [65, 66] @ replicate (5 - length [65, 66 :: u8]) 0) =
      [65, 66, 0, 7, 9, 9, 65, 66, 0, 0, 0, 9]" by code_simp
  then show ?thesis using strncpy_correct [OF h] unfolding c by simp
qed

end
