(* ===== verification/MuslStdlib.thy ===== *)
theory MuslStdlib
  imports MuslString
begin

text \<open>
  The conversions and the search of \<^verbatim>\<open>shim/musl/stdlib\<close>: \<open>atoi\<close>, \<open>strtol\<close> with its worker
  \<open>strtox\<close>, and \<open>bsearch\<close>. Characters are signed bytes read by \<open>sint\<close>; \<open>None\<close> is a trap or, in
  \<open>atoi\<close>, the undefined overflow of a signed \<open>int\<close>. \<open>long\<close> has 32 bits on the target, the
  accumulator of \<open>strtox\<close> is an \<open>unsigned long long\<close> of 64.
\<close>

section \<open>Character classes\<close>

text \<open>\<open>__isspace\<close> and \<open>isdigit\<close> of \<^verbatim>\<open>include/ctype.h\<close>, with the unsigned wrap-around of the range test.\<close>

definition c_isspace :: "int \<Rightarrow> bool" where
  "c_isspace c \<longleftrightarrow> c = 32 \<or> (c - 9) mod 4294967296 < 5"

definition c_isdigit :: "int \<Rightarrow> bool" where
  "c_isdigit c \<longleftrightarrow> (c - 48) mod 4294967296 < 10"

section \<open>atoi\<close>

function atoi_skip :: "mem \<Rightarrow> addr \<Rightarrow> addr option" where
  "atoi_skip m s = do {
     b \<leftarrow> ld8 m s;
     if c_isspace (sint b) then atoi_skip m (s + 1) else Some s }"
  by pat_completeness auto
termination
  by (relation "measure (\<lambda>(m, s). length m - s)") (auto simp: mem_simps)

function atoi_digits :: "mem \<Rightarrow> addr \<Rightarrow> int \<Rightarrow> int option" where
  "atoi_digits m s n = do {
     b \<leftarrow> ld8 m s;
     if c_isdigit (sint b)
     then (let n' = 10 * n - (sint b - 48) in
           if n' < - 2147483648 then None else atoi_digits m (s + 1) n')
     else Some n }"
  by pat_completeness auto
termination
  by (relation "measure (\<lambda>(m, s, n). length m - s)") (auto simp: mem_simps)

declare atoi_skip.simps [simp del] atoi_digits.simps [simp del]

definition atoi :: "mem \<Rightarrow> addr \<Rightarrow> int option" where
  "atoi m s = do {
     s \<leftarrow> atoi_skip m s;
     b \<leftarrow> ld8 m s;
     let neg = (b = 45);
     let s = (if b = 45 \<or> b = 43 then s + 1 else s);
     n \<leftarrow> atoi_digits m s 0;
     if neg then Some n else if n = - 2147483648 then None else Some (- n) }"

section \<open>strtol\<close>

datatype errno_code = EINVAL | ERANGE

text \<open>What \<open>strtox\<close> returns, stores through \<open>p\<close> (if it does) and leaves in \<open>errno\<close> (if it sets it).\<close>

record strtox_result =
  ret :: u64
  endp :: "addr option"
  errno :: "errno_code option"

definition ULLONG_MAX :: u64 where "ULLONG_MAX = - 1"

text \<open>The value of a character as a digit, \<open>None\<close> for the \<open>break\<close> of the last branch.\<close>

definition digit_val :: "int \<Rightarrow> int option" where
  "digit_val c =
     (if 48 \<le> c \<and> c \<le> 57 then Some (c - 48)
      else if 97 \<le> c \<and> c \<le> 122 then Some (10 + c - 97)
      else if 65 \<le> c \<and> c \<le> 90 then Some (10 + c - 65)
      else None)"

function strtox_skip :: "mem \<Rightarrow> addr \<Rightarrow> addr option" where
  "strtox_skip m s = do {
     b \<leftarrow> ld8 m s;
     if b \<noteq> 0 \<and> c_isspace (sint b) then strtox_skip m (s + 1) else Some s }"
  by pat_completeness auto
termination
  by (relation "measure (\<lambda>(m, s). length m - s)") (auto simp: mem_simps)

function strtox_digits ::
  "mem \<Rightarrow> addr \<Rightarrow> int \<Rightarrow> u64 \<Rightarrow> bool \<Rightarrow> bool \<Rightarrow> (addr \<times> u64 \<times> bool \<times> bool) option" where
  "strtox_digits m s base y found_digit overflow = do {
     b \<leftarrow> ld8 m s;
     case digit_val (sint b) of
       None \<Rightarrow> Some (s, y, found_digit, overflow)
     | Some val \<Rightarrow>
         if val \<ge> base then Some (s, y, found_digit, overflow)
         else if y > ULLONG_MAX div word_of_int base \<or> word_of_int base * y > ULLONG_MAX - word_of_int val
         then strtox_digits m (s + 1) base y found_digit True
         else strtox_digits m (s + 1) base (y * word_of_int base + word_of_int val) True overflow }"
  by pat_completeness auto
termination
  by (relation "measure (\<lambda>(m, s, base, y, f, v). length m - s)") (auto simp: mem_simps)

declare strtox_skip.simps [simp del] strtox_digits.simps [simp del]

text \<open>The prefix \<open>0x\<close> / \<open>0\<close> of bases 16 and 0: the position, the base and \<open>found_digit\<close> after it.\<close>

definition strtox_prefix :: "mem \<Rightarrow> addr \<Rightarrow> int \<Rightarrow> (addr \<times> int \<times> bool) option" where
  "strtox_prefix m s base = do {
     zero \<leftarrow> (if base = 0 \<or> base = 16 then do { b \<leftarrow> ld8 m s; Some (b = 48) } else Some False);
     if zero then do {
       b \<leftarrow> ld8 m (s + 1);
       if b OR 32 = 120 then Some (s + 2, 16, True)
       else if base = 0 then Some (s + 1, 8, True)
       else Some (s + 1, base, True) }
     else if base = 0 then Some (s, 10, False)
     else Some (s, base, False) }"

text \<open>The end of \<open>strtox\<close>: clamping to \<open>lim\<close> and applying the sign.\<close>

definition strtox_finish :: "u64 \<Rightarrow> bool \<Rightarrow> bool \<Rightarrow> u64 \<Rightarrow> u64 \<times> errno_code option" where
  "strtox_finish y neg overflow lim =
     (let e = (if overflow then Some ERANGE else None);
          y = (if overflow then lim else y);
          neg = (if overflow \<and> lim AND 1 \<noteq> 0 then False else neg);
          value = (if neg then (y XOR (- 1)) - (- 1) else y) in
      if y \<ge> lim then
        (if \<not> (lim AND 1 \<noteq> 0) \<and> \<not> neg then (lim - 1, Some ERANGE)
         else if y > lim then (lim, Some ERANGE)
         else (value, e))
      else (value, e))"

definition strtox :: "mem \<Rightarrow> addr \<Rightarrow> bool \<Rightarrow> int \<Rightarrow> u64 \<Rightarrow> strtox_result option" where
  "strtox m orig p base lim =
     (if base > 36 then Some \<lparr>ret = 0, endp = None, errno = Some EINVAL\<rparr>
      else do {
        s \<leftarrow> strtox_skip m orig;
        b \<leftarrow> ld8 m s;
        let neg = (b = 45);
        let s = (if b = 43 \<or> b = 45 then s + 1 else s);
        (s, base, found_digit) \<leftarrow> strtox_prefix m s base;
        (s, y, found_digit, overflow) \<leftarrow> strtox_digits m s base 0 found_digit False;
        let (r, e) = strtox_finish y neg overflow lim;
        Some \<lparr>ret = r, endp = (if p then Some (if found_digit then s else orig) else None), errno = e\<rparr> })"

text \<open>\<open>long\<close> is the low half of the result, read as two's complement; \<open>lim\<close> is \<open>0UL + LONG_MIN\<close>.\<close>

definition strtol :: "mem \<Rightarrow> addr \<Rightarrow> bool \<Rightarrow> int \<Rightarrow> (int \<times> addr option \<times> errno_code option) option" where
  "strtol m s p base = do {
     r \<leftarrow> strtox m s p base 0x80000000;
     Some (sint (ucast (ret r) :: u32), endp r, errno r) }"

section \<open>bsearch\<close>

text \<open>\<open>cmp p\<close> is \<open>cmp(key, p)\<close>, the sign of the key against the element at address \<open>p\<close>.\<close>

fun bsearch :: "(addr \<Rightarrow> int) \<Rightarrow> addr \<Rightarrow> nat \<Rightarrow> nat \<Rightarrow> addr option" where
  "bsearch cmp base nel width =
     (if nel > 0 then
        (let p = base + width * (nel div 2); sign = cmp p in
         if sign < 0 then bsearch cmp base (nel div 2) width
         else if sign > 0 then bsearch cmp (p + width) (nel - (nel div 2 + 1)) width
         else Some p)
      else None)"

declare bsearch.simps [simp del]

section \<open>The text of an integer\<close>

text \<open>
  What the C standard prescribes for both conversions: white space, an optional sign, and the
  longest run of digits of the base. \<open>int_text base text\<close> is the sign, the number of bytes before
  the digits, and the digits.
\<close>

definition is_digit_in :: "int \<Rightarrow> u8 \<Rightarrow> bool" where
  "is_digit_in base b \<longleftrightarrow> (case digit_val (sint b) of None \<Rightarrow> False | Some v \<Rightarrow> v < base)"

definition int_text :: "int \<Rightarrow> u8 list \<Rightarrow> bool \<times> nat \<times> u8 list" where
  "int_text base text =
     (let ws = takeWhile (\<lambda>b. c_isspace (sint b)) text; t = drop (length ws) text;
          sg = (case t of [] \<Rightarrow> False | c # _ \<Rightarrow> c = 43 \<or> c = 45);
          neg = (case t of [] \<Rightarrow> False | c # _ \<Rightarrow> c = 45);
          k = length ws + (if sg then 1 else 0)
      in (neg, k, takeWhile (is_digit_in base) (drop k text)))"

definition num_value :: "int \<Rightarrow> int \<Rightarrow> u8 list \<Rightarrow> int" where
  "num_value base a ds = foldl (\<lambda>v b. v * base + the (digit_val (sint b))) a ds"

lemma num_value_simps [simp]:
  "num_value base a [] = a"
  "num_value base a (b # ds) = num_value base (a * base + the (digit_val (sint b))) ds"
  by (simp_all add: num_value_def)

lemma sint_u8_bounds: "- 128 \<le> sint (b :: u8)" "sint (b :: u8) \<le> 127"
  using sint_ge [of b] sint_lt [of b] by simp_all

lemma digit_val_bounds: "digit_val c = Some v \<Longrightarrow> 0 \<le> v \<and> v < 36"
  by (auto simp: digit_val_def split: if_splits)

lemma not_space_digit_0 [simp]:
  "\<not> c_isspace (sint (0 :: u8))" "\<not> c_isdigit (sint (0 :: u8))" "\<not> is_digit_in base 0" "digit_val 0 = None" "\<not> c_isspace 0"
  by (simp_all add: c_isspace_def c_isdigit_def is_digit_in_def digit_val_def)

lemma mod_u32_small:
  assumes "- 256 \<le> (x :: int)" "x \<le> 256" "0 < k" "k \<le> 256"
  shows "x mod 4294967296 < k \<longleftrightarrow> 0 \<le> x \<and> x < k"
proof (cases "0 \<le> x")
  case True
  then show ?thesis using assms by simp
next
  case False
  have "x mod 4294967296 = (x + 4294967296) mod 4294967296" by simp
  also have "\<dots> = x + 4294967296"
    using False assms by (intro mod_pos_pos_trivial) simp_all
  finally have "x mod 4294967296 = x + 4294967296" .
  then show ?thesis using False assms by simp
qed

lemma c_isdigit_iff: "c_isdigit (sint (b :: u8)) \<longleftrightarrow> is_digit_in 10 b"
proof -
  have "c_isdigit (sint b) \<longleftrightarrow> 48 \<le> sint b \<and> sint b \<le> 57"
    unfolding c_isdigit_def using mod_u32_small [of "sint b - 48" 10] sint_u8_bounds [of b] by auto
  then show ?thesis by (auto simp: is_digit_in_def digit_val_def)
qed

lemma cstr_split:
  assumes "terminated m s" "i \<le> length (cstr m s)"
  shows "terminated m (s + i)" "cstr m (s + i) = drop i (cstr m s)"
  using assms
proof (induction i)
  case (Suc i)
  case 1
  then have t: "terminated m (s + i)" and c: "cstr m (s + i) = drop i (cstr m s)" using Suc by auto
  then have "cstr m (s + i) \<noteq> []" using 1 by simp
  then show ?case using t terminated_unfold [of m "s + i"] cstr_unfold [of "s + i" m] by auto
next
  case (Suc i)
  case 2
  then have t: "terminated m (s + i)" and c: "cstr m (s + i) = drop i (cstr m s)" using Suc by auto
  then have "cstr m (s + i) \<noteq> []" using 2 by simp
  then have "cstr m (s + Suc i) = tl (cstr m (s + i))"
    using t terminated_unfold [of m "s + i"] cstr_unfold [of "s + i" m] by (auto split: if_splits)
  then show ?case unfolding c by (simp add: drop_Suc tl_drop)
qed simp_all

text \<open>The byte at a position of a terminated string: the next character or the terminator.\<close>

lemma cstr_head:
  assumes "terminated m s"
  shows "ld8 m s = Some (case cstr m s of [] \<Rightarrow> 0 | b # _ \<Rightarrow> b)"
  using assms terminated_unfold [of m s] cstr_unfold [of s m] by auto

lemma cstr_Cons:
  assumes "terminated m s" "cstr m s = b # bs"
  shows "ld8 m s = Some b" "b \<noteq> 0" "terminated m (s + 1)" "cstr m (s + 1) = bs"
  using assms cstr_head [OF assms(1)] cstr_split [OF assms(1), of 1] cstr_nonzero [of m s] by auto

lemma cstr_Nil: "terminated m s \<Longrightarrow> cstr m s = [] \<Longrightarrow> ld8 m s = Some 0"
  by (simp add: cstr_head)

lemma strtox_skip_spec:
  "terminated m s \<Longrightarrow> strtox_skip m s = Some (s + length (takeWhile (\<lambda>b. c_isspace (sint b)) (cstr m s)))"
proof (induction m s rule: strtox_skip.induct)
  case (1 m s)
  show ?case
  proof (cases "cstr m s")
    case Nil
    then show ?thesis using cstr_Nil "1.prems" by (simp add: strtox_skip.simps [of m s])
  next
    case (Cons b bs)
    note c = cstr_Cons [OF "1.prems" Cons]
    show ?thesis using "1.IH" [of b] c Cons by (auto simp: strtox_skip.simps [of m s])
  qed
qed

lemma atoi_skip_spec:
  "terminated m s \<Longrightarrow> atoi_skip m s = Some (s + length (takeWhile (\<lambda>b. c_isspace (sint b)) (cstr m s)))"
proof (induction m s rule: atoi_skip.induct)
  case (1 m s)
  show ?case
  proof (cases "cstr m s")
    case Nil
    then show ?thesis using cstr_Nil "1.prems" by (simp add: atoi_skip.simps [of m s])
  next
    case (Cons b bs)
    note c = cstr_Cons [OF "1.prems" Cons]
    show ?thesis using "1.IH" [of b] c Cons by (auto simp: atoi_skip.simps [of m s])
  qed
qed

section \<open>strtol: correctness\<close>

lemma num_value_mono: "1 \<le> base \<Longrightarrow> 0 \<le> a \<Longrightarrow> \<forall>b\<in>set ds. is_digit_in base b \<Longrightarrow> a \<le> num_value base a ds"
proof (induction ds arbitrary: a)
  case (Cons b ds)
  then have v: "0 \<le> the (digit_val (sint b))"
    using digit_val_bounds by (auto simp: is_digit_in_def split: option.splits)
  have "a * 1 \<le> a * base" using Cons.prems by (intro mult_left_mono) simp_all
  then have le: "a \<le> a * base + the (digit_val (sint b))" using v by simp
  moreover have "a * base + the (digit_val (sint b)) \<le> num_value base (a * base + the (digit_val (sint b))) ds"
    using Cons le by (intro Cons.IH) simp_all
  ultimately show ?case by simp
qed simp

lemma uint_u64_less: "uint (y :: u64) < 18446744073709551616"
  using uint_lt2p [of y] by simp

lemma uint_of_int_u64: "0 \<le> k \<Longrightarrow> k < 18446744073709551616 \<Longrightarrow> uint (word_of_int k :: u64) = k"
  by (subst uint_word_of_int) simp

text \<open>The two tests of the loop together detect exactly the overflow of \<open>y * base + val\<close>.\<close>

lemma overflow_test:
  fixes y :: u64
  assumes base: "2 \<le> base" "base \<le> 36" and val: "0 \<le> val" "val < 36"
  shows "(y > ULLONG_MAX div word_of_int base \<or> word_of_int base * y > ULLONG_MAX - word_of_int val)
      \<longleftrightarrow> 18446744073709551616 \<le> uint y * base + val" (is "?ovf \<longleftrightarrow> _")
    and "uint y * base + val < 18446744073709551616 \<Longrightarrow>
      uint (y * word_of_int base + word_of_int val) = uint y * base + val"
proof -
  have max: "uint ULLONG_MAX = 18446744073709551615" 
    by (simp add: ULLONG_MAX_def unsigned_minus_1_eq_mask mask_eq_exp_minus_1)
  have b: "uint (word_of_int base :: u64) = base" and v: "uint (word_of_int val :: u64) = val"
    using assms by (simp_all add: uint_of_int_u64)
  have d: "uint (ULLONG_MAX div word_of_int base) = 18446744073709551615 div base"
    by (simp add: uint_div_distrib max b)
  have m: "uint (ULLONG_MAX - word_of_int val) = 18446744073709551615 - val"
  proof -
    have "ULLONG_MAX - word_of_int val = word_of_int (18446744073709551615 - val)"
      by (simp add: ULLONG_MAX_def)
    then show ?thesis using val by (simp only: uint_of_int_u64)
  qed
  have gt: "18446744073709551615 div base < uint y \<longleftrightarrow> 18446744073709551615 < uint y * base"
  proof
    assume "18446744073709551615 div base < uint y"
    then have "(18446744073709551615 div base + 1) * base \<le> uint y * base"
      using base by (intro mult_right_mono) simp_all
    moreover have "18446744073709551615 < (18446744073709551615 div base + 1) * base"
      using base pos_mod_bound [of base 18446744073709551615]
        div_mult_mod_eq [of 18446744073709551615 base] unfolding distrib_right by linarith
    ultimately show "18446744073709551615 < uint y * base" by linarith
  next
    assume h: "18446744073709551615 < uint y * base"
    show "18446744073709551615 div base < uint y"
    proof (rule ccontr)
      assume "\<not> 18446744073709551615 div base < uint y"
      then have "uint y * base \<le> 18446744073709551615 div base * base"
        using base by (intro mult_right_mono) simp_all
      moreover have "18446744073709551615 div base * base \<le> 18446744073709551615"
        using base pos_mod_sign [of base 18446744073709551615]
          div_mult_mod_eq [of 18446744073709551615 base] by linarith
      ultimately show False using h by linarith
    qed
  qed
  have pos: "0 \<le> uint y * base" using base by simp
  have mul: "uint (word_of_int base * y) = uint y * base" if "uint y * base \<le> 18446744073709551615"
  proof -
    have "word_of_int base * y = word_of_int (uint y * base)" by (simp add: mult.commute)
    then show ?thesis using that pos by (simp only: uint_of_int_u64)
  qed
  show "?ovf \<longleftrightarrow> 18446744073709551616 \<le> uint y * base + val"
  proof (cases "18446744073709551615 < uint y * base")
    case True
    then show ?thesis using gt val d by (simp add: word_less_def)
  next
    case False
    then show ?thesis using gt d mul m val by (simp add: word_less_def) linarith
  qed
  show "uint (y * word_of_int base + word_of_int val) = uint y * base + val"
    if "uint y * base + val < 18446744073709551616"
  proof -
    have "y * word_of_int base + word_of_int val = word_of_int (uint y * base + val)" by simp
    then show ?thesis using that pos val by (simp only: uint_of_int_u64)
  qed
qed

lemma strtox_digits_spec:
  assumes "2 \<le> base" "base \<le> 36"
  shows "terminated m s \<Longrightarrow> ds = takeWhile (is_digit_in base) (cstr m s) \<Longrightarrow>
    \<exists>y' f'. strtox_digits m s base y f ovf = Some (s + length ds, y', f',
        ovf \<or> 18446744073709551616 \<le> num_value base (uint y) ds) \<and>
      (f \<longrightarrow> f') \<and> (ds = [] \<longrightarrow> f' = f) \<and> (ds \<noteq> [] \<and> y = 0 \<longrightarrow> f') \<and>
      (num_value base (uint y) ds < 18446744073709551616 \<longrightarrow> uint y' = num_value base (uint y) ds)"
  using assms
proof (induction m s base y f ovf arbitrary: ds rule: strtox_digits.induct)
  case (1 m s base y f ovf)
  note u = strtox_digits.simps [of m s base y f ovf]
  show ?case
  proof (cases ds)
    case Nil
    define b where "b = (case cstr m s of [] \<Rightarrow> 0 | b # _ \<Rightarrow> b)"
    have "\<not> is_digit_in base b"
      using Nil "1.prems"(2) by (auto simp: b_def split: list.splits if_splits)
    then have "strtox_digits m s base y f ovf = Some (s, y, f, ovf)"
      using cstr_head [OF "1.prems"(1)]
      by (auto simp: u is_digit_in_def simp flip: b_def split: option.splits)
    then show ?thesis using Nil uint_u64_less [of y] by auto
  next
    case (Cons b bs)
    then obtain rest where r: "cstr m s = b # rest" "is_digit_in base b"
      "bs = takeWhile (is_digit_in base) rest"
      using "1.prems"(2) by (cases "cstr m s") (auto split: if_splits)
    note c = cstr_Cons [OF "1.prems"(1) r(1)]
    obtain v where v: "digit_val (sint b) = Some v" "v < base"
      using r(2) by (auto simp: is_digit_in_def split: option.splits)
    have vb: "0 \<le> v" "v < 36" using digit_val_bounds [OF v(1)] by simp_all
    note T = overflow_test [OF "1.prems"(3,4) vb, of y]
    have bs: "\<forall>b\<in>set bs. is_digit_in base b" using r(3) by (auto dest: set_takeWhileD)
    have nb: "\<not> base \<le> v" using v(2) by simp
    have r': "bs = takeWhile (is_digit_in base) (cstr m (s + 1))" using r(3) c(4) by simp
    show ?thesis
    proof (cases "18446744073709551616 \<le> uint y * base + v")
      case True
      have "uint y * base + v \<le> num_value base (uint y * base + v) bs"
        using "1.prems"(3) vb bs by (intro num_value_mono) simp_all
      then have big: "18446744073709551616 \<le> num_value base (uint y) ds"
        using True Cons v(1) by simp
      have y0: "y \<noteq> 0" using True vb by auto
      have ovf: "ULLONG_MAX div word_of_int base < y \<or> ULLONG_MAX - word_of_int v < word_of_int base * y"
        using T(1) True by blast
      obtain y' f' where "strtox_digits m (s + 1) base y f True = Some (s + 1 + length bs, y', f', True)"
        "f \<longrightarrow> f'"
        using "1.IH"(1) [OF c(1) v(1) nb ovf c(3) r' "1.prems"(3,4)] by auto
      then show ?thesis using u c(1) v ovf big Cons y0 by auto
    next
      case False
      let ?y = "y * word_of_int base + word_of_int v"
      have uy: "uint ?y = uint y * base + v" using T(2) False by simp
      have no: "\<not> (ULLONG_MAX div word_of_int base < y \<or> ULLONG_MAX - word_of_int v < word_of_int base * y)"
        using T(1) False by blast
      obtain y' f' where i: "strtox_digits m (s + 1) base ?y True ovf = Some (s + 1 + length bs, y', f',
          ovf \<or> 18446744073709551616 \<le> num_value base (uint ?y) bs)" "f'"
        "num_value base (uint ?y) bs < 18446744073709551616 \<longrightarrow> uint y' = num_value base (uint ?y) bs"
        using "1.IH"(2) [OF c(1) v(1) nb no c(3) r' "1.prems"(3,4)] by blast
      have "strtox_digits m s base y f ovf = strtox_digits m (s + 1) base ?y True ovf"
        using u c(1) v(1) nb no by simp
      moreover have "num_value base (uint y) ds = num_value base (uint ?y) bs"
        using Cons v(1) uy by simp
      ultimately show ?thesis using i Cons by auto
    qed
  qed
qed

text \<open>The value a C \<open>strtol\<close> must return and whether it is out of range.\<close>

definition clamp_long :: "int \<Rightarrow> int" where
  "clamp_long v = max (- 2147483648) (min 2147483647 v)"

lemma sint_ucast_u64:
  "sint (ucast (word_of_int k :: u64) :: u32) = signed_take_bit 31 k"
proof (rule bit_eqI)
  fix n
  show "bit (sint (ucast (word_of_int k :: u64) :: u32)) n = bit (signed_take_bit 31 k) n"
    by (cases "n < 31"; cases "n = 31")
      (auto simp: bit_sint_iff bit_ucast_iff bit_word_of_int_iff bit_signed_take_bit_iff min_def)
qed

lemma sint_long:
  "- 2147483648 \<le> k \<Longrightarrow> k < 2147483648 \<Longrightarrow> sint (ucast (word_of_int k :: u64) :: u32) = k"
  unfolding sint_ucast_u64 by (rule signed_take_bit_int_eq_self) simp_all

lemma neg_word: "((y :: u64) XOR (- 1)) - (- 1) = - y"
proof -
  have "y XOR (- 1) = NOT y" by (rule bit_word_eqI) (simp add: bit_xor_iff bit_not_iff)
  then show ?thesis unfolding diff_minus_eq_add minus_eq_not_plus_1 [of y] by simp
qed

lemma strtox_finish_long:
  assumes v: "0 \<le> v" "ovf \<longleftrightarrow> 18446744073709551616 \<le> v"
    and y: "v < 18446744073709551616 \<Longrightarrow> uint y = v"
    and r: "strtox_finish y neg ovf 0x80000000 = (r, e)"
  shows "sint (ucast r :: u32) = clamp_long (if neg then - v else v) \<and>
    e = (if clamp_long (if neg then - v else v) = (if neg then - v else v) then None else Some ERANGE)"
proof -
  define lim :: u64 where "lim = 0x80000000"
  have lim: "lim = word_of_int 2147483648" "uint lim = 2147483648" "lim - 1 = word_of_int 2147483647"
    "lim AND 1 = 0" "- lim = word_of_int (- 2147483648)"
    by (simp_all add: lim_def)
  have s: "sint (ucast lim :: u32) = - 2147483648" "sint (ucast (lim - 1) :: u32) = 2147483647"
    "sint (ucast (- lim) :: u32) = - 2147483648"
    by (simp_all add: lim_def)
  note r' = r [folded lim_def, unfolded strtox_finish_def neg_word Let_def]
  show ?thesis
  proof (cases ovf)
    case True
    then show ?thesis using r' v lim(4) s by (cases neg) (auto simp: clamp_long_def)
  next
    case False
    then have uy: "uint y = v" using v y by simp
    then have yw: "y = word_of_int v" by (metis word_of_int_uint)
    consider "v < 2147483648" | "v = 2147483648" | "2147483648 < v" by linarith
    then show ?thesis
    proof cases
      case 1
      then have "\<not> lim \<le> y" using uy lim(2) by (simp add: word_le_def)
      then have "r = (if neg then - y else y)" "e = None" using r' False by auto
      moreover have "- y = word_of_int (- v)" by (simp add: yw)
      ultimately show ?thesis using 1 v(1) sint_long [of v] sint_long [of "- v"] yw
        by (auto simp: clamp_long_def)
    next
      case 2
      then have "y = lim" using yw lim(1) by simp
      then show ?thesis using r' False lim(4) s 2 by (cases neg) (auto simp: clamp_long_def)
    next
      case 3
      then have "lim < y" "lim \<le> y" using uy lim(2) by (simp_all add: word_less_def word_le_def)
      then show ?thesis using r' False lim(4) s 3 by (cases neg) (auto simp: clamp_long_def)
    qed
  qed
qed

lemma strtox_prefix_plain: "base \<noteq> 0 \<Longrightarrow> base \<noteq> 16 \<Longrightarrow> strtox_prefix m s base = Some (s, base, False)"
  by (simp add: strtox_prefix_def)

text \<open>Both conversions split a terminated text as \<open>int_text\<close> does.\<close>

lemma int_text_split:
  assumes t: "terminated m s" and i: "int_text base (cstr m s) = (neg, k, ds)"
    and w: "w = length (takeWhile (\<lambda>b. c_isspace (sint b)) (cstr m s))"
  obtains b where "ld8 m (s + w) = Some b" "neg \<longleftrightarrow> b = 45"
    "k = w + (if b = 43 \<or> b = 45 then 1 else 0)" "terminated m (s + k)"
    "ds = takeWhile (is_digit_in base) (cstr m (s + k))"
proof -
  have wl: "w \<le> length (cstr m s)" unfolding w by (rule length_takeWhile_le)
  note tw = cstr_split [OF t wl]
  define b where "b = (case drop w (cstr m s) of [] \<Rightarrow> 0 | c # _ \<Rightarrow> c)"
  have ld: "ld8 m (s + w) = Some b" using cstr_head [OF tw(1)] tw(2) by (simp add: b_def)
  have nk: "neg \<longleftrightarrow> b = 45" "k = w + (if b = 43 \<or> b = 45 then 1 else 0)"
    "ds = takeWhile (is_digit_in base) (drop k (cstr m s))"
    using i by (auto simp: int_text_def Let_def b_def simp flip: w split: list.splits)
  have "b \<noteq> 0 \<Longrightarrow> w < length (cstr m s)"
  proof (rule ccontr)
    assume "b \<noteq> 0" "\<not> w < length (cstr m s)"
    then show False by (simp add: b_def)
  qed
  then have kl: "k \<le> length (cstr m s)" using nk(2) wl by (cases "b = 0") auto
  note tk = cstr_split [OF t kl]
  show ?thesis using that [OF ld nk(1,2) tk(1)] nk(3) tk(2) by simp
qed

lemma num_value_nonneg: "1 \<le> base \<Longrightarrow> \<forall>b\<in>set ds. is_digit_in base b \<Longrightarrow> 0 \<le> num_value base 0 ds"
  by (rule num_value_mono) simp_all

lemma strtol_spec:
  assumes "terminated m s" "2 \<le> base" "base \<le> 36" "base \<noteq> 16"
    and "int_text base (cstr m s) = (neg, k, ds)"
    and "v = (if neg then - num_value base 0 ds else num_value base 0 ds)"
  shows "strtol m s True base = Some (clamp_long v,
    Some (if ds = [] then s else s + k + length ds), if clamp_long v = v then None else Some ERANGE)"
proof -
  define w where "w = length (takeWhile (\<lambda>b. c_isspace (sint b)) (cstr m s))"
  obtain b where b: "ld8 m (s + w) = Some b" "neg \<longleftrightarrow> b = 45"
    "k = w + (if b = 43 \<or> b = 45 then 1 else 0)" "terminated m (s + k)"
    "ds = takeWhile (is_digit_in base) (cstr m (s + k))"
    using int_text_split [OF assms(1,5) w_def] .
  let ?ovf = "18446744073709551616 \<le> num_value base 0 ds"
  obtain y f where y: "strtox_digits m (s + k) base 0 False False = Some (s + k + length ds, y, f,
      False \<or> 18446744073709551616 \<le> num_value base (uint (0 :: u64)) ds)"
    "ds = [] \<longrightarrow> f = False" "ds \<noteq> [] \<and> (0 :: u64) = 0 \<longrightarrow> f"
    "num_value base (uint (0 :: u64)) ds < 18446744073709551616 \<longrightarrow> uint y = num_value base (uint (0 :: u64)) ds"
    using strtox_digits_spec [OF assms(2,3) b(4,5), of 0 False False] by blast
  then have d: "strtox_digits m (s + k) base 0 False False = Some (s + k + length ds, y, f, ?ovf)"
    "f \<longleftrightarrow> ds \<noteq> []" "num_value base 0 ds < 18446744073709551616 \<longrightarrow> uint y = num_value base 0 ds"
    by auto
  obtain r e where re: "strtox_finish y neg ?ovf 0x80000000 = (r, e)" by force
  have "\<forall>b\<in>set ds. is_digit_in base b" using b(5) by (auto dest: set_takeWhileD)
  then have "0 \<le> num_value base 0 ds" using assms(2) by (intro num_value_nonneg) simp_all
  note fin = strtox_finish_long [OF this refl _ re]
  have "strtox m s True base 0x80000000 =
      Some \<lparr>ret = r, endp = Some (if ds \<noteq> [] then s + k + length ds else s), errno = e\<rparr>"
    using assms(2-4) strtox_skip_spec [OF assms(1)] b d re
    by (auto simp: strtox_def strtox_prefix_plain simp flip: w_def)
  then show ?thesis using fin d(3) assms(6) by (auto simp: strtol_def)
qed

text \<open>
  C17: For every base from 2 to 36 but 16, \<open>strtol\<close> reads the white space, sign and digits the C
  standard prescribes, returns their value clamped to the 32-bit \<open>long\<close>, sets \<open>errno\<close> to
  \<open>ERANGE\<close> exactly when it clamps, and stores the end of the digits, or the start of the text
  when there are none.
\<close>
theorem strtol_correct:
  assumes "terminated m s" "2 \<le> base" "base \<le> 36" "base \<noteq> 16"
    and "int_text base (cstr m s) = (neg, k, ds)"
    and "v = (if neg then - num_value base 0 ds else num_value base 0 ds)"
  shows "strtol m s True base = Some (clamp_long v,
    Some (if ds = [] then s else s + k + length ds), if clamp_long v = v then None else Some ERANGE)"
  using assms by (rule strtol_spec)

theorem strtol_correct_witness:
  "strtol [32, 45, 49, 50, 120, 0] 0 True 10 = Some (-12, Some 4, None)"
proof -
  let ?m = "[32, 45, 49, 50, 120, 0 :: u8]"
  have c: "cstr ?m 0 = [32, 45, 49, 50, 120]" by (simp add: cstr_def)
  have i: "int_text 10 (cstr ?m 0) = (True, 2, [49, 50])"
    unfolding c by (simp add: int_text_def c_isspace_def is_digit_in_def digit_val_def)
  have t: "terminated ?m 0" by (simp add: terminated_def)
  have v: "num_value 10 0 [49, 50] = 12" by (simp add: digit_val_def)
  show ?thesis using strtol_correct [OF t _ _ _ i refl] unfolding v by (simp add: clamp_long_def)
qed

text \<open>
  The text \<open>0x\<close> with no hexadecimal digit after it: C makes \<open>0\<close> the number and stores the
  address of the \<open>x\<close>; this \<open>strtox\<close> has set \<open>found_digit\<close> and stores the address after the \<open>x\<close>.
\<close>

lemma strtol_bare_prefix: "strtol [48, 120, 103, 0] 0 True 16 = Some (0, Some 2, None)"
  by (simp add: strtol_def strtox_def strtox_skip.simps [of _ 0] strtox_prefix_def
      strtox_digits.simps [of _ "Suc (Suc 0)"] strtox_finish_def c_isspace_def digit_val_def)

section \<open>atoi: correctness\<close>

lemma atoi_digits_spec:
  "terminated m s \<Longrightarrow> ds = takeWhile (is_digit_in 10) (cstr m s) \<Longrightarrow> n \<le> 0 \<Longrightarrow>
    atoi_digits m s n = (if num_value 10 (- n) ds \<le> 2147483648 \<or> ds = [] then Some (- num_value 10 (- n) ds) else None)"
proof (induction m s n arbitrary: ds rule: atoi_digits.induct)
  case (1 m s n)
  note u = atoi_digits.simps [of m s n, unfolded mult.commute [of 10 n]]
  show ?case
  proof (cases ds)
    case Nil
    define b where "b = (case cstr m s of [] \<Rightarrow> 0 | b # _ \<Rightarrow> b)"
    have "\<not> is_digit_in 10 b"
      using Nil "1.prems"(2) by (auto simp: b_def split: list.splits if_splits)
    then show ?thesis
      using cstr_head [OF "1.prems"(1)] Nil by (simp add: u c_isdigit_iff flip: b_def)
  next
    case (Cons b bs)
    then obtain rest where r: "cstr m s = b # rest" "is_digit_in 10 b"
      "bs = takeWhile (is_digit_in 10) rest"
      using "1.prems"(2) by (cases "cstr m s") (auto split: if_splits)
    note c = cstr_Cons [OF "1.prems"(1) r(1)]
    have v: "digit_val (sint b) = Some (sint b - 48)" "0 \<le> sint b - 48" "sint b - 48 < 10"
      using r(2) by (auto simp: is_digit_in_def digit_val_def split: if_splits)
    let ?n = "n * 10 - (sint b - 48)"
    have bs: "\<forall>b\<in>set bs. is_digit_in 10 b" using r(3) by (auto dest: set_takeWhileD)
    have val: "num_value 10 (- n) ds = num_value 10 (- ?n) bs" using Cons v(1) by simp
    have mono: "- ?n \<le> num_value 10 (- ?n) bs"
      using "1.prems"(3) v bs by (intro num_value_mono) simp_all
    show ?thesis
    proof (cases "?n < - 2147483648")
      case True
      then show ?thesis using c(1) r(2) val mono Cons by (simp add: u c_isdigit_iff)
    next
      case False
      have n0: "?n \<le> 0" using "1.prems"(3) v by simp
      have "atoi_digits m (s + 1) ?n = (if num_value 10 (- ?n) bs \<le> 2147483648 \<or> bs = []
          then Some (- num_value 10 (- ?n) bs) else None)"
        using "1.IH" [unfolded mult.commute [of 10 n], OF c(1) _ refl False c(3) _ n0] r(2,3) c(4) by (simp add: c_isdigit_iff)
      then show ?thesis using c(1) r(2) False val Cons
        by (cases bs) (auto simp: u c_isdigit_iff)
    qed
  qed
qed

lemma atoi_spec:
  assumes "terminated m s" "int_text 10 (cstr m s) = (neg, k, ds)"
    and "v = (if neg then - num_value 10 0 ds else num_value 10 0 ds)"
  shows "atoi m s = (if - 2147483648 \<le> v \<and> v \<le> 2147483647 then Some v else None)"
proof -
  define w where "w = length (takeWhile (\<lambda>b. c_isspace (sint b)) (cstr m s))"
  obtain b where b: "ld8 m (s + w) = Some b" "neg \<longleftrightarrow> b = 45"
    "k = w + (if b = 43 \<or> b = 45 then 1 else 0)" "terminated m (s + k)"
    "ds = takeWhile (is_digit_in 10) (cstr m (s + k))"
    using int_text_split [OF assms(1,2) w_def] .
  have "\<forall>b\<in>set ds. is_digit_in 10 b" using b(5) by (auto dest: set_takeWhileD)
  then have pos: "0 \<le> num_value 10 0 ds" by (intro num_value_nonneg) simp_all
  have d: "atoi_digits m (s + k) 0 = (if num_value 10 0 ds \<le> 2147483648 then Some (- num_value 10 0 ds) else None)"
    using atoi_digits_spec [OF b(4,5), of 0] by (cases ds) simp_all
  have "(if b = 45 \<or> b = 43 then s + w + 1 else s + w) = s + k" using b(3) by auto
  then have "atoi m s = do { n \<leftarrow> atoi_digits m (s + k) 0;
      if b = 45 then Some n else if n = - 2147483648 then None else Some (- n) }"
    using atoi_skip_spec [OF assms(1)] b(1) by (simp add: atoi_def Let_def flip: w_def)
  then show ?thesis unfolding d using pos b(2) assms(3) by auto
qed

text \<open>
  C18: \<open>atoi\<close> returns the value of the decimal text (white space, optional sign, digits; zero when
  there are none) whenever that value is an \<open>int\<close>, \<open>INT_MIN\<close> included, without overflowing on
  the way; on every other text its arithmetic overflows.
\<close>
theorem atoi_correct:
  assumes "terminated m s" "int_text 10 (cstr m s) = (neg, k, ds)"
    and "v = (if neg then - num_value 10 0 ds else num_value 10 0 ds)"
  shows "atoi m s = (if - 2147483648 \<le> v \<and> v \<le> 2147483647 then Some v else None)"
  using assms by (rule atoi_spec)

theorem atoi_correct_witness:
  "atoi [32, 45, 50, 49, 52, 55, 52, 56, 51, 54, 52, 56, 0] 0 = Some (- 2147483648)"
proof -
  let ?m = "[32, 45, 50, 49, 52, 55, 52, 56, 51, 54, 52, 56, 0 :: u8]"
  let ?d = "[50, 49, 52, 55, 52, 56, 51, 54, 52, 56 :: u8]"
  have c: "cstr ?m 0 = 32 # 45 # ?d" by (simp add: cstr_def)
  have i: "int_text 10 (cstr ?m 0) = (True, 2, ?d)"
    unfolding c by (simp add: int_text_def c_isspace_def is_digit_in_def digit_val_def)
  have t: "terminated ?m 0" by (simp add: terminated_def)
  have v: "num_value 10 0 ?d = 2147483648" by (simp add: digit_val_def)
  show ?thesis using atoi_correct [OF t i refl] unfolding v by simp
qed

section \<open>bsearch: correctness\<close>

text \<open>The elements are in order: the sign of the key against them never increases along the array.\<close>

lemma bsearch_range:
  assumes below: "\<And>i j. i \<le> j \<Longrightarrow> j < nel \<Longrightarrow> cmp (base + width * i) < 0 \<Longrightarrow> cmp (base + width * j) < 0"
    and above: "\<And>i j. i \<le> j \<Longrightarrow> j < nel \<Longrightarrow> cmp (base + width * j) > 0 \<Longrightarrow> cmp (base + width * i) > 0"
  shows "lo + n \<le> nel \<Longrightarrow> (case bsearch cmp (base + width * lo) n width of
     None \<Rightarrow> \<forall>i. lo \<le> i \<and> i < lo + n \<longrightarrow> cmp (base + width * i) \<noteq> 0
   | Some p \<Rightarrow> \<exists>i. lo \<le> i \<and> i < lo + n \<and> p = base + width * i \<and> cmp p = 0)"
proof (induction n arbitrary: lo rule: less_induct)
  case (less n)
  let ?p = "base + width * lo + width * (n div 2)" and ?mid = "lo + n div 2"
  have p: "?p = base + width * ?mid" by (simp add: algebra_simps)
  note u = bsearch.simps [of cmp "base + width * lo" n width]
  show ?case
  proof (cases "n = 0")
    case True
    then show ?thesis unfolding u by simp
  next
    case False
    then have mid: "?mid < lo + n" "n div 2 < n" by simp_all
    consider "cmp ?p < 0" | "0 < cmp ?p" | "cmp ?p = 0" by linarith
    then show ?thesis
    proof cases
      case 1
      have "cmp (base + width * i) \<noteq> 0" if "?mid \<le> i" "i < lo + n" for i
        using below [OF that(1)] that 1 less.prems unfolding p by auto
      then have ge: "\<And>i. cmp (base + width * i) = 0 \<Longrightarrow> i < lo + n \<Longrightarrow> i < ?mid" by (meson not_le)
      have r: "bsearch cmp (base + width * lo) n width = bsearch cmp (base + width * lo) (n div 2) width"
        using u False 1 by (simp add: Let_def)
      have i: "case bsearch cmp (base + width * lo) (n div 2) width of
         None \<Rightarrow> \<forall>i. lo \<le> i \<and> i < ?mid \<longrightarrow> cmp (base + width * i) \<noteq> 0
       | Some p \<Rightarrow> \<exists>i. lo \<le> i \<and> i < ?mid \<and> p = base + width * i \<and> cmp p = 0"
        using less.IH [OF mid(2), of lo] less.prems mid by simp
      show ?thesis
      proof (cases "bsearch cmp (base + width * lo) (n div 2) width")
        case None
        then show ?thesis using i ge r by auto
      next
        case (Some p)
        then obtain i where "lo \<le> i" "i < ?mid" "p = base + width * i" "cmp p = 0" using i by auto
        then show ?thesis using mid(1) r Some by (auto intro!: exI [of _ i])
      qed
    next
      case 2
      have lt: "cmp (base + width * i) \<noteq> 0" if "lo \<le> i" "i \<le> ?mid" for i
        using above [OF that(2)] mid 2 less.prems unfolding p by auto
      have q: "?p + width = base + width * (?mid + 1)" by (simp add: algebra_simps)
      have "bsearch cmp (base + width * lo) n width = bsearch cmp (?p + width) (n - (n div 2 + 1)) width"
        using u False 2 by (simp add: Let_def)
      then have r: "bsearch cmp (base + width * lo) n width =
          bsearch cmp (base + width * (?mid + 1)) (n - (n div 2 + 1)) width"
        unfolding q .
      have e: "?mid + 1 + (n - (n div 2 + 1)) = lo + n" using False by simp
      have "n - (n div 2 + 1) < n" using False by simp
      then have "case bsearch cmp (base + width * (?mid + 1)) (n - (n div 2 + 1)) width of
         None \<Rightarrow> \<forall>i. ?mid + 1 \<le> i \<and> i < lo + n \<longrightarrow> cmp (base + width * i) \<noteq> 0
       | Some p \<Rightarrow> \<exists>i. ?mid + 1 \<le> i \<and> i < lo + n \<and> p = base + width * i \<and> cmp p = 0"
        using less.IH [of "n - (n div 2 + 1)" "?mid + 1", unfolded e] less.prems by blast
      note i = this
      have ge: "\<And>i. cmp (base + width * i) = 0 \<Longrightarrow> lo \<le> i \<Longrightarrow> ?mid + 1 \<le> i"
        using lt by (metis Suc_eq_plus1 not_less_eq_eq)
      show ?thesis
      proof (cases "bsearch cmp (base + width * (?mid + 1)) (n - (n div 2 + 1)) width")
        case None
        then show ?thesis using i ge r by auto
      next
        case (Some p)
        then obtain i where "?mid + 1 \<le> i" "i < lo + n" "p = base + width * i" "cmp p = 0" using i by auto
        then show ?thesis using r Some by (auto intro!: exI [of _ i])
      qed
    next
      case 3
      then have "bsearch cmp (base + width * lo) n width = Some (base + width * ?mid)"
        using u False p by (simp add: Let_def)
      moreover have "cmp (base + width * ?mid) = 0" using 3 p by simp
      ultimately show ?thesis using mid(1) by (auto intro!: exI [of _ ?mid])
    qed
  qed
qed

section \<open>Decimal numbers\<close>

text \<open>The decimal text of a number, as \<open>%d\<close> prints it.\<close>

fun decimal :: "nat \<Rightarrow> u8 list" where
  "decimal n = (if n < 10 then [48 + word_of_nat n] else decimal (n div 10) @ [48 + word_of_nat (n mod 10)])"

declare decimal.simps [simp del]

lemma digit_char: "k < 10 \<Longrightarrow> sint (48 + word_of_nat k :: u8) = 48 + int k"
proof -
  assume "k < 10"
  then have "k = 0 \<or> k = 1 \<or> k = 2 \<or> k = 3 \<or> k = 4 \<or> k = 5 \<or> k = 6 \<or> k = 7 \<or> k = 8 \<or> k = 9" by auto
  then show ?thesis by (elim disjE) simp_all
qed

lemma decimal_nonempty [simp]: "decimal n \<noteq> []"
  by (simp add: decimal.simps)

lemma num_value_append: "num_value base a (xs @ ys) = num_value base (num_value base a xs) ys"
  by (simp add: num_value_def)

lemma num_value_decimal: "num_value 10 0 (decimal n) = int n"
proof (induction n rule: decimal.induct)
  case (1 n)
  have d: "the (digit_val (sint (48 + word_of_nat k :: u8))) = int k" if "k < 10" for k
    using digit_char [OF that] that by (simp add: digit_val_def)
  show ?case
  proof (cases "n < 10")
    case True
    then show ?thesis using d [of n] by (simp add: decimal.simps [of n])
  next
    case False
    have "int n = int (n div 10) * 10 + int (n mod 10)" by presburger
    then show ?thesis using False 1 d [of "n mod 10"] by (simp add: decimal.simps [of n] num_value_append)
  qed
qed

section \<open>Comparison functions\<close>

text \<open>
  The contract of a comparison function for \<open>bsearch\<close> and \<open>qsort\<close>: on the values of \<open>D\<close> its sign
  orders them totally. The search is correct for every comparison that meets it.
\<close>

locale comparison =
  fixes cmp :: "'a \<Rightarrow> 'a \<Rightarrow> int" and D :: "'a set"
  assumes flip: "x \<in> D \<Longrightarrow> y \<in> D \<Longrightarrow> cmp x y < 0 \<longleftrightarrow> cmp y x > 0"
    and trans: "x \<in> D \<Longrightarrow> y \<in> D \<Longrightarrow> z \<in> D \<Longrightarrow> cmp x y \<le> 0 \<Longrightarrow> cmp y z \<le> 0 \<Longrightarrow> cmp x z \<le> 0"
    and zero: "x \<in> D \<Longrightarrow> y \<in> D \<Longrightarrow> cmp x y = 0 \<longleftrightarrow> x = y"
begin

lemma strict_left: "x \<in> D \<Longrightarrow> y \<in> D \<Longrightarrow> z \<in> D \<Longrightarrow> cmp x y < 0 \<Longrightarrow> cmp y z \<le> 0 \<Longrightarrow> cmp x z < 0"
  using trans [of x y z] zero [of x z] flip [of x y] flip [of x z] zero [of x y] by fastforce

lemma strict_right: "x \<in> D \<Longrightarrow> y \<in> D \<Longrightarrow> z \<in> D \<Longrightarrow> cmp x y \<le> 0 \<Longrightarrow> cmp z y > 0 \<Longrightarrow> cmp z x > 0"
  using trans [of z x y] zero [of x z] zero [of x y] flip [of x z] flip [of y z] flip [of y x] flip [of z x] trans [of y z x]
  by (smt (verit, best))

lemma bsearch_sorted:
  assumes "set xs \<subseteq> D" "key \<in> D" and sorted: "sorted_wrt (\<lambda>x y. cmp x y \<le> 0) xs"
    and elems: "\<And>i. i < length xs \<Longrightarrow> f (base + width * i) = cmp key (xs ! i)"
  shows "case bsearch f base (length xs) width of
     None \<Rightarrow> key \<notin> set xs
   | Some p \<Rightarrow> \<exists>i < length xs. p = base + width * i \<and> xs ! i = key"
proof -
  have D: "\<And>i. i < length xs \<Longrightarrow> xs ! i \<in> D" using assms(1) by auto
  have le: "i \<le> j \<Longrightarrow> j < length xs \<Longrightarrow> cmp (xs ! i) (xs ! j) \<le> 0" for i j
    using sorted zero [of "xs ! i" "xs ! i"] D [of i] by (cases "i = j") (auto simp: sorted_wrt_iff_nth_less)
  have b: "f (base + width * j) < 0" if "i \<le> j" "j < length xs" "f (base + width * i) < 0" for i j
    using strict_left [OF assms(2) D D, of i j] le [OF that(1,2)] that elems by simp
  have a: "f (base + width * i) > 0" if "i \<le> j" "j < length xs" "f (base + width * j) > 0" for i j
    using strict_right [OF D D assms(2), of i j] le [OF that(1,2)] that elems by simp
  have "case bsearch f (base + width * 0) (length xs) width of
     None \<Rightarrow> \<forall>i. 0 \<le> i \<and> i < 0 + length xs \<longrightarrow> f (base + width * i) \<noteq> 0
   | Some p \<Rightarrow> \<exists>i. 0 \<le> i \<and> i < 0 + length xs \<and> p = base + width * i \<and> f p = 0"
    by (rule bsearch_range [where nel = "length xs"]) (use b a in auto)
  moreover have "f (base + width * i) = 0 \<longleftrightarrow> xs ! i = key" if "i < length xs" for i
    using elems [OF that] zero [OF assms(2) D [OF that]] by auto
  ultimately show ?thesis by (auto split: option.splits simp: in_set_conv_nth)
qed

end

end
