(* ===== verification/VecBase.thy ===== *)
theory VecBase
  imports Prelude
begin

text \<open>
  What the parts of \<^verbatim>\<open>extensions/sqlite-vec/cc/sqlite-vec.c\<close> share: typed C arrays with
  trapping accesses, the 64-bit integers, and the order of \<open>float\<close> values, which are their
  IEEE 754 bit patterns.
\<close>

section \<open>Typed arrays\<close>

definition rd :: "'a list \<Rightarrow> nat \<Rightarrow> 'a option" where
  "rd xs i = (if i < length xs then Some (xs ! i) else None)"

definition wr :: "'a list \<Rightarrow> nat \<Rightarrow> 'a \<Rightarrow> 'a list option" where
  "wr xs i x = (if i < length xs then Some (xs[i := x]) else None)"

lemma rd_in [simp]: "i < length xs \<Longrightarrow> rd xs i = Some (xs ! i)"
  by (simp add: rd_def)

lemma wr_in [simp]: "i < length xs \<Longrightarrow> wr xs i x = Some (xs[i := x])"
  by (simp add: wr_def)

lemma rd_Some [mem_simps]: "rd xs i = Some x \<longleftrightarrow> i < length xs \<and> x = xs ! i"
  by (auto simp: rd_def)

lemma wr_Some [mem_simps]: "wr xs i x = Some ys \<longleftrightarrow> i < length xs \<and> ys = xs[i := x]"
  by (auto simp: wr_def)

lemma take_list_update_Suc: "i < length xs \<Longrightarrow> take (Suc i) (xs[i := x]) = take i xs @ [x]"
  by (simp add: take_Suc_conv_app_nth)

type_synonym i64 = "64 word"

section \<open>Literals, codes and results\<close>

text \<open>The bytes of a string literal, without its terminator.\<close>

definition lit :: "string \<Rightarrow> u8 list" where
  "lit s = map (\<lambda>c. word_of_nat (of_char c)) s"

lemma lit_simps [simp]:
  "lit [] = []" "lit (c # s) = word_of_nat (of_char c) # lit s" "length (lit s) = length s"
  by (simp_all add: lit_def)

text \<open>The result of a parser: \<open>SQLITE_EMPTY\<close>, \<open>SQLITE_ERROR\<close>, or \<open>SQLITE_OK\<close> with its outputs.\<close>

datatype 'a parsed = EMPTY | ERROR | OK 'a

datatype element_type = FLOAT32 | INT8 | BIT

datatype distance_metric = L2 | COSINE | L1

section \<open>The order of float values\<close>

text \<open>
  A \<open>float\<close> is its bit pattern: the sign in bit 31, the exponent and the mantissa below it. A
  pattern whose lower 31 bits exceed those of the infinity is a NaN and compares false; the
  others are ordered by their signed magnitude, the two zeros being equal.
\<close>

type_synonym f32 = "32 word"

definition f32_mag :: "f32 \<Rightarrow> int" where
  "f32_mag x = uint (x AND 0x7FFFFFFF)"

definition f32_nan :: "f32 \<Rightarrow> bool" where
  "f32_nan x \<longleftrightarrow> f32_mag x > 0x7F800000"

definition f32_key :: "f32 \<Rightarrow> int" where
  "f32_key x = (if bit x 31 then - f32_mag x else f32_mag x)"

definition f32_le :: "f32 \<Rightarrow> f32 \<Rightarrow> bool" where
  "f32_le x y \<longleftrightarrow> \<not> f32_nan x \<and> \<not> f32_nan y \<and> f32_key x \<le> f32_key y"

lemma f32_le_key: "\<not> f32_nan x \<Longrightarrow> \<not> f32_nan y \<Longrightarrow> f32_le x y \<longleftrightarrow> f32_key x \<le> f32_key y"
  by (simp add: f32_le_def)

section \<open>Stable selection\<close>

text \<open>
  Sorting a list whose elements stand in decreasing index order, by a key, puts equal keys in
  decreasing index order.
\<close>

definition nearer :: "(nat \<Rightarrow> int) \<Rightarrow> nat \<Rightarrow> nat \<Rightarrow> bool" where
  "nearer key i j \<longleftrightarrow> key i < key j \<or> (key i = key j \<and> j < i)"

definition ranking :: "(nat \<Rightarrow> int) \<Rightarrow> (nat \<Rightarrow> bool) \<Rightarrow> nat \<Rightarrow> nat list" where
  "ranking key P n = sort_key key (rev (filter P [0..<n]))"

lemma nearer_trans: "nearer key i j \<Longrightarrow> nearer key j l \<Longrightarrow> nearer key i l"
  by (auto simp: nearer_def)

lemma insort_nearer:
  "sorted_wrt (nearer key) ys \<Longrightarrow> \<forall>y\<in>set ys. y < x \<Longrightarrow> sorted_wrt (nearer key) (insort_key key x ys)"
proof (induction ys)
  case (Cons y ys)
  show ?case
  proof (cases "key x \<le> key y")
    case True
    then have "nearer key x y" using Cons.prems by (auto simp: nearer_def)
    then show ?thesis using Cons.prems True nearer_trans by auto
  next
    case False
    then have "nearer key y x" by (simp add: nearer_def)
    then show ?thesis using Cons False by (auto simp: set_insort_key)
  qed
qed simp

lemma sort_key_nearer: "sorted_wrt (>) xs \<Longrightarrow> sorted_wrt (nearer key) (sort_key key xs)"
proof (induction xs)
  case (Cons x xs)
  then show ?case using insort_nearer [of key "sort_key key xs" x] by simp
qed simp

lemma ranking_nearer: "sorted_wrt (nearer key) (ranking key P n)"
proof -
  have "sorted_wrt (<) (filter P [0..<n])" by (simp add: sorted_wrt_filter)
  then show ?thesis unfolding ranking_def by (intro sort_key_nearer) (simp add: sorted_wrt_rev)
qed

lemma set_ranking: "set (ranking key P n) = {i. i < n \<and> P i}"
  by (auto simp: ranking_def)

lemma distinct_ranking: "distinct (ranking key P n)"
  by (simp add: ranking_def)

lemma length_ranking: "length (ranking key P n) \<le> n"
proof -
  have "length (filter P [0..<n]) \<le> length [0..<n]" by (rule length_filter_le)
  then show ?thesis by (simp add: ranking_def)
qed

lemma ranking_sorted: "sorted (map key (ranking key P n))"
  by (simp add: ranking_def)

text \<open>The next of a ranking is the element of the rest that is nearer than every other one.\<close>

lemma ranking_next:
  assumes j: "j < length (ranking key P n)" and m: "m \<in> set (drop j (ranking key P n))"
    and least: "\<And>i. i \<in> set (drop j (ranking key P n)) \<Longrightarrow> i = m \<or> nearer key m i"
  shows "ranking key P n ! j = m"
proof (rule ccontr)
  let ?r = "ranking key P n"
  assume ne: "?r ! j \<noteq> m"
  have d: "drop j ?r = ?r ! j # drop (Suc j) ?r" using j by (simp add: Cons_nth_drop_Suc)
  then have "?r ! j \<in> set (drop j ?r)" by simp
  then have 1: "nearer key m (?r ! j)" using least ne by auto
  have "sorted_wrt (nearer key) (drop j ?r)" by (rule sorted_wrt_drop [OF ranking_nearer])
  then have "\<forall>i\<in>set (drop (Suc j) ?r). nearer key (?r ! j) i" unfolding d by simp
  moreover have "m \<in> set (drop (Suc j) ?r)" using m ne unfolding d by simp
  ultimately have 2: "nearer key (?r ! j) m" by blast
  show False using 1 2 by (auto simp: nearer_def)
qed

end
