(* ===== verification/VecBitmap.thy ===== *)
theory VecBitmap
  imports VecBase
begin

text \<open>
  The candidate bitmaps of \<^verbatim>\<open>sqlite-vec.c\<close> and the two selections built on them: \<open>min_idx\<close>,
  the \<open>k\<close> nearest candidates of one chunk, and \<open>merge_sorted_lists\<close>, which folds them into the
  best rows of the chunks before. A bitmap is an array of bytes; reading or writing past its
  end traps. A failed allocation is \<open>None\<close> inside the value.
\<close>

section \<open>Bitmaps\<close>

definition bitmap_new :: "bool \<Rightarrow> nat \<Rightarrow> u8 list option option" where
  "bitmap_new oom n = (if n mod 8 = 0
     then Some (if oom then None else Some (replicate (n div 8) 0)) else None)"

definition bitmap_new_from :: "bool \<Rightarrow> nat \<Rightarrow> u8 list \<Rightarrow> u8 list option option" where
  "bitmap_new_from oom n src = (if n mod 8 = 0
     then if oom then Some None
          else if n div 8 \<le> length src then Some (Some (take (n div 8) src)) else None
     else None)"

definition bitmap_copy :: "u8 list \<Rightarrow> u8 list \<Rightarrow> nat \<Rightarrow> u8 list option" where
  "bitmap_copy base src n =
     (if n mod 8 = 0 \<and> n div 8 \<le> length base \<and> n div 8 \<le> length src
      then Some (take (n div 8) src @ drop (n div 8) base) else None)"

text \<open>The loop of \<open>bitmap_and_inplace\<close> from byte \<open>i\<close>.\<close>

function bitmap_and_loop :: "u8 list \<Rightarrow> u8 list \<Rightarrow> nat \<Rightarrow> nat \<Rightarrow> u8 list option" where
  "bitmap_and_loop base other bytes i =
     (if i < bytes then do {
        a \<leftarrow> rd base i;
        b \<leftarrow> rd other i;
        base \<leftarrow> wr base i (a AND b);
        bitmap_and_loop base other bytes (i + 1) }
      else Some base)"
  by pat_completeness auto
termination by (relation "measure (\<lambda>(a, b, n, i). n - i)") auto

declare bitmap_and_loop.simps [simp del]

definition bitmap_and_inplace :: "u8 list \<Rightarrow> u8 list \<Rightarrow> nat \<Rightarrow> u8 list option" where
  "bitmap_and_inplace base other n =
     (if n mod 8 = 0 then bitmap_and_loop base other (n div 8) 0 else None)"

definition bitmap_set :: "u8 list \<Rightarrow> nat \<Rightarrow> int \<Rightarrow> u8 list option" where
  "bitmap_set bitmap position val = do {
     b \<leftarrow> rd bitmap (position div 8);
     wr bitmap (position div 8)
       (if val \<noteq> 0 then b OR push_bit (position mod 8) 1 else b AND NOT (push_bit (position mod 8) 1)) }"

definition bitmap_get :: "u8 list \<Rightarrow> nat \<Rightarrow> int option" where
  "bitmap_get bitmap position = do {
     b \<leftarrow> rd bitmap (position div 8);
     Some (uint (drop_bit (position mod 8) b) AND 1) }"

definition memset_prefix :: "u8 list \<Rightarrow> u8 \<Rightarrow> nat \<Rightarrow> u8 list option" where
  "memset_prefix xs b k = (if k \<le> length xs then Some (replicate k b @ drop k xs) else None)"

definition bitmap_clear :: "u8 list \<Rightarrow> nat \<Rightarrow> u8 list option" where
  "bitmap_clear bitmap n = (if n mod 8 = 0 then memset_prefix bitmap 0 (n div 8) else None)"

definition bitmap_fill :: "u8 list \<Rightarrow> nat \<Rightarrow> u8 list option" where
  "bitmap_fill bitmap n = (if n mod 8 = 0 then memset_prefix bitmap 0xFF (n div 8) else None)"

section \<open>min_idx\<close>

text \<open>The \<open>while\<close> loop: the first candidate from \<open>i\<close> that is not taken yet, or \<open>n\<close>.\<close>

function first_free :: "u8 list \<Rightarrow> u8 list \<Rightarrow> nat \<Rightarrow> nat \<Rightarrow> nat option" where
  "first_free taken candidates n i =
     (if i < n then do {
        t \<leftarrow> bitmap_get taken i;
        if t \<noteq> 0 then first_free taken candidates n (i + 1)
        else do {
          c \<leftarrow> bitmap_get candidates i;
          if c = 0 then first_free taken candidates n (i + 1) else Some i } }
      else Some i)"
  by pat_completeness auto
termination by (relation "measure (\<lambda>(t, c, n, i). n - i)") auto

text \<open>The inner \<open>for\<close> loop from \<open>i\<close>, with \<open>m\<close> the best index so far.\<close>

function nearest_free :: "f32 list \<Rightarrow> u8 list \<Rightarrow> u8 list \<Rightarrow> nat \<Rightarrow> nat \<Rightarrow> nat \<Rightarrow> nat option" where
  "nearest_free distances taken candidates n i m =
     (if i < n then do {
        di \<leftarrow> rd distances i;
        dm \<leftarrow> rd distances m;
        if f32_le di dm then do {
          t \<leftarrow> bitmap_get taken i;
          if t = 0 then do {
            c \<leftarrow> bitmap_get candidates i;
            nearest_free distances taken candidates n (i + 1) (if c \<noteq> 0 then i else m) }
          else nearest_free distances taken candidates n (i + 1) m }
        else nearest_free distances taken candidates n (i + 1) m }
      else Some m)"
  by pat_completeness auto
termination by (relation "measure (\<lambda>(d, t, c, n, i, m). n - i)") auto

text \<open>The outer loop from \<open>ik\<close>: the outputs, the taken bitmap and \<open>k_used\<close>.\<close>

function min_idx_loop ::
  "f32 list \<Rightarrow> nat \<Rightarrow> u8 list \<Rightarrow> nat \<Rightarrow> nat \<Rightarrow> nat list \<Rightarrow> u8 list \<Rightarrow> (nat list \<times> u8 list \<times> nat) option" where
  "min_idx_loop distances n candidates k ik out taken =
     (if ik < k then do {
        m \<leftarrow> first_free taken candidates n 0;
        if m \<ge> n then Some (out, taken, ik)
        else do {
          m \<leftarrow> nearest_free distances taken candidates n 0 m;
          out \<leftarrow> wr out ik m;
          taken \<leftarrow> bitmap_set taken m 1;
          min_idx_loop distances n candidates k (ik + 1) out taken } }
      else Some (out, taken, k))"
  by pat_completeness auto
termination by (relation "measure (\<lambda>(d, n, c, k, ik, out, t). k - ik)") auto

declare first_free.simps [simp del] nearest_free.simps [simp del] min_idx_loop.simps [simp del]

definition min_idx ::
  "f32 list \<Rightarrow> nat \<Rightarrow> u8 list \<Rightarrow> nat list \<Rightarrow> nat \<Rightarrow> u8 list \<Rightarrow> (nat list \<times> u8 list \<times> nat) option" where
  "min_idx distances n candidates out k bTaken =
     (if k > 0 \<and> k \<le> n then do {
        bTaken \<leftarrow> bitmap_clear bTaken n;
        min_idx_loop distances n candidates k 0 out bTaken }
      else None)"

section \<open>merge_sorted_lists\<close>

text \<open>The loop from output position \<open>i\<close> with the cursors \<open>ptrA\<close> and \<open>ptrB\<close>.\<close>

function merge_loop ::
  "f32 list \<Rightarrow> i64 list \<Rightarrow> nat \<Rightarrow> f32 list \<Rightarrow> i64 list \<Rightarrow> nat list \<Rightarrow> nat \<Rightarrow> nat \<Rightarrow>
   nat \<Rightarrow> nat \<Rightarrow> nat \<Rightarrow> f32 list \<Rightarrow> i64 list \<Rightarrow> (f32 list \<times> i64 list \<times> nat) option" where
  "merge_loop a a_rowids a_length b b_rowids b_top_idxs b_length out_length i ptrA ptrB out out_rowids =
     (if i < out_length then
        if ptrA \<ge> a_length \<and> ptrB \<ge> b_length then Some (out, out_rowids, i)
        else if ptrA \<ge> a_length then do {
          x \<leftarrow> rd b_top_idxs ptrB; d \<leftarrow> rd b x; r \<leftarrow> rd b_rowids x;
          out \<leftarrow> wr out i d; out_rowids \<leftarrow> wr out_rowids i r;
          merge_loop a a_rowids a_length b b_rowids b_top_idxs b_length out_length (i + 1) ptrA (ptrB + 1) out out_rowids }
        else if ptrB \<ge> b_length then do {
          d \<leftarrow> rd a ptrA; r \<leftarrow> rd a_rowids ptrA;
          out \<leftarrow> wr out i d; out_rowids \<leftarrow> wr out_rowids i r;
          merge_loop a a_rowids a_length b b_rowids b_top_idxs b_length out_length (i + 1) (ptrA + 1) ptrB out out_rowids }
        else do {
          da \<leftarrow> rd a ptrA; x \<leftarrow> rd b_top_idxs ptrB; db \<leftarrow> rd b x;
          if f32_le da db then do {
            r \<leftarrow> rd a_rowids ptrA;
            out \<leftarrow> wr out i da; out_rowids \<leftarrow> wr out_rowids i r;
            merge_loop a a_rowids a_length b b_rowids b_top_idxs b_length out_length (i + 1) (ptrA + 1) ptrB out out_rowids }
          else do {
            r \<leftarrow> rd b_rowids x;
            out \<leftarrow> wr out i db; out_rowids \<leftarrow> wr out_rowids i r;
            merge_loop a a_rowids a_length b b_rowids b_top_idxs b_length out_length (i + 1) ptrA (ptrB + 1) out out_rowids } }
      else Some (out, out_rowids, out_length))"
  by pat_completeness auto
termination
  by (relation "measure (\<lambda>(a, ar, al, b, br, bt, bl, n, i, pa, pb, out, outr). n - i)") auto

declare merge_loop.simps [simp del]

definition merge_sorted_lists ::
  "f32 list \<Rightarrow> i64 list \<Rightarrow> nat \<Rightarrow> f32 list \<Rightarrow> i64 list \<Rightarrow> nat list \<Rightarrow> nat \<Rightarrow>
   f32 list \<Rightarrow> i64 list \<Rightarrow> nat \<Rightarrow> (f32 list \<times> i64 list \<times> nat) option" where
  "merge_sorted_lists a a_rowids a_length b b_rowids b_top_idxs b_length out out_rowids out_length =
     merge_loop a a_rowids a_length b b_rowids b_top_idxs b_length out_length 0 0 0 out out_rowids"

section \<open>The set a bitmap stands for\<close>

definition bits_of :: "u8 list \<Rightarrow> nat set" where
  "bits_of bm = {i. i < 8 * length bm \<and> bit (bm ! (i div 8)) (i mod 8)}"

lemma bits_of_iff: "i < 8 * length bm \<Longrightarrow> i \<in> bits_of bm \<longleftrightarrow> bit (bm ! (i div 8)) (i mod 8)"
  by (simp add: bits_of_def)

lemma bits_of_bound: "i \<in> bits_of bm \<Longrightarrow> i < 8 * length bm"
  by (simp add: bits_of_def)

lemma byte_index: "i < 8 * k \<Longrightarrow> i div 8 < (k :: nat)"
  by simp

lemma bitmap_get_spec [simp]:
  assumes "i < 8 * length bm"
  shows "bitmap_get bm i = Some (if i \<in> bits_of bm then 1 else 0)"
proof -
  have "uint (drop_bit (i mod 8) (bm ! (i div 8))) AND 1 = (if bit (bm ! (i div 8)) (i mod 8) then 1 else 0)"
  proof -
    have "odd (uint (drop_bit (i mod 8) (bm ! (i div 8)))) \<longleftrightarrow> bit (uint (drop_bit (i mod 8) (bm ! (i div 8)))) 0"
      by (simp only: bit_0)
    also have "\<dots> \<longleftrightarrow> bit (bm ! (i div 8)) (i mod 8)" by (simp add: bit_uint_iff bit_drop_bit_eq)
    finally show ?thesis unfolding and_one_eq mod2_eq_if by argo
  qed
  then show ?thesis using assms byte_index [OF assms] by (simp add: bitmap_get_def bits_of_iff)
qed

lemma bitmap_get_trap: "8 * length bm \<le> i \<Longrightarrow> bitmap_get bm i = None"
  by (simp add: bitmap_get_def rd_def)

lemma bitmap_set_spec:
  assumes "i < 8 * length bm"
  obtains bm' where "bitmap_set bm i v = Some bm'" "length bm' = length bm"
    "bits_of bm' = (if v \<noteq> 0 then insert i (bits_of bm) else bits_of bm - {i})"
proof -
  let ?b = "bm ! (i div 8)"
  let ?c = "if v \<noteq> 0 then ?b OR push_bit (i mod 8) 1 else ?b AND NOT (push_bit (i mod 8) 1)"
  let ?m = "bm[i div 8 := ?c]"
  have c: "bit ?c k \<longleftrightarrow> (if k = i mod 8 then v \<noteq> 0 else bit ?b k)" if "k < 8" for k
    using that by (auto simp: bit_simps bit_push_bit_iff)
  have "j \<in> bits_of ?m \<longleftrightarrow> j \<in> (if v \<noteq> 0 then insert i (bits_of bm) else bits_of bm - {i})" for j
  proof (cases "j < 8 * length bm")
    case True
    then have "j \<in> bits_of ?m \<longleftrightarrow>
        (if j div 8 = i div 8 then if j mod 8 = i mod 8 then v \<noteq> 0 else bit ?b (j mod 8) else bit (bm ! (j div 8)) (j mod 8))"
      using c [of "j mod 8"] byte_index [OF True] by (simp add: bits_of_iff nth_list_update)
    moreover have "j = i \<longleftrightarrow> j div 8 = i div 8 \<and> j mod 8 = i mod 8" by (metis div_mult_mod_eq)
    ultimately show ?thesis using True by (auto simp: bits_of_iff)
  next
    case False
    then show ?thesis using assms by (auto dest: bits_of_bound)
  qed
  then show ?thesis using that [of ?m] byte_index [OF assms] by (simp add: bitmap_set_def set_eq_iff)
qed

lemma bits_of_replicate:
  "bits_of (replicate k b @ xs) = {i. i < 8 * k \<and> bit b (i mod 8)} \<union> (\<lambda>i. i + 8 * k) ` bits_of xs"
proof -
  have "i \<in> bits_of (replicate k b @ xs) \<longleftrightarrow> (i < 8 * k \<and> bit b (i mod 8)) \<or> (8 * k \<le> i \<and> i - 8 * k \<in> bits_of xs)" for i
  proof (cases "i < 8 * k")
    case True
    then show ?thesis using byte_index [OF True] by (simp add: bits_of_def nth_append)
  next
    case False
    then obtain j where "i = j + 8 * k" using le_Suc_ex [of "8 * k" i] by auto
    then show ?thesis by (auto simp: bits_of_def nth_append)
  qed
  moreover have "i \<in> (\<lambda>i. i + 8 * k) ` bits_of xs \<longleftrightarrow> 8 * k \<le> i \<and> i - 8 * k \<in> bits_of xs" for i
    by (auto simp: image_iff intro!: bexI [of _ "i - 8 * k"])
  ultimately show ?thesis by auto
qed

lemma bits_of_drop: "(\<lambda>i. i + 8 * k) ` bits_of (drop k xs) = {i \<in> bits_of xs. 8 * k \<le> i}"
proof -
  have "i \<in> (\<lambda>i. i + 8 * k) ` bits_of (drop k xs) \<longleftrightarrow> 8 * k \<le> i \<and> i - 8 * k \<in> bits_of (drop k xs)" for i
    by (auto simp: image_iff intro!: bexI [of _ "i - 8 * k"])
  moreover have "8 * k \<le> i \<Longrightarrow> i - 8 * k \<in> bits_of (drop k xs) \<longleftrightarrow> i \<in> bits_of xs" for i
  proof -
    assume "8 * k \<le> i"
    then obtain j where "i = j + 8 * k" using le_Suc_ex [of "8 * k" i] by auto
    then show ?thesis by (auto simp: bits_of_def)
  qed
  ultimately show ?thesis by auto
qed

lemma memset_prefix_bits:
  "k \<le> length xs \<Longrightarrow> memset_prefix xs b k = Some ys \<Longrightarrow>
    length ys = length xs \<and> bits_of ys = {i. i < 8 * k \<and> bit b (i mod 8)} \<union> {i \<in> bits_of xs. 8 * k \<le> i}"
  by (auto simp: memset_prefix_def bits_of_replicate bits_of_drop)

lemma bitmap_clear_spec:
  assumes "n mod 8 = 0" "n \<le> 8 * length bm"
  obtains bm' where "bitmap_clear bm n = Some bm'" "length bm' = length bm"
    "bits_of bm' = {i \<in> bits_of bm. n \<le> i}"
proof -
  have k: "n div 8 \<le> length bm" "8 * (n div 8) = n" using assms by auto
  then obtain bm' where "bitmap_clear bm n = Some bm'"
    using assms(1) by (simp add: bitmap_clear_def memset_prefix_def)
  with that memset_prefix_bits [OF k(1), of 0 bm'] k(2) assms(1) show ?thesis
    by (simp add: bitmap_clear_def)
qed

lemma bitmap_fill_spec:
  assumes "n mod 8 = 0" "n \<le> 8 * length bm"
  obtains bm' where "bitmap_fill bm n = Some bm'" "length bm' = length bm"
    "bits_of bm' = {..<n} \<union> bits_of bm"
proof -
  have k: "n div 8 \<le> length bm" "8 * (n div 8) = n" using assms by auto
  then obtain bm' where f: "bitmap_fill bm n = Some bm'"
    using assms(1) by (simp add: bitmap_fill_def memset_prefix_def)
  have "bit (0xFF :: u8) (i mod 8)" for i :: nat
  proof -
    have m: "(0xFF :: u8) = - 1" by simp
    have "bit (- 1 :: u8) (i mod 8)" unfolding bit_minus_1_iff by (simp add: possible_bit_def)
    then show ?thesis unfolding m .
  qed
  then have "length bm' = length bm \<and> bits_of bm' = {i. i < n} \<union> {i \<in> bits_of bm. n \<le> i}"
    using f memset_prefix_bits [OF k(1), of "0xFF" bm'] k(2) assms(1) by (simp add: bitmap_fill_def)
  moreover have "{i. i < n} \<union> {i \<in> bits_of bm. n \<le> i} = {..<n} \<union> bits_of bm" by auto
  ultimately show ?thesis using f that by simp
qed

lemma bitmap_and_loop_spec:
  "n \<le> length base \<Longrightarrow> n \<le> length other \<Longrightarrow> i \<le> n \<Longrightarrow>
    bitmap_and_loop base other n i = Some (map (\<lambda>j. if i \<le> j \<and> j < n then base ! j AND other ! j else base ! j) [0..<length base])"
proof (induction base other n i rule: bitmap_and_loop.induct)
  case (1 base other n i)
  note u = bitmap_and_loop.simps [of base other n i]
  show ?case
  proof (cases "i < n")
    case True
    let ?b = "base[i := base ! i AND other ! i]"
    have "bitmap_and_loop base other n i = bitmap_and_loop ?b other n (i + 1)" using u True 1 by simp
    also have "\<dots> = Some (map (\<lambda>j. if i + 1 \<le> j \<and> j < n then ?b ! j AND other ! j else ?b ! j) [0..<length ?b])"
      using 1 True by (intro "1.IH") (auto simp: mem_simps)
    finally show ?thesis using True 1 by (auto simp: nth_list_update le_less)
  next
    case False
    then show ?thesis using u map_nth [of base] by (auto intro!: nth_equalityI)
  qed
qed

lemma bitmap_and_inplace_spec:
  assumes "n mod 8 = 0" "n \<le> 8 * length base" "n \<le> 8 * length other"
  obtains bm where "bitmap_and_inplace base other n = Some bm" "length bm = length base"
    "\<And>i. i \<in> bits_of bm \<longleftrightarrow> i \<in> bits_of base \<and> (i < n \<longrightarrow> i \<in> bits_of other)"
proof -
  let ?m = "map (\<lambda>j. if 0 \<le> j \<and> j < n div 8 then base ! j AND other ! j else base ! j) [0..<length base]"
  have k: "n div 8 \<le> length base" "n div 8 \<le> length other" "8 * (n div 8) = n" using assms by auto
  have r: "bitmap_and_inplace base other n = Some ?m"
    using bitmap_and_loop_spec [OF k(1,2), of 0] assms(1) by (simp add: bitmap_and_inplace_def)
  have "i \<in> bits_of ?m \<longleftrightarrow> i \<in> bits_of base \<and> (i < n \<longrightarrow> i \<in> bits_of other)" for i
  proof (cases "i < 8 * length base")
    case True
    have d: "i div 8 < n div 8 \<longleftrightarrow> i < n" using k(3) by (metis div_less_iff_less_mult mult.commute zero_less_numeral)
    show ?thesis using True byte_index [OF True] d assms
      by (auto simp: bits_of_iff bit_and_iff bits_of_def)
  qed (auto dest: bits_of_bound)
  then show ?thesis using that r by simp
qed

section \<open>The interface of a bitmap\<close>

text \<open>
  What the filters of \<open>vec0\<close> rely on when they build a bitmap position by position. A loop
  \<open>for (i = 0; i < n; i++) put(b, i, f(i))\<close> is \<open>put_range\<close>.
\<close>

function put_range :: "('b \<Rightarrow> nat \<Rightarrow> int \<Rightarrow> 'b option) \<Rightarrow> (nat \<Rightarrow> int) \<Rightarrow> nat \<Rightarrow> nat \<Rightarrow> 'b \<Rightarrow> 'b option" where
  "put_range put f i n b =
     (if i < n then do { b \<leftarrow> put b i (f i); put_range put f (i + 1) n b } else Some b)"
  by pat_completeness auto
termination by (relation "measure (\<lambda>(p, f, i, n, b). n - i)") auto

declare put_range.simps [simp del]

locale bit_store =
  fixes capacity :: "'b \<Rightarrow> nat" and members :: "'b \<Rightarrow> nat set"
    and get :: "'b \<Rightarrow> nat \<Rightarrow> int option" and put :: "'b \<Rightarrow> nat \<Rightarrow> int \<Rightarrow> 'b option"
  assumes get_member: "i < capacity b \<Longrightarrow> get b i = Some (if i \<in> members b then 1 else 0)"
    and put_member: "i < capacity b \<Longrightarrow> \<exists>b'. put b i v = Some b' \<and> capacity b' = capacity b \<and>
      members b' = (if v \<noteq> 0 then insert i (members b) else members b - {i})"
begin

lemma get_put:
  "i < capacity b \<Longrightarrow> j < capacity b \<Longrightarrow> put b i v = Some b' \<Longrightarrow>
    get b' j = (if j = i then Some (if v \<noteq> 0 then 1 else 0) else get b j)"
  using put_member [of i b v] get_member [of j b] get_member [of j b'] by auto

lemma put_range_members:
  "n \<le> capacity b \<Longrightarrow> i \<le> n \<Longrightarrow> \<exists>b'. put_range put f i n b = Some b' \<and> capacity b' = capacity b \<and>
    members b' = {j \<in> members b. j < i \<or> n \<le> j} \<union> {j. i \<le> j \<and> j < n \<and> f j \<noteq> 0}"
proof (induction "n - i" arbitrary: i b)
  case 0
  then have "i = n" by simp
  moreover have "put_range put f n n b = Some b" unfolding put_range.simps [of put f n n b] by simp
  ultimately show ?case by auto
next
  case (Suc k)
  then have i: "i < n" by simp
  obtain b' where b': "put b i (f i) = Some b'" "capacity b' = capacity b"
    "members b' = (if f i \<noteq> 0 then insert i (members b) else members b - {i})"
    using put_member [of i b "f i"] i Suc.prems by auto
  obtain b'' where b'': "put_range put f (i + 1) n b' = Some b''" "capacity b'' = capacity b'"
    "members b'' = {j \<in> members b'. j < i + 1 \<or> n \<le> j} \<union> {j. i + 1 \<le> j \<and> j < n \<and> f j \<noteq> 0}"
  proof -
    have k: "k = n - (i + 1)" using Suc.hyps(2) by simp
    show ?thesis using Suc.hyps(1) [OF k, of b'] Suc.prems b'(2) i that by auto
  qed
  have "members b'' = {j \<in> members b. j < i \<or> n \<le> j} \<union> {j. i \<le> j \<and> j < n \<and> f j \<noteq> 0}"
    unfolding b''(3) b'(3) using i by (auto simp: less_Suc_eq le_less Suc_le_eq split: if_splits)
  then show ?case using b' b'' i by (simp add: put_range.simps [of put f i n b])
qed

end

interpretation bm: bit_store "\<lambda>bm. 8 * length bm" bits_of bitmap_get bitmap_set
proof
  fix i v and b :: "u8 list"
  assume i: "i < 8 * length b"
  show "bitmap_get b i = Some (if i \<in> bits_of b then 1 else 0)" using i by simp
  show "\<exists>b'. bitmap_set b i v = Some b' \<and> 8 * length b' = 8 * length b \<and>
      bits_of b' = (if v \<noteq> 0 then insert i (bits_of b) else bits_of b - {i})"
    using bitmap_set_spec [OF i, of v] by (metis (no_types))
qed

section \<open>min_idx: correctness\<close>

lemma first_free_spec:
  "n \<le> 8 * length t \<Longrightarrow> n \<le> 8 * length c \<Longrightarrow>
    \<exists>j. first_free t c n i = Some j \<and> i \<le> j \<and> (j < n \<longrightarrow> j \<in> bits_of c - bits_of t) \<and>
      (\<forall>l. i \<le> l \<and> l < j \<and> l < n \<longrightarrow> l \<notin> bits_of c - bits_of t)"
proof (induction t c n i rule: first_free.induct)
  case (1 t c n i)
  note u = first_free.simps [of t c n i]
  show ?case
  proof (cases "i < n \<and> i \<notin> bits_of c - bits_of t")
    case False
    then have "first_free t c n i = Some i" using u 1 by auto
    then show ?thesis using False by auto
  next
    case True
    then have r: "first_free t c n i = first_free t c n (i + 1)" using u 1 by auto
    have "\<exists>j. first_free t c n (i + 1) = Some j \<and> i + 1 \<le> j \<and> (j < n \<longrightarrow> j \<in> bits_of c - bits_of t) \<and>
        (\<forall>l. i + 1 \<le> l \<and> l < j \<and> l < n \<longrightarrow> l \<notin> bits_of c - bits_of t)"
    proof (cases "i \<in> bits_of t")
      case t: True
      show ?thesis by (rule "1.IH"(1) [of 1]) (use 1 True t in auto)
    next
      case t: False
      show ?thesis by (rule "1.IH"(2) [of 0 0]) (use 1 True t in auto)
    qed
    then show ?thesis unfolding r using True by (metis Suc_eq_plus1 Suc_leD Suc_leI le_neq_implies_less)
  qed
qed

lemma nearest_free_spec:
  assumes "n \<le> 8 * length t" "n \<le> 8 * length c" "n \<le> length d"
    and F: "F = {l. l < n \<and> l \<in> bits_of c - bits_of t}" and num: "\<And>l. l \<in> F \<Longrightarrow> \<not> f32_nan (d ! l)"
  shows "m \<in> F \<Longrightarrow> \<forall>l\<in>F. l < i \<longrightarrow> l = m \<or> nearer (\<lambda>l. f32_key (d ! l)) m l \<Longrightarrow> \<forall>l\<in>F. l < m \<longrightarrow> l < i \<Longrightarrow>
    \<exists>r\<in>F. nearest_free d t c n i m = Some r \<and> (\<forall>l\<in>F. l = r \<or> nearer (\<lambda>l. f32_key (d ! l)) r l)"
  using assms
proof (induction d t c n i m rule: nearest_free.induct)
  case (1 d t c n i m)
  note u = nearest_free.simps [of d t c n i m]
  note len = "1.prems"(4-6) and F = "1.prems"(7) and num = "1.prems"(8)
  have m: "m < n" using "1.prems"(1) F by simp
  show ?case
  proof (cases "i < n")
    case False
    then have "nearest_free d t c n i m = Some m" using u by simp
    then show ?thesis using "1.prems"(1,2) False F by auto
  next
    case True
    define m' where "m' = (if f32_le (d ! i) (d ! m) \<and> i \<in> F then i else m)"
    have free: "bitmap_get t i = Some (if i \<in> bits_of t then 1 else 0)"
      "bitmap_get c i = Some (if i \<in> bits_of c then 1 else 0)" using True len by simp_all
    have iF: "i \<in> F \<longleftrightarrow> i \<in> bits_of c \<and> i \<notin> bits_of t" using F True by auto
    have step: "nearest_free d t c n i m = nearest_free d t c n (i + 1) m'"
      using u True len m free iF by (simp add: m'_def)
    have le: "f32_le (d ! i) (d ! m) \<longleftrightarrow> f32_key (d ! i) \<le> f32_key (d ! m)" if "i \<in> F"
      using num that "1.prems"(1) by (simp add: f32_le_key)
    have p1: "m' \<in> F" using "1.prems"(1) by (simp add: m'_def)
    have mi: "m \<le> i" if "i \<in> F" using "1.prems"(3) that by fastforce
    have p2: "\<forall>l\<in>F. l < i + 1 \<longrightarrow> l = m' \<or> nearer (\<lambda>l. f32_key (d ! l)) m' l"
    proof (intro ballI impI)
      fix l assume l: "l \<in> F" "l < i + 1"
      show "l = m' \<or> nearer (\<lambda>l. f32_key (d ! l)) m' l"
      proof (cases "l = i")
        case True
        then show ?thesis using l le by (auto simp: m'_def nearer_def)
      next
        case False
        then have "l = m \<or> nearer (\<lambda>l. f32_key (d ! l)) m l" "l < i" using l "1.prems"(2) by auto
        then show ?thesis using le mi by (auto simp: m'_def nearer_def)
      qed
    qed
    have p3: "\<forall>l\<in>F. l < m' \<longrightarrow> l < i + 1" using "1.prems"(3) by (auto simp: m'_def)
    have "\<exists>r\<in>F. nearest_free d t c n (i + 1) m' = Some r \<and> (\<forall>l\<in>F. l = r \<or> nearer (\<lambda>l. f32_key (d ! l)) r l)"
    proof (cases "f32_le (d ! i) (d ! m)")
      case le: True
      show ?thesis
      proof (cases "i \<in> bits_of t")
        case t: True
        then have "m' = m" using iF by (simp add: m'_def)
        then show ?thesis
          using "1.IH"(2) [of "d ! i" "d ! m" 1] True le t len m p1 p2 p3 F num by simp
      next
        case t: False
        have "m' = (if (if i \<in> bits_of c then 1 else 0) \<noteq> (0 :: int) then i else m)"
          using iF t le by (simp add: m'_def)
        then show ?thesis
          using "1.IH"(1) [of "d ! i" "d ! m" 0 "if i \<in> bits_of c then 1 else 0"] True le t len m p1 p2 p3 F num
          by simp
      qed
    next
      case le: False
      then have "m' = m" by (simp add: m'_def)
      then show ?thesis using "1.IH"(3) [of "d ! i" "d ! m"] True le len m p1 p2 p3 F num by simp
    qed
    then show ?thesis unfolding step .
  qed
qed

lemma min_idx_loop_spec:
  assumes len: "n \<le> 8 * length c" "n \<le> length d" and k: "k \<le> length out"
    and R: "R = ranking (\<lambda>l. f32_key (d ! l)) (\<lambda>l. l \<in> bits_of c) n"
    and num: "\<And>l. l \<in> set R \<Longrightarrow> \<not> f32_nan (d ! l)"
  shows "n \<le> 8 * length t \<Longrightarrow> ik \<le> k \<Longrightarrow> ik \<le> length R \<Longrightarrow> {l \<in> bits_of t. l < n} = set (take ik R) \<Longrightarrow>
    take ik out = take ik R \<Longrightarrow>
    \<exists>out' t'. min_idx_loop d n c k ik out t = Some (out', t', min k (length R)) \<and> length out' = length out \<and>
      take (min k (length R)) out' = take k R \<and> length t' = length t \<and> {l \<in> bits_of t'. l < n} = set (take k R)"
  using assms
proof (induction d n c k ik out t rule: min_idx_loop.induct)
  case (1 d n c k ik out t)
  note u = min_idx_loop.simps [of d n c k ik out t]
  note R = "1.prems"(9)
  note len = "1.prems"(1,6,7)
  show ?case
  proof (cases "ik < k")
    case False
    then have "ik = k" using "1.prems"(2) by simp
    then show ?thesis using u "1.prems" by simp
  next
    case ik: True
    define F where "F = {l. l < n \<and> l \<in> bits_of c - bits_of t}"
    have F: "F = set (drop ik R)"
    proof -
      have "set R = {l. l < n \<and> l \<in> bits_of c}" unfolding R by (simp add: set_ranking)
      then have "F = set R - set (take ik R)" unfolding "1.prems"(4) [symmetric] F_def by auto
      moreover have "set (take ik R) \<inter> set (drop ik R) = {}"
        using set_take_disj_set_drop_if_distinct [OF distinct_ranking order_refl, of ik] unfolding R .
      moreover have "set R = set (take ik R) \<union> set (drop ik R)" by (metis append_take_drop_id set_append)
      ultimately show ?thesis by blast
    qed
    obtain j where j: "first_free t c n 0 = Some j" "j < n \<longrightarrow> j \<in> bits_of c - bits_of t"
      "\<forall>l. 0 \<le> l \<and> l < j \<and> l < n \<longrightarrow> l \<notin> bits_of c - bits_of t"
      using first_free_spec [OF len(1,2), of 0] by blast
    show ?thesis
    proof (cases "j < n")
      case False
      then have "F = {}" using j(3) unfolding F_def by auto
      then have "ik = length R" using F "1.prems"(3) by simp
      then show ?thesis using u ik j(1) False "1.prems" by simp
    next
      case True
      have jF: "j \<in> F" using j(2) True by (simp add: F_def)
      then have ikR: "ik < length R" using F by (cases "ik < length R") auto
      have numF: "\<not> f32_nan (d ! l)" if "l \<in> F" for l
        using that F "1.prems"(10) by (meson in_set_dropD)
      have F3: "\<forall>l\<in>F. l < j \<longrightarrow> l < 0" using j(3) F_def by auto
      obtain r where r: "r \<in> F" "nearest_free d t c n 0 j = Some r"
        "\<forall>l\<in>F. l = r \<or> nearer (\<lambda>l. f32_key (d ! l)) r l"
        using nearest_free_spec [OF len(1,2,3) F_def numF jF _ F3] by auto
      have Rr: "R ! ik = r"
        unfolding R by (rule ranking_next) (use ikR r F in \<open>auto simp flip: R\<close>)
      have rn: "r < n" "r < 8 * length t" using r(1) F_def len(1) by simp_all
      obtain t' where t': "bitmap_set t r 1 = Some t'" "length t' = length t" "bits_of t' = insert r (bits_of t)"
        using bitmap_set_spec [OF rn(2), of 1] by auto
      have tk: "take (Suc ik) R = take ik R @ [r]" using ikR Rr by (simp add: take_Suc_conv_app_nth)
      have "{l \<in> bits_of t'. l < n} = insert r {l \<in> bits_of t. l < n}" using t'(3) rn by auto
      then have set': "{l \<in> bits_of t'. l < n} = set (take (ik + 1) R)" using "1.prems"(4) tk by simp
      have out': "take (ik + 1) (out[ik := r]) = take (ik + 1) R"
        using ik "1.prems"(5,8) tk take_list_update_Suc [of ik out r] by simp
      have ki: "ik < length out" using ik "1.prems"(8) by simp
      have s: "min_idx_loop d n c k ik out t = min_idx_loop d n c k (ik + 1) (out[ik := r]) t'"
        using u ik j(1) True r(2) t'(1) ki by simp
      have w: "wr out ik r = Some (out[ik := r])" using ki by simp
      have nj: "\<not> n \<le> j" using True by simp
      show ?thesis unfolding s
        using "1.IH" [OF ik j(1) nj r(2) w t'(1)] "1.prems"(1,6-10) t'(2) ik ikR set' out' by simp
    qed
  qed
qed

lemma min_idx_spec:
  assumes "0 < k" "k \<le> n" "n mod 8 = 0" "n \<le> length d" "n \<le> 8 * length c" "n \<le> 8 * length t" "k \<le> length out"
    and "\<And>l. l < n \<Longrightarrow> l \<in> bits_of c \<Longrightarrow> \<not> f32_nan (d ! l)"
    and "R = ranking (\<lambda>l. f32_key (d ! l)) (\<lambda>l. l \<in> bits_of c) n"
  shows "\<exists>out' t'. min_idx d n c out k t = Some (out', t', min k (length R)) \<and> length out' = length out \<and>
    take (min k (length R)) out' = take k R \<and> length t' = length t"
proof -
  obtain t0 where t0: "bitmap_clear t n = Some t0" "length t0 = length t" "bits_of t0 = {i \<in> bits_of t. n \<le> i}"
    using bitmap_clear_spec [OF assms(3,6)] .
  have num: "\<not> f32_nan (d ! l)" if "l \<in> set R" for l
    using that assms(8) unfolding assms(9) set_ranking by simp
  have "{l \<in> bits_of t0. l < n} = set (take 0 R)" unfolding t0(3) by auto
  then have "\<exists>out' t'. min_idx_loop d n c k 0 out t0 = Some (out', t', min k (length R)) \<and> length out' = length out \<and>
      take (min k (length R)) out' = take k R \<and> length t' = length t0 \<and> {l \<in> bits_of t'. l < n} = set (take k R)"
    using assms t0(2) num by (intro min_idx_loop_spec [OF assms(5,4,7,9)]) simp_all
  then show ?thesis using assms(1,2) t0(1,2) by (auto simp: min_idx_def)
qed

text \<open>
  C15: \<open>min_idx\<close> writes the \<open>k\<close> nearest candidates, or all of them when there are fewer, in
  order of distance (later positions first among equal distances), and reports how many it wrote.
\<close>
theorem min_idx_correct:
  assumes "0 < k" "k \<le> n" "n mod 8 = 0" "n \<le> length d" "n \<le> 8 * length c" "n \<le> 8 * length t" "k \<le> length out"
    and "\<And>l. l < n \<Longrightarrow> l \<in> bits_of c \<Longrightarrow> \<not> f32_nan (d ! l)"
    and "R = ranking (\<lambda>l. f32_key (d ! l)) (\<lambda>l. l \<in> bits_of c) n"
  shows "\<exists>out' t'. min_idx d n c out k t = Some (out', t', min k (length R)) \<and> length out' = length out \<and>
    take (min k (length R)) out' = take k R"
  using min_idx_spec [OF assms] by blast

theorem min_idx_correct_witness:
  "\<exists>out' t'. min_idx [0x40A00000, 0x3F800000, 0x41100000, 0x3F800000, 0, 0, 0, 0] 8 [15] [7, 7, 7] 3 [0] =
      Some (out', t', 3) \<and> take 3 out' = [3, 1, 0]"
proof -
  let ?d = "[0x40A00000, 0x3F800000, 0x41100000, 0x3F800000, 0, 0, 0, 0 :: f32]"
  have bits: "l \<in> bits_of [15] \<longleftrightarrow> l < 4" for l
  proof -
    have "l < 8 \<Longrightarrow> bit (15 :: u8) l \<longleftrightarrow> l < 4"
      by (auto simp: less_Suc_eq numeral_eq_Suc)
    then show ?thesis by (auto simp: bits_of_def)
  qed
  have R: "ranking (\<lambda>l. f32_key (?d ! l)) (\<lambda>l. l \<in> bits_of [15]) 8 = [3, 1, 0, 2]"
    unfolding ranking_def bits by (simp add: upt_rec f32_key_def f32_mag_def)
  have "\<not> f32_nan (?d ! l)" if "l \<in> bits_of [15]" for l
  proof -
    have "l = 0 \<or> l = 1 \<or> l = 2 \<or> l = 3" using that unfolding bits by auto
    then show ?thesis by (elim disjE) (simp_all add: f32_nan_def f32_mag_def)
  qed
  then show ?thesis
    using min_idx_correct [of 3 8 ?d "[15]" "[0]" "[7, 7, 7]", OF _ _ _ _ _ _ _ _ R [symmetric]] by auto
qed

section \<open>merge_sorted_lists: correctness\<close>

lemma sort_key_least_left:
  assumes "\<forall>x\<in>set xs. key a \<le> (key x :: int)"
  shows "sort_key key (a # xs) = a # sort_key key xs"
  using assms by (simp add: insort_is_Cons)

lemma sort_key_least_right:
  "\<forall>x\<in>set xs. key b < (key x :: int) \<Longrightarrow> \<forall>y\<in>set ys. key b \<le> key y \<Longrightarrow>
    sort_key key (xs @ b # ys) = b # sort_key key (xs @ ys)"
proof (induction xs)
  case Nil
  then show ?case by (simp add: insort_is_Cons)
next
  case (Cons x xs)
  then show ?case by simp
qed

lemma merge_loop_spec:
  assumes len: "al \<le> length a" "al \<le> length ar" "bl \<le> length bt" "\<And>j. j < bl \<Longrightarrow> bt ! j < length b \<and> bt ! j < length br"
    and A: "A = take al (zip a ar)" and B: "B = map (\<lambda>x. (b ! x, br ! x)) (take bl bt)"
    and num: "\<And>p. p \<in> set A \<union> set B \<Longrightarrow> \<not> f32_nan (fst p)"
    and key: "key = f32_key \<circ> fst"
    and sorted: "sorted (map key A)" "sorted (map key B)"
  shows "i \<le> n \<Longrightarrow> pa \<le> al \<Longrightarrow> pb \<le> bl \<Longrightarrow> n \<le> length out \<Longrightarrow> n \<le> length outr \<Longrightarrow>
    \<exists>out' outr' used. merge_loop a ar al b br bt bl n i pa pb out outr = Some (out', outr', used) \<and>
      used = min n (i + (al - pa) + (bl - pb)) \<and> length out' = length out \<and> length outr' = length outr \<and>
      take used (zip out' outr') = take i (zip out outr) @ take (n - i) (sort_key key (drop pa A @ drop pb B))"
proof (induction "n - i" arbitrary: i pa pb out outr)
  case 0
  then have "i = n" by simp
  then show ?case using 0 unfolding merge_loop.simps [of a ar al b br bt bl n i pa pb out outr] by simp
next
  case (Suc k)
  note u = merge_loop.simps [of a ar al b br bt bl n i pa pb out outr]
  have i: "i < n" "k = n - (i + 1)" using Suc.hyps(2) by simp_all
  have lA: "length A = al" "length B = bl" using len by (simp_all add: A B)
  have nthA: "A ! j = (a ! j, ar ! j)" if "j < al" for j using that len by (simp add: A)
  have nthB: "B ! j = (b ! (bt ! j), br ! (bt ! j))" if "j < bl" for j using that len by (simp add: B)
  have out: "i < length out" "i < length outr" using i Suc.prems by simp_all
  have step: ?case if p: "merge_loop a ar al b br bt bl n i pa pb out outr =
        merge_loop a ar al b br bt bl n (i + 1) pa' pb' (out[i := fst p]) (outr[i := snd p])"
      and S: "sort_key key (drop pa A @ drop pb B) = p # sort_key key (drop pa' A @ drop pb' B)"
      and c: "(al - pa) + (bl - pb) = Suc ((al - pa') + (bl - pb'))" "pa' \<le> al" "pb' \<le> bl" for p pa' pb'
  proof -
    obtain out' outr' used where
      o: "merge_loop a ar al b br bt bl n (i + 1) pa' pb' (out[i := fst p]) (outr[i := snd p]) = Some (out', outr', used)"
      "used = min n (i + 1 + (al - pa') + (bl - pb'))" "length out' = length out" "length outr' = length outr"
      "take used (zip out' outr') = take (i + 1) (zip (out[i := fst p]) (outr[i := snd p])) @
        take (n - (i + 1)) (sort_key key (drop pa' A @ drop pb' B))"
      using Suc.hyps(1) [OF i(2), of pa' pb' "out[i := fst p]" "outr[i := snd p]"] i(1) c(2,3) Suc.prems by auto
    have z: "take (i + 1) (zip (out[i := fst p]) (outr[i := snd p])) = take i (zip out outr) @ [p]"
      using out take_list_update_Suc [of i "zip out outr" p] by (simp add: update_zip)
    have "n - i = Suc (n - (i + 1))" using i(1) by simp
    then have "take used (zip out' outr') = take i (zip out outr) @ take (n - i) (sort_key key (drop pa A @ drop pb B))"
      unfolding S o(5) z by simp
    moreover have "used = min n (i + (al - pa) + (bl - pb))"
      using o(2) c(1) by (metis add.assoc add_Suc_right add_Suc Suc_eq_plus1)
    ultimately show ?thesis using p o(1,3,4) by (metis (no_types))
  qed
  have sA: "sorted (map key (drop pa A))" and sB: "sorted (map key (drop pb B))"
    using sorted by (simp_all add: sorted_wrt_drop flip: drop_map)
  have dA: "drop pa A = A ! pa # drop (pa + 1) A" if "pa < al" using that lA by (simp add: Cons_nth_drop_Suc)
  have dB: "drop pb B = B ! pb # drop (pb + 1) B" if "pb < bl" using that lA by (simp add: Cons_nth_drop_Suc)
  have SA: "sort_key key (drop pa A @ drop pb B) = A ! pa # sort_key key (drop (pa + 1) A @ drop pb B)"
    if "pa < al" "pb < bl \<Longrightarrow> key (A ! pa) \<le> key (B ! pb)"
  proof -
    have "\<forall>y\<in>set (drop pb B). key (A ! pa) \<le> key y"
      using that(2) sB dB lA by (cases "pb < bl") auto
    moreover have "\<forall>y\<in>set (drop (pa + 1) A). key (A ! pa) \<le> key y" using sA dA that(1) by auto
    ultimately show ?thesis unfolding dA [OF that(1)] append_Cons by (intro sort_key_least_left) auto
  qed
  have SB: "sort_key key (drop pa A @ drop pb B) = B ! pb # sort_key key (drop pa A @ drop (pb + 1) B)"
    if "pb < bl" "pa < al \<Longrightarrow> key (B ! pb) < key (A ! pa)"
  proof -
    have "\<forall>x\<in>set (drop pa A). key (B ! pb) < key x"
      using that(2) sA dA lA by (cases "pa < al") auto
    moreover have "\<forall>y\<in>set (drop (pb + 1) B). key (B ! pb) \<le> key y" using sB dB that(1) by auto
    ultimately show ?thesis unfolding dB [OF that(1)] by (intro sort_key_least_right) auto
  qed
  show ?case
  proof (cases "al \<le> pa")
    case pa: True
    show ?thesis
    proof (cases "bl \<le> pb")
      case True
      then show ?thesis using u pa i Suc.prems lA by simp
    next
      case False
      then have "pb < bl" by simp
      show ?thesis
        by (rule step [of pa "pb + 1" "B ! pb"], use u pa False i len out nthB \<open>pb < bl\<close> in simp)
          (use SB pa False Suc.prems in auto)
    qed
  next
    case pa: False
    then have pal: "pa < al" by simp
    show ?thesis
    proof (cases "bl \<le> pb")
      case True
      show ?thesis
        by (rule step [of "pa + 1" pb "A ! pa"], use u pa True i len out nthA in simp)
          (use SA pa True Suc.prems in auto)
    next
      case False
      then have pbl: "pb < bl" by simp
      have "A ! pa \<in> set A" "B ! pb \<in> set B" using pal pbl lA by simp_all
      then have le: "f32_le (a ! pa) (b ! (bt ! pb)) \<longleftrightarrow> key (A ! pa) \<le> key (B ! pb)"
        using num [of "A ! pa"] num [of "B ! pb"] nthA [OF pal] nthB [OF pbl] by (simp add: f32_le_key key)
      show ?thesis
      proof (cases "f32_le (a ! pa) (b ! (bt ! pb))")
        case True
        show ?thesis
          by (rule step [of "pa + 1" pb "A ! pa"], use u pal pbl True i len out nthA in simp)
            (use SA pal True le Suc.prems in auto)
      next
        case f: False
        show ?thesis
          by (rule step [of pa "pb + 1" "B ! pb"], use u pal pbl f i len out nthB in simp)
            (use SB pbl f le Suc.prems in auto)
      qed
    qed
  qed
qed

lemma merge_sorted_lists_spec:
  assumes "al \<le> length a" "al \<le> length ar" "bl \<le> length bt" "n \<le> length out" "n \<le> length outr"
    and "\<And>j. j < bl \<Longrightarrow> bt ! j < length b \<and> bt ! j < length br"
    and "A = take al (zip a ar)" "B = map (\<lambda>x. (b ! x, br ! x)) (take bl bt)"
    and "\<And>p. p \<in> set A \<union> set B \<Longrightarrow> \<not> f32_nan (fst p)"
    and "sorted (map (f32_key \<circ> fst) A)" "sorted (map (f32_key \<circ> fst) B)"
  shows "\<exists>out' outr'. merge_sorted_lists a ar al b br bt bl out outr n = Some (out', outr', min n (al + bl)) \<and>
    take (min n (al + bl)) (zip out' outr') = take n (sort_key (f32_key \<circ> fst) (A @ B)) \<and>
    length out' = length out \<and> length outr' = length outr"
  using merge_loop_spec [OF assms(1-3,6-9) refl assms(10,11), of 0 n 0 0 out outr] assms(4,5)
  by (auto simp: merge_sorted_lists_def)

text \<open>
  C16: Given two lists in order of distance, \<open>merge_sorted_lists\<close> writes the first
  \<open>out_length\<close> rows of the two together in order of distance (the rows of \<open>a\<close> first among equal
  distances), each with its own row id, and reports how many there are.
\<close>
theorem merge_sorted_lists_correct:
  assumes "al \<le> length a" "al \<le> length ar" "bl \<le> length bt" "n \<le> length out" "n \<le> length outr"
    and "\<And>j. j < bl \<Longrightarrow> bt ! j < length b \<and> bt ! j < length br"
    and "A = take al (zip a ar)" "B = map (\<lambda>x. (b ! x, br ! x)) (take bl bt)"
    and "\<And>p. p \<in> set A \<union> set B \<Longrightarrow> \<not> f32_nan (fst p)"
    and "sorted (map (f32_key \<circ> fst) A)" "sorted (map (f32_key \<circ> fst) B)"
  shows "\<exists>out' outr'. merge_sorted_lists a ar al b br bt bl out outr n = Some (out', outr', min n (al + bl)) \<and>
    take (min n (al + bl)) (zip out' outr') = take n (sort_key (f32_key \<circ> fst) (A @ B))"
  using merge_sorted_lists_spec [OF assms] by blast

theorem merge_sorted_lists_correct_witness:
  "\<exists>out' outr'. merge_sorted_lists [0x3F800000] [10] 1 [0x40000000, 0, 0x3F000000] [20, 21, 22] [2, 0] 2
      [0, 0] [0, 0] 2 = Some (out', outr', 2) \<and>
    take 2 (zip out' outr') = [(0x3F000000, 22), (0x3F800000, 10)]"
proof -
  let ?A = "[(0x3F800000, 10)] :: (f32 \<times> i64) list" and ?B = "[(0x3F000000, 22), (0x40000000, 20)] :: (f32 \<times> i64) list"
  have A: "?A = take 1 (zip [0x3F800000] [10])" by simp
  have B: "?B = map (\<lambda>x. ([0x40000000, 0, 0x3F000000] ! x, [20, 21, 22] ! x)) (take 2 [2, 0])" by simp
  have nan: "\<And>p. p \<in> set ?A \<union> set ?B \<Longrightarrow> \<not> f32_nan (fst p)" by (auto simp: f32_nan_def f32_mag_def)
  have idx: "\<And>j. j < 2 \<Longrightarrow> [2, 0] ! j < length [0x40000000, 0, 0x3F000000 :: f32] \<and> [2, 0] ! j < length [20, 21, 22 :: i64]"
    by (auto simp: less_Suc_eq numeral_2_eq_2)
  have s: "sorted (map (f32_key \<circ> fst) ?A)" "sorted (map (f32_key \<circ> fst) ?B)"
    "take 2 (sort_key (f32_key \<circ> fst) (?A @ ?B)) = [(0x3F000000, 22), (0x3F800000, 10)]"
    by (simp_all add: f32_key_def f32_mag_def)
  show ?thesis
    using merge_sorted_lists_correct [OF _ _ _ _ _ idx A B nan s(1,2), of 2 "[0, 0]" "[0, 0]"] unfolding s(3) by (simp add: numeral_2_eq_2)
qed

text \<open>
  Comparisons with a NaN are false, so a NaN distance at the first free candidate is never
  displaced: \<open>min_idx\<close> ranks it before every number.
\<close>

lemma min_idx_nan_first:
  "map_option (\<lambda>(out, _, used). (out, used)) (min_idx [0x7FC00000, 0x3F800000, 0, 0, 0, 0, 0, 0] 8 [3] [9] 1 [0]) = Some ([0], 1)"
  by code_simp

end
