(* ===== verification/VecScan.thy ===== *)
theory VecScan
  imports VecBase MuslStdlib
begin

text \<open>
  The lexer and the parsers of the constructor arguments of a \<open>vec0\<close> table in
  \<^verbatim>\<open>sqlite-vec.c\<close>. The source text is a string in the linear memory and tokens are address
  ranges in it. A token structure that no call has filled yet is the argument \<open>tok\<close> of each
  parser; an allocation that fails is its argument \<open>oom\<close>.
\<close>

section \<open>Characters and comparison\<close>

definition is_alpha :: "u8 \<Rightarrow> bool" where
  "is_alpha b \<longleftrightarrow> (97 \<le> sint b \<and> sint b \<le> 122) \<or> (65 \<le> sint b \<and> sint b \<le> 90)"

definition is_digit :: "u8 \<Rightarrow> bool" where
  "is_digit b \<longleftrightarrow> 48 \<le> sint b \<and> sint b \<le> 57"

definition is_whitespace :: "u8 \<Rightarrow> bool" where
  "is_whitespace b \<longleftrightarrow> b = 32 \<or> b = 9 \<or> b = 10 \<or> b = 13"

text \<open>The table \<open>sqlite3UpperToLower\<close> of ASCII, and \<open>sqlite3_strnicmp\<close> against a literal.\<close>

definition upper_to_lower :: "u8 \<Rightarrow> u8" where
  "upper_to_lower b = (if 65 \<le> b \<and> b \<le> 90 then b + 32 else b)"

fun sqlite3_strnicmp :: "mem \<Rightarrow> addr \<Rightarrow> u8 list \<Rightarrow> nat \<Rightarrow> int option" where
  "sqlite3_strnicmp m a bs 0 = Some 0"
| "sqlite3_strnicmp m a bs (Suc n) = do {
     c \<leftarrow> ld8 m a;
     let d = (case bs of [] \<Rightarrow> 0 | b # _ \<Rightarrow> b);
     if c \<noteq> 0 \<and> upper_to_lower c = upper_to_lower d then sqlite3_strnicmp m (a + 1) (tl bs) n
     else Some (uint (upper_to_lower c) - uint (upper_to_lower d)) }"

text \<open>\<open>sqlite3_mprintf("%.*s", n, a)\<close>: the bytes up to \<open>n\<close> or the terminator.\<close>

fun mprintf_prefix :: "mem \<Rightarrow> addr \<Rightarrow> nat \<Rightarrow> u8 list option" where
  "mprintf_prefix m a 0 = Some []"
| "mprintf_prefix m a (Suc n) = do {
     c \<leftarrow> ld8 m a;
     if c = 0 then Some [] else do { cs \<leftarrow> mprintf_prefix m (a + 1) n; Some (c # cs) } }"

section \<open>Tokens\<close>

datatype token_type = IDENTIFIER | DIGIT | LBRACKET | RBRACKET | PLUS | EQ

record token =
  token_type :: token_type
  tstart :: addr
  tend :: addr

abbreviation blank_token :: token where
  "blank_token \<equiv> \<lparr>token_type = PLUS, tstart = 0, tend = 0\<rparr>"

datatype token_result = RESULT_EOF | RESULT_SOME | RESULT_ERROR

function run_end :: "(u8 \<Rightarrow> bool) \<Rightarrow> mem \<Rightarrow> addr \<Rightarrow> addr \<Rightarrow> addr option" where
  "run_end P m ptr end =
     (if ptr < end then do { b \<leftarrow> ld8 m ptr; if P b then run_end P m (ptr + 1) end else Some ptr }
      else Some ptr)"
  by pat_completeness auto
termination by (relation "measure (\<lambda>(P, m, p, e). e - p)") auto

definition is_ident_char :: "u8 \<Rightarrow> bool" where
  "is_ident_char b \<longleftrightarrow> is_alpha b \<or> is_digit b \<or> b = 95"

definition one_char :: "token_type \<Rightarrow> addr \<Rightarrow> token" where
  "one_char ty ptr = \<lparr>token_type = ty, tstart = ptr + 1, tend = ptr + 1\<rparr>"

function vec0_token_next :: "mem \<Rightarrow> addr \<Rightarrow> addr \<Rightarrow> token \<Rightarrow> (token_result \<times> token) option" where
  "vec0_token_next m ptr end out =
     (if ptr < end then do {
        curr \<leftarrow> ld8 m ptr;
        if is_whitespace curr then vec0_token_next m (ptr + 1) end out
        else if curr = 43 then Some (RESULT_SOME, one_char PLUS ptr)
        else if curr = 91 then Some (RESULT_SOME, one_char LBRACKET ptr)
        else if curr = 93 then Some (RESULT_SOME, one_char RBRACKET ptr)
        else if curr = 61 then Some (RESULT_SOME, one_char EQ ptr)
        else if is_alpha curr then do {
          e \<leftarrow> run_end is_ident_char m ptr end;
          Some (RESULT_SOME, \<lparr>token_type = IDENTIFIER, tstart = ptr, tend = e\<rparr>) }
        else if is_digit curr then do {
          e \<leftarrow> run_end is_digit m ptr end;
          Some (RESULT_SOME, \<lparr>token_type = DIGIT, tstart = ptr, tend = e\<rparr>) }
        else Some (RESULT_ERROR, out) }
      else Some (RESULT_EOF, out))"
  by pat_completeness auto
termination by (relation "measure (\<lambda>(m, p, e, out). e - p)") auto

declare run_end.simps [simp del] vec0_token_next.simps [simp del]

record scanner =
  sc_start :: addr
  sc_end :: addr
  sc_ptr :: addr

definition vec0_scanner_init :: "addr \<Rightarrow> nat \<Rightarrow> scanner" where
  "vec0_scanner_init source n = \<lparr>sc_start = source, sc_end = source + n, sc_ptr = source\<rparr>"

definition vec0_scanner_next :: "mem \<Rightarrow> scanner \<Rightarrow> token \<Rightarrow> (token_result \<times> scanner \<times> token) option" where
  "vec0_scanner_next m sc out = do {
     (rc, out) \<leftarrow> vec0_token_next m (sc_start sc) (sc_end sc) out;
     Some (rc, if rc = RESULT_SOME then sc\<lparr>sc_start := tend out\<rparr> else sc, out) }"

definition token_is :: "mem \<Rightarrow> token \<Rightarrow> string \<Rightarrow> bool option" where
  "token_is m t s = do { c \<leftarrow> sqlite3_strnicmp m (tstart t) (lit s) (tend t - tstart t); Some (c = 0) }"

section \<open>The parsers of columns and options\<close>

text \<open>The outputs of a recognised option or column: addresses and lengths in the source.\<close>

record table_option =
  opt_key :: addr
  opt_key_length :: nat
  opt_value :: addr
  opt_value_length :: nat

definition vec0_parse_table_option :: "mem \<Rightarrow> addr \<Rightarrow> nat \<Rightarrow> token \<Rightarrow> table_option parsed option" where
  "vec0_parse_table_option m source n tok = do {
     let sc = vec0_scanner_init source n;
     (rc, sc, tok) \<leftarrow> vec0_scanner_next m sc tok;
     if rc \<noteq> RESULT_SOME \<and> token_type tok \<noteq> IDENTIFIER then Some EMPTY else do {
     let k = tok;
     (rc, sc, tok) \<leftarrow> vec0_scanner_next m sc tok;
     if rc \<noteq> RESULT_SOME \<and> token_type tok \<noteq> EQ then Some EMPTY else do {
     (rc, sc, tok) \<leftarrow> vec0_scanner_next m sc tok;
     if rc \<noteq> RESULT_SOME \<and> \<not> (token_type tok = IDENTIFIER \<or> token_type tok = DIGIT) then Some ERROR else do {
     let v = tok;
     (rc, sc, tok) \<leftarrow> vec0_scanner_next m sc tok;
     if rc = RESULT_EOF
     then Some (OK \<lparr>opt_key = tstart k, opt_key_length = tend k - tstart k,
                    opt_value = tstart v, opt_value_length = tend v - tstart v\<rparr>)
     else Some ERROR } } } }"

datatype column_type = TEXT | INTEGER | FLOAT | BLOB

record 't column_def =
  column_name :: addr
  column_name_length :: nat
  column_type :: 't

text \<open>The type names of a partition key and of a primary key; \<open>None\<close> inside is neither.\<close>

definition key_type :: "mem \<Rightarrow> token \<Rightarrow> column_type option option" where
  "key_type m tok = do {
     t \<leftarrow> token_is m tok ''text'';
     if t then Some (Some TEXT) else do {
     i \<leftarrow> token_is m tok ''int'';
     if i then Some (Some INTEGER) else do {
     i \<leftarrow> token_is m tok ''integer'';
     Some (if i then Some INTEGER else None) } } }"

definition vec0_parse_partition_key_definition ::
  "mem \<Rightarrow> addr \<Rightarrow> nat \<Rightarrow> token \<Rightarrow> column_type column_def parsed option" where
  "vec0_parse_partition_key_definition m source n tok = do {
     let sc = vec0_scanner_init source n;
     (rc, sc, tok) \<leftarrow> vec0_scanner_next m sc tok;
     if rc \<noteq> RESULT_SOME \<and> token_type tok \<noteq> IDENTIFIER then Some EMPTY else do {
     let name = tok;
     (rc, sc, tok) \<leftarrow> vec0_scanner_next m sc tok;
     if rc \<noteq> RESULT_SOME \<and> token_type tok \<noteq> IDENTIFIER then Some EMPTY else do {
     ty \<leftarrow> key_type m tok;
     case ty of None \<Rightarrow> Some EMPTY | Some ty \<Rightarrow> do {
     (rc, sc, tok) \<leftarrow> vec0_scanner_next m sc tok;
     if rc \<noteq> RESULT_SOME \<and> token_type tok \<noteq> IDENTIFIER then Some EMPTY else do {
     p \<leftarrow> token_is m tok ''partition'';
     if \<not> p then Some EMPTY else do {
     (rc, sc, tok) \<leftarrow> vec0_scanner_next m sc tok;
     if rc \<noteq> RESULT_SOME \<and> token_type tok \<noteq> IDENTIFIER then Some EMPTY else do {
     k \<leftarrow> token_is m tok ''key'';
     if \<not> k then Some EMPTY
     else Some (OK \<lparr>column_name = tstart name, column_name_length = tend name - tstart name,
                    column_type = ty\<rparr>) } } } } } } }"

definition vec0_parse_primary_key_definition ::
  "mem \<Rightarrow> addr \<Rightarrow> nat \<Rightarrow> token \<Rightarrow> column_type column_def parsed option" where
  "vec0_parse_primary_key_definition m source n tok = do {
     let sc = vec0_scanner_init source n;
     (rc, sc, tok) \<leftarrow> vec0_scanner_next m sc tok;
     if rc \<noteq> RESULT_SOME \<and> token_type tok \<noteq> IDENTIFIER then Some EMPTY else do {
     let name = tok;
     (rc, sc, tok) \<leftarrow> vec0_scanner_next m sc tok;
     if rc \<noteq> RESULT_SOME \<and> token_type tok \<noteq> IDENTIFIER then Some EMPTY else do {
     ty \<leftarrow> key_type m tok;
     case ty of None \<Rightarrow> Some EMPTY | Some ty \<Rightarrow> do {
     (rc, sc, tok) \<leftarrow> vec0_scanner_next m sc tok;
     if rc \<noteq> RESULT_SOME \<and> token_type tok \<noteq> IDENTIFIER then Some EMPTY else do {
     p \<leftarrow> token_is m tok ''primary'';
     if \<not> p then Some EMPTY else do {
     (rc, sc, tok) \<leftarrow> vec0_scanner_next m sc tok;
     if rc \<noteq> RESULT_SOME \<and> token_type tok \<noteq> IDENTIFIER then Some EMPTY else do {
     k \<leftarrow> token_is m tok ''key'';
     if \<not> k then Some EMPTY
     else Some (OK \<lparr>column_name = tstart name, column_name_length = tend name - tstart name,
                    column_type = ty\<rparr>) } } } } } } }"

text \<open>\<open>first_match\<close> is the chain of \<open>else if\<close> over the accepted names of a type.\<close>

fun first_match :: "mem \<Rightarrow> token \<Rightarrow> (string \<times> 't) list \<Rightarrow> 't option option" where
  "first_match m tok [] = Some None"
| "first_match m tok ((s, t) # rest) = do {
     b \<leftarrow> token_is m tok s;
     if b then Some (Some t) else first_match m tok rest }"

definition aux_types :: "(string \<times> column_type) list" where
  "aux_types = [(''text'', TEXT), (''int'', INTEGER), (''integer'', INTEGER), (''float'', FLOAT),
     (''double'', FLOAT), (''blob'', BLOB)]"

definition vec0_parse_auxiliary_column_definition ::
  "mem \<Rightarrow> addr \<Rightarrow> nat \<Rightarrow> token \<Rightarrow> column_type column_def parsed option" where
  "vec0_parse_auxiliary_column_definition m source n tok = do {
     let sc = vec0_scanner_init source n;
     (rc, sc, tok) \<leftarrow> vec0_scanner_next m sc tok;
     if rc \<noteq> RESULT_SOME \<or> token_type tok \<noteq> PLUS then Some EMPTY else do {
     (rc, sc, tok) \<leftarrow> vec0_scanner_next m sc tok;
     if rc \<noteq> RESULT_SOME \<and> token_type tok \<noteq> IDENTIFIER then Some EMPTY else do {
     let name = tok;
     (rc, sc, tok) \<leftarrow> vec0_scanner_next m sc tok;
     if rc \<noteq> RESULT_SOME \<and> token_type tok \<noteq> IDENTIFIER then Some EMPTY else do {
     ty \<leftarrow> first_match m tok aux_types;
     case ty of None \<Rightarrow> Some EMPTY | Some ty \<Rightarrow>
       Some (OK \<lparr>column_name = tstart name, column_name_length = tend name - tstart name,
                 column_type = ty\<rparr>) } } } }"

datatype metadata_kind = KIND_BOOLEAN | KIND_INTEGER | KIND_FLOAT | KIND_TEXT

definition metadata_types :: "(string \<times> metadata_kind) list" where
  "metadata_types = [(''boolean'', KIND_BOOLEAN), (''bool'', KIND_BOOLEAN), (''int64'', KIND_INTEGER),
     (''integer64'', KIND_INTEGER), (''integer'', KIND_INTEGER), (''int'', KIND_INTEGER),
     (''float'', KIND_FLOAT), (''double'', KIND_FLOAT), (''float64'', KIND_FLOAT), (''f64'', KIND_FLOAT),
     (''text'', KIND_TEXT)]"

definition vec0_parse_metadata_column_definition ::
  "mem \<Rightarrow> addr \<Rightarrow> nat \<Rightarrow> token \<Rightarrow> metadata_kind column_def parsed option" where
  "vec0_parse_metadata_column_definition m source n tok = do {
     let sc = vec0_scanner_init source n;
     (rc, sc, tok) \<leftarrow> vec0_scanner_next m sc tok;
     if rc \<noteq> RESULT_SOME \<or> token_type tok \<noteq> IDENTIFIER then Some EMPTY else do {
     let name = tok;
     (rc, sc, tok) \<leftarrow> vec0_scanner_next m sc tok;
     if rc \<noteq> RESULT_SOME \<or> token_type tok \<noteq> IDENTIFIER then Some EMPTY else do {
     ty \<leftarrow> first_match m tok metadata_types;
     case ty of None \<Rightarrow> Some EMPTY | Some ty \<Rightarrow>
       Some (OK \<lparr>column_name = tstart name, column_name_length = tend name - tstart name,
                 column_type = ty\<rparr>) } } }"

section \<open>Vector columns\<close>

record vector_column =
  vname :: "u8 list"
  vname_length :: nat
  dimensions :: nat
  element_type :: element_type
  distance_metric :: distance_metric

definition vector_byte_size :: "element_type \<Rightarrow> nat \<Rightarrow> nat" where
  "vector_byte_size ty dims = (case ty of FLOAT32 \<Rightarrow> dims * 4 | INT8 \<Rightarrow> dims | BIT \<Rightarrow> dims div 8)"

definition vector_column_byte_size :: "vector_column \<Rightarrow> nat" where
  "vector_column_byte_size c = vector_byte_size (element_type c) (dimensions c)"

text \<open>The element type by a prefix of the text at the token, whatever the token's own length.\<close>

definition element_type_at :: "mem \<Rightarrow> addr \<Rightarrow> element_type option option" where
  "element_type_at m a = do {
     c \<leftarrow> sqlite3_strnicmp m a (lit ''float'') 5;
     if c = 0 then Some (Some FLOAT32) else do {
     c \<leftarrow> sqlite3_strnicmp m a (lit ''f32'') 3;
     if c = 0 then Some (Some FLOAT32) else do {
     c \<leftarrow> sqlite3_strnicmp m a (lit ''int8'') 4;
     if c = 0 then Some (Some INT8) else do {
     c \<leftarrow> sqlite3_strnicmp m a (lit ''i8'') 2;
     if c = 0 then Some (Some INT8) else do {
     c \<leftarrow> sqlite3_strnicmp m a (lit ''bit'') 3;
     Some (if c = 0 then Some BIT else None) } } } } }"

definition metric_names :: "(string \<times> distance_metric) list" where
  "metric_names = [(''l2'', L2), (''l1'', L1), (''cosine'', COSINE)]"

text \<open>
  Scanning makes progress: a token that is found advances the scanner, every other result leaves
  both the scanner and the token structure as they were.
\<close>

lemma run_end_bounds: "run_end P m ptr end = Some e \<Longrightarrow> ptr \<le> e \<and> (ptr \<le> end \<longrightarrow> e \<le> end)"
proof (induction P m ptr "end" rule: run_end.induct)
  case (1 P m ptr e')
  then show ?case by (auto simp: run_end.simps [of P m ptr e'] split: if_splits bind_splits)
qed

lemma run_end_step:
  "ptr < end \<Longrightarrow> ld8 m ptr = Some b \<Longrightarrow> P b \<Longrightarrow> run_end P m ptr end = run_end P m (ptr + 1) end"
  by (simp add: run_end.simps [of P m ptr])

lemma token_next_progress:
  "vec0_token_next m ptr end out = Some (rc, out') \<Longrightarrow>
    (if rc = RESULT_SOME then ptr < tend out' \<and> tend out' \<le> end \<and> ptr \<le> tstart out' \<and> tstart out' \<le> tend out'
     else out' = out)"
proof (induction m ptr "end" out rule: vec0_token_next.induct)
  case (1 m ptr e out)
  note u = vec0_token_next.simps [of m ptr e out]
  show ?case
  proof (cases "ptr < e")
    case False
    then show ?thesis using u "1.prems" by auto
  next
    case True
    then obtain c where c: "ld8 m ptr = Some c" using u "1.prems" by (cases "ld8 m ptr") auto
    note u' = u [unfolded c, simplified True, simplified]
    show ?thesis
    proof (cases "is_whitespace c")
      case w: True
      then have "vec0_token_next m (ptr + 1) e out = Some (rc, out')" using u' "1.prems" by simp
      then show ?thesis using "1.IH" [OF True c w] by (auto split: if_splits)
    next
      case w: False
      show ?thesis
      proof (cases "c = 43 \<or> c = 91 \<or> c = 93 \<or> c = 61")
        case True
        then show ?thesis using u' "1.prems" w \<open>ptr < e\<close> by (auto simp: one_char_def)
      next
        case o: False
        have run: "ptr < q \<and> q \<le> e" if "run_end P m ptr e = Some q" "P c" for P q
          using that run_end_step [OF True c, of P] run_end_bounds [of P m "ptr + 1" e q] True by auto
        show ?thesis
        proof (cases "is_alpha c")
          case a: True
          then have "is_ident_char c" by (simp add: is_ident_char_def)
          then show ?thesis using u' "1.prems" w o a run [of is_ident_char] by (auto split: bind_splits)
        next
          case a: False
          then show ?thesis using u' "1.prems" w o run [of is_digit] by (auto split: bind_splits if_splits)
        qed
      qed
    qed
  qed
qed

lemma scanner_next_progress:
  assumes "vec0_scanner_next m sc tok = Some (rc, sc', tok')"
  shows "sc_end sc' = sc_end sc" "sc_start sc \<le> sc_start sc'"
    "rc = RESULT_SOME \<Longrightarrow> sc_start sc < sc_start sc' \<and> sc_start sc' \<le> sc_end sc \<and> sc_start sc \<le> tstart tok' \<and>
       tstart tok' \<le> tend tok' \<and> tend tok' = sc_start sc'"
    "rc \<noteq> RESULT_SOME \<Longrightarrow> sc' = sc \<and> tok' = tok"
  using assms token_next_progress [of m "sc_start sc" "sc_end sc" tok rc tok']
  by (auto simp: vec0_scanner_next_def split: bind_splits if_splits)

lemma round_advances:
  assumes n1: "vec0_scanner_next m sc tok = Some (rc, sc1, tok1)"
    and g1: "\<not> (rc \<noteq> RESULT_SOME \<and> token_type tok1 \<noteq> IDENTIFIER)"
    and n2: "vec0_scanner_next m sc1 tok1 = Some (rc2, sc2, tok2)"
    and g2: "\<not> (rc2 \<noteq> RESULT_SOME \<and> token_type tok2 \<noteq> EQ)"
    and n3: "vec0_scanner_next m sc2 tok2 = Some (rc3, sc3, tok3)"
  shows "sc_end sc3 - sc_start sc3 < sc_end sc - sc_start sc"
proof -
  note p1 = scanner_next_progress [OF n1] and p2 = scanner_next_progress [OF n2]
    and p3 = scanner_next_progress [OF n3]
  have "rc = RESULT_SOME \<or> rc2 = RESULT_SOME"
    using g1 g2 p1(4) p2(4) by (cases "rc2 = RESULT_SOME") auto
  then have "sc_start sc < sc_start sc2 \<and> sc_start sc < sc_end sc"
    using p1 p2 by (elim disjE) auto
  then show ?thesis using p1(1) p2(1) p3(1,2) by (auto intro: diff_less_mono2)
qed

text \<open>
  The options after the brackets. A round that goes on has consumed a token: if the key was a
  failed scan it left an identifier, and the test for \<open>=\<close> then ends the loop.
\<close>

function vector_options ::
  "mem \<Rightarrow> element_type \<Rightarrow> scanner \<Rightarrow> token \<Rightarrow> distance_metric \<Rightarrow> distance_metric parsed option" where
  "vector_options m ty sc tok metric = do {
     (rc, sc, tok) \<leftarrow> vec0_scanner_next m sc tok;
     if rc = RESULT_EOF then Some (OK metric)
     else if rc \<noteq> RESULT_SOME \<and> token_type tok \<noteq> IDENTIFIER then Some ERROR
     else do {
       k \<leftarrow> token_is m tok ''distance_metric'';
       if \<not> k then Some ERROR
       else if ty = BIT then Some ERROR
       else do {
         (rc, sc, tok) \<leftarrow> vec0_scanner_next m sc tok;
         if rc \<noteq> RESULT_SOME \<and> token_type tok \<noteq> EQ then Some ERROR
         else do {
           (rc, sc, tok) \<leftarrow> vec0_scanner_next m sc tok;
           if rc \<noteq> RESULT_SOME \<and> token_type tok \<noteq> IDENTIFIER then Some ERROR
           else do {
             v \<leftarrow> first_match m tok metric_names;
             case v of None \<Rightarrow> Some ERROR | Some metric \<Rightarrow> vector_options m ty sc tok metric } } } } }"
  by pat_completeness auto
termination
  by (relation "measure (\<lambda>(m, ty, sc, tok, metric). sc_end sc - sc_start sc)")
    (auto simp only: in_measure prod.case wf_measure dest: round_advances)

declare vector_options.simps [simp del]

definition vec0_parse_vector_column :: "bool \<Rightarrow> mem \<Rightarrow> addr \<Rightarrow> nat \<Rightarrow> token \<Rightarrow> vector_column parsed option" where
  "vec0_parse_vector_column oom m source n tok = do {
     let sc = vec0_scanner_init source n;
     (rc, sc, tok) \<leftarrow> vec0_scanner_next m sc tok;
     if rc \<noteq> RESULT_SOME \<and> token_type tok \<noteq> IDENTIFIER then Some EMPTY else do {
     let name = tstart tok;
     let name_length = tend tok - tstart tok;
     (rc, sc, tok) \<leftarrow> vec0_scanner_next m sc tok;
     if rc \<noteq> RESULT_SOME \<or> token_type tok \<noteq> IDENTIFIER then Some EMPTY else do {
     ty \<leftarrow> element_type_at m (tstart tok);
     case ty of None \<Rightarrow> Some EMPTY | Some ty \<Rightarrow> do {
     (rc, sc, tok) \<leftarrow> vec0_scanner_next m sc tok;
     if rc \<noteq> RESULT_SOME \<and> token_type tok \<noteq> LBRACKET then Some EMPTY else do {
     (rc, sc, tok) \<leftarrow> vec0_scanner_next m sc tok;
     if rc \<noteq> RESULT_SOME \<and> token_type tok \<noteq> DIGIT then Some ERROR else do {
     dims \<leftarrow> atoi m (tstart tok);
     if dims \<le> 0 then Some ERROR else do {
     (rc, sc, tok) \<leftarrow> vec0_scanner_next m sc tok;
     if rc \<noteq> RESULT_SOME \<and> token_type tok \<noteq> RBRACKET then Some ERROR else do {
     metric \<leftarrow> vector_options m ty sc tok L2;
     case metric of EMPTY \<Rightarrow> Some EMPTY | ERROR \<Rightarrow> Some ERROR | OK metric \<Rightarrow>
       if oom then Some ERROR else do {
         s \<leftarrow> mprintf_prefix m name name_length;
         Some (OK \<lparr>vname = s, vname_length = name_length, dimensions = nat dims,
                   element_type = ty, distance_metric = metric\<rparr>) } } } } } } } } }"

section \<open>Text in memory\<close>

definition text_at :: "mem \<Rightarrow> addr \<Rightarrow> u8 list \<Rightarrow> bool" where
  "text_at m p X \<longleftrightarrow> terminated m p \<and> cstr m p = X"

lemma text_at_Cons: "text_at m p (b # X) \<Longrightarrow> ld8 m p = Some b \<and> b \<noteq> 0 \<and> text_at m (p + 1) X"
  using cstr_Cons [of m p b X] by (simp add: text_at_def)

lemma text_at_Nil: "text_at m p [] \<Longrightarrow> ld8 m p = Some 0"
  using cstr_Nil [of m p] by (simp add: text_at_def)

lemma text_at_append: "text_at m p (A @ B) \<Longrightarrow> text_at m (p + length A) B"
  using cstr_split [of m p "length A"] by (auto simp: text_at_def)

lemma run_end_text:
  "text_at m p X \<Longrightarrow> e = p + length X \<Longrightarrow> run_end P m p e = Some (p + length (takeWhile P X))"
proof (induction X arbitrary: p)
  case Nil
  then show ?case by (simp add: run_end.simps)
next
  case (Cons b X)
  note c = text_at_Cons [OF Cons.prems(1)]
  have "run_end P m p e = (if P b then run_end P m (p + 1) e else Some p)"
    unfolding run_end.simps [of P m p e] using c Cons.prems(2) by simp
  then show ?case using Cons.IH [of "p + 1"] c Cons.prems(2) by simp
qed

text \<open>The reference lexer on lists: the result, the kind, the lexeme and the text after it.\<close>

definition lex1 :: "u8 list \<Rightarrow> token_result \<times> token_type \<times> u8 list \<times> u8 list" where
  "lex1 X = (case dropWhile is_whitespace X of
     [] \<Rightarrow> (RESULT_EOF, PLUS, [], [])
   | c # Y \<Rightarrow>
       if c = 43 then (RESULT_SOME, PLUS, [], Y)
       else if c = 91 then (RESULT_SOME, LBRACKET, [], Y)
       else if c = 93 then (RESULT_SOME, RBRACKET, [], Y)
       else if c = 61 then (RESULT_SOME, EQ, [], Y)
       else if is_alpha c then (RESULT_SOME, IDENTIFIER, takeWhile is_ident_char (c # Y), dropWhile is_ident_char (c # Y))
       else if is_digit c then (RESULT_SOME, DIGIT, takeWhile is_digit (c # Y), dropWhile is_digit (c # Y))
       else (RESULT_ERROR, PLUS, [], []))"

lemma token_next_text:
  "text_at m p X \<Longrightarrow> e = p + length X \<Longrightarrow> lex1 X = (rc, ty, A, Y) \<Longrightarrow>
    vec0_token_next m p e out = Some (rc, if rc = RESULT_SOME
      then \<lparr>token_type = ty, tstart = e - length Y - length A, tend = e - length Y\<rparr> else out)"
proof (induction X arbitrary: p)
  case Nil
  have "vec0_token_next m p p out = Some (RESULT_EOF, out)"
    unfolding vec0_token_next.simps [of m p p] by simp
  then show ?case using Nil by (auto simp: lex1_def)
next
  case (Cons c X)
  note t = text_at_Cons [OF Cons.prems(1)]
  have u: "vec0_token_next m p e out =
      (if is_whitespace c then vec0_token_next m (p + 1) e out
        else if c = 43 then Some (RESULT_SOME, one_char PLUS p)
        else if c = 91 then Some (RESULT_SOME, one_char LBRACKET p)
        else if c = 93 then Some (RESULT_SOME, one_char RBRACKET p)
        else if c = 61 then Some (RESULT_SOME, one_char EQ p)
        else if is_alpha c then do {
          q \<leftarrow> run_end is_ident_char m p e;
          Some (RESULT_SOME, \<lparr>token_type = IDENTIFIER, tstart = p, tend = q\<rparr>) }
        else if is_digit c then do {
          q \<leftarrow> run_end is_digit m p e;
          Some (RESULT_SOME, \<lparr>token_type = DIGIT, tstart = p, tend = q\<rparr>) }
        else Some (RESULT_ERROR, out))"
    unfolding vec0_token_next.simps [of m p e] using t Cons.prems(2) by simp
  show ?case
  proof (cases "is_whitespace c")
    case True
    then have "lex1 X = (rc, ty, A, Y)" using Cons.prems(3) by (simp add: lex1_def)
    then show ?thesis using Cons.IH [of "p + 1"] t u True Cons.prems(2) by simp
  next
    case w: False
    have l: "length (takeWhile P (c # X)) + length (dropWhile P (c # X)) = length (c # X)" for P
      by (metis length_append takeWhile_dropWhile_id)
    note run = run_end_text [OF Cons.prems(1,2)]
    show ?thesis unfolding u run using w Cons.prems(2,3) l [of is_ident_char] l [of is_digit]
      by (auto simp: lex1_def one_char_def split: if_splits)
  qed
qed

lemma scanner_text:
  assumes "text_at m p X" "lex1 X = (rc, ty, A, Y)"
  shows "vec0_scanner_next m \<lparr>sc_start = p, sc_end = p + length X, sc_ptr = q\<rparr> tok =
    Some (if rc = RESULT_SOME
      then (rc, \<lparr>sc_start = p + length X - length Y, sc_end = p + length X, sc_ptr = q\<rparr>,
        \<lparr>token_type = ty, tstart = p + length X - length Y - length A, tend = p + length X - length Y\<rparr>)
      else (rc, \<lparr>sc_start = p, sc_end = p + length X, sc_ptr = q\<rparr>, tok))"
  using token_next_text [OF assms(1) refl assms(2)] by (auto simp: vec0_scanner_next_def)

text \<open>
  C30: The scanner over a text in memory reads exactly the tokens of the reference lexer: after
  white space one of the four punctuation marks, the longest identifier, or the longest run of
  digits; the token found is the lexeme's address range (empty for a punctuation mark) and the
  scanner then stands at the text after it.
\<close>
theorem scanner_next_correct:
  assumes "text_at m p X" "lex1 X = (rc, ty, A, Y)"
  shows "vec0_scanner_next m \<lparr>sc_start = p, sc_end = p + length X, sc_ptr = q\<rparr> tok =
    Some (if rc = RESULT_SOME
      then (rc, \<lparr>sc_start = p + length X - length Y, sc_end = p + length X, sc_ptr = q\<rparr>,
        \<lparr>token_type = ty, tstart = p + length X - length Y - length A, tend = p + length X - length Y\<rparr>)
      else (rc, \<lparr>sc_start = p, sc_end = p + length X, sc_ptr = q\<rparr>, tok))"
  using assms by (rule scanner_text)

theorem scanner_next_correct_witness:
  "vec0_scanner_next [32, 97, 49, 91, 0] \<lparr>sc_start = 0, sc_end = 4, sc_ptr = 0\<rparr> blank_token =
    Some (RESULT_SOME, \<lparr>sc_start = 3, sc_end = 4, sc_ptr = 0\<rparr>,
      \<lparr>token_type = IDENTIFIER, tstart = 1, tend = 3\<rparr>)"
proof -
  have t: "text_at [32, 97, 49, 91, 0] 0 [32, 97, 49, 91]" by (simp add: text_at_def terminated_def cstr_def)
  have l: "lex1 [32, 97, 49, 91] = (RESULT_SOME, IDENTIFIER, [97, 49], [91])"
    by (simp add: lex1_def is_whitespace_def is_ident_char_def is_alpha_def is_digit_def)
  show ?thesis using scanner_next_correct [OF t l, of 0 blank_token] by (simp add: numeral_eq_Suc)
qed

section \<open>Comparing tokens\<close>

lemma upper_to_lower_0 [simp]: "upper_to_lower b = 0 \<longleftrightarrow> b = 0"
proof -
  have "b + 32 = 0 \<longleftrightarrow> b = - 32" by (metis add.commute add_eq_0_iff)
  then show ?thesis by (auto simp: upper_to_lower_def)
qed

lemma upper_to_lower_zero [simp]: "upper_to_lower 0 = 0"
  by simp

lemma strnicmp_text:
  "text_at m a X \<Longrightarrow> 0 \<notin> set L \<Longrightarrow> \<exists>r. sqlite3_strnicmp m a L n = Some r \<and>
    (r = 0 \<longleftrightarrow> map upper_to_lower (take n X) = map upper_to_lower (take n L))"
proof (induction n arbitrary: a X L)
  case (Suc n)
  show ?case
  proof (cases X)
    case Nil
    then have "ld8 m a = Some 0" using text_at_Nil Suc.prems(1) by simp
    then show ?thesis using Suc.prems(2) Nil by (cases L) (auto simp: uint_0_iff simp flip: word_uint_eq_iff)
  next
    case (Cons c Y)
    then have t: "ld8 m a = Some c" "c \<noteq> 0" "text_at m (a + 1) Y" using text_at_Cons Suc.prems(1) by auto
    show ?thesis
    proof (cases L)
      case Nil
      then show ?thesis using t Cons by (auto simp: uint_0_iff simp flip: word_uint_eq_iff)
    next
      case L: (Cons d L')
      then show ?thesis using t Cons Suc.IH [OF t(3), of L'] Suc.prems(2)
        by (auto simp flip: word_uint_eq_iff)
    qed
  qed
qed simp

lemma mprintf_prefix_text: "text_at m a X \<Longrightarrow> mprintf_prefix m a n = Some (take n X)"
proof (induction n arbitrary: a X)
  case (Suc n)
  show ?case
  proof (cases X)
    case Nil
    then show ?thesis using text_at_Nil Suc.prems by simp
  next
    case (Cons c Y)
    then show ?thesis using text_at_Cons Suc by fastforce
  qed
qed simp

end
