(* ===== verification/VecScanText.thy ===== *)
theory VecScanText
  imports VecScan
begin

text \<open>
  Correctness of the lexer and the parsers of \<open>VecScan\<close>: a column definition rendered as text is
  read back to the same column. A text is written with single spaces between its words; the
  lexer skips any other white space in the same way.
\<close>

section \<open>Reading rendered definitions\<close>

definition is_ident :: "u8 list \<Rightarrow> bool" where
  "is_ident A \<longleftrightarrow> A \<noteq> [] \<and> is_alpha (hd A) \<and> (\<forall>b\<in>set A. is_ident_char b)"

definition ends_ident :: "u8 list \<Rightarrow> bool" where
  "ends_ident Z \<longleftrightarrow> (case Z of [] \<Rightarrow> True | b # _ \<Rightarrow> \<not> is_ident_char b)"

lemma char_classes [simp]:
  "\<not> is_ident_char 32" "\<not> is_ident_char 91" "\<not> is_ident_char 93" "\<not> is_ident_char 61" "\<not> is_ident_char 43"
  "\<not> is_digit 32" "\<not> is_digit 91" "\<not> is_digit 93" "\<not> is_digit 61" "is_whitespace 32"
  by (simp_all add: is_ident_char_def is_alpha_def is_digit_def is_whitespace_def)

lemma ends_ident_simps [simp]: "ends_ident []" "ends_ident (b # Z) \<longleftrightarrow> \<not> is_ident_char b"
  by (simp_all add: ends_ident_def)

lemma takeWhile_run:
  assumes "\<forall>b\<in>set A. P b" "case Z of [] \<Rightarrow> True | b # _ \<Rightarrow> \<not> P b"
  shows "takeWhile P (A @ Z) = A" "dropWhile P (A @ Z) = Z"
  using assms by (induction A) (auto split: list.splits)

lemma lex1_space [simp]: "lex1 (32 # X) = lex1 X"
  by (simp add: lex1_def)

lemma lex1_ident:
  assumes "is_ident A" "ends_ident Z"
  shows "lex1 (A @ Z) = (RESULT_SOME, IDENTIFIER, A, Z)"
proof -
  obtain c A' where A: "A = c # A'" "is_alpha c" using assms(1) by (cases A) (auto simp: is_ident_def)
  have "\<not> is_whitespace c" "c \<noteq> 43" "c \<noteq> 91" "c \<noteq> 93" "c \<noteq> 61"
    using A(2) by (auto simp: is_alpha_def is_whitespace_def)
  then show ?thesis
    using A assms takeWhile_run [of "c # A'" is_ident_char Z] by (simp add: lex1_def is_ident_def ends_ident_def)
qed

lemma lex1_digits:
  assumes "A \<noteq> []" "\<forall>b\<in>set A. is_digit b" "case Z of [] \<Rightarrow> True | b # _ \<Rightarrow> \<not> is_digit b"
  shows "lex1 (A @ Z) = (RESULT_SOME, DIGIT, A, Z)"
proof -
  obtain c A' where A: "A = c # A'" "is_digit c" using assms by (cases A) auto
  have "\<not> is_whitespace c" "c \<noteq> 43" "c \<noteq> 91" "c \<noteq> 93" "c \<noteq> 61" "\<not> is_alpha c"
    using A(2) by (auto simp: is_alpha_def is_digit_def is_whitespace_def)
  then show ?thesis
    using A assms takeWhile_run [of "c # A'" is_digit Z] by (simp add: lex1_def)
qed

lemma lex1_marks [simp]:
  "lex1 (43 # Z) = (RESULT_SOME, PLUS, [], Z)" "lex1 (91 # Z) = (RESULT_SOME, LBRACKET, [], Z)"
  "lex1 (93 # Z) = (RESULT_SOME, RBRACKET, [], Z)" "lex1 (61 # Z) = (RESULT_SOME, EQ, [], Z)"
  "lex1 [] = (RESULT_EOF, PLUS, [], [])"
  by (simp_all add: lex1_def is_whitespace_def)

text \<open>One step of the scanner over a text whose first token is known.\<close>

lemma scan_some:
  assumes "text_at m p X" "e = p + length X" "lex1 X = (RESULT_SOME, ty, A, Z)" "X = W @ A @ Z"
  obtains p' tk where
    "vec0_scanner_next m \<lparr>sc_start = p, sc_end = e, sc_ptr = q\<rparr> tok =
      Some (RESULT_SOME, \<lparr>sc_start = p', sc_end = e, sc_ptr = q\<rparr>, tk)"
    "text_at m p' Z" "e = p' + length Z" "token_type tk = ty" "text_at m (tstart tk) (A @ Z)"
    "tend tk - tstart tk = length A" "tstart tk = p + length W"
proof -
  let ?p = "p + length W + length A"
  let ?tk = "\<lparr>token_type = ty, tstart = p + length W, tend = ?p\<rparr>"
  have "text_at m (p + length W) (A @ Z)" "text_at m ?p Z"
    using assms(1) text_at_append [of m p W "A @ Z"] text_at_append [of m "p + length W" A Z]
    by (simp_all add: assms(4))
  moreover have "vec0_scanner_next m \<lparr>sc_start = p, sc_end = e, sc_ptr = q\<rparr> tok =
      Some (RESULT_SOME, \<lparr>sc_start = ?p, sc_end = e, sc_ptr = q\<rparr>, ?tk)"
    using scanner_text [OF assms(1,3), of q tok] assms(2,4) by (simp add: add.assoc)
  ultimately show ?thesis using that [of ?p ?tk] assms(2,4) by simp
qed

lemma scan_word:
  assumes "text_at m p (A @ Z)" "e = p + length (A @ Z)" "lex1 (A @ Z) = (RESULT_SOME, ty, A, Z)"
  obtains p' tk where
    "vec0_scanner_next m \<lparr>sc_start = p, sc_end = e, sc_ptr = q\<rparr> tok =
      Some (RESULT_SOME, \<lparr>sc_start = p', sc_end = e, sc_ptr = q\<rparr>, tk)"
    "text_at m p' Z" "e = p' + length Z" "token_type tk = ty" "text_at m (tstart tk) (A @ Z)"
    "tend tk - tstart tk = length A" "tstart tk = p"
  by (rule scan_some [OF assms, of "[]" q tok], simp, rule that, assumption+, simp)

lemma scan_spaced:
  assumes "text_at m p (32 # A @ Z)" "e = p + length (32 # A @ Z)" "lex1 (A @ Z) = (RESULT_SOME, ty, A, Z)"
  obtains p' tk where
    "vec0_scanner_next m \<lparr>sc_start = p, sc_end = e, sc_ptr = q\<rparr> tok =
      Some (RESULT_SOME, \<lparr>sc_start = p', sc_end = e, sc_ptr = q\<rparr>, tk)"
    "text_at m p' Z" "e = p' + length Z" "token_type tk = ty" "text_at m (tstart tk) (A @ Z)"
    "tend tk - tstart tk = length A" "tstart tk = p + 1"
proof -
  have l: "lex1 (32 # A @ Z) = (RESULT_SOME, ty, A, Z)" using assms(3) by simp
  show thesis by (rule scan_some [OF assms(1,2) l, of "[32]" q tok], simp, rule that, assumption+, simp)
qed

lemma scan_mark:
  assumes "text_at m p (c # Z)" "e = p + length (c # Z)" "lex1 (c # Z) = (RESULT_SOME, ty, [], Z)"
  obtains p' tk where
    "vec0_scanner_next m \<lparr>sc_start = p, sc_end = e, sc_ptr = q\<rparr> tok =
      Some (RESULT_SOME, \<lparr>sc_start = p', sc_end = e, sc_ptr = q\<rparr>, tk)"
    "text_at m p' Z" "e = p' + length Z" "token_type tk = ty" "text_at m (tstart tk) Z"
    "tend tk - tstart tk = 0" "tstart tk = p + 1"
  by (rule scan_some [OF assms, of "[c]" q tok], simp, rule that, assumption+, simp_all)

lemma scan_eof:
  assumes "text_at m p []"
  shows "vec0_scanner_next m \<lparr>sc_start = p, sc_end = p, sc_ptr = q\<rparr> tok =
    Some (RESULT_EOF, \<lparr>sc_start = p, sc_end = p, sc_ptr = q\<rparr>, tok)"
  using scanner_text [OF assms, of RESULT_EOF PLUS "[]" "[]" q tok] by simp

lemma token_is_text:
  assumes "text_at m (tstart tk) (A @ Z)" "tend tk - tstart tk = length A" "0 \<notin> set (lit s)"
  shows "token_is m tk s = Some (map upper_to_lower A = map upper_to_lower (take (length A) (lit s)))"
  using strnicmp_text [OF assms(1,3), of "length A"] assms(2) by (auto simp: token_is_def)

section \<open>Decimal numbers\<close>

lemma is_digit_iff: "is_digit b \<longleftrightarrow> is_digit_in 10 b"
  by (auto simp: is_digit_def is_digit_in_def digit_val_def)

lemma decimal_digits: "\<forall>b\<in>set (decimal n). is_digit b"
proof (induction n rule: decimal.induct)
  case (1 n)
  have d: "is_digit (48 + word_of_nat k)" if "k < 10" for k
    using digit_char [OF that] that by (simp add: is_digit_def)
  show ?case using 1 d [of n] d [of "n mod 10"] by (auto simp: decimal.simps [of n])
qed

lemma atoi_decimal:
  assumes "text_at m p (decimal d @ Z)" "case Z of [] \<Rightarrow> True | b # _ \<Rightarrow> \<not> is_digit b" "d < 2147483648"
  shows "atoi m p = Some (int d)"
proof -
  obtain c D where D: "decimal d = c # D" by (cases "decimal d") auto
  have c: "is_digit c" using decimal_digits [of d] D by simp
  have nsp: "\<not> c_isspace (sint c)" "c \<noteq> 43" "c \<noteq> 45"
    using c mod_u32_small [of "sint c - 9" 5] by (auto simp: is_digit_def c_isspace_def)
  have t: "takeWhile (is_digit_in 10) (decimal d @ Z) = decimal d"
  proof -
    have "is_digit_in 10 = is_digit" by (simp add: is_digit_iff fun_eq_iff)
    then show ?thesis using takeWhile_run(1) [OF decimal_digits assms(2)] by simp
  qed
  have "int_text 10 (cstr m p) = (False, 0, decimal d)"
    using assms(1) nsp t by (simp add: int_text_def text_at_def D)
  from atoi_spec [OF _ this refl] show ?thesis
    using assms(1,3) by (simp add: text_at_def num_value_decimal)
qed

section \<open>Vector columns read back\<close>

definition vector_type_names :: "(string \<times> element_type) list" where
  "vector_type_names = [(''float'', FLOAT32), (''f32'', FLOAT32), (''int8'', INT8), (''i8'', INT8), (''bit'', BIT)]"

lemma is_ident_lit:
  "is_ident (lit ''float'')" "is_ident (lit ''f32'')" "is_ident (lit ''int8'')" "is_ident (lit ''i8'')"
  "is_ident (lit ''bit'')" "is_ident (lit ''distance_metric'')" "is_ident (lit ''l2'')" "is_ident (lit ''l1'')"
  "is_ident (lit ''cosine'')" "is_ident (lit ''text'')" "is_ident (lit ''int'')" "is_ident (lit ''integer'')"
  "is_ident (lit ''partition'')" "is_ident (lit ''primary'')" "is_ident (lit ''key'')"
  by (simp_all add: is_ident_def is_ident_char_def is_alpha_def is_digit_def)

lemma element_type_text:
  assumes "(tn, ty) \<in> set vector_type_names" "text_at m a (lit tn @ 91 # Z)"
  shows "element_type_at m a = Some (Some ty)"
proof -
  define X where "X = map upper_to_lower (lit tn @ 91 # Z)"
  have s: "\<exists>r. sqlite3_strnicmp m a (lit L) n = Some r \<and> (r = 0 \<longleftrightarrow> take n X = map upper_to_lower (take n (lit L)))"
    if "0 \<notin> set (lit L)" for L n
    using strnicmp_text [OF assms(2) that, of n] unfolding X_def take_map .
  obtain r1 r2 r3 r4 r5 where r: "sqlite3_strnicmp m a (lit ''float'') 5 = Some r1"
      "r1 = 0 \<longleftrightarrow> take 5 X = map upper_to_lower (take 5 (lit ''float''))"
      "sqlite3_strnicmp m a (lit ''f32'') 3 = Some r2"
      "r2 = 0 \<longleftrightarrow> take 3 X = map upper_to_lower (take 3 (lit ''f32''))"
      "sqlite3_strnicmp m a (lit ''int8'') 4 = Some r3"
      "r3 = 0 \<longleftrightarrow> take 4 X = map upper_to_lower (take 4 (lit ''int8''))"
      "sqlite3_strnicmp m a (lit ''i8'') 2 = Some r4"
      "r4 = 0 \<longleftrightarrow> take 2 X = map upper_to_lower (take 2 (lit ''i8''))"
      "sqlite3_strnicmp m a (lit ''bit'') 3 = Some r5"
      "r5 = 0 \<longleftrightarrow> take 3 X = map upper_to_lower (take 3 (lit ''bit''))"
    using s [of "''float''" 5] s [of "''f32''" 3] s [of "''int8''" 4] s [of "''i8''" 2] s [of "''bit''" 3] by auto
  have e: "element_type_at m a = Some (if r1 = 0 \<or> r2 = 0 then Some FLOAT32 else if r3 = 0 \<or> r4 = 0 then Some INT8
      else if r5 = 0 then Some BIT else None)"
    unfolding element_type_at_def r(1,3,5,7,9) by simp
  show ?thesis using assms(1) unfolding e r(2,4,6,8,10) X_def vector_type_names_def list.set insert_iff prod.inject empty_iff
    by (elim disjE conjE FalseE) (simp_all add: upper_to_lower_def)
qed

text \<open>The options a rendered column may end with, and the metric each gives.\<close>

definition metric_suffix :: "u8 list \<Rightarrow> distance_metric \<Rightarrow> bool" where
  "metric_suffix suf metric \<longleftrightarrow> (suf = [] \<and> metric = L2) \<or>
     (\<exists>mn. (mn, metric) \<in> set metric_names \<and> suf = 32 # lit ''distance_metric'' @ 61 # lit mn)"

lemma first_match_metric:
  assumes "(mn, metric) \<in> set metric_names" "text_at m (tstart tk) (lit mn @ Z)" "tend tk - tstart tk = length (lit mn)"
  shows "first_match m tk metric_names = Some (Some metric)"
proof -
  note t = token_is_text [OF assms(2,3)]
  show ?thesis using assms(1) unfolding metric_names_def list.set insert_iff prod.inject empty_iff
    by (elim disjE conjE FalseE) (simp_all add: t upper_to_lower_def)
qed

lemma vector_options_suffix:
  assumes "text_at m p suf" "metric_suffix suf metric" "e = p + length suf" "ty \<noteq> BIT \<or> suf = []"
  shows "vector_options m ty \<lparr>sc_start = p, sc_end = e, sc_ptr = q\<rparr> tok L2 = Some (OK metric)"
proof (cases "suf = []")
  case True
  then have "metric = L2" using assms(2) by (auto simp: metric_suffix_def)
  then show ?thesis using assms(1,3) True scan_eof [of m p q tok] by (simp add: vector_options.simps [of m ty])
next
  case False
  then obtain mn where mn: "(mn, metric) \<in> set metric_names" "suf = 32 # lit ''distance_metric'' @ 61 # lit mn"
    using assms(2) by (auto simp: metric_suffix_def)
  have id: "is_ident (lit mn)" using mn(1) is_ident_lit by (auto simp: metric_names_def simp del: lit_simps)
  have l: "lex1 (lit ''distance_metric'' @ 61 # lit mn) = (RESULT_SOME, IDENTIFIER, lit ''distance_metric'', 61 # lit mn)"
    "lex1 (61 # lit mn) = (RESULT_SOME, EQ, [], lit mn)" "lex1 (lit mn @ []) = (RESULT_SOME, IDENTIFIER, lit mn, [])"
    using lex1_ident [OF is_ident_lit(6), of "61 # lit mn"] lex1_ident [OF id, of "[]"]
    by (simp_all del: lit_simps)
  obtain p1 t1 where 1: "vec0_scanner_next m \<lparr>sc_start = p, sc_end = e, sc_ptr = q\<rparr> tok =
      Some (RESULT_SOME, \<lparr>sc_start = p1, sc_end = e, sc_ptr = q\<rparr>, t1)"
    "text_at m p1 (61 # lit mn)" "e = p1 + length (61 # lit mn)" "token_type t1 = IDENTIFIER"
    "text_at m (tstart t1) (lit ''distance_metric'' @ 61 # lit mn)" "tend t1 - tstart t1 = length (lit ''distance_metric'')"
    by (rule scan_spaced [OF assms(1,3) [unfolded mn(2)] l(1)], rule that)
  obtain p2 t2 where 2: "vec0_scanner_next m \<lparr>sc_start = p1, sc_end = e, sc_ptr = q\<rparr> t1 =
      Some (RESULT_SOME, \<lparr>sc_start = p2, sc_end = e, sc_ptr = q\<rparr>, t2)"
    "text_at m p2 (lit mn @ [])" "e = p2 + length (lit mn @ [])" "token_type t2 = EQ"
    by (rule scan_mark [OF 1(2,3) l(2)], rule that) simp_all
  obtain p3 t3 where 3: "vec0_scanner_next m \<lparr>sc_start = p2, sc_end = e, sc_ptr = q\<rparr> t2 =
      Some (RESULT_SOME, \<lparr>sc_start = p3, sc_end = e, sc_ptr = q\<rparr>, t3)"
    "text_at m p3 []" "e = p3 + length ([] :: u8 list)" "token_type t3 = IDENTIFIER"
    "text_at m (tstart t3) (lit mn @ [])" "tend t3 - tstart t3 = length (lit mn)"
    by (rule scan_word [OF 2(2,3) l(3)], rule that)
  have k: "token_is m t1 ''distance_metric'' = Some True"
    using token_is_text [OF 1(5,6), of "''distance_metric''"] by simp
  note v = first_match_metric [OF mn(1) 3(5,6)]
  have fin: "vector_options m ty \<lparr>sc_start = p3, sc_end = e, sc_ptr = q\<rparr> t3 metric = Some (OK metric)"
    using scan_eof [OF 3(2), of q t3] 3(3) by (simp add: vector_options.simps [of m ty])
  show ?thesis
    unfolding vector_options.simps [of m ty "\<lparr>sc_start = p, sc_end = e, sc_ptr = q\<rparr>"]
    using 1(1,4) 2(1,4) 3(1,4) k v fin assms(4) False by simp
qed

lemma vector_column_read:
  assumes "text_at m s (name @ 32 # lit tn @ 91 # decimal d @ 93 # suf)" (is "text_at m s ?X")
    and "is_ident name" "(tn, ty) \<in> set vector_type_names" "0 < d" "d < 2147483648"
    and "metric_suffix suf metric" "ty \<noteq> BIT \<or> suf = []"
  shows "vec0_parse_vector_column False m s (length (name @ 32 # lit tn @ 91 # decimal d @ 93 # suf)) tok =
    Some (OK \<lparr>vname = name, vname_length = length name, dimensions = d, element_type = ty, distance_metric = metric\<rparr>)"
proof -
  let ?e = "s + length ?X"
  have tn: "is_ident (lit tn)" using assms(3) is_ident_lit by (auto simp: vector_type_names_def simp del: lit_simps)
  have l: "lex1 ?X = (RESULT_SOME, IDENTIFIER, name, 32 # lit tn @ 91 # decimal d @ 93 # suf)"
    "lex1 (lit tn @ 91 # decimal d @ 93 # suf) = (RESULT_SOME, IDENTIFIER, lit tn, 91 # decimal d @ 93 # suf)"
    "lex1 (91 # decimal d @ 93 # suf) = (RESULT_SOME, LBRACKET, [], decimal d @ 93 # suf)"
    "lex1 (decimal d @ 93 # suf) = (RESULT_SOME, DIGIT, decimal d, 93 # suf)"
    "lex1 (93 # suf) = (RESULT_SOME, RBRACKET, [], suf)"
    using lex1_ident [OF assms(2)] lex1_ident [OF tn] lex1_digits [OF decimal_nonempty decimal_digits]
    by simp_all
  obtain p1 t1 where 1: "vec0_scanner_next m \<lparr>sc_start = s, sc_end = ?e, sc_ptr = s\<rparr> tok =
      Some (RESULT_SOME, \<lparr>sc_start = p1, sc_end = ?e, sc_ptr = s\<rparr>, t1)"
    "text_at m p1 (32 # lit tn @ 91 # decimal d @ 93 # suf)" "?e = p1 + length (32 # lit tn @ 91 # decimal d @ 93 # suf)"
    "token_type t1 = IDENTIFIER" "tend t1 - tstart t1 = length name" "tstart t1 = s"
    by (rule scan_word [OF assms(1) refl l(1)], rule that)
  obtain p2 t2 where 2: "vec0_scanner_next m \<lparr>sc_start = p1, sc_end = ?e, sc_ptr = s\<rparr> t1 =
      Some (RESULT_SOME, \<lparr>sc_start = p2, sc_end = ?e, sc_ptr = s\<rparr>, t2)"
    "text_at m p2 (91 # decimal d @ 93 # suf)" "?e = p2 + length (91 # decimal d @ 93 # suf)"
    "token_type t2 = IDENTIFIER" "text_at m (tstart t2) (lit tn @ 91 # decimal d @ 93 # suf)"
    by (rule scan_spaced [OF 1(2,3) l(2)], rule that)
  obtain p3 t3 where 3: "vec0_scanner_next m \<lparr>sc_start = p2, sc_end = ?e, sc_ptr = s\<rparr> t2 =
      Some (RESULT_SOME, \<lparr>sc_start = p3, sc_end = ?e, sc_ptr = s\<rparr>, t3)"
    "text_at m p3 (decimal d @ 93 # suf)" "?e = p3 + length (decimal d @ 93 # suf)"
    by (rule scan_mark [OF 2(2,3) l(3)], rule that)
  obtain p4 t4 where 4: "vec0_scanner_next m \<lparr>sc_start = p3, sc_end = ?e, sc_ptr = s\<rparr> t3 =
      Some (RESULT_SOME, \<lparr>sc_start = p4, sc_end = ?e, sc_ptr = s\<rparr>, t4)"
    "text_at m p4 (93 # suf)" "?e = p4 + length (93 # suf)" "text_at m (tstart t4) (decimal d @ 93 # suf)"
    by (rule scan_word [OF 3(2,3) l(4)], rule that)
  obtain p5 t5 where 5: "vec0_scanner_next m \<lparr>sc_start = p4, sc_end = ?e, sc_ptr = s\<rparr> t4 =
      Some (RESULT_SOME, \<lparr>sc_start = p5, sc_end = ?e, sc_ptr = s\<rparr>, t5)"
    "text_at m p5 suf" "?e = p5 + length suf"
    by (rule scan_mark [OF 4(2,3) l(5)], rule that)
  note ty = element_type_text [OF assms(3) 2(5)]
  have dims: "atoi m (tstart t4) = Some (int d)" by (rule atoi_decimal [OF 4(4) _ assms(5)]) simp
  note opts = vector_options_suffix [OF 5(2) assms(6) 5(3) assms(7)]
  have name: "mprintf_prefix m s (length name) = Some name" using mprintf_prefix_text [OF assms(1)] by simp
  show ?thesis
    unfolding vec0_parse_vector_column_def vec0_scanner_init_def Let_def
    using 1(1,5,6) 2(1,4) 3(1) 4(1) 5(1) ty dims opts name assms(4) by simp
qed



section \<open>Key, auxiliary and metadata columns read back\<close>

definition key_type_names :: "(string \<times> column_type) list" where
  "key_type_names = [(''text'', TEXT), (''int'', INTEGER), (''integer'', INTEGER)]"

lemma key_type_text:
  assumes "(tn, ty) \<in> set key_type_names" "text_at m (tstart tk) (lit tn @ Z)" "tend tk - tstart tk = length (lit tn)"
  shows "key_type m tk = Some (Some ty)"
proof -
  note t = token_is_text [OF assms(2,3)]
  show ?thesis using assms(1) unfolding key_type_names_def key_type_def list.set insert_iff prod.inject empty_iff
    by (elim disjE conjE FalseE) (simp_all add: t upper_to_lower_def)
qed

lemma aux_type_text:
  assumes "(tn, ty) \<in> set aux_types" "text_at m (tstart tk) (lit tn @ Z)" "tend tk - tstart tk = length (lit tn)"
  shows "first_match m tk aux_types = Some (Some ty)"
proof -
  note t = token_is_text [OF assms(2,3)]
  show ?thesis using assms(1) unfolding aux_types_def list.set insert_iff prod.inject empty_iff
    by (elim disjE conjE FalseE) (simp_all add: t upper_to_lower_def)
qed

lemma metadata_type_text:
  assumes "(tn, ty) \<in> set metadata_types" "text_at m (tstart tk) (lit tn @ Z)" "tend tk - tstart tk = length (lit tn)"
  shows "first_match m tk metadata_types = Some (Some ty)"
proof -
  note t = token_is_text [OF assms(2,3)]
  show ?thesis using assms(1) unfolding metadata_types_def list.set insert_iff prod.inject empty_iff
    by (elim disjE conjE FalseE) (simp_all add: t upper_to_lower_def)
qed

lemma is_ident_type_names:
  "(tn, ty) \<in> set key_type_names \<Longrightarrow> is_ident (lit tn)" "(tn, ty) \<in> set aux_types \<Longrightarrow> is_ident (lit tn)"
  "(tn, ki) \<in> set metadata_types \<Longrightarrow> is_ident (lit tn)"
  by (auto simp: key_type_names_def aux_types_def metadata_types_def is_ident_def is_ident_char_def
      is_alpha_def is_digit_def)

text \<open>The four words of a key column.\<close>

lemma scan_key_column:
  assumes t: "text_at m s (name @ 32 # A @ 32 # B @ 32 # C)"
    and id: "is_ident name" "is_ident A" "is_ident B" "is_ident C"
  obtains s1 t1 s2 t2 s3 t3 s4 t4 where
    "vec0_scanner_next m (vec0_scanner_init s (length (name @ 32 # A @ 32 # B @ 32 # C))) tok = Some (RESULT_SOME, s1, t1)"
    "tstart t1 = s" "tend t1 - tstart t1 = length name"
    "vec0_scanner_next m s1 t1 = Some (RESULT_SOME, s2, t2)"
    "text_at m (tstart t2) (A @ 32 # B @ 32 # C)" "tend t2 - tstart t2 = length A" "token_type t2 = IDENTIFIER"
    "vec0_scanner_next m s2 t2 = Some (RESULT_SOME, s3, t3)"
    "text_at m (tstart t3) (B @ 32 # C)" "tend t3 - tstart t3 = length B"
    "vec0_scanner_next m s3 t3 = Some (RESULT_SOME, s4, t4)"
    "text_at m (tstart t4) (C @ [])" "tend t4 - tstart t4 = length C"
proof -
  let ?X = "name @ 32 # A @ 32 # B @ 32 # C"
  let ?e = "s + length ?X"
  have l: "lex1 ?X = (RESULT_SOME, IDENTIFIER, name, 32 # A @ 32 # B @ 32 # C)"
    "lex1 (A @ 32 # B @ 32 # C) = (RESULT_SOME, IDENTIFIER, A, 32 # B @ 32 # C)"
    "lex1 (B @ 32 # C) = (RESULT_SOME, IDENTIFIER, B, 32 # C)" "lex1 (C @ []) = (RESULT_SOME, IDENTIFIER, C, [])"
    using lex1_ident [OF id(1)] lex1_ident [OF id(2)] lex1_ident [OF id(3)] lex1_ident [OF id(4), of "[]"] by simp_all
  obtain p1 t1 where 1: "vec0_scanner_next m \<lparr>sc_start = s, sc_end = ?e, sc_ptr = s\<rparr> tok =
      Some (RESULT_SOME, \<lparr>sc_start = p1, sc_end = ?e, sc_ptr = s\<rparr>, t1)"
    "text_at m p1 (32 # A @ 32 # B @ 32 # C)" "?e = p1 + length (32 # A @ 32 # B @ 32 # C)"
    "tend t1 - tstart t1 = length name" "tstart t1 = s"
    by (rule scan_word [OF t refl l(1)], rule that)
  obtain p2 t2 where 2: "vec0_scanner_next m \<lparr>sc_start = p1, sc_end = ?e, sc_ptr = s\<rparr> t1 =
      Some (RESULT_SOME, \<lparr>sc_start = p2, sc_end = ?e, sc_ptr = s\<rparr>, t2)"
    "text_at m p2 (32 # B @ 32 # C)" "?e = p2 + length (32 # B @ 32 # C)" "token_type t2 = IDENTIFIER"
    "text_at m (tstart t2) (A @ 32 # B @ 32 # C)" "tend t2 - tstart t2 = length A"
    by (rule scan_spaced [OF 1(2,3) l(2)], rule that)
  obtain p3 t3 where 3: "vec0_scanner_next m \<lparr>sc_start = p2, sc_end = ?e, sc_ptr = s\<rparr> t2 =
      Some (RESULT_SOME, \<lparr>sc_start = p3, sc_end = ?e, sc_ptr = s\<rparr>, t3)"
    "text_at m p3 (32 # C)" "?e = p3 + length (32 # C)"
    "text_at m (tstart t3) (B @ 32 # C)" "tend t3 - tstart t3 = length B"
    by (rule scan_spaced [OF 2(2,3) l(3)], rule that)
  have n3: "text_at m p3 (32 # C @ [])" "?e = p3 + length (32 # C @ [])" using 3(2,3) by simp_all
  obtain p4 t4 where 4: "vec0_scanner_next m \<lparr>sc_start = p3, sc_end = ?e, sc_ptr = s\<rparr> t3 =
      Some (RESULT_SOME, \<lparr>sc_start = p4, sc_end = ?e, sc_ptr = s\<rparr>, t4)"
    "text_at m (tstart t4) (C @ [])" "tend t4 - tstart t4 = length C"
    by (rule scan_spaced [OF n3 l(4)], rule that)
  show thesis
    by (rule that [OF _ 1(5,4) 2(1,5,6,4) 3(1,4,5) 4]) (use 1(1) in \<open>simp add: vec0_scanner_init_def\<close>)
qed

lemma key_column_read:
  assumes "text_at m s (name @ 32 # lit tn @ 32 # lit kind @ 32 # lit ''key'')" (is "text_at m s ?X")
    and "is_ident name" "(tn, ty) \<in> set key_type_names" "kind = ''partition'' \<or> kind = ''primary''"
    and "n = length name + length (lit tn) + length (lit kind) + 6"
  shows "vec0_parse_partition_key_definition m s n tok =
      Some (if kind = ''partition'' then OK \<lparr>column_name = s, column_name_length = length name, column_type = ty\<rparr> else EMPTY) \<and>
    vec0_parse_primary_key_definition m s n tok =
      Some (if kind = ''primary'' then OK \<lparr>column_name = s, column_name_length = length name, column_type = ty\<rparr> else EMPTY)"
proof -
  have idk: "is_ident (lit kind)" using assms(4) is_ident_lit by (auto simp del: lit_simps)
  obtain s1 t1 s2 t2 s3 t3 s4 t4 where
    1: "vec0_scanner_next m (vec0_scanner_init s (length ?X)) tok = Some (RESULT_SOME, s1, t1)"
      "tstart t1 = s" "tend t1 - tstart t1 = length name"
    and 2: "vec0_scanner_next m s1 t1 = Some (RESULT_SOME, s2, t2)"
      "text_at m (tstart t2) (lit tn @ 32 # lit kind @ 32 # lit ''key'')" "tend t2 - tstart t2 = length (lit tn)"
      "token_type t2 = IDENTIFIER"
    and 3: "vec0_scanner_next m s2 t2 = Some (RESULT_SOME, s3, t3)"
      "text_at m (tstart t3) (lit kind @ 32 # lit ''key'')" "tend t3 - tstart t3 = length (lit kind)"
    and 4: "vec0_scanner_next m s3 t3 = Some (RESULT_SOME, s4, t4)"
      "text_at m (tstart t4) (lit ''key'' @ [])" "tend t4 - tstart t4 = length (lit ''key'')"
    by (rule scan_key_column [OF assms(1,2) is_ident_type_names(1) [OF assms(3)] idk is_ident_lit(15)], rule that)
  have n: "n = length ?X" using assms(5) by simp
  note ty = key_type_text [OF assms(3) 2(2,3)]
  have k: "token_is m t3 ''partition'' = Some (kind = ''partition'')" "token_is m t3 ''primary'' = Some (kind = ''primary'')"
    using assms(4) token_is_text [OF 3(2,3), of "''partition''"] token_is_text [OF 3(2,3), of "''primary''"]
    by (auto simp: upper_to_lower_def)
  have key: "token_is m t4 ''key'' = Some True" using token_is_text [OF 4(2,3), of "''key''"] by simp
  show ?thesis
    unfolding vec0_parse_partition_key_definition_def vec0_parse_primary_key_definition_def Let_def n
    using 1 2(1) 3(1) 4(1) ty k key by simp
qed

text \<open>
  C32: Reading back a rendered key column, \<open>name type partition key\<close> or \<open>name type primary key\<close>
  with one of the types \<open>text\<close>, \<open>int\<close> and \<open>integer\<close>, gives its name and its type, and neither
  parser accepts the other's columns.
\<close>
theorem key_column_roundtrip:
  assumes "text_at m s (name @ 32 # lit tn @ 32 # lit kind @ 32 # lit ''key'')"
    and "is_ident name" "(tn, ty) \<in> set key_type_names" "kind = ''partition'' \<or> kind = ''primary''"
    and "n = length name + length (lit tn) + length (lit kind) + 6"
  shows "vec0_parse_partition_key_definition m s n tok =
      Some (if kind = ''partition'' then OK \<lparr>column_name = s, column_name_length = length name, column_type = ty\<rparr> else EMPTY) \<and>
    vec0_parse_primary_key_definition m s n tok =
      Some (if kind = ''primary'' then OK \<lparr>column_name = s, column_name_length = length name, column_type = ty\<rparr> else EMPTY)"
  using assms by (rule key_column_read)

theorem key_column_roundtrip_witness:
  "vec0_parse_partition_key_definition (lit ''u int partition key'' @ [0]) 0 19 blank_token =
      Some (OK \<lparr>column_name = 0, column_name_length = 1, column_type = INTEGER\<rparr>)"
proof -
  let ?X = "lit ''u'' @ 32 # lit ''int'' @ 32 # lit ''partition'' @ 32 # lit ''key''"
  have t: "text_at (lit ''u int partition key'' @ [0]) 0 ?X"
    by (simp add: text_at_def terminated_def cstr_def)
  have i: "is_ident (lit ''u'')" by (simp add: is_ident_def is_ident_char_def is_alpha_def)
  show ?thesis using key_column_roundtrip [OF t i, of INTEGER 19 blank_token] by (simp add: key_type_names_def)
qed

text \<open>The words of an auxiliary and of a metadata column.\<close>

lemma scan_pair:
  assumes "text_at m p (name @ 32 # lit tn)" "e = p + length (name @ 32 # lit tn)" "is_ident name" "is_ident (lit tn)"
  obtains p1 t1 p2 t2 where
    "vec0_scanner_next m \<lparr>sc_start = p, sc_end = e, sc_ptr = q\<rparr> tok =
      Some (RESULT_SOME, \<lparr>sc_start = p1, sc_end = e, sc_ptr = q\<rparr>, t1)"
    "tstart t1 = p" "tend t1 - tstart t1 = length name" "token_type t1 = IDENTIFIER" "text_at m (tstart t1) (name @ 32 # lit tn)"
    "vec0_scanner_next m \<lparr>sc_start = p1, sc_end = e, sc_ptr = q\<rparr> t1 =
      Some (RESULT_SOME, \<lparr>sc_start = p2, sc_end = e, sc_ptr = q\<rparr>, t2)"
    "text_at m (tstart t2) (lit tn @ [])" "tend t2 - tstart t2 = length (lit tn)" "token_type t2 = IDENTIFIER"
    "text_at m p2 []" "e = p2"
proof -
  have l: "lex1 (name @ 32 # lit tn) = (RESULT_SOME, IDENTIFIER, name, 32 # lit tn)"
    "lex1 (lit tn @ []) = (RESULT_SOME, IDENTIFIER, lit tn, [])"
    using lex1_ident [OF assms(3), of "32 # lit tn"] lex1_ident [OF assms(4), of "[]"] by (simp_all del: lit_simps)
  obtain p1 t1 where 1: "vec0_scanner_next m \<lparr>sc_start = p, sc_end = e, sc_ptr = q\<rparr> tok =
      Some (RESULT_SOME, \<lparr>sc_start = p1, sc_end = e, sc_ptr = q\<rparr>, t1)"
    "text_at m p1 (32 # lit tn @ [])" "e = p1 + length (32 # lit tn @ [])" "token_type t1 = IDENTIFIER"
    "text_at m (tstart t1) (name @ 32 # lit tn)" "tend t1 - tstart t1 = length name" "tstart t1 = p"
    by (rule scan_word [OF assms(1,2) l(1)], rule that) (simp_all del: lit_simps)
  obtain p2 t2 where 2: "vec0_scanner_next m \<lparr>sc_start = p1, sc_end = e, sc_ptr = q\<rparr> t1 =
      Some (RESULT_SOME, \<lparr>sc_start = p2, sc_end = e, sc_ptr = q\<rparr>, t2)"
    "text_at m p2 []" "e = p2 + length ([] :: u8 list)" "token_type t2 = IDENTIFIER"
    "text_at m (tstart t2) (lit tn @ [])" "tend t2 - tstart t2 = length (lit tn)"
    by (rule scan_spaced [OF 1(2,3) l(2)], rule that)
  have "e = p2" using 2(3) by simp
  then show thesis by (rule that [OF 1(1,7,6,4,5) 2(1,5,6,4,2)])
qed

lemma aux_column_read:
  assumes "is_ident name" "(tn, ty) \<in> set aux_types" "text_at m s (43 # name @ 32 # lit tn)"
  shows "vec0_parse_auxiliary_column_definition m s (length (43 # name @ 32 # lit tn)) tok =
      Some (OK \<lparr>column_name = s + 1, column_name_length = length name, column_type = ty\<rparr>)"
proof -
  let ?e = "s + length (43 # name @ 32 # lit tn)"
  obtain p0 t0 where 0: "vec0_scanner_next m \<lparr>sc_start = s, sc_end = ?e, sc_ptr = s\<rparr> tok =
      Some (RESULT_SOME, \<lparr>sc_start = p0, sc_end = ?e, sc_ptr = s\<rparr>, t0)"
    "text_at m p0 (name @ 32 # lit tn)" "?e = p0 + length (name @ 32 # lit tn)" "token_type t0 = PLUS" "tstart t0 = s + 1"
    by (rule scan_mark [OF assms(3) refl lex1_marks(1)], rule that)
  have p0: "p0 = s + 1" using 0(3) by simp
  obtain p1 t1 p2 t2 where 1: "vec0_scanner_next m \<lparr>sc_start = p0, sc_end = ?e, sc_ptr = s\<rparr> t0 =
      Some (RESULT_SOME, \<lparr>sc_start = p1, sc_end = ?e, sc_ptr = s\<rparr>, t1)"
    "tstart t1 = p0" "tend t1 - tstart t1 = length name" "token_type t1 = IDENTIFIER"
    and 2: "vec0_scanner_next m \<lparr>sc_start = p1, sc_end = ?e, sc_ptr = s\<rparr> t1 =
      Some (RESULT_SOME, \<lparr>sc_start = p2, sc_end = ?e, sc_ptr = s\<rparr>, t2)"
    "text_at m (tstart t2) (lit tn @ [])" "tend t2 - tstart t2 = length (lit tn)"
    by (rule scan_pair [OF 0(2,3) assms(1) is_ident_type_names(2) [OF assms(2)]], rule that)
  show ?thesis
    unfolding vec0_parse_auxiliary_column_definition_def vec0_scanner_init_def Let_def
    using 0(1,4) 1 2(1) aux_type_text [OF assms(2) 2(2,3)] p0 by simp
qed

lemma metadata_column_read:
  assumes "is_ident name" "(tn, ki) \<in> set metadata_types" "text_at m s (name @ 32 # lit tn)"
  shows "vec0_parse_metadata_column_definition m s (length (name @ 32 # lit tn)) tok =
      Some (OK \<lparr>column_name = s, column_name_length = length name, column_type = ki\<rparr>)"
    and "vec0_parse_auxiliary_column_definition m s (length (name @ 32 # lit tn)) tok = Some EMPTY"
proof -
  let ?e = "s + length (name @ 32 # lit tn)"
  obtain p1 t1 p2 t2 where 1: "vec0_scanner_next m \<lparr>sc_start = s, sc_end = ?e, sc_ptr = s\<rparr> tok =
      Some (RESULT_SOME, \<lparr>sc_start = p1, sc_end = ?e, sc_ptr = s\<rparr>, t1)"
    "tstart t1 = s" "tend t1 - tstart t1 = length name" "token_type t1 = IDENTIFIER"
    and 2: "vec0_scanner_next m \<lparr>sc_start = p1, sc_end = ?e, sc_ptr = s\<rparr> t1 =
      Some (RESULT_SOME, \<lparr>sc_start = p2, sc_end = ?e, sc_ptr = s\<rparr>, t2)"
    "text_at m (tstart t2) (lit tn @ [])" "tend t2 - tstart t2 = length (lit tn)" "token_type t2 = IDENTIFIER"
    by (rule scan_pair [OF assms(3) refl assms(1) is_ident_type_names(3) [OF assms(2)]], rule that)
  show "vec0_parse_metadata_column_definition m s (length (name @ 32 # lit tn)) tok =
      Some (OK \<lparr>column_name = s, column_name_length = length name, column_type = ki\<rparr>)"
    unfolding vec0_parse_metadata_column_definition_def vec0_scanner_init_def Let_def
    using 1 2(1,4) metadata_type_text [OF assms(2) 2(2,3)] by simp
  show "vec0_parse_auxiliary_column_definition m s (length (name @ 32 # lit tn)) tok = Some EMPTY"
    unfolding vec0_parse_auxiliary_column_definition_def vec0_scanner_init_def Let_def using 1(1,4) by simp
qed



end
