(* ===== verification/VecInit.thy ===== *)
theory VecInit
  imports VecScanText
begin

text \<open>
  The constructor of a \<open>vec0\<close> table in \<^verbatim>\<open>sqlite-vec.c\<close>: the loop of \<open>vec0_init\<close> over the
  arguments, which sorts each of them into a column or an option, and the column index helpers
  that read the arrays it fills. The arrays have the fixed sizes of \<open>struct vec0_vtab\<close>, so that
  a write past their end would be a trap. The SQL the constructor then runs is not modelled.
\<close>

section \<open>The table\<close>

datatype column_kind = VECTOR | PARTITION | AUXILIARY | METADATA

record 't named_column =
  cname :: "u8 list"
  cname_length :: nat
  ctype :: 't

record vec0_vtab =
  pkIsText :: bool
  numVectorColumns :: nat
  numPartitionColumns :: nat
  numAuxiliaryColumns :: nat
  numMetadataColumns :: nat
  user_column_kinds :: "column_kind option list"
  user_column_idxs :: "nat list"
  vector_columns :: "vector_column option list"
  paritition_columns :: "column_type named_column option list"
  auxiliary_columns :: "column_type named_column option list"
  metadata_columns :: "metadata_kind named_column option list"
  chunk_size :: int

definition VEC0_MAX_VECTOR_COLUMNS :: nat where "VEC0_MAX_VECTOR_COLUMNS = 16"
definition VEC0_MAX_PARTITION_COLUMNS :: nat where "VEC0_MAX_PARTITION_COLUMNS = 4"
definition VEC0_MAX_AUXILIARY_COLUMNS :: nat where "VEC0_MAX_AUXILIARY_COLUMNS = 16"
definition VEC0_MAX_METADATA_COLUMNS :: nat where "VEC0_MAX_METADATA_COLUMNS = 16"
definition SQLITE_VEC_VEC0_MAX_DIMENSIONS :: nat where "SQLITE_VEC_VEC0_MAX_DIMENSIONS = 8192"
definition SQLITE_VEC_CHUNK_SIZE_MAX :: int where "SQLITE_VEC_CHUNK_SIZE_MAX = 4096"

lemmas vec0_limits = VEC0_MAX_VECTOR_COLUMNS_def VEC0_MAX_PARTITION_COLUMNS_def
  VEC0_MAX_AUXILIARY_COLUMNS_def VEC0_MAX_METADATA_COLUMNS_def SQLITE_VEC_VEC0_MAX_DIMENSIONS_def
  SQLITE_VEC_CHUNK_SIZE_MAX_def

text \<open>\<open>memset(pNew, 0, sizeof(*pNew))\<close>; the counters of the loop are those of the table.\<close>

definition empty_vtab :: vec0_vtab where
  "empty_vtab = \<lparr>pkIsText = False, numVectorColumns = 0, numPartitionColumns = 0, numAuxiliaryColumns = 0,
     numMetadataColumns = 0, user_column_kinds = replicate 52 None, user_column_idxs = replicate 52 0,
     vector_columns = replicate 16 None, paritition_columns = replicate 4 None,
     auxiliary_columns = replicate 16 None, metadata_columns = replicate 16 None, chunk_size = - 1\<rparr>"

text \<open>The locals of the loop besides the table: \<open>user_column_idx\<close> and the primary key.\<close>

record init_state =
  tab :: vec0_vtab
  user_column_idx :: nat
  pkColumn :: "column_type column_def option"

datatype init_error =
  Could_not_parse_vector | Too_many_vector | Dimension_too_large | Too_many_partition | Too_many_primary
| Too_many_auxiliary | Too_many_metadata | Could_not_parse_option | Chunk_size_not_positive
| Chunk_size_not_divisible | Chunk_size_too_large | Unknown_option | Could_not_parse | No_vector_column | NOMEM

type_synonym init_result = "(init_error + init_state) option"

text \<open>The two writes every kind of column makes to the arrays of user columns.\<close>

definition add_user_column :: "column_kind \<Rightarrow> nat \<Rightarrow> init_state \<Rightarrow> vec0_vtab \<Rightarrow> init_result" where
  "add_user_column kind idx st t = do {
     kinds \<leftarrow> wr (user_column_kinds t) (user_column_idx st) (Some kind);
     idxs \<leftarrow> wr (user_column_idxs t) (user_column_idx st) idx;
     Some (Inr (st\<lparr>tab := t\<lparr>user_column_kinds := kinds, user_column_idxs := idxs\<rparr>,
                   user_column_idx := user_column_idx st + 1\<rparr>)) }"

definition init_vector :: "vector_column \<Rightarrow> init_state \<Rightarrow> init_result" where
  "init_vector c st =
     (let t = tab st; n = numVectorColumns t in
      if n \<ge> VEC0_MAX_VECTOR_COLUMNS then Some (Inl Too_many_vector)
      else if dimensions c > SQLITE_VEC_VEC0_MAX_DIMENSIONS then Some (Inl Dimension_too_large)
      else do {
        cs \<leftarrow> wr (vector_columns t) n (Some c);
        add_user_column VECTOR n st (t\<lparr>vector_columns := cs, numVectorColumns := n + 1\<rparr>) })"

text \<open>The name of a column copied from the argument.\<close>

definition named :: "mem \<Rightarrow> 't column_def \<Rightarrow> 't named_column option" where
  "named m c = do {
     s \<leftarrow> mprintf_prefix m (column_name c) (column_name_length c);
     Some \<lparr>cname = s, cname_length = column_name_length c, ctype = column_type c\<rparr> }"

definition init_partition :: "bool \<Rightarrow> mem \<Rightarrow> column_type column_def \<Rightarrow> init_state \<Rightarrow> init_result" where
  "init_partition oom m c st =
     (let t = tab st; n = numPartitionColumns t in
      if n \<ge> VEC0_MAX_PARTITION_COLUMNS then Some (Inl Too_many_partition)
      else if oom then Some (Inl NOMEM)
      else do {
        d \<leftarrow> named m c;
        cs \<leftarrow> wr (paritition_columns t) n (Some d);
        add_user_column PARTITION n st (t\<lparr>paritition_columns := cs, numPartitionColumns := n + 1\<rparr>) })"

definition init_primary :: "column_type column_def \<Rightarrow> init_state \<Rightarrow> init_result" where
  "init_primary c st = Some (if pkColumn st \<noteq> None then Inl Too_many_primary else Inr (st\<lparr>pkColumn := Some c\<rparr>))"

definition init_auxiliary :: "bool \<Rightarrow> mem \<Rightarrow> column_type column_def \<Rightarrow> init_state \<Rightarrow> init_result" where
  "init_auxiliary oom m c st =
     (let t = tab st; n = numAuxiliaryColumns t in
      if n \<ge> VEC0_MAX_AUXILIARY_COLUMNS then Some (Inl Too_many_auxiliary)
      else if oom then Some (Inl NOMEM)
      else do {
        d \<leftarrow> named m c;
        cs \<leftarrow> wr (auxiliary_columns t) n (Some d);
        add_user_column AUXILIARY n st (t\<lparr>auxiliary_columns := cs, numAuxiliaryColumns := n + 1\<rparr>) })"

definition init_metadata :: "bool \<Rightarrow> mem \<Rightarrow> metadata_kind column_def \<Rightarrow> init_state \<Rightarrow> init_result" where
  "init_metadata oom m c st =
     (let t = tab st; n = numMetadataColumns t in
      if n \<ge> VEC0_MAX_METADATA_COLUMNS then Some (Inl Too_many_metadata)
      else if oom then Some (Inl NOMEM)
      else do {
        d \<leftarrow> named m c;
        cs \<leftarrow> wr (metadata_columns t) n (Some d);
        add_user_column METADATA n st (t\<lparr>metadata_columns := cs, numMetadataColumns := n + 1\<rparr>) })"

definition init_option :: "mem \<Rightarrow> table_option \<Rightarrow> init_state \<Rightarrow> init_result" where
  "init_option m opt st = do {
     c \<leftarrow> sqlite3_strnicmp m (opt_key opt) (lit ''chunk_size'') (opt_key_length opt);
     if c = 0 then do {
       size \<leftarrow> atoi m (opt_value opt);
       if size \<le> 0 then Some (Inl Chunk_size_not_positive)
       else if size mod 8 \<noteq> 0 then Some (Inl Chunk_size_not_divisible)
       else if size > SQLITE_VEC_CHUNK_SIZE_MAX then Some (Inl Chunk_size_too_large)
       else Some (Inr (st\<lparr>tab := (tab st)\<lparr>chunk_size := size\<rparr>\<rparr>)) }
     else Some (Inl Unknown_option) }"

text \<open>One round of the loop: \<open>tok i\<close> is the token structure the \<open>i\<close>-th parser starts from.\<close>

definition init_arg :: "bool \<Rightarrow> (nat \<Rightarrow> token) \<Rightarrow> mem \<Rightarrow> addr \<Rightarrow> init_state \<Rightarrow> init_result" where
  "init_arg oom tok m arg st = do {
     n \<leftarrow> strlen m arg;
     v \<leftarrow> vec0_parse_vector_column oom m arg n (tok 0);
     case v of ERROR \<Rightarrow> Some (Inl Could_not_parse_vector) | OK c \<Rightarrow> init_vector c st | EMPTY \<Rightarrow> do {
     p \<leftarrow> vec0_parse_partition_key_definition m arg n (tok 1);
     case p of OK c \<Rightarrow> init_partition oom m c st | _ \<Rightarrow> do {
     k \<leftarrow> vec0_parse_primary_key_definition m arg n (tok 2);
     case k of OK c \<Rightarrow> init_primary c st | _ \<Rightarrow> do {
     a \<leftarrow> vec0_parse_auxiliary_column_definition m arg n (tok 3);
     case a of OK c \<Rightarrow> init_auxiliary oom m c st | _ \<Rightarrow> do {
     d \<leftarrow> vec0_parse_metadata_column_definition m arg n (tok 4);
     case d of OK c \<Rightarrow> init_metadata oom m c st | _ \<Rightarrow> do {
     opt \<leftarrow> vec0_parse_table_option m arg n (tok 5);
     case opt of ERROR \<Rightarrow> Some (Inl Could_not_parse_option) | OK opt \<Rightarrow> init_option m opt st
       | EMPTY \<Rightarrow> Some (Inl Could_not_parse) } } } } } }"

text \<open>The loop; \<open>oom i\<close> tells whether the allocation for argument \<open>i\<close> fails.\<close>

fun init_args :: "(nat \<Rightarrow> bool) \<Rightarrow> (nat \<Rightarrow> token) \<Rightarrow> mem \<Rightarrow> nat \<Rightarrow> addr list \<Rightarrow> init_state \<Rightarrow> init_result" where
  "init_args oom tok m i [] st = Some (Inr st)"
| "init_args oom tok m i (arg # args) st = do {
     r \<leftarrow> init_arg (oom i) tok m arg st;
     case r of Inl e \<Rightarrow> Some (Inl e) | Inr st \<Rightarrow> init_args oom tok m (i + 1) args st }"

text \<open>The constructor up to the table it hands to SQLite; \<open>oom 0\<close> is the allocation of the table.\<close>

definition vec0_init :: "(nat \<Rightarrow> bool) \<Rightarrow> (nat \<Rightarrow> token) \<Rightarrow> mem \<Rightarrow> addr list \<Rightarrow> (init_error + vec0_vtab) option" where
  "vec0_init oom tok m argv =
     (if oom 0 then Some (Inl NOMEM) else do {
     r \<leftarrow> init_args oom tok m 3 (drop 3 argv) \<lparr>tab = empty_vtab, user_column_idx = 0, pkColumn = None\<rparr>;
     case r of Inl e \<Rightarrow> Some (Inl e) | Inr st \<Rightarrow>
       let t = tab st; size = (if chunk_size t < 0 then 1024 else chunk_size t) in
       if numVectorColumns t \<le> 0 then Some (Inl No_vector_column)
       else Some (Inr (t\<lparr>chunk_size := size,
         pkIsText := (case pkColumn st of Some c \<Rightarrow> column_type c = TEXT | None \<Rightarrow> False)\<rparr>)) })"

section \<open>Column indices\<close>

definition VEC0_COLUMN_USERN_START :: int where "VEC0_COLUMN_USERN_START = 1"

definition vec0_num_defined_user_columns :: "vec0_vtab \<Rightarrow> nat" where
  "vec0_num_defined_user_columns p =
     numVectorColumns p + numPartitionColumns p + numAuxiliaryColumns p + numMetadataColumns p"

definition vec0_column_distance_idx :: "vec0_vtab \<Rightarrow> int" where
  "vec0_column_distance_idx p = VEC0_COLUMN_USERN_START + (int (vec0_num_defined_user_columns p) - 1) + 1"

definition vec0_column_k_idx :: "vec0_vtab \<Rightarrow> int" where
  "vec0_column_k_idx p = VEC0_COLUMN_USERN_START + (int (vec0_num_defined_user_columns p) - 1) + 2"

text \<open>The common body of the four \<open>vec0_column_idx_is_...\<close> functions.\<close>

definition column_idx_is :: "column_kind \<Rightarrow> vec0_vtab \<Rightarrow> int \<Rightarrow> bool option" where
  "column_idx_is kind p column_idx =
     (if column_idx \<ge> VEC0_COLUMN_USERN_START \<and>
         column_idx \<le> VEC0_COLUMN_USERN_START + int (vec0_num_defined_user_columns p) - 1
      then do { k \<leftarrow> rd (user_column_kinds p) (nat (column_idx - VEC0_COLUMN_USERN_START)); Some (k = Some kind) }
      else Some False)"

definition vec0_column_idx_is_vector :: "vec0_vtab \<Rightarrow> int \<Rightarrow> bool option" where
  "vec0_column_idx_is_vector = column_idx_is VECTOR"

definition vec0_column_idx_is_partition :: "vec0_vtab \<Rightarrow> int \<Rightarrow> bool option" where
  "vec0_column_idx_is_partition = column_idx_is PARTITION"

definition vec0_column_idx_is_auxiliary :: "vec0_vtab \<Rightarrow> int \<Rightarrow> bool option" where
  "vec0_column_idx_is_auxiliary = column_idx_is AUXILIARY"

definition vec0_column_idx_is_metadata :: "vec0_vtab \<Rightarrow> int \<Rightarrow> bool option" where
  "vec0_column_idx_is_metadata = column_idx_is METADATA"

definition vec0_column_idx_to_vector_idx :: "vec0_vtab \<Rightarrow> int \<Rightarrow> nat option" where
  "vec0_column_idx_to_vector_idx p column_idx =
     rd (user_column_idxs p) (nat (column_idx - VEC0_COLUMN_USERN_START))"

definition vec0_column_idx_to_partition_idx :: "vec0_vtab \<Rightarrow> int \<Rightarrow> nat option" where
  "vec0_column_idx_to_partition_idx p column_idx =
     rd (user_column_idxs p) (nat (column_idx - VEC0_COLUMN_USERN_START))"

definition vec0_column_idx_to_auxiliary_idx :: "vec0_vtab \<Rightarrow> int \<Rightarrow> nat option" where
  "vec0_column_idx_to_auxiliary_idx p column_idx =
     rd (user_column_idxs p) (nat (column_idx - VEC0_COLUMN_USERN_START))"

definition vec0_column_idx_to_metadata_idx :: "vec0_vtab \<Rightarrow> int \<Rightarrow> nat option" where
  "vec0_column_idx_to_metadata_idx p column_idx =
     rd (user_column_idxs p) (nat (column_idx - VEC0_COLUMN_USERN_START))"

section \<open>The invariant of the constructor\<close>

fun column_count :: "column_kind \<Rightarrow> vec0_vtab \<Rightarrow> nat" where
  "column_count VECTOR t = numVectorColumns t"
| "column_count PARTITION t = numPartitionColumns t"
| "column_count AUXILIARY t = numAuxiliaryColumns t"
| "column_count METADATA t = numMetadataColumns t"

lemma column_count_case:
  "column_count k t = (case k of VECTOR \<Rightarrow> numVectorColumns t | PARTITION \<Rightarrow> numPartitionColumns t
     | AUXILIARY \<Rightarrow> numAuxiliaryColumns t | METADATA \<Rightarrow> numMetadataColumns t)"
  by (cases k) simp_all

text \<open>
  The user columns are listed once each, those of a kind in their order; every entry of a column
  array below its count is filled; the counts respect the limits.
\<close>

definition user_columns :: "vec0_vtab \<Rightarrow> nat \<Rightarrow> (column_kind option \<times> nat) list" where
  "user_columns t u = take u (zip (user_column_kinds t) (user_column_idxs t))"

definition listed :: "vec0_vtab \<Rightarrow> nat \<Rightarrow> bool" where
  "listed t u \<longleftrightarrow> u = vec0_num_defined_user_columns t \<and>
     length (user_column_kinds t) = 52 \<and> length (user_column_idxs t) = 52 \<and>
     distinct (user_columns t u) \<and> set (user_columns t u) = {(Some k, i) | k i. i < column_count k t} \<and>
     (\<forall>k. map snd (filter (\<lambda>c. fst c = Some k) (user_columns t u)) = [0..<column_count k t])"

definition filled :: "('c \<Rightarrow> bool) \<Rightarrow> 'c option list \<Rightarrow> nat \<Rightarrow> nat \<Rightarrow> bool" where
  "filled P cs n limit \<longleftrightarrow> length cs = limit \<and> n \<le> limit \<and> (\<forall>j<n. \<exists>c. cs ! j = Some c \<and> P c)"

definition vector_column_ok :: "vector_column \<Rightarrow> bool" where
  "vector_column_ok c \<longleftrightarrow> 0 < dimensions c \<and> dimensions c \<le> 8192"

definition vtab_ok :: "vec0_vtab \<Rightarrow> bool" where
  "vtab_ok t \<longleftrightarrow> listed t (vec0_num_defined_user_columns t) \<and>
     filled vector_column_ok (vector_columns t) (numVectorColumns t) 16 \<and>
     filled (\<lambda>_. True) (paritition_columns t) (numPartitionColumns t) 4 \<and>
     filled (\<lambda>_. True) (auxiliary_columns t) (numAuxiliaryColumns t) 16 \<and>
     filled (\<lambda>_. True) (metadata_columns t) (numMetadataColumns t) 16"

definition chunk_ok :: "int \<Rightarrow> bool" where
  "chunk_ok c \<longleftrightarrow> 0 < c \<and> c \<le> 4096 \<and> c mod 8 = 0"

definition state_ok :: "init_state \<Rightarrow> bool" where
  "state_ok st \<longleftrightarrow> vtab_ok (tab st) \<and> user_column_idx st = vec0_num_defined_user_columns (tab st) \<and>
     (chunk_size (tab st) = - 1 \<or> chunk_ok (chunk_size (tab st)))"

lemma filled_append:
  "filled P cs n limit \<Longrightarrow> n < limit \<Longrightarrow> P c \<Longrightarrow> filled P (cs[n := Some c]) (Suc n) limit"
  by (auto simp: filled_def nth_list_update less_Suc_eq)

text \<open>Adding one column of a kind: the lists of user columns grow by it and stay exact.\<close>

lemma add_user_column_ok:
  assumes "listed t u" "u = user_column_idx st" "u < 52"
    and counts: "\<And>k. column_count k t' = column_count k t + (if k = kind then 1 else 0)"
    and arrays: "user_column_kinds t' = user_column_kinds t" "user_column_idxs t' = user_column_idxs t"
    and idx: "idx = column_count kind t"
  shows "\<exists>st'. add_user_column kind idx st t' = Some (Inr st') \<and> user_column_idx st' = u + 1 \<and> pkColumn st' = pkColumn st \<and>
    tab st' = t'\<lparr>user_column_kinds := (user_column_kinds t)[u := Some kind], user_column_idxs := (user_column_idxs t)[u := idx]\<rparr> \<and>
    user_columns (tab st') (u + 1) = user_columns t u @ [(Some kind, idx)] \<and> listed (tab st') (u + 1)"
proof -
  let ?t = "t'\<lparr>user_column_kinds := (user_column_kinds t)[u := Some kind], user_column_idxs := (user_column_idxs t)[u := idx]\<rparr>"
  let ?st = "st\<lparr>tab := ?t, user_column_idx := u + 1\<rparr>"
  have len: "length (user_column_kinds t) = 52" "length (user_column_idxs t) = 52"
    using assms(1) unfolding listed_def by blast+
  have add: "add_user_column kind idx st t' = Some (Inr ?st)"
    using len assms(2,3) arrays by (simp add: add_user_column_def)
  have cols: "user_columns ?t (u + 1) = user_columns t u @ [(Some kind, idx)]"
    using take_list_update_Suc [of u "zip (user_column_kinds t) (user_column_idxs t)" "(Some kind, idx)"] len assms(3)
    by (simp add: user_columns_def update_zip)
  have set_t: "set (user_columns t u) = {(Some k, i) | k i. i < column_count k t}" "distinct (user_columns t u)"
    using assms(1) unfolding listed_def by blast+
  have order: "map snd (filter (\<lambda>c. fst c = Some k) (user_columns t u)) = [0..<column_count k t]" for k
    using assms(1) unfolding listed_def by blast
  have cnt: "column_count k ?t = column_count k t'" for k by (cases k) simp_all
  then have set': "{(Some k, i) | k i. i < column_count k ?t} = insert (Some kind, idx) {(Some k, i) | k i. i < column_count k t}"
    using counts idx by (auto simp: less_Suc_eq split: if_splits)
  have "vec0_num_defined_user_columns ?t = vec0_num_defined_user_columns t + 1"
    using counts [of VECTOR] counts [of PARTITION] counts [of AUXILIARY] counts [of METADATA]
    by (cases kind) (simp_all add: vec0_num_defined_user_columns_def)
  moreover have "map snd (filter (\<lambda>c. fst c = Some k) (user_columns ?t (u + 1))) = [0..<column_count k ?t]" for k
    unfolding cols using order [of k] counts [of k] idx cnt [of k] by (cases "k = kind") simp_all
  ultimately have "listed ?t (u + 1)"
    using assms(1) cols set_t set' idx len by (simp add: listed_def)
  with add cols show ?thesis by simp
qed

lemma user_columns_bound:
  "vtab_ok t \<Longrightarrow> vec0_num_defined_user_columns t \<le> 52"
  by (simp add: vtab_ok_def filled_def vec0_num_defined_user_columns_def)

lemma chunk_size_count [simp]: "column_count k (t\<lparr>chunk_size := c\<rparr>) = column_count k t"
  by (cases k) simp_all

lemma vtab_ok_chunk_size [simp]: "vtab_ok (t\<lparr>chunk_size := c\<rparr>) = vtab_ok t"
  by (simp add: vtab_ok_def listed_def user_columns_def vec0_num_defined_user_columns_def)

lemma vtab_ok_pk [simp]: "vtab_ok (t\<lparr>pkIsText := b\<rparr>) = vtab_ok t"
proof -
  have "column_count k (t\<lparr>pkIsText := b\<rparr>) = column_count k t" for k by (cases k) simp_all
  then show ?thesis by (simp add: vtab_ok_def listed_def user_columns_def vec0_num_defined_user_columns_def)
qed

definition arrays_filled :: "vec0_vtab \<Rightarrow> bool" where
  "arrays_filled t \<longleftrightarrow> filled vector_column_ok (vector_columns t) (numVectorColumns t) 16 \<and>
     filled (\<lambda>_. True) (paritition_columns t) (numPartitionColumns t) 4 \<and>
     filled (\<lambda>_. True) (auxiliary_columns t) (numAuxiliaryColumns t) 16 \<and>
     filled (\<lambda>_. True) (metadata_columns t) (numMetadataColumns t) 16"

lemma vtab_ok_arrays: "vtab_ok t \<longleftrightarrow> listed t (vec0_num_defined_user_columns t) \<and> arrays_filled t"
  by (auto simp: vtab_ok_def arrays_filled_def)

lemma add_column_state_ok:
  assumes "state_ok st" "add_user_column kind idx st t' = Some (Inr st')"
    and counts: "\<And>k. column_count k t' = column_count k (tab st) + (if k = kind then 1 else 0)"
    and same: "user_column_kinds t' = user_column_kinds (tab st)" "user_column_idxs t' = user_column_idxs (tab st)"
      "chunk_size t' = chunk_size (tab st)"
    and idx: "idx = column_count kind (tab st)" and arr: "arrays_filled t'"
  shows "state_ok st'"
proof -
  have L: "listed (tab st) (user_column_idx st)" using assms(1) by (simp add: state_ok_def vtab_ok_def)
  then have "user_column_idx st = vec0_num_defined_user_columns (tab st)" by (simp add: listed_def)
  then have "vec0_num_defined_user_columns t' = user_column_idx st + 1"
    using counts [of VECTOR] counts [of PARTITION] counts [of AUXILIARY] counts [of METADATA]
    by (cases kind) (simp_all add: vec0_num_defined_user_columns_def)
  moreover have "vec0_num_defined_user_columns t' \<le> 52"
    using arr by (simp add: arrays_filled_def filled_def vec0_num_defined_user_columns_def)
  ultimately have u: "user_column_idx st < 52" by simp
  obtain s where s: "add_user_column kind idx st t' = Some (Inr s)" "user_column_idx s = user_column_idx st + 1"
    "tab s = t'\<lparr>user_column_kinds := (user_column_kinds (tab st))[user_column_idx st := Some kind],
      user_column_idxs := (user_column_idxs (tab st))[user_column_idx st := idx]\<rparr>"
    "listed (tab s) (user_column_idx st + 1)"
    using add_user_column_ok [OF L refl u counts same(1,2) idx] by blast
  have nu: "vec0_num_defined_user_columns (tab s) = user_column_idx st + 1" using s(4) by (simp add: listed_def)
  have "arrays_filled (tab s)" using arr s(3) by (simp add: arrays_filled_def)
  moreover have "chunk_size (tab s) = chunk_size (tab st)" using s(3) same(3) by simp
  ultimately have "state_ok s" using assms(1) s(2,4) nu by (simp add: state_ok_def vtab_ok_arrays)
  then show ?thesis using assms(2) s(1) by simp
qed

lemma init_vector_ok:
  assumes "state_ok st" "init_vector c st = Some (Inr st')" "0 < dimensions c"
  shows "state_ok st'"
proof -
  have ok: "arrays_filled (tab st)" using assms(1) by (simp add: state_ok_def vtab_ok_arrays)
  have g: "numVectorColumns (tab st) < 16" "dimensions c \<le> 8192"
    using assms(2) by (auto simp: init_vector_def vec0_limits Let_def split: if_splits)
  then have r: "add_user_column VECTOR (numVectorColumns (tab st)) st ((tab st)\<lparr>vector_columns :=
      (vector_columns (tab st))[numVectorColumns (tab st) := Some c], numVectorColumns := numVectorColumns (tab st) + 1\<rparr>) =
      Some (Inr st')"
    using assms(2) ok by (simp add: init_vector_def vec0_limits Let_def arrays_filled_def filled_def)
  show ?thesis
  proof (rule add_column_state_ok [OF assms(1) r])
    show "arrays_filled ((tab st)\<lparr>vector_columns := (vector_columns (tab st))[numVectorColumns (tab st) := Some c],
        numVectorColumns := numVectorColumns (tab st) + 1\<rparr>)"
      using ok g assms(3) filled_append [of vector_column_ok "vector_columns (tab st)" _ 16 c]
      by (simp add: arrays_filled_def vector_column_ok_def)
  qed (auto simp: column_count_case split: column_kind.splits)
qed

lemma init_partition_ok:
  assumes "state_ok st" "init_partition oom m c st = Some (Inr st')"
  shows "state_ok st'"
proof -
  have ok: "arrays_filled (tab st)" using assms(1) by (simp add: state_ok_def vtab_ok_arrays)
  have g: "numPartitionColumns (tab st) < 4" "\<not> oom"
    using assms(2) by (auto simp: init_partition_def vec0_limits Let_def split: if_splits)
  then obtain d where r: "add_user_column PARTITION (numPartitionColumns (tab st)) st ((tab st)\<lparr>paritition_columns :=
      (paritition_columns (tab st))[numPartitionColumns (tab st) := Some d],
      numPartitionColumns := numPartitionColumns (tab st) + 1\<rparr>) = Some (Inr st')"
    using assms(2) ok by (auto simp: init_partition_def vec0_limits Let_def arrays_filled_def filled_def split: bind_splits)
  show ?thesis
  proof (rule add_column_state_ok [OF assms(1) r])
    show "arrays_filled ((tab st)\<lparr>paritition_columns := (paritition_columns (tab st))[numPartitionColumns (tab st) := Some d],
        numPartitionColumns := numPartitionColumns (tab st) + 1\<rparr>)"
      using ok g filled_append [of "\<lambda>_. True" "paritition_columns (tab st)" _ 4 d] by (simp add: arrays_filled_def)
  qed (auto simp: column_count_case split: column_kind.splits)
qed

lemma init_auxiliary_ok:
  assumes "state_ok st" "init_auxiliary oom m c st = Some (Inr st')"
  shows "state_ok st'"
proof -
  have ok: "arrays_filled (tab st)" using assms(1) by (simp add: state_ok_def vtab_ok_arrays)
  have g: "numAuxiliaryColumns (tab st) < 16" "\<not> oom"
    using assms(2) by (auto simp: init_auxiliary_def vec0_limits Let_def split: if_splits)
  then obtain d where r: "add_user_column AUXILIARY (numAuxiliaryColumns (tab st)) st ((tab st)\<lparr>auxiliary_columns :=
      (auxiliary_columns (tab st))[numAuxiliaryColumns (tab st) := Some d],
      numAuxiliaryColumns := numAuxiliaryColumns (tab st) + 1\<rparr>) = Some (Inr st')"
    using assms(2) ok by (auto simp: init_auxiliary_def vec0_limits Let_def arrays_filled_def filled_def split: bind_splits)
  show ?thesis
  proof (rule add_column_state_ok [OF assms(1) r])
    show "arrays_filled ((tab st)\<lparr>auxiliary_columns := (auxiliary_columns (tab st))[numAuxiliaryColumns (tab st) := Some d],
        numAuxiliaryColumns := numAuxiliaryColumns (tab st) + 1\<rparr>)"
      using ok g filled_append [of "\<lambda>_. True" "auxiliary_columns (tab st)" _ 16 d] by (simp add: arrays_filled_def)
  qed (auto simp: column_count_case split: column_kind.splits)
qed

lemma init_metadata_ok:
  assumes "state_ok st" "init_metadata oom m c st = Some (Inr st')"
  shows "state_ok st'"
proof -
  have ok: "arrays_filled (tab st)" using assms(1) by (simp add: state_ok_def vtab_ok_arrays)
  have g: "numMetadataColumns (tab st) < 16" "\<not> oom"
    using assms(2) by (auto simp: init_metadata_def vec0_limits Let_def split: if_splits)
  then obtain d where r: "add_user_column METADATA (numMetadataColumns (tab st)) st ((tab st)\<lparr>metadata_columns :=
      (metadata_columns (tab st))[numMetadataColumns (tab st) := Some d],
      numMetadataColumns := numMetadataColumns (tab st) + 1\<rparr>) = Some (Inr st')"
    using assms(2) ok by (auto simp: init_metadata_def vec0_limits Let_def arrays_filled_def filled_def split: bind_splits)
  show ?thesis
  proof (rule add_column_state_ok [OF assms(1) r])
    show "arrays_filled ((tab st)\<lparr>metadata_columns := (metadata_columns (tab st))[numMetadataColumns (tab st) := Some d],
        numMetadataColumns := numMetadataColumns (tab st) + 1\<rparr>)"
      using ok g filled_append [of "\<lambda>_. True" "metadata_columns (tab st)" _ 16 d] by (simp add: arrays_filled_def)
  qed (auto simp: column_count_case split: column_kind.splits)
qed

lemma init_option_ok:
  "state_ok st \<Longrightarrow> init_option m opt st = Some (Inr st') \<Longrightarrow> state_ok st'"
  by (auto simp: init_option_def state_ok_def chunk_ok_def vec0_limits vec0_num_defined_user_columns_def
      split: bind_splits if_splits)

lemma init_primary_ok: "state_ok st \<Longrightarrow> init_primary c st = Some (Inr st') \<Longrightarrow> state_ok st'"
  by (auto simp: init_primary_def state_ok_def split: if_splits)

lemma vector_column_positive:
  "vec0_parse_vector_column oom m s n tok = Some (OK c) \<Longrightarrow> 0 < dimensions c"
  by (auto simp: vec0_parse_vector_column_def Let_def split: bind_splits if_splits option.splits parsed.splits)

lemma init_arg_ok:
  assumes "state_ok st" "init_arg oom tok m arg st = Some (Inr st')"
  shows "state_ok st'"
  using assms vector_column_positive
  by (auto simp: init_arg_def split: bind_splits parsed.splits
      intro: init_vector_ok init_partition_ok init_primary_ok init_auxiliary_ok init_metadata_ok init_option_ok)

lemma init_args_ok:
  "state_ok st \<Longrightarrow> init_args oom tok m i args st = Some (Inr st') \<Longrightarrow> state_ok st'"
  by (induction oom tok m i args st rule: init_args.induct)
    (auto split: bind_splits sum.splits intro: init_arg_ok)

lemma state_ok_empty: "state_ok \<lparr>tab = empty_vtab, user_column_idx = 0, pkColumn = None\<rparr>"
proof -
  have "column_count k empty_vtab = 0" for k by (cases k) (simp_all add: empty_vtab_def)
  then show ?thesis
    by (simp add: state_ok_def vtab_ok_def listed_def user_columns_def filled_def empty_vtab_def
        vec0_num_defined_user_columns_def)
qed

lemma init_well_formed:
  assumes "vec0_init oom tok m argv = Some (Inr t)"
  shows "vtab_ok t \<and> 0 < numVectorColumns t \<and> chunk_ok (chunk_size t)"
proof -
  obtain st where st: "init_args oom tok m 3 (drop 3 argv) \<lparr>tab = empty_vtab, user_column_idx = 0, pkColumn = None\<rparr> =
      Some (Inr st)" "numVectorColumns (tab st) \<noteq> 0"
    "t = (tab st)\<lparr>chunk_size := if chunk_size (tab st) < 0 then 1024 else chunk_size (tab st),
      pkIsText := (case pkColumn st of Some c \<Rightarrow> column_type c = TEXT | None \<Rightarrow> False)\<rparr>"
    using assms by (auto simp: vec0_init_def Let_def split: bind_splits sum.splits if_splits)
  have "state_ok st" by (rule init_args_ok [OF state_ok_empty st(1)])
  then show ?thesis using st(2,3) by (auto simp: state_ok_def chunk_ok_def)
qed

text \<open>
  C34: Whatever the arguments, a table the constructor accepts is well formed: between 1 and 16
  vector columns and at most 4, 16 and 16 of the other kinds; every vector column has 1 to 8192
  dimensions; the user columns list each column of each kind exactly once, in order; the chunk size
  is a multiple of 8 from 8 to 4096.
\<close>
theorem vec0_init_well_formed:
  assumes "vec0_init oom tok m argv = Some (Inr t)"
  shows "vtab_ok t \<and> 0 < numVectorColumns t \<and> chunk_ok (chunk_size t)"
  using assms by (rule init_well_formed)

section \<open>Which argument is which\<close>

text \<open>The element type a text starts with, as \<open>element_type_at\<close> reads it.\<close>

definition element_type_of :: "u8 list \<Rightarrow> element_type option" where
  "element_type_of X = (let low = map upper_to_lower X in
     if take 5 low = lit ''float'' \<or> take 3 low = lit ''f32'' then Some FLOAT32
     else if take 4 low = lit ''int8'' \<or> take 2 low = lit ''i8'' then Some INT8
     else if take 3 low = lit ''bit'' then Some BIT else None)"

lemma element_type_at_text:
  assumes "text_at m a X"
  shows "element_type_at m a = Some (element_type_of X)"
proof -
  have s: "\<exists>r. sqlite3_strnicmp m a (lit L) n = Some r \<and> (r = 0 \<longleftrightarrow> take n (map upper_to_lower X) = lit L)"
    if "0 \<notin> set (lit L)" "map upper_to_lower (take n (lit L)) = lit L" for L n
    using strnicmp_text [OF assms that(1), of n] unfolding that(2) take_map by simp
  show ?thesis
    using s [of "''float''" 5] s [of "''f32''" 3] s [of "''int8''" 4] s [of "''i8''" 2] s [of "''bit''" 3]
    by (auto simp: element_type_at_def element_type_of_def Let_def upper_to_lower_def)
qed

lemma key_type_total:
  assumes "text_at m (tstart tk) (A @ Z)" "tend tk - tstart tk = length A"
  shows "\<exists>kt. key_type m tk = Some kt"
  using token_is_text [OF assms, of "''text''"] token_is_text [OF assms, of "''int''"]
    token_is_text [OF assms, of "''integer''"] by (simp add: key_type_def)

text \<open>A metadata column: no type name continues as a vector column or as a key.\<close>

lemma metadata_not_key:
  assumes "(tn, ki) \<in> set metadata_types" "text_at m (tstart tk) (lit tn @ Z)" "tend tk - tstart tk = length (lit tn)"
  shows "token_is m tk ''partition'' = Some False" "token_is m tk ''primary'' = Some False"
proof -
  note t = token_is_text [OF assms(2,3)]
  show "token_is m tk ''partition'' = Some False" "token_is m tk ''primary'' = Some False"
    using assms(1) unfolding metadata_types_def list.set insert_iff prod.inject empty_iff
    by (elim disjE conjE FalseE; simp add: t upper_to_lower_def)+
qed

lemma aux_not_key:
  assumes "(tn, ty) \<in> set aux_types" "text_at m (tstart tk) (lit tn @ Z)" "tend tk - tstart tk = length (lit tn)"
  shows "token_is m tk ''partition'' = Some False" "token_is m tk ''primary'' = Some False"
proof -
  note t = token_is_text [OF assms(2,3)]
  show "token_is m tk ''partition'' = Some False" "token_is m tk ''primary'' = Some False"
    using assms(1) unfolding aux_types_def list.set insert_iff prod.inject empty_iff
    by (elim disjE conjE FalseE; simp add: t upper_to_lower_def)+
qed

lemma metadata_other_parsers:
  assumes "text_at m s (name @ 32 # lit tn)" "is_ident name" "(tn, ki) \<in> set metadata_types"
    and n: "n = length (name @ 32 # lit tn)"
  shows "vec0_parse_vector_column oom m s n tok = Some EMPTY"
    and "vec0_parse_partition_key_definition m s n tok = Some EMPTY"
    and "vec0_parse_primary_key_definition m s n tok = Some EMPTY"
proof -
  let ?e = "s + n"
  obtain p1 t1 p2 t2 where 1: "vec0_scanner_next m \<lparr>sc_start = s, sc_end = ?e, sc_ptr = s\<rparr> tok =
      Some (RESULT_SOME, \<lparr>sc_start = p1, sc_end = ?e, sc_ptr = s\<rparr>, t1)"
    and 2: "vec0_scanner_next m \<lparr>sc_start = p1, sc_end = ?e, sc_ptr = s\<rparr> t1 =
      Some (RESULT_SOME, \<lparr>sc_start = p2, sc_end = ?e, sc_ptr = s\<rparr>, t2)"
    "text_at m (tstart t2) (lit tn @ [])" "tend t2 - tstart t2 = length (lit tn)" "token_type t2 = IDENTIFIER"
    "text_at m p2 []" "?e = p2"
    by (rule scan_pair [OF assms(1) _ assms(2) is_ident_type_names(3) [OF assms(3)], of ?e s tok],
        use n in simp, rule that)
  note 3 = scan_eof [OF 2(5), folded 2(6)]
  note k = metadata_not_key [OF assms(3) 2(2,3)]
  obtain kt where kt: "key_type m t2 = Some kt" using key_type_total [OF 2(2,3)] by blast
  obtain et where et: "element_type_at m (tstart t2) = Some et" using element_type_at_text [OF 2(2)] by blast
  note eof = 3 [of s t2]
  show "vec0_parse_vector_column oom m s n tok = Some EMPTY"
    using 1 2(1,4) eof 2(6) et by (auto simp: vec0_parse_vector_column_def vec0_scanner_init_def Let_def split: option.split)
  show "vec0_parse_partition_key_definition m s n tok = Some EMPTY" "vec0_parse_primary_key_definition m s n tok = Some EMPTY"
    using 1 2(1,4) eof 2(6) kt k
    by (auto simp: vec0_parse_partition_key_definition_def vec0_parse_primary_key_definition_def
        vec0_scanner_init_def Let_def split: option.split)
qed

lemma aux_other_parsers:
  assumes "text_at m s (43 # name @ 32 # lit tn)" "is_ident name" "(tn, ty) \<in> set aux_types"
    and n: "n = length (43 # name @ 32 # lit tn)"
  shows "element_type_of (name @ 32 # lit tn) = None \<Longrightarrow> vec0_parse_vector_column oom m s n tok = Some EMPTY"
    and "element_type_of (name @ 32 # lit tn) \<noteq> None \<Longrightarrow> vec0_parse_vector_column oom m s n tok = Some ERROR"
    and "vec0_parse_partition_key_definition m s n tok = Some EMPTY"
    and "vec0_parse_primary_key_definition m s n tok = Some EMPTY"
proof -
  let ?e = "s + n"
  obtain p0 t0 where 0: "vec0_scanner_next m \<lparr>sc_start = s, sc_end = ?e, sc_ptr = s\<rparr> tok =
      Some (RESULT_SOME, \<lparr>sc_start = p0, sc_end = ?e, sc_ptr = s\<rparr>, t0)"
    "text_at m p0 (name @ 32 # lit tn)" "?e = p0 + length (name @ 32 # lit tn)"
    by (rule scan_mark [OF assms(1) _ lex1_marks(1), of ?e s tok], use n in simp, rule that)
  obtain p1 t1 p2 t2 where 1: "vec0_scanner_next m \<lparr>sc_start = p0, sc_end = ?e, sc_ptr = s\<rparr> t0 =
      Some (RESULT_SOME, \<lparr>sc_start = p1, sc_end = ?e, sc_ptr = s\<rparr>, t1)"
    "tend t1 - tstart t1 = length name" "token_type t1 = IDENTIFIER" "text_at m (tstart t1) (name @ 32 # lit tn)"
    and 2: "vec0_scanner_next m \<lparr>sc_start = p1, sc_end = ?e, sc_ptr = s\<rparr> t1 =
      Some (RESULT_SOME, \<lparr>sc_start = p2, sc_end = ?e, sc_ptr = s\<rparr>, t2)"
    "text_at m (tstart t2) (lit tn @ [])" "tend t2 - tstart t2 = length (lit tn)" "token_type t2 = IDENTIFIER"
    "text_at m p2 []" "?e = p2"
    by (rule scan_pair [OF 0(2,3) assms(2) is_ident_type_names(2) [OF assms(3)]], rule that)
  note eof = scan_eof [OF 2(5), folded 2(6), of s t2]
  note k = aux_not_key [OF assms(3) 2(2,3)]
  obtain kt where kt: "key_type m t1 = Some kt" using key_type_total [OF 1(4,2)] by blast
  note et = element_type_at_text [OF 1(4)]
  show "element_type_of (name @ 32 # lit tn) = None \<Longrightarrow> vec0_parse_vector_column oom m s n tok = Some EMPTY"
    using 0(1) 1(1,3) et by (simp add: vec0_parse_vector_column_def vec0_scanner_init_def Let_def)
  show "element_type_of (name @ 32 # lit tn) \<noteq> None \<Longrightarrow> vec0_parse_vector_column oom m s n tok = Some ERROR"
    using 0(1) 1(1,3) 2(1,4) eof 2(6) et by (auto simp: vec0_parse_vector_column_def vec0_scanner_init_def Let_def)
  show "vec0_parse_partition_key_definition m s n tok = Some EMPTY" "vec0_parse_primary_key_definition m s n tok = Some EMPTY"
    using 0(1) 1(1) 2(1,4) eof kt k
    by (auto simp: vec0_parse_partition_key_definition_def vec0_parse_primary_key_definition_def
        vec0_scanner_init_def Let_def split: option.split)
qed

lemma key_not_vector:
  assumes "text_at m s (name @ 32 # lit tn @ 32 # lit kind @ 32 # lit ''key'')" "is_ident name"
    and "(tn, ty) \<in> set key_type_names" "kind = ''partition'' \<or> kind = ''primary''"
    and n: "n = length (name @ 32 # lit tn @ 32 # lit kind @ 32 # lit ''key'')"
  shows "vec0_parse_vector_column oom m s n tok = Some EMPTY"
proof -
  have idk: "is_ident (lit kind)" using assms(4) is_ident_lit by (auto simp del: lit_simps)
  obtain s1 t1 s2 t2 where
    1: "vec0_scanner_next m (vec0_scanner_init s (length (name @ 32 # lit tn @ 32 # lit kind @ 32 # lit ''key''))) tok =
        Some (RESULT_SOME, s1, t1)"
    and 2: "vec0_scanner_next m s1 t1 = Some (RESULT_SOME, s2, t2)" "token_type t2 = IDENTIFIER"
      "text_at m (tstart t2) (lit tn @ 32 # lit kind @ 32 # lit ''key'')"
    by (rule scan_key_column [OF assms(1,2) is_ident_type_names(1) [OF assms(3)] idk is_ident_lit(15)], rule that)
  have "element_type_of (lit tn @ 32 # lit kind @ 32 # lit ''key'') = None"
    using assms(3) unfolding key_type_names_def list.set insert_iff prod.inject empty_iff
    by (elim disjE conjE FalseE) (simp_all add: element_type_of_def upper_to_lower_def)
  then show ?thesis
    using 1 2 element_type_at_text [OF 2(3)] by (simp add: vec0_parse_vector_column_def Let_def n)
qed

lemma digit_not_letter: "is_digit c \<Longrightarrow> upper_to_lower c = c \<and> c \<noteq> 112"
proof -
  assume "is_digit c"
  moreover define k where "k = sint c"
  ultimately have "48 \<le> k" "k \<le> 57" by (simp_all add: is_digit_def)
  then have "k = 48 \<or> k = 49 \<or> k = 50 \<or> k = 51 \<or> k = 52 \<or> k = 53 \<or> k = 54 \<or> k = 55 \<or> k = 56 \<or> k = 57"
    by presburger
  moreover have "c = word_of_int k" by (simp add: k_def)
  ultimately show ?thesis by (elim disjE) (simp_all add: upper_to_lower_def)
qed

text \<open>The option \<open>chunk_size=n\<close>: its \<open>=\<close> is a type name to no parser of a column.\<close>

lemma option_parsers:
  assumes "text_at m s (lit ''chunk_size'' @ 61 # decimal d)" and n: "n = length (lit ''chunk_size'' @ 61 # decimal d)"
  shows "vec0_parse_vector_column oom m s n tok = Some EMPTY"
    "vec0_parse_partition_key_definition m s n tok = Some EMPTY"
    "vec0_parse_primary_key_definition m s n tok = Some EMPTY"
    "vec0_parse_auxiliary_column_definition m s n tok = Some EMPTY"
    "vec0_parse_metadata_column_definition m s n tok = Some EMPTY"
    "\<exists>p. vec0_parse_table_option m s n tok = Some (OK \<lparr>opt_key = s, opt_key_length = 10, opt_value = p,
      opt_value_length = length (decimal d)\<rparr>) \<and> text_at m p (decimal d)"
proof -
  let ?e = "s + n"
  have id: "is_ident (lit ''chunk_size'')" by (simp add: is_ident_def is_ident_char_def is_alpha_def)
  have l: "lex1 (lit ''chunk_size'' @ 61 # decimal d) = (RESULT_SOME, IDENTIFIER, lit ''chunk_size'', 61 # decimal d)"
    "lex1 (61 # decimal d) = (RESULT_SOME, EQ, [], decimal d)" "lex1 (decimal d @ []) = (RESULT_SOME, DIGIT, decimal d, [])"
    using lex1_ident [OF id, of "61 # decimal d"] lex1_digits [OF decimal_nonempty decimal_digits, of "[]" d]
    by (simp_all del: lit_simps)
  obtain p1 t1 where 1: "vec0_scanner_next m \<lparr>sc_start = s, sc_end = ?e, sc_ptr = s\<rparr> tok =
      Some (RESULT_SOME, \<lparr>sc_start = p1, sc_end = ?e, sc_ptr = s\<rparr>, t1)"
    "text_at m p1 (61 # decimal d)" "?e = p1 + length (61 # decimal d)" "token_type t1 = IDENTIFIER"
    "tend t1 - tstart t1 = length (lit ''chunk_size'')" "tstart t1 = s"
    by (rule scan_word [OF assms(1) _ l(1), of ?e s tok], use n in simp, rule that)
  obtain p2 t2 where 2: "vec0_scanner_next m \<lparr>sc_start = p1, sc_end = ?e, sc_ptr = s\<rparr> t1 =
      Some (RESULT_SOME, \<lparr>sc_start = p2, sc_end = ?e, sc_ptr = s\<rparr>, t2)"
    "text_at m p2 (decimal d)" "?e = p2 + length (decimal d)" "token_type t2 = EQ" "tend t2 - tstart t2 = 0"
    by (rule scan_mark [OF 1(2,3) l(2)], rule that)
  have n2: "text_at m p2 (decimal d @ [])" "?e = p2 + length (decimal d @ [])" using 2(2,3) by simp_all
  obtain p3 t3 where 3: "vec0_scanner_next m \<lparr>sc_start = p2, sc_end = ?e, sc_ptr = s\<rparr> t2 =
      Some (RESULT_SOME, \<lparr>sc_start = p3, sc_end = ?e, sc_ptr = s\<rparr>, t3)"
    "text_at m p3 []" "?e = p3 + length ([] :: u8 list)" "token_type t3 = DIGIT"
    "text_at m (tstart t3) (decimal d @ [])" "tend t3 - tstart t3 = length (decimal d)"
    by (rule scan_word [OF n2 l(3)], rule that)
  have eof: "vec0_scanner_next m \<lparr>sc_start = p3, sc_end = ?e, sc_ptr = s\<rparr> t3 =
      Some (RESULT_EOF, \<lparr>sc_start = p3, sc_end = ?e, sc_ptr = s\<rparr>, t3)"
    using scan_eof [OF 3(2), of s t3] 3(3) by simp
  obtain kt where kt: "key_type m t2 = Some kt"
    using 2(5) by (simp add: key_type_def token_is_def)
  obtain c D where D: "decimal d = c # D" "is_digit c" using decimal_digits [of d] by (cases "decimal d") auto
  have "upper_to_lower c = c \<and> c \<noteq> 112" by (rule digit_not_letter [OF D(2)])
  then have "token_is m t3 ''partition'' = Some False" "token_is m t3 ''primary'' = Some False"
    using token_is_text [OF 3(5,6), of "''partition''"] token_is_text [OF 3(5,6), of "''primary''"] D(1)
    by (simp_all add: upper_to_lower_def)
  note no = this
  show "vec0_parse_vector_column oom m s n tok = Some EMPTY"
    using 1(1,4) 2(1,4) by (simp add: vec0_parse_vector_column_def vec0_scanner_init_def Let_def)
  show "vec0_parse_partition_key_definition m s n tok = Some EMPTY" "vec0_parse_primary_key_definition m s n tok = Some EMPTY"
    using 1(1,4) 2(1,4) 3(1,4) kt no
    by (auto simp: vec0_parse_partition_key_definition_def vec0_parse_primary_key_definition_def
        vec0_scanner_init_def Let_def split: option.split)
  show "vec0_parse_auxiliary_column_definition m s n tok = Some EMPTY"
    using 1(1,4) by (simp add: vec0_parse_auxiliary_column_definition_def vec0_scanner_init_def Let_def)
  show "vec0_parse_metadata_column_definition m s n tok = Some EMPTY"
    using 1(1,4) 2(1,4) by (simp add: vec0_parse_metadata_column_definition_def vec0_scanner_init_def Let_def)
  have "vec0_parse_table_option m s n tok = Some (OK \<lparr>opt_key = s, opt_key_length = 10, opt_value = tstart t3,
      opt_value_length = length (decimal d)\<rparr>)"
    using 1(1,5,6) 2(1) 3(1,6) eof by (simp add: vec0_parse_table_option_def vec0_scanner_init_def Let_def)
  then show "\<exists>p. vec0_parse_table_option m s n tok = Some (OK \<lparr>opt_key = s, opt_key_length = 10, opt_value = p,
      opt_value_length = length (decimal d)\<rparr>) \<and> text_at m p (decimal d)"
    using 3(5) by auto
qed

text \<open>
  What an argument declares: a column of each kind, or the chunk size; its rendering as text,
  when it is a legal declaration, and the effect it must have.
\<close>

datatype column_decl =
  Vector "u8 list" string element_type nat "u8 list" distance_metric
| Partition "u8 list" string column_type
| Primary "u8 list" string column_type
| Auxiliary "u8 list" string column_type
| Metadata "u8 list" string metadata_kind
| Chunk_size nat

fun render :: "column_decl \<Rightarrow> u8 list" where
  "render (Vector name tn ty d suf metric) = name @ 32 # lit tn @ 91 # decimal d @ 93 # suf"
| "render (Partition name tn ty) = name @ 32 # lit tn @ 32 # lit ''partition'' @ 32 # lit ''key''"
| "render (Primary name tn ty) = name @ 32 # lit tn @ 32 # lit ''primary'' @ 32 # lit ''key''"
| "render (Auxiliary name tn ty) = 43 # name @ 32 # lit tn"
| "render (Metadata name tn ki) = name @ 32 # lit tn"
| "render (Chunk_size d) = lit ''chunk_size'' @ 61 # decimal d"

fun legal :: "column_decl \<Rightarrow> bool" where
  "legal (Vector name tn ty d suf metric) \<longleftrightarrow> is_ident name \<and> (tn, ty) \<in> set vector_type_names \<and>
     0 < d \<and> d < 2147483648 \<and> metric_suffix suf metric \<and> (ty \<noteq> BIT \<or> suf = [])"
| "legal (Partition name tn ty) \<longleftrightarrow> is_ident name \<and> (tn, ty) \<in> set key_type_names"
| "legal (Primary name tn ty) \<longleftrightarrow> is_ident name \<and> (tn, ty) \<in> set key_type_names"
| "legal (Auxiliary name tn ty) \<longleftrightarrow> is_ident name \<and> (tn, ty) \<in> set aux_types \<and>
     element_type_of (name @ 32 # lit tn) = None"
| "legal (Metadata name tn ki) \<longleftrightarrow> is_ident name \<and> (tn, ki) \<in> set metadata_types"
| "legal (Chunk_size d) \<longleftrightarrow> d < 2147483648"

fun declare_arg :: "mem \<Rightarrow> addr \<Rightarrow> column_decl \<Rightarrow> init_state \<Rightarrow> init_result" where
  "declare_arg m s (Vector name tn ty d suf metric) st = init_vector
     \<lparr>vname = name, vname_length = length name, dimensions = d, element_type = ty, distance_metric = metric\<rparr> st"
| "declare_arg m s (Partition name tn ty) st =
     init_partition False m \<lparr>column_name = s, column_name_length = length name, column_type = ty\<rparr> st"
| "declare_arg m s (Primary name tn ty) st =
     init_primary \<lparr>column_name = s, column_name_length = length name, column_type = ty\<rparr> st"
| "declare_arg m s (Auxiliary name tn ty) st =
     init_auxiliary False m \<lparr>column_name = s + 1, column_name_length = length name, column_type = ty\<rparr> st"
| "declare_arg m s (Metadata name tn ki) st =
     init_metadata False m \<lparr>column_name = s, column_name_length = length name, column_type = ki\<rparr> st"
| "declare_arg m s (Chunk_size d) st = Some (
     if d = 0 then Inl Chunk_size_not_positive
     else if d mod 8 \<noteq> 0 then Inl Chunk_size_not_divisible
     else if d > 4096 then Inl Chunk_size_too_large
     else Inr (st\<lparr>tab := (tab st)\<lparr>chunk_size := int d\<rparr>\<rparr>))"

lemma init_arg_declaration:
  assumes "text_at m arg (render dec)" "legal dec" "4 dvd length m"
  shows "init_arg False tok m arg st = declare_arg m arg dec st"
proof -
  have n: "strlen m arg = Some (length (render dec))"
    using assms(1,3) strlen_terminated [of m arg] by (simp add: text_at_def)
  show ?thesis
  proof (cases dec)
    case (Vector name tn ty d suf metric)
    then show ?thesis using assms n vector_column_read [of m arg name tn d suf ty metric "tok 0"]
      by (simp add: init_arg_def)
  next
    case (Partition name tn ty)
    then have t: "text_at m arg (name @ 32 # lit tn @ 32 # lit ''partition'' @ 32 # lit ''key'')"
      "is_ident name" "(tn, ty) \<in> set key_type_names" using assms by simp_all
    have l: "length (render dec) = length name + length (lit tn) + length (lit ''partition'') + 6"
      "length (render dec) = length (name @ 32 # lit tn @ 32 # lit ''partition'' @ 32 # lit ''key'')"
      using Partition by simp_all
    show ?thesis
      using n Partition key_not_vector [OF t _ l(2), of False "tok 0"] key_column_read [OF t _ l(1), of "tok 1"]
      by (simp add: init_arg_def del: render.simps)
  next
    case (Primary name tn ty)
    then have t: "text_at m arg (name @ 32 # lit tn @ 32 # lit ''primary'' @ 32 # lit ''key'')"
      "is_ident name" "(tn, ty) \<in> set key_type_names" using assms by simp_all
    have l: "length (render dec) = length name + length (lit tn) + length (lit ''primary'') + 6"
      "length (render dec) = length (name @ 32 # lit tn @ 32 # lit ''primary'' @ 32 # lit ''key'')"
      using Primary by simp_all
    show ?thesis
      using n Primary key_not_vector [OF t _ l(2), of False "tok 0"] key_column_read [OF t _ l(1), of "tok 1"]
        key_column_read [OF t _ l(1), of "tok 2"] by (simp add: init_arg_def del: render.simps)
  next
    case (Auxiliary name tn ty)
    then have t: "text_at m arg (43 # name @ 32 # lit tn)" "is_ident name" "(tn, ty) \<in> set aux_types"
      "element_type_of (name @ 32 # lit tn) = None" using assms by simp_all
    have "vec0_parse_auxiliary_column_definition m arg (length (43 # name @ 32 # lit tn)) (tok 3) =
        Some (OK \<lparr>column_name = arg + 1, column_name_length = length name, column_type = ty\<rparr>)"
      using aux_column_read [OF t(2,3,1)] .
    then show ?thesis
      using n Auxiliary aux_other_parsers(1) [OF t(1-3) refl t(4), of False "tok 0"]
        aux_other_parsers(3) [OF t(1-3) refl, of "tok 1"] aux_other_parsers(4) [OF t(1-3) refl, of "tok 2"]
      by (simp add: init_arg_def)
  next
    case (Metadata name tn ki)
    then have t: "text_at m arg (name @ 32 # lit tn)" "is_ident name" "(tn, ki) \<in> set metadata_types"
      using assms by simp_all
    show ?thesis
      using n Metadata metadata_other_parsers(1) [OF t refl, of False "tok 0"]
        metadata_other_parsers(2) [OF t refl, of "tok 1"] metadata_other_parsers(3) [OF t refl, of "tok 2"]
        metadata_column_read [OF t(2,3,1)]
      by (simp add: init_arg_def)
  next
    case (Chunk_size d)
    then have t: "text_at m arg (lit ''chunk_size'' @ 61 # decimal d)" "d < 2147483648" using assms by simp_all
    note o = option_parsers [OF t(1) refl]
    obtain p where p: "vec0_parse_table_option m arg (length (lit ''chunk_size'' @ 61 # decimal d)) (tok 5) =
        Some (OK \<lparr>opt_key = arg, opt_key_length = 10, opt_value = p, opt_value_length = length (decimal d)\<rparr>)"
      "text_at m p (decimal d)" using o(6) by blast
    have a: "atoi m p = Some (int d)" using atoi_decimal [of m p d "[]"] p(2) t(2) by simp
    obtain r where r: "sqlite3_strnicmp m arg (lit ''chunk_size'') 10 = Some r" "r = 0"
      using strnicmp_text [OF t(1), of "lit ''chunk_size''" 10] by auto
    have "int d mod 8 = int (d mod 8)" by presburger
    then show ?thesis
      using n Chunk_size o(1) [of False "tok 0"] o(2) [of "tok 1"] o(3) [of "tok 2"] o(4) [of "tok 3"] o(5) [of "tok 4"] p(1) a r
      by (auto simp: init_arg_def init_option_def vec0_limits simp del: lit_simps)
  qed
qed

lemma dvd_4_Suc: "4 dvd Suc (Suc (Suc (Suc n))) \<longleftrightarrow> 4 dvd n"
  by presburger

fun declare_args :: "mem \<Rightarrow> (addr \<times> column_decl) list \<Rightarrow> init_state \<Rightarrow> init_result" where
  "declare_args m [] st = Some (Inr st)"
| "declare_args m ((s, d) # ds) st = do {
     r \<leftarrow> declare_arg m s d st;
     case r of Inl e \<Rightarrow> Some (Inl e) | Inr st \<Rightarrow> declare_args m ds st }"



theorem vec0_init_well_formed_witness:
  "\<exists>t. vec0_init (\<lambda>_. False) (\<lambda>_. blank_token) (lit ''v int8[4]'' @ [0, 0, 0, 0, 0, 0, 0]) [0, 0, 0, 0] = Some (Inr t) \<and>
    vtab_ok t \<and> 0 < numVectorColumns t \<and> chunk_ok (chunk_size t)"
proof -
  let ?m = "lit ''v int8[4]'' @ [0, 0, 0, 0, 0, 0, 0 :: u8]"
  let ?d = "Vector (lit ''v'') ''int8'' INT8 4 [] L2"
  have d: "decimal 4 = [52]" by (simp add: decimal.simps)
  have t: "text_at ?m 0 (render ?d)" by (simp add: text_at_def terminated_def cstr_def d)
  have l: "legal ?d" by (simp add: is_ident_def is_ident_char_def is_alpha_def vector_type_names_def metric_suffix_def)
  have "4 dvd length ?m" by (simp add: dvd_4_Suc)
  note a = init_arg_declaration [OF t l this]
  have "\<exists>t. vec0_init (\<lambda>_. False) (\<lambda>_. blank_token) ?m [0, 0, 0, 0] = Some (Inr t)"
    by (simp add: vec0_init_def a init_vector_def vec0_limits empty_vtab_def add_user_column_def wr_def
        del: lit_simps)
  then obtain t where "vec0_init (\<lambda>_. False) (\<lambda>_. blank_token) ?m [0, 0, 0, 0] = Some (Inr t)" by blast
  with vec0_init_well_formed [OF this] show ?thesis by blast
qed

section \<open>Column indices: correctness\<close>

lemma column_idx_is_iff:
  assumes "vtab_ok p" "1 \<le> c" "c \<le> int (vec0_num_defined_user_columns p)"
  shows "\<exists>k i. user_columns p (vec0_num_defined_user_columns p) ! nat (c - 1) = (Some k, i) \<and> i < column_count k p \<and>
    (\<forall>k'. column_idx_is k' p c = Some (k' = k)) \<and> rd (user_column_idxs p) (nat (c - 1)) = Some i"
proof -
  let ?u = "vec0_num_defined_user_columns p"
  have L: "set (user_columns p ?u) = {(Some k, i) | k i. i < column_count k p}"
    "length (user_column_kinds p) = 52" "length (user_column_idxs p) = 52"
    using assms(1) by (simp_all add: vtab_ok_def listed_def)
  have b: "nat (c - 1) < ?u" "?u \<le> 52" using assms user_columns_bound by auto
  have n: "user_columns p ?u ! nat (c - 1) = (user_column_kinds p ! nat (c - 1), user_column_idxs p ! nat (c - 1))"
    "nat (c - 1) < length (user_columns p ?u)"
    using b L(2,3) by (simp_all add: user_columns_def)
  then have "user_columns p ?u ! nat (c - 1) \<in> {(Some k, i) | k i. i < column_count k p}"
    using L(1) nth_mem by blast
  then obtain k i where ki: "user_columns p ?u ! nat (c - 1) = (Some k, i)" "i < column_count k p" by auto
  then have "column_idx_is k' p c = Some (k' = k)" for k'
    using assms(2,3) b L(2) n(1) by (auto simp: column_idx_is_def VEC0_COLUMN_USERN_START_def)
  then show ?thesis using ki n(1) b L(3) by auto
qed

lemmas column_idx_defs = vec0_column_idx_is_vector_def vec0_column_idx_is_partition_def
  vec0_column_idx_is_auxiliary_def vec0_column_idx_is_metadata_def vec0_column_idx_to_vector_idx_def
  vec0_column_idx_to_partition_idx_def vec0_column_idx_to_auxiliary_idx_def vec0_column_idx_to_metadata_idx_def

text \<open>
  C36: In a well-formed table every user column index belongs to exactly one kind and maps to a
  valid index into that kind's array; the hidden columns \<open>distance\<close> and \<open>k\<close> and column 0 belong to
  none, and no test reads out of bounds.
\<close>
theorem column_index_correct:
  assumes "vtab_ok p"
  shows "(1 \<le> c \<and> c \<le> int (vec0_num_defined_user_columns p) \<longrightarrow>
      (vec0_column_idx_is_vector p c = Some True \<and> vec0_column_idx_is_partition p c = Some False \<and>
        vec0_column_idx_is_auxiliary p c = Some False \<and> vec0_column_idx_is_metadata p c = Some False \<and>
        (\<exists>i < numVectorColumns p. vec0_column_idx_to_vector_idx p c = Some i)) \<or>
      (vec0_column_idx_is_vector p c = Some False \<and> vec0_column_idx_is_partition p c = Some True \<and>
        vec0_column_idx_is_auxiliary p c = Some False \<and> vec0_column_idx_is_metadata p c = Some False \<and>
        (\<exists>i < numPartitionColumns p. vec0_column_idx_to_partition_idx p c = Some i)) \<or>
      (vec0_column_idx_is_vector p c = Some False \<and> vec0_column_idx_is_partition p c = Some False \<and>
        vec0_column_idx_is_auxiliary p c = Some True \<and> vec0_column_idx_is_metadata p c = Some False \<and>
        (\<exists>i < numAuxiliaryColumns p. vec0_column_idx_to_auxiliary_idx p c = Some i)) \<or>
      (vec0_column_idx_is_vector p c = Some False \<and> vec0_column_idx_is_partition p c = Some False \<and>
        vec0_column_idx_is_auxiliary p c = Some False \<and> vec0_column_idx_is_metadata p c = Some True \<and>
        (\<exists>i < numMetadataColumns p. vec0_column_idx_to_metadata_idx p c = Some i))) \<and>
    (c = 0 \<or> c = vec0_column_distance_idx p \<or> c = vec0_column_k_idx p \<longrightarrow>
      vec0_column_idx_is_vector p c = Some False \<and> vec0_column_idx_is_partition p c = Some False \<and>
      vec0_column_idx_is_auxiliary p c = Some False \<and> vec0_column_idx_is_metadata p c = Some False)"
proof (intro conjI impI)
  assume c: "1 \<le> c \<and> c \<le> int (vec0_num_defined_user_columns p)"
  obtain k i where k: "i < column_count k p" "\<And>k'. column_idx_is k' p c = Some (k' = k)"
    "rd (user_column_idxs p) (nat (c - 1)) = Some i"
    using column_idx_is_iff [OF assms, of c] c by blast
  show "(vec0_column_idx_is_vector p c = Some True \<and> vec0_column_idx_is_partition p c = Some False \<and>
        vec0_column_idx_is_auxiliary p c = Some False \<and> vec0_column_idx_is_metadata p c = Some False \<and>
        (\<exists>i < numVectorColumns p. vec0_column_idx_to_vector_idx p c = Some i)) \<or>
      (vec0_column_idx_is_vector p c = Some False \<and> vec0_column_idx_is_partition p c = Some True \<and>
        vec0_column_idx_is_auxiliary p c = Some False \<and> vec0_column_idx_is_metadata p c = Some False \<and>
        (\<exists>i < numPartitionColumns p. vec0_column_idx_to_partition_idx p c = Some i)) \<or>
      (vec0_column_idx_is_vector p c = Some False \<and> vec0_column_idx_is_partition p c = Some False \<and>
        vec0_column_idx_is_auxiliary p c = Some True \<and> vec0_column_idx_is_metadata p c = Some False \<and>
        (\<exists>i < numAuxiliaryColumns p. vec0_column_idx_to_auxiliary_idx p c = Some i)) \<or>
      (vec0_column_idx_is_vector p c = Some False \<and> vec0_column_idx_is_partition p c = Some False \<and>
        vec0_column_idx_is_auxiliary p c = Some False \<and> vec0_column_idx_is_metadata p c = Some True \<and>
        (\<exists>i < numMetadataColumns p. vec0_column_idx_to_metadata_idx p c = Some i))"
    using k by (cases k) (simp_all add: column_idx_defs VEC0_COLUMN_USERN_START_def)
qed (auto simp: column_idx_defs column_idx_is_def VEC0_COLUMN_USERN_START_def vec0_column_distance_idx_def vec0_column_k_idx_def)

theorem column_index_correct_witness:
  "vec0_column_idx_is_vector empty_vtab (vec0_column_k_idx empty_vtab) = Some False"
proof -
  have "vtab_ok empty_vtab" using state_ok_empty by (simp add: state_ok_def)
  from column_index_correct [OF this, of "vec0_column_k_idx empty_vtab"] show ?thesis by blast
qed

text \<open>
  What the guards of the parsers let through. They test \<open>&&\<close> where they mean \<open>||\<close>, so a found
  token of the wrong kind passes, and a token is compared at its own length, so a prefix of a
  keyword passes for it.
\<close>

text \<open>An auxiliary column whose name starts like a vector type is rejected as a bad vector column.\<close>

lemma auxiliary_rejected:
  assumes "text_at m arg (43 # name @ 32 # lit tn)" "is_ident name" "(tn, ty) \<in> set aux_types" "4 dvd length m"
    and "element_type_of (name @ 32 # lit tn) \<noteq> None"
  shows "init_arg oom tok m arg st = Some (Inl Could_not_parse_vector)"
proof -
  have "strlen m arg = Some (length (43 # name @ 32 # lit tn))"
    using assms(1,4) strlen_terminated [of m arg] by (simp add: text_at_def)
  then show ?thesis
    using aux_other_parsers(2) [OF assms(1-3) refl assms(5), of oom "tok 0"] by (simp add: init_arg_def)
qed

lemma bitrate_rejected:
  "init_arg False tok (lit ''+bitrate int'' @ [0, 0, 0, 0]) 0 st = Some (Inl Could_not_parse_vector)"
  by (rule auxiliary_rejected [where name = "lit ''bitrate''" and tn = "''int''" and ty = INTEGER])
    (simp_all add: text_at_def terminated_def cstr_def is_ident_def is_ident_char_def is_alpha_def
      aux_types_def element_type_of_def upper_to_lower_def dvd_4_Suc)

end
