(* ===== verification/PrintfOut.thy ===== *)
theory PrintfOut
  imports VecBase MuslStdlib
begin

text \<open>
  The output side of \<^verbatim>\<open>shim/printf/printf.c\<close>: the output gadget every character goes through, the
  padding and reversing writer \<open>out_rev_\<close>, and the printing of integers. Positions, widths and
  precisions are the 32-bit \<open>printf_size_t\<close>. An array filled from the front with a length counter
  is the list of its characters so far; a write past its 32 bytes would be a trap.
\<close>

section \<open>Flags\<close>

abbreviation FLAGS_ZEROPAD :: nat where "FLAGS_ZEROPAD \<equiv> 0"
abbreviation FLAGS_LEFT :: nat where "FLAGS_LEFT \<equiv> 1"
abbreviation FLAGS_PLUS :: nat where "FLAGS_PLUS \<equiv> 2"
abbreviation FLAGS_SPACE :: nat where "FLAGS_SPACE \<equiv> 3"
abbreviation FLAGS_HASH :: nat where "FLAGS_HASH \<equiv> 4"
abbreviation FLAGS_UPPERCASE :: nat where "FLAGS_UPPERCASE \<equiv> 5"
abbreviation FLAGS_CHAR :: nat where "FLAGS_CHAR \<equiv> 6"
abbreviation FLAGS_SHORT :: nat where "FLAGS_SHORT \<equiv> 7"
abbreviation FLAGS_INT :: nat where "FLAGS_INT \<equiv> 8"
abbreviation FLAGS_LONG :: nat where "FLAGS_LONG \<equiv> 9"
abbreviation FLAGS_LONG_LONG :: nat where "FLAGS_LONG_LONG \<equiv> 10"
abbreviation FLAGS_PRECISION :: nat where "FLAGS_PRECISION \<equiv> 11"
abbreviation FLAGS_ADAPT_EXP :: nat where "FLAGS_ADAPT_EXP \<equiv> 12"
abbreviation FLAGS_POINTER :: nat where "FLAGS_POINTER \<equiv> 13"
abbreviation FLAGS_SIGNED :: nat where "FLAGS_SIGNED \<equiv> 14"
abbreviation FLAGS_LONG_DOUBLE :: nat where "FLAGS_LONG_DOUBLE \<equiv> 15"

text \<open>A flag is the position of its bit: \<open>flags & (1U << n)\<close>, \<open>flags |= 1U << n\<close>, \<open>flags &= ~(1U << n)\<close>.\<close>

type_synonym printf_flags = u32

definition has :: "printf_flags \<Rightarrow> nat \<Rightarrow> bool" where
  "has flags n \<longleftrightarrow> flags AND push_bit n 1 \<noteq> 0"

definition set_flag :: "nat \<Rightarrow> printf_flags \<Rightarrow> printf_flags" where
  "set_flag n flags = flags OR push_bit n 1"

definition clear_flag :: "nat \<Rightarrow> printf_flags \<Rightarrow> printf_flags" where
  "clear_flag n flags = flags AND NOT (push_bit n 1)"

lemma has_bit: "has flags n \<longleftrightarrow> bit flags n"
  unfolding has_def by (rule and_push_bit_1)

lemma has_0 [simp]: "\<not> has 0 n"
  by (simp add: has_bit)

lemma has_set_flag [simp]: "has (set_flag n flags) k \<longleftrightarrow> (n = k \<and> k < 32) \<or> has flags k"
  by (auto simp: has_bit set_flag_def bit_or_iff bit_exp_iff possible_bit_word)

lemma has_clear_flag [simp]: "has (clear_flag n flags) k \<longleftrightarrow> n \<noteq> k \<and> has flags k"
  by (auto simp: has_bit clear_flag_def bit_and_iff bit_not_iff bit_exp_iff possible_bit_word
      dest: bit_imp_le_length)

section \<open>The output gadget\<close>

text \<open>
  \<open>out_fn\<close>: a function is set, and \<open>out_sent\<close> are its calls so far; otherwise the characters go to
  the buffer, which is absent for the discarding gadget.
\<close>

record gadget =
  out_fn :: bool
  out_sent :: "u8 list"
  out_buf :: "u8 list option"
  out_pos :: u32
  out_max :: u32

definition PRINTF_MAX_POSSIBLE_BUFFER_SIZE :: u32 where
  "PRINTF_MAX_POSSIBLE_BUFFER_SIZE = 2147483647"

definition PRINTF_INTEGER_BUFFER_SIZE :: nat where
  "PRINTF_INTEGER_BUFFER_SIZE = 32"

definition putchar_via_gadget :: "gadget \<Rightarrow> u8 \<Rightarrow> gadget option" where
  "putchar_via_gadget g c =
     (let write_pos = out_pos g; g = g\<lparr>out_pos := write_pos + 1\<rparr> in
      if write_pos \<ge> out_max g then Some g
      else if out_fn g then Some (g\<lparr>out_sent := out_sent g @ [c]\<rparr>)
      else do { b \<leftarrow> out_buf g; b \<leftarrow> wr b (unat write_pos) c; Some (g\<lparr>out_buf := Some b\<rparr>) })"

definition append_termination_via_gadget :: "gadget \<Rightarrow> gadget option" where
  "append_termination_via_gadget g =
     (if out_fn g \<or> out_max g = 0 then Some g
      else case out_buf g of None \<Rightarrow> Some g
      | Some b \<Rightarrow>
          let null_char_pos = (if out_pos g < out_max g then out_pos g else out_max g - 1) in
          do { b \<leftarrow> wr b (unat null_char_pos) 0; Some (g\<lparr>out_buf := Some b\<rparr>) })"

definition discarding_gadget :: gadget where
  "discarding_gadget = \<lparr>out_fn = False, out_sent = [], out_buf = None, out_pos = 0, out_max = 0\<rparr>"

definition buffer_gadget :: "u8 list option \<Rightarrow> u32 \<Rightarrow> gadget" where
  "buffer_gadget buffer buffer_size =
     (let usable = (if buffer_size > PRINTF_MAX_POSSIBLE_BUFFER_SIZE then PRINTF_MAX_POSSIBLE_BUFFER_SIZE
                    else buffer_size) in
      case buffer of None \<Rightarrow> discarding_gadget
      | Some b \<Rightarrow> discarding_gadget\<lparr>out_buf := Some b, out_max := usable\<rparr>)"

definition function_gadget :: gadget where
  "function_gadget = discarding_gadget\<lparr>out_fn := True, out_max := PRINTF_MAX_POSSIBLE_BUFFER_SIZE\<rparr>"

text \<open>A text through the gadget, character by character.\<close>

fun puts :: "gadget \<Rightarrow> u8 list \<Rightarrow> gadget option" where
  "puts g [] = Some g"
| "puts g (c # cs) = do { g \<leftarrow> putchar_via_gadget g c; puts g cs }"

lemma puts_append: "puts g (cs @ ds) = do { g \<leftarrow> puts g cs; puts g ds }"
  by (induction cs arbitrary: g) (simp_all add: bind_assoc)

lemma putchar_pos: "putchar_via_gadget g c = Some g' \<Longrightarrow> out_pos g' = out_pos g + 1"
  by (auto simp: putchar_via_gadget_def Let_def split: if_splits bind_splits)

lemma puts_pos: "puts g cs = Some g' \<Longrightarrow> out_pos g' = out_pos g + word_of_nat (length cs)"
  by (induction cs arbitrary: g) (auto dest: putchar_pos split: bind_splits)

section \<open>Strings and numbers in the format\<close>

definition is_digit_char :: "u8 \<Rightarrow> bool" where
  "is_digit_char ch \<longleftrightarrow> 48 \<le> sint ch \<and> sint ch \<le> 57"

text \<open>The loop of \<open>strnlen_s_\<close>, returning the end; \<open>maxsize--\<close> is evaluated after the test of \<open>*s\<close>.\<close>

function strnlen_loop :: "mem \<Rightarrow> addr \<Rightarrow> u32 \<Rightarrow> addr option" where
  "strnlen_loop m s maxsize = do {
     b \<leftarrow> ld8 m s;
     if b \<noteq> 0 \<and> maxsize \<noteq> 0 then strnlen_loop m (s + 1) (maxsize - 1) else Some s }"
  by pat_completeness auto
termination
  by (relation "measure (\<lambda>(m, s, k). length m - s)") (auto simp: mem_simps)

definition strnlen_s :: "mem \<Rightarrow> addr \<Rightarrow> u32 \<Rightarrow> u32 option" where
  "strnlen_s m str maxsize = do { s \<leftarrow> strnlen_loop m str maxsize; Some (word_of_nat (s - str)) }"

text \<open>\<open>atou_\<close>: the number and the position after it.\<close>

function atou :: "mem \<Rightarrow> addr \<Rightarrow> u32 \<Rightarrow> (u32 \<times> addr) option" where
  "atou m s i = do {
     b \<leftarrow> ld8 m s;
     if is_digit_char b then atou m (s + 1) (i * 10 + ucast (b - 48)) else Some (i, s) }"
  by pat_completeness auto
termination
  by (relation "measure (\<lambda>(m, s, i). length m - s)") (auto simp: mem_simps)

declare strnlen_loop.simps [simp del] atou.simps [simp del]

section \<open>Padding and reversing\<close>

lemma unat_Suc_less: "(i :: u32) < w \<Longrightarrow> unat (i + 1) = unat i + 1"
proof -
  assume "i < w"
  then have "unat i + 1 < 4294967296"
    using unsigned_less [of w, where ?'a = nat] by (simp add: word_less_nat_alt)
  then show ?thesis by (simp add: unat_word_ariths)
qed

lemma pad_measure: "(i :: u32) < w \<Longrightarrow> unat w - unat (i + 1) < unat w - unat i"
  using unat_Suc_less [of i w] by (simp add: word_less_nat_alt)

text \<open>\<open>for (; i < width; i++) putchar(' ')\<close>\<close>

function pad_from :: "gadget \<Rightarrow> u32 \<Rightarrow> u32 \<Rightarrow> gadget option" where
  "pad_from g i width =
     (if i < width then do { g \<leftarrow> putchar_via_gadget g 32; pad_from g (i + 1) width } else Some g)"
  by pat_completeness auto
termination
  by (relation "measure (\<lambda>(g, i :: u32, w :: u32). unat w - unat i)") (auto simp: pad_measure)

text \<open>\<open>while (output->pos - start_pos < width) putchar(' ')\<close>\<close>

function pad_to :: "gadget \<Rightarrow> u32 \<Rightarrow> u32 \<Rightarrow> gadget option" where
  "pad_to g start_pos width =
     (if out_pos g - start_pos < width
      then do { g \<leftarrow> putchar_via_gadget g 32; pad_to g start_pos width } else Some g)"
  by pat_completeness auto
termination
  by (relation "measure (\<lambda>(g, s, w :: u32). unat w - unat (out_pos g - s))")
    (auto dest!: putchar_pos pad_measure simp: algebra_simps)

declare pad_from.simps [simp del] pad_to.simps [simp del]

text \<open>\<open>while (len) putchar(buf[--len])\<close>\<close>

fun put_rev :: "gadget \<Rightarrow> u8 list \<Rightarrow> nat \<Rightarrow> gadget option" where
  "put_rev g buf 0 = Some g"
| "put_rev g buf (Suc len) = do { c \<leftarrow> rd buf len; g \<leftarrow> putchar_via_gadget g c; put_rev g buf len }"

definition out_rev :: "gadget \<Rightarrow> u8 list \<Rightarrow> u32 \<Rightarrow> printf_flags \<Rightarrow> gadget option" where
  "out_rev output buf width flags = do {
     let start_pos = out_pos output;
     output \<leftarrow> (if \<not> has flags FLAGS_LEFT \<and> \<not> has flags FLAGS_ZEROPAD
                then pad_from output (word_of_nat (length buf)) width else Some output);
     output \<leftarrow> put_rev output buf (length buf);
     if has flags FLAGS_LEFT then pad_to output start_pos width else Some output }"

section \<open>Printing an integer\<close>

definition push :: "u8 list \<Rightarrow> u8 \<Rightarrow> u8 list option" where
  "push buf c = (if length buf < PRINTF_INTEGER_BUFFER_SIZE then Some (buf @ [c]) else None)"

text \<open>\<open>while (len < limit && len < SIZE) buf[len++] = '0'\<close>\<close>

function pad_zeros :: "u8 list \<Rightarrow> u32 \<Rightarrow> u8 list option" where
  "pad_zeros buf limit =
     (if length buf < unat limit \<and> length buf < PRINTF_INTEGER_BUFFER_SIZE
      then do { buf \<leftarrow> push buf 48; pad_zeros buf limit } else Some buf)"
  by pat_completeness auto
termination
  by (relation "measure (\<lambda>(b, l). PRINTF_INTEGER_BUFFER_SIZE - length b)") (auto simp: push_def)

declare pad_zeros.simps [simp del]

definition push_if_room :: "u8 list \<Rightarrow> u8 \<Rightarrow> u8 list option" where
  "push_if_room buf c = (if length buf < PRINTF_INTEGER_BUFFER_SIZE then push buf c else Some buf)"

text \<open>The prefix \<open>0x\<close>, \<open>0b\<close> or \<open>0\<close>, after taking back padding zeros to make room for it.\<close>

definition print_prefix ::
  "u8 list \<Rightarrow> nat \<Rightarrow> nat \<Rightarrow> u32 \<Rightarrow> u32 \<Rightarrow> printf_flags \<Rightarrow> u8 list option" where
  "print_prefix buf unpadded_len base precision width flags = do {
     let buf =
       (if \<not> has flags FLAGS_PRECISION \<and> length buf \<noteq> 0 \<and> (length buf = unat precision \<or> length buf = unat width)
        then (let buf = (if unpadded_len < length buf then butlast buf else buf) in
              if length buf \<noteq> 0 \<and> (base = 16 \<or> base = 2) \<and> unpadded_len < length buf then butlast buf else buf)
        else buf);
     buf \<leftarrow> (if base = 16 \<and> \<not> has flags FLAGS_UPPERCASE \<and> length buf < PRINTF_INTEGER_BUFFER_SIZE then push buf 120
            else if base = 16 \<and> has flags FLAGS_UPPERCASE \<and> length buf < PRINTF_INTEGER_BUFFER_SIZE then push buf 88
            else if base = 2 \<and> length buf < PRINTF_INTEGER_BUFFER_SIZE then push buf 98
            else Some buf);
     push_if_room buf 48 }"

definition print_sign :: "u8 list \<Rightarrow> bool \<Rightarrow> printf_flags \<Rightarrow> u8 list option" where
  "print_sign buf negative flags =
     (if length buf < PRINTF_INTEGER_BUFFER_SIZE then
        if negative then push buf 45
        else if has flags FLAGS_PLUS then push buf 43
        else if has flags FLAGS_SPACE then push buf 32
        else Some buf
      else Some buf)"

definition print_integer_finalization ::
  "gadget \<Rightarrow> u8 list \<Rightarrow> bool \<Rightarrow> nat \<Rightarrow> u32 \<Rightarrow> u32 \<Rightarrow> printf_flags \<Rightarrow> gadget option" where
  "print_integer_finalization output buf negative base precision width flags = do {
     let unpadded_len = length buf;
     let width = (if \<not> has flags FLAGS_LEFT \<and> width \<noteq> 0 \<and> has flags FLAGS_ZEROPAD \<and>
                     (negative \<or> has flags FLAGS_PLUS \<or> has flags FLAGS_SPACE) then width - 1 else width);
     buf \<leftarrow> (if \<not> has flags FLAGS_LEFT \<and> has flags FLAGS_ZEROPAD then pad_zeros buf width else Some buf);
     buf \<leftarrow> pad_zeros buf precision;
     let flags = (if base = 8 \<and> length buf > unpadded_len then clear_flag FLAGS_HASH flags else flags);
     buf \<leftarrow> (if has flags FLAGS_HASH \<or> has flags FLAGS_POINTER
            then print_prefix buf unpadded_len base precision width flags else Some buf);
     buf \<leftarrow> print_sign buf negative flags;
     out_rev output buf width flags }"

definition digit_char :: "printf_flags \<Rightarrow> nat \<Rightarrow> u8" where
  "digit_char flags d = (if d < 10 then 48 + word_of_nat d
     else (if has flags FLAGS_UPPERCASE then 65 else 97) + word_of_nat d - 10)"

text \<open>The \<open>do ... while\<close> loop that writes the digits, lowest first.\<close>

function print_digits :: "u8 list \<Rightarrow> nat \<Rightarrow> nat \<Rightarrow> printf_flags \<Rightarrow> u8 list option" where
  "print_digits buf val base flags = do {
     buf \<leftarrow> push buf (digit_char flags (val mod base));
     if val div base \<noteq> 0 \<and> length buf < PRINTF_INTEGER_BUFFER_SIZE
     then print_digits buf (val div base) base flags else Some buf }"
  by pat_completeness auto
termination
  by (relation "measure (\<lambda>(b, v, base, f). PRINTF_INTEGER_BUFFER_SIZE - length b)") (auto simp: push_def split: if_splits)

declare print_digits.simps [simp del]

definition print_integer ::
  "gadget \<Rightarrow> u64 \<Rightarrow> bool \<Rightarrow> nat \<Rightarrow> u32 \<Rightarrow> u32 \<Rightarrow> printf_flags \<Rightarrow> gadget option" where
  "print_integer output val negative base precision width flags =
     (if val = 0 then
        if \<not> has flags FLAGS_PRECISION then do {
          buf \<leftarrow> push [] 48;
          print_integer_finalization output buf negative base precision width (clear_flag FLAGS_HASH flags) }
        else print_integer_finalization output [] negative base precision width
               (if base = 16 then clear_flag FLAGS_HASH flags else flags)
      else do {
        buf \<leftarrow> print_digits [] (unat val) base flags;
        print_integer_finalization output buf negative base precision width flags })"


section \<open>What is written, as a text\<close>

text \<open>
  Every writer of the file sends some text through the gadget, in order and nothing else, so its
  behaviour is \<open>puts g\<close> of that text.
\<close>

lemma pad_from_puts: "pad_from g i width = puts g (replicate (unat width - unat i) 32)"
proof (induction g i width rule: pad_from.induct)
  case (1 g i width)
  note u = pad_from.simps [of g i width]
  show ?case
  proof (cases "i < width")
    case True
    then have "unat width - unat i = Suc (unat width - unat (i + 1))"
      using unat_Suc_less [OF True] by (simp add: word_less_nat_alt)
    then show ?thesis unfolding u using True 1 by (auto split: bind_splits intro!: Option.bind_cong)
  next
    case False
    then show ?thesis unfolding u by (simp add: word_less_nat_alt)
  qed
qed

lemma pad_to_puts: "pad_to g start width = puts g (replicate (unat width - unat (out_pos g - start)) 32)"
proof (induction g start width rule: pad_to.induct)
  case (1 g start width)
  note u = pad_to.simps [of g start width]
  show ?case
  proof (cases "out_pos g - start < width")
    case True
    have s: "unat width - unat (out_pos g - start) = Suc (unat width - unat (out_pos g' - start))"
      if "putchar_via_gadget g 32 = Some g'" for g'
      using unat_Suc_less [OF True] True putchar_pos [OF that]
      by (simp add: word_less_nat_alt algebra_simps)
    show ?thesis
    proof (cases "putchar_via_gadget g 32")
      case None
      moreover obtain n where "unat width - unat (out_pos g - start) = Suc n"
        using True by (metis Suc_diff_Suc word_less_nat_alt)
      ultimately show ?thesis unfolding u using True by simp
    next
      case (Some g')
      then show ?thesis unfolding u s [OF Some] using True 1 [OF True] by simp
    qed
  next
    case False
    then show ?thesis unfolding u by (simp add: word_less_nat_alt)
  qed
qed

lemma put_rev_puts: "len \<le> length buf \<Longrightarrow> put_rev g buf len = puts g (rev (take len buf))"
proof (induction len arbitrary: g)
  case (Suc len)
  then have "rev (take (Suc len) buf) = buf ! len # rev (take len buf)"
    by (simp add: take_Suc_conv_app_nth)
  with Suc show ?case by (auto intro!: Option.bind_cong)
qed simp

definition left_pad :: "printf_flags \<Rightarrow> u32 \<Rightarrow> nat \<Rightarrow> u8 list" where
  "left_pad flags width n = (if has flags FLAGS_LEFT \<or> has flags FLAGS_ZEROPAD then []
     else replicate (unat width - n) 32)"

definition right_pad :: "printf_flags \<Rightarrow> u32 \<Rightarrow> nat \<Rightarrow> u8 list" where
  "right_pad flags width n = (if has flags FLAGS_LEFT then replicate (unat width - n) 32 else [])"

text \<open>A text in its field: spaces before it, or after it with the minus flag.\<close>

definition in_field :: "printf_flags \<Rightarrow> u32 \<Rightarrow> u8 list \<Rightarrow> u8 list" where
  "in_field flags width T = left_pad flags width (length T) @ T @ right_pad flags width (length T)"

lemma length_in_field_le: "length (in_field flags width T) \<le> max (unat width) (length T)"
  unfolding in_field_def left_pad_def right_pad_def by auto

lemma out_rev_puts:
  assumes "length buf < 2 ^ 32"
  shows "out_rev g buf width flags = puts g (in_field flags width (rev buf))"
proof -
  have n: "unat (word_of_nat (length buf) :: u32) = length buf"
    using assms by (simp add: unsigned_of_nat take_bit_nat_eq_self)
  have "pad_to g' (out_pos g) width = puts g' (right_pad flags width (length buf))"
    if "puts g (left_pad flags width (length buf) @ rev buf) = Some g'" "has flags FLAGS_LEFT" for g'
    using puts_pos [OF that(1)] that(2) n by (simp add: pad_to_puts right_pad_def left_pad_def)
  then show ?thesis
    unfolding out_rev_def in_field_def Let_def
    by (cases "has flags FLAGS_LEFT"; cases "has flags FLAGS_ZEROPAD")
      (auto simp: pad_from_puts put_rev_puts puts_append n left_pad_def right_pad_def bind_assoc intro!: Option.bind_cong)
qed

section \<open>The text of an integer\<close>

function numeral_text :: "(nat \<Rightarrow> u8) \<Rightarrow> nat \<Rightarrow> nat \<Rightarrow> u8 list" where
  "numeral_text f base n =
     (if n < base \<or> base < 2 then [f n] else numeral_text f base (n div base) @ [f (n mod base)])"
  by pat_completeness auto
termination
  by (relation "measure (\<lambda>(f, b, n). n)") auto

declare numeral_text.simps [simp del]

lemma numeral_text_nonempty [simp]: "numeral_text f base n \<noteq> []"
  by (simp add: numeral_text.simps)

lemma length_numeral_text: "0 < k \<Longrightarrow> n < base ^ k \<Longrightarrow> length (numeral_text f base n) \<le> k"
proof (induction k arbitrary: n)
  case (Suc k)
  show ?case
  proof (cases "n < base \<or> base < 2")
    case False
    then have k: "0 < k" using Suc.prems by (cases k) auto
    have "n div base < base ^ k" using Suc.prems False
      by (simp add: less_mult_imp_div_less mult.commute)
    then show ?thesis using False Suc.IH [OF k] by (simp add: numeral_text.simps [of f base n])
  qed (simp add: numeral_text.simps)
qed simp

lemma print_digits_text:
  "length buf < PRINTF_INTEGER_BUFFER_SIZE \<Longrightarrow> 2 \<le> base \<Longrightarrow>
   print_digits buf v base flags =
     Some (buf @ take (PRINTF_INTEGER_BUFFER_SIZE - length buf) (rev (numeral_text (digit_char flags) base v)))"
proof (induction buf v base flags rule: print_digits.induct)
  case (1 buf v base flags)
  note u = print_digits.simps [of buf v base flags] numeral_text.simps [of "digit_char flags" base v]
  let ?b = "buf @ [digit_char flags (v mod base)]"
  have p: "push buf (digit_char flags (v mod base)) = Some ?b" using 1(2) by (simp add: push_def)
  have v: "v div base = 0 \<longleftrightarrow> v < base" using 1(3) by (auto simp: div_eq_0_iff)
  obtain d where d: "PRINTF_INTEGER_BUFFER_SIZE - length buf = Suc d"
    "d = PRINTF_INTEGER_BUFFER_SIZE - length ?b" using 1(2) by (metis Suc_diff_Suc length_append_singleton)
  show ?case
  proof (cases "v < base")
    case True
    then show ?thesis unfolding u d(1) p using v by simp
  next
    case False
    show ?thesis
    proof (cases "length ?b < PRINTF_INTEGER_BUFFER_SIZE")
      case True
      then show ?thesis unfolding u d(1) p using False v 1(1) [OF p] 1(3) d(2) by auto
    next
      case full: False
      then have "d = 0" using d(2) by simp
      then show ?thesis unfolding u d(1) p using False v full 1(3) by auto
    qed
  qed
qed

lemma pad_zeros_text:
  "length buf \<le> PRINTF_INTEGER_BUFFER_SIZE \<Longrightarrow>
   pad_zeros buf limit = Some (buf @ replicate (min PRINTF_INTEGER_BUFFER_SIZE (unat limit) - length buf) 48)"
proof (induction buf limit rule: pad_zeros.induct)
  case (1 buf limit)
  note u = pad_zeros.simps [of buf limit]
  show ?case
  proof (cases "length buf < unat limit \<and> length buf < PRINTF_INTEGER_BUFFER_SIZE")
    case True
    then have p: "push buf 48 = Some (buf @ [48])" by (simp add: push_def)
    have "min PRINTF_INTEGER_BUFFER_SIZE (unat limit) - length buf =
        Suc (min PRINTF_INTEGER_BUFFER_SIZE (unat limit) - length (buf @ [48]))" using True by auto
    then show ?thesis unfolding u p using True 1(1) [OF _ p] by simp
  next
    case False
    then have "min PRINTF_INTEGER_BUFFER_SIZE (unat limit) - length buf = 0" by auto
    then show ?thesis unfolding u if_not_P [OF False] by simp
  qed
qed

text \<open>
  The text C11 7.21.6.1 asks for: the sign, the prefix of the alternative form, zeros up to the
  precision or (with the zero flag) the width, and the numeral, which is empty for zero with an
  explicit precision.
\<close>

definition sign_text :: "bool \<Rightarrow> printf_flags \<Rightarrow> u8 list" where
  "sign_text negative flags = (if negative then [45] else if has flags FLAGS_PLUS then [43]
     else if has flags FLAGS_SPACE then [32] else [])"

definition digits_text :: "u64 \<Rightarrow> nat \<Rightarrow> printf_flags \<Rightarrow> u8 list" where
  "digits_text val base flags = (if val = 0 \<and> has flags FLAGS_PRECISION then []
     else numeral_text (digit_char flags) base (unat val))"

definition zeros_wanted :: "nat \<Rightarrow> bool \<Rightarrow> u32 \<Rightarrow> u32 \<Rightarrow> printf_flags \<Rightarrow> nat" where
  "zeros_wanted n negative precision width flags =
     max (if has flags FLAGS_ZEROPAD \<and> \<not> has flags FLAGS_LEFT then unat width - length (sign_text negative flags) else 0)
       (unat precision) - n"

definition prefix_text :: "nat \<Rightarrow> printf_flags \<Rightarrow> u8 list" where
  "prefix_text base flags = 48 # (if base = 16 then [if has flags FLAGS_UPPERCASE then 88 else 120]
     else if base = 2 then [98] else [])"

definition alternative_form :: "u64 \<Rightarrow> nat \<Rightarrow> nat \<Rightarrow> printf_flags \<Rightarrow> bool" where
  "alternative_form val base zeros flags \<longleftrightarrow>
     has flags FLAGS_POINTER \<or> (has flags FLAGS_HASH \<and> \<not> (base = 8 \<and> 0 < zeros) \<and>
       (val \<noteq> 0 \<or> has flags FLAGS_PRECISION \<and> base \<noteq> 16))"

definition integer_body :: "bool \<Rightarrow> nat \<Rightarrow> u8 list \<Rightarrow> bool \<Rightarrow> nat \<Rightarrow> printf_flags \<Rightarrow> u8 list" where
  "integer_body alt z D negative base flags = sign_text negative flags @
     (if alt then prefix_text base flags @
        replicate (if has flags FLAGS_PRECISION then z else z - length (prefix_text base flags)) 48
      else replicate z 48) @ D"

definition integer_text :: "u64 \<Rightarrow> bool \<Rightarrow> nat \<Rightarrow> u32 \<Rightarrow> u32 \<Rightarrow> printf_flags \<Rightarrow> u8 list" where
  "integer_text val negative base precision width flags =
     (let D = digits_text val base flags;
          z = zeros_wanted (length D) negative precision width flags in
      in_field flags width
        (integer_body (alternative_form val base z flags) z D negative base flags))"

lemma length_prefix_text: "length (prefix_text base flags) = (if base = 16 \<or> base = 2 then 2 else 1)"
  by (simp add: prefix_text_def)

lemma butlast_replicate_snoc:
  "(if length D < length (D @ replicate z c) then butlast (D @ replicate z c) else D @ replicate z c)
   = D @ replicate (z - 1) c"
  by (cases z) (simp_all add: butlast_append replicate_append_same [symmetric])

lemma take_back_amount:
  "(if P then D @ replicate (z - 1 - 1) c else D @ replicate (z - 1) c) = D @ replicate (z - (if P then 2 else 1)) c"
  by (cases P) (auto simp: diff_diff_left)

lemma print_prefix_text:
  assumes room: "length D + z + 2 \<le> PRINTF_INTEGER_BUFFER_SIZE"
    and take_back: "\<not> has flags FLAGS_PRECISION \<Longrightarrow> 0 < z \<Longrightarrow> length D + z = unat width"
  shows "print_prefix (D @ replicate z 48) (length D) base precision width flags =
    Some (D @ replicate (if has flags FLAGS_PRECISION then z else z - length (prefix_text base flags)) 48 @
      rev (prefix_text base flags))"
proof -
  let ?z = "if has flags FLAGS_PRECISION then z else z - length (prefix_text base flags)"
  have B: "(if \<not> has flags FLAGS_PRECISION \<and> length (D @ replicate z 48) \<noteq> 0 \<and>
        (length (D @ replicate z 48) = unat precision \<or> length (D @ replicate z 48) = unat width)
      then (let buf = (if length D < length (D @ replicate z 48) then butlast (D @ replicate z 48) else D @ replicate z 48) in
            if length buf \<noteq> 0 \<and> (base = 16 \<or> base = 2) \<and> length D < length buf then butlast buf else buf)
      else D @ replicate z 48) = D @ replicate ?z (48 :: u8)"
  proof (cases "has flags FLAGS_PRECISION \<or> z = 0")
    case False
    then have w: "length D + z = unat width" using take_back by simp
    have b: "(if base = 16 \<or> base = 2 then D @ replicate (z - 1 - 1) (48 :: u8) else D @ replicate (z - 1) 48) =
        D @ replicate (z - length (prefix_text base flags)) 48"
      unfolding length_prefix_text by (rule take_back_amount)
    have c: "(if length X \<noteq> 0 \<and> P \<and> n < length X then butlast X else X) =
        (if P then (if n < length X then butlast X else X) else X)" for X :: "u8 list" and P n by auto
    have cond: "\<not> has flags FLAGS_PRECISION \<and> length (D @ replicate z (48 :: u8)) \<noteq> 0 \<and>
        (length (D @ replicate z (48 :: u8)) = unat precision \<or> length (D @ replicate z (48 :: u8)) = unat width)"
      using False w by simp
    then have np: "\<not> has flags FLAGS_PRECISION" by simp
    show ?thesis unfolding if_P [OF cond] if_not_P [OF np] butlast_replicate_snoc Let_def c b ..
  qed auto
  define n where "n = ?z"
  have "length D + n + 2 \<le> PRINTF_INTEGER_BUFFER_SIZE" using room by (auto simp: n_def)
  then show ?thesis unfolding print_prefix_def unfolding B unfolding Let_def n_def [symmetric]
    by (cases "base = 16"; cases "base = 2"; cases "has flags FLAGS_UPPERCASE")
      (simp_all add: push_def push_if_room_def prefix_text_def)
qed

lemma print_sign_text:
  "length buf + length (sign_text negative flags) \<le> PRINTF_INTEGER_BUFFER_SIZE \<Longrightarrow>
   print_sign buf negative flags = Some (buf @ rev (sign_text negative flags))"
  by (auto simp: print_sign_def sign_text_def push_def split: if_splits)

lemma sign_text_clear_HASH [simp]: "sign_text negative (clear_flag FLAGS_HASH flags) = sign_text negative flags"
  by (simp add: sign_text_def)

lemma in_field_flags:
  "has flags FLAGS_LEFT = has flags' FLAGS_LEFT \<Longrightarrow> has flags FLAGS_ZEROPAD = has flags' FLAGS_ZEROPAD \<Longrightarrow>
   (\<not> has flags' FLAGS_LEFT \<Longrightarrow> \<not> has flags' FLAGS_ZEROPAD \<Longrightarrow> unat width = unat width') \<Longrightarrow>
   (has flags' FLAGS_LEFT \<Longrightarrow> unat width = unat width') \<Longrightarrow>
   in_field flags width T = in_field flags' width' T"
  by (simp add: in_field_def left_pad_def right_pad_def)

lemma finalization_text:
  assumes D: "length D \<le> 29" and w: "unat width \<le> 29" and p: "unat precision \<le> 29"
    and np: "has flags FLAGS_PRECISION \<or> precision = 0"
    and ptr: "has flags FLAGS_POINTER \<Longrightarrow> base \<noteq> 8"
    and z: "z = zeros_wanted (length D) negative precision width flags"
    and alt: "alt = (has flags FLAGS_POINTER \<or> has flags FLAGS_HASH \<and> \<not> (base = 8 \<and> 0 < z))"
  shows "print_integer_finalization g D negative base precision width flags = 
    puts g (in_field flags width (integer_body alt z (rev D) negative base flags))"
proof -
  define W where "W = (if \<not> has flags FLAGS_LEFT \<and> width \<noteq> 0 \<and> has flags FLAGS_ZEROPAD \<and>
    (negative \<or> has flags FLAGS_PLUS \<or> has flags FLAGS_SPACE) then width - 1 else width)"
  let ?zp = "\<not> has flags FLAGS_LEFT \<and> has flags FLAGS_ZEROPAD"
  define F where "F = (if base = 8 \<and> length (D @ replicate z (48 :: u8)) > length D then clear_flag FLAGS_HASH flags else flags)"
  have W: "?zp \<Longrightarrow> unat W = unat width - length (sign_text negative flags)" "\<not> ?zp \<Longrightarrow> W = width"
    "unat W \<le> unat width"
    by (auto simp: W_def sign_text_def unat_minus_one)
  let ?n = "length D" and ?s = "length (sign_text negative flags)" and ?p = "length (prefix_text base F)"
  have s1: "?s \<le> 1" "?p \<le> 2" by (simp_all add: sign_text_def prefix_text_def)
  have B: "PRINTF_INTEGER_BUFFER_SIZE = 32" by (simp add: PRINTF_INTEGER_BUFFER_SIZE_def)
  have zz: "?zp \<Longrightarrow> z = max (unat W) (unat precision) - ?n" "\<not> ?zp \<Longrightarrow> z = unat precision - ?n"
    using z W(1) by (auto simp: zeros_wanted_def)
  have nz: "?n + z \<le> 29" using zz D w p W(3) by (cases ?zp) auto
  have pads: "(if ?zp then pad_zeros D W else Some D) \<bind> (\<lambda>buf. pad_zeros buf precision) = Some (D @ replicate z 48)"
  proof (cases ?zp)
    case True
    then have 1: "pad_zeros D W = Some (D @ replicate (unat W - ?n) 48)"
      using D w W(3) by (simp add: pad_zeros_text B)
    have "z = (unat W - ?n) + (unat precision - (?n + (unat W - ?n)))" using zz(1) [OF True] by linarith
    then have 2: "replicate z (48 :: u8) = replicate (unat W - ?n) 48 @ replicate (unat precision - (?n + (unat W - ?n))) 48"
      by (simp flip: replicate_add)
    have "?n + (unat W - ?n) \<le> 32" using D w W(3) by linarith
    then show ?thesis using True 1 2 p by (simp add: pad_zeros_text B)
  next
    case False
    then show ?thesis using D p zz(2) [OF False] by (auto simp: pad_zeros_text B)
  qed
  have F: "has F FLAGS_LEFT = has flags FLAGS_LEFT" "has F FLAGS_ZEROPAD = has flags FLAGS_ZEROPAD"
    "has F FLAGS_PRECISION = has flags FLAGS_PRECISION" "has F FLAGS_POINTER = has flags FLAGS_POINTER"
    "sign_text negative F = sign_text negative flags" "prefix_text base F = prefix_text base flags"
    by (simp_all add: F_def prefix_text_def sign_text_def)
  have alt': "has F FLAGS_HASH \<or> has F FLAGS_POINTER \<longleftrightarrow> alt" by (auto simp: F_def alt)
  have pre: "print_prefix (D @ replicate z 48) ?n base precision W F =
      Some (D @ replicate (if has flags FLAGS_PRECISION then z else z - length (prefix_text base flags)) 48 @
        rev (prefix_text base flags))"
    unfolding F(3,6) [symmetric]
  proof (rule print_prefix_text)
    show "?n + z + 2 \<le> PRINTF_INTEGER_BUFFER_SIZE" using nz B by simp
  next
    assume "\<not> has F FLAGS_PRECISION" "0 < z"
    then show "?n + z = unat W" using np zz F(3) by (cases ?zp) auto
  qed
  have fld: "in_field F W T = in_field flags width T" for T
    by (rule in_field_flags) (use F W(2) in auto)
  let ?T = "if alt then D @ replicate (if has flags FLAGS_PRECISION then z else z - length (prefix_text base flags)) 48 @
        rev (prefix_text base flags) else D @ replicate z 48"
  have T: "length ?T + ?s \<le> 32" using nz s1 by (auto simp: length_prefix_text F)
  have "print_integer_finalization g D negative base precision width flags =
      do { buf \<leftarrow> (if alt then print_prefix (D @ replicate z 48) ?n base precision W F else Some (D @ replicate z 48));
           buf \<leftarrow> print_sign buf negative F; out_rev g buf W F }"
    unfolding print_integer_finalization_def W_def [symmetric] Let_def bind_assoc [symmetric] pads bind.bind_lunit
      F_def [symmetric] alt' [symmetric] ..
  also have "\<dots> = out_rev g (?T @ rev (sign_text negative flags)) W F"
    using pre print_sign_text [of ?T negative F] T by (cases alt) (simp_all add: B F)
  also have "\<dots> = puts g (in_field flags width (sign_text negative flags @ rev ?T))"
    using T by (subst out_rev_puts) (auto simp: fld)
  finally show ?thesis by (cases alt) (simp_all add: integer_body_def)
qed

lemma clear_HASH_text [simp]:
  "integer_body alt z D negative base (clear_flag FLAGS_HASH flags) = integer_body alt z D negative base flags"
  "in_field (clear_flag FLAGS_HASH flags) width T = in_field flags width T"
  "zeros_wanted n negative precision width (clear_flag FLAGS_HASH flags) = zeros_wanted n negative precision width flags"
  by (simp_all add: integer_body_def prefix_text_def in_field_def left_pad_def right_pad_def zeros_wanted_def)

text \<open>Within the 32 bytes of the buffer, an integer is printed as C prescribes.\<close>

lemma print_integer_text:
  assumes base: "2 \<le> base" and w: "unat width \<le> 29" "unat precision \<le> 29"
    and D: "length (digits_text val base flags) \<le> 29"
    and np: "has flags FLAGS_PRECISION \<or> precision = 0"
    and ptr: "has flags FLAGS_POINTER \<Longrightarrow> base = 16 \<and> val \<noteq> 0"
  shows "print_integer g val negative base precision width flags =
    puts g (integer_text val negative base precision width flags)"
proof -
  let ?D = "digits_text val base flags"
  have B: "PRINTF_INTEGER_BUFFER_SIZE = 32" by (simp add: PRINTF_INTEGER_BUFFER_SIZE_def)
  note fin = finalization_text [OF _ w(1,2), where negative = negative and g = g and base = base]
  have d: "digit_char (clear_flag FLAGS_HASH flags) = digit_char flags" by (rule ext) (simp add: digit_char_def)
  show ?thesis
  proof (cases "val = 0")
    case False
    then have D': "?D = numeral_text (digit_char flags) base (unat val)" by (simp add: digits_text_def)
    have "print_digits [] (unat val) base flags = Some (rev ?D)"
      using print_digits_text [of "[]" base "unat val" flags] base D by (simp add: D' B)
    moreover have "print_integer_finalization g (rev ?D) negative base precision width flags =
        puts g (integer_text val negative base precision width flags)"
      unfolding integer_text_def Let_def alternative_form_def
      by (subst fin [of "rev ?D" flags, OF _ np _ refl refl])
        (use D False ptr in \<open>auto simp: Let_def\<close>)
    ultimately show ?thesis using False by (simp add: print_integer_def)
  next
    case zero: True
    show ?thesis
    proof (cases "has flags FLAGS_PRECISION")
      case False
      then have D': "?D = [48]" using zero base
        by (simp add: digits_text_def numeral_text.simps [of _ base 0] digit_char_def)
      have "push [] 48 = Some (rev ?D)" by (simp add: push_def B D')
      moreover have "print_integer_finalization g (rev ?D) negative base precision width (clear_flag FLAGS_HASH flags) =
          puts g (integer_text val negative base precision width flags)"
        by (subst fin [of "rev ?D" "clear_flag FLAGS_HASH flags", OF _ _ _ refl refl])
          (use D False np zero ptr in \<open>auto simp: integer_text_def alternative_form_def Let_def\<close>)
      ultimately show ?thesis using False zero by (simp add: print_integer_def)
    next
      case True
      then have D': "?D = []" using zero by (simp add: digits_text_def)
      let ?F = "if base = 16 then clear_flag FLAGS_HASH flags else flags"
      have "print_integer_finalization g (rev ?D) negative base precision width ?F =
          puts g (integer_text val negative base precision width flags)"
        by (subst fin [of "rev ?D" ?F, OF _ _ _ refl refl])
          (use D True np zero ptr in \<open>auto simp: integer_text_def alternative_form_def Let_def\<close>)
      then show ?thesis using True zero D' by (simp add: print_integer_def)
    qed
  qed
qed

text \<open>Whatever the width and the precision, the 32 bytes are never overrun.\<close>

lemma push_room: "length buf < PRINTF_INTEGER_BUFFER_SIZE \<Longrightarrow> push buf c = Some (buf @ [c])"
  by (simp add: push_def)

lemma print_prefix_room:
  assumes "length buf \<le> PRINTF_INTEGER_BUFFER_SIZE"
  shows "\<exists>buf'. print_prefix buf n base precision width flags = Some buf' \<and> length buf' \<le> PRINTF_INTEGER_BUFFER_SIZE"
proof -
  define X where "X = (if \<not> has flags FLAGS_PRECISION \<and> length buf \<noteq> 0 \<and> (length buf = unat precision \<or> length buf = unat width)
        then (let buf = (if n < length buf then butlast buf else buf) in
              if length buf \<noteq> 0 \<and> (base = 16 \<or> base = 2) \<and> n < length buf then butlast buf else buf)
        else buf)"
  have X: "length X \<le> PRINTF_INTEGER_BUFFER_SIZE" using assms unfolding X_def Let_def by auto
  have "\<exists>Y. (if base = 16 \<and> \<not> has flags FLAGS_UPPERCASE \<and> length X < PRINTF_INTEGER_BUFFER_SIZE then push X 120
            else if base = 16 \<and> has flags FLAGS_UPPERCASE \<and> length X < PRINTF_INTEGER_BUFFER_SIZE then push X 88
            else if base = 2 \<and> length X < PRINTF_INTEGER_BUFFER_SIZE then push X 98
            else Some X) = Some Y \<and> length Y \<le> PRINTF_INTEGER_BUFFER_SIZE"
    using X by (auto simp: push_room)
  then obtain Y where Y: "(if base = 16 \<and> \<not> has flags FLAGS_UPPERCASE \<and> length X < PRINTF_INTEGER_BUFFER_SIZE then push X 120
            else if base = 16 \<and> has flags FLAGS_UPPERCASE \<and> length X < PRINTF_INTEGER_BUFFER_SIZE then push X 88
            else if base = 2 \<and> length X < PRINTF_INTEGER_BUFFER_SIZE then push X 98
            else Some X) = Some Y" "length Y \<le> PRINTF_INTEGER_BUFFER_SIZE" by blast
  have "print_prefix buf n base precision width flags = push_if_room Y 48"
    unfolding print_prefix_def unfolding X_def [symmetric] unfolding Let_def using Y(1) by simp
  then show ?thesis using Y(2) by (cases "length Y < PRINTF_INTEGER_BUFFER_SIZE") (auto simp: push_if_room_def push_room)
qed

lemma print_sign_room:
  "length buf \<le> PRINTF_INTEGER_BUFFER_SIZE \<Longrightarrow>
   \<exists>buf'. print_sign buf negative flags = Some buf' \<and> length buf' \<le> PRINTF_INTEGER_BUFFER_SIZE"
  by (auto simp: print_sign_def push_room)

lemma pad_zeros_room:
  "length buf \<le> PRINTF_INTEGER_BUFFER_SIZE \<Longrightarrow>
   \<exists>buf'. pad_zeros buf limit = Some buf' \<and> length buf' \<le> PRINTF_INTEGER_BUFFER_SIZE"
  by (auto simp: pad_zeros_text)

lemma print_integer_finalization_puts:
  assumes "length buf \<le> PRINTF_INTEGER_BUFFER_SIZE"
  obtains T where "\<And>g. print_integer_finalization g buf negative base precision width flags = puts g T"
proof -
  define W where "W = (if \<not> has flags FLAGS_LEFT \<and> width \<noteq> 0 \<and> has flags FLAGS_ZEROPAD \<and>
    (negative \<or> has flags FLAGS_PLUS \<or> has flags FLAGS_SPACE) then width - 1 else width)"
  obtain b1 where b1: "(if \<not> has flags FLAGS_LEFT \<and> has flags FLAGS_ZEROPAD then pad_zeros buf W else Some buf) = Some b1"
    "length b1 \<le> PRINTF_INTEGER_BUFFER_SIZE"
    using assms pad_zeros_room [OF assms, of W] by (cases "\<not> has flags FLAGS_LEFT \<and> has flags FLAGS_ZEROPAD") auto
  obtain b2 where b2: "pad_zeros b1 precision = Some b2" "length b2 \<le> PRINTF_INTEGER_BUFFER_SIZE"
    using pad_zeros_room [OF b1(2)] by blast
  define F where "F = (if base = 8 \<and> length b2 > length buf then clear_flag FLAGS_HASH flags else flags)"
  obtain b3 where b3: "(if has F FLAGS_HASH \<or> has F FLAGS_POINTER then print_prefix b2 (length buf) base precision W F
      else Some b2) = Some b3" "length b3 \<le> PRINTF_INTEGER_BUFFER_SIZE"
    using b2(2) print_prefix_room [OF b2(2), of "length buf" base precision W F]
    by (cases "has F FLAGS_HASH \<or> has F FLAGS_POINTER") auto
  obtain b4 where b4: "print_sign b3 negative F = Some b4" "length b4 \<le> PRINTF_INTEGER_BUFFER_SIZE"
    using print_sign_room [OF b3(2)] by blast
  have "print_integer_finalization g buf negative base precision width flags = out_rev g b4 W F" for g
    unfolding print_integer_finalization_def Let_def W_def [symmetric] b1(1) bind.bind_lunit b2(1)
      F_def [symmetric] b3(1) b4(1) ..
  moreover have "length b4 < 2 ^ 32" using b4(2) by (simp add: PRINTF_INTEGER_BUFFER_SIZE_def)
  ultimately show ?thesis using that [of "in_field F W (rev b4)"] by (simp add: out_rev_puts)
qed

lemma print_integer_puts:
  assumes "2 \<le> base"
  obtains T where "\<And>g. print_integer g val negative base precision width flags = puts g T"
proof -
  have B: "PRINTF_INTEGER_BUFFER_SIZE = 32" by (simp add: PRINTF_INTEGER_BUFFER_SIZE_def)
  have "\<exists>buf F. length buf \<le> PRINTF_INTEGER_BUFFER_SIZE \<and> (\<forall>g. print_integer g val negative base precision width flags =
       print_integer_finalization g buf negative base precision width F)"
  proof (cases "val = 0")
    case True
    show ?thesis
    proof (cases "has flags FLAGS_PRECISION")
      case True
      with \<open>val = 0\<close> show ?thesis
        by (intro exI [of _ "[]"] exI [of _ "if base = 16 then clear_flag FLAGS_HASH flags else flags"])
          (simp add: print_integer_def)
    next
      case False
      with True show ?thesis
        by (intro exI [of _ "[48]"] exI [of _ "clear_flag FLAGS_HASH flags"])
          (simp add: print_integer_def push_def B)
    qed
  next
    case False
    then show ?thesis using assms
      by (intro exI [of _ "take 32 (rev (numeral_text (digit_char flags) base (unat val)))"] exI [of _ flags])
        (simp add: print_integer_def print_digits_text B)
  qed
  then show ?thesis using that print_integer_finalization_puts by metis
qed

section \<open>Where the text goes\<close>

text \<open>A gadget whose limit does not exceed its buffer accepts every character.\<close>

definition fits :: "gadget \<Rightarrow> bool" where
  "fits g \<longleftrightarrow> out_fn g \<or> out_max g = 0 \<or> (\<exists>b. out_buf g = Some b \<and> unat (out_max g) \<le> length b)"

definition same_gadget :: "gadget \<Rightarrow> gadget \<Rightarrow> bool" where
  "same_gadget g g' \<longleftrightarrow> out_fn g' = out_fn g \<and> out_max g' = out_max g \<and>
     map_option length (out_buf g') = map_option length (out_buf g)"

lemma fits_same: "fits g \<Longrightarrow> same_gadget g g' \<Longrightarrow> fits g'"
  by (cases "out_buf g"; cases "out_buf g'") (auto simp: fits_def same_gadget_def)

lemma putchar_fits:
  "fits g \<Longrightarrow> \<exists>g'. putchar_via_gadget g c = Some g' \<and> same_gadget g g'"
  by (auto simp: putchar_via_gadget_def fits_def same_gadget_def Let_def word_less_nat_alt not_le)

lemma puts_fits:
  "fits g \<Longrightarrow> \<exists>g'. puts g T = Some g' \<and> same_gadget g g'"
proof (induction T arbitrary: g)
  case (Cons c T)
  obtain g1 where "putchar_via_gadget g c = Some g1" "same_gadget g g1"
    using putchar_fits [OF Cons.prems] by blast
  then show ?case using Cons.IH [of g1] fits_same [OF Cons.prems] by (auto simp: same_gadget_def)
qed (simp add: same_gadget_def)

text \<open>Into a buffer: what fits of the text, then the terminator, and nothing else.\<close>

lemma puts_buffer:
  assumes "\<not> out_fn g" "out_buf g = Some b" "unat (out_max g) \<le> length b" "unat (out_pos g) + length T < 2 ^ 32"
  shows "puts g T = Some (g\<lparr>out_pos := out_pos g + word_of_nat (length T),
    out_buf := Some (put_bytes b (unat (out_pos g)) (take (unat (out_max g) - unat (out_pos g)) T))\<rparr>)"
  using assms
proof (induction T arbitrary: g b)
  case (Cons c T)
  let ?p = "unat (out_pos g)" and ?n = "unat (out_max g)"
  have p: "unat (out_pos g + 1) = Suc ?p"
    using Cons.prems(4) by (simp add: unat_word_ariths)
  show ?case
  proof (cases "out_pos g \<ge> out_max g")
    case True
    then have "?n - ?p = 0" by (simp add: word_le_nat_alt)
    moreover have "?n - Suc ?p = 0" using calculation by simp
    ultimately show ?thesis
      using True Cons.prems Cons.IH [of "g\<lparr>out_pos := out_pos g + 1\<rparr>" b] p
      by (simp add: putchar_via_gadget_def Let_def algebra_simps)
  next
    case False
    then have lt: "?p < ?n" by (simp add: word_le_nat_alt)
    let ?g = "g\<lparr>out_pos := out_pos g + 1, out_buf := Some (b[?p := c])\<rparr>"
    have "putchar_via_gadget g c = Some ?g"
      using False lt Cons.prems by (simp add: putchar_via_gadget_def Let_def)
    moreover have "puts ?g T = Some (?g\<lparr>out_pos := out_pos g + 1 + word_of_nat (length T),
        out_buf := Some (put_bytes (b[?p := c]) (Suc ?p) (take (?n - Suc ?p) T))\<rparr>)"
      using Cons.IH [of ?g "b[?p := c]"] Cons.prems p by simp
    moreover have "?n - ?p = Suc (?n - Suc ?p)" using lt by simp
    moreover have "put_bytes (b[?p := c]) (Suc ?p) D = put_bytes b ?p (c # D)" for D
      using lt Cons.prems(3) by (simp add: put_bytes_def upd_conv_take_nth_drop add.commute)
    ultimately show ?thesis by (simp add: algebra_simps)
  qed
qed simp

lemma print_integer_fits:
  assumes "fits g" "2 \<le> base"
  shows "\<exists>g'. print_integer g val negative base precision width flags = Some g' \<and> same_gadget g g'"
proof -
  obtain T where "\<And>g. print_integer g val negative base precision width flags = puts g T"
    using print_integer_puts [OF assms(2), of val negative precision width flags] by blast
  then show ?thesis using puts_fits [OF assms(1)] by simp
qed

text \<open>
  C40: printing an integer never overruns the 32 bytes of the digit buffer nor the buffer of the
  output, whatever the value, the base, the flags, the width and the precision.
\<close>

theorem print_integer_in_bounds:
  assumes "fits g" "2 \<le> base"
  shows "\<exists>g'. print_integer g val negative base precision width flags = Some g' \<and> same_gadget g g'"
  using assms by (rule print_integer_fits)

theorem print_integer_in_bounds_witness:
  "\<exists>g'. print_integer (buffer_gadget (Some [0, 0, 0]) 3) 0xFFFFFFFFFFFFFFFF False 2 0xFFFFFFFF 0xFFFFFFFF 0 = Some g'"
proof -
  have "fits (buffer_gadget (Some [0, 0, 0]) 3)"
    by (simp add: fits_def buffer_gadget_def discarding_gadget_def Let_def PRINTF_MAX_POSSIBLE_BUFFER_SIZE_def)
  from print_integer_in_bounds [OF this, of 2 "0xFFFFFFFFFFFFFFFF" False "0xFFFFFFFF" "0xFFFFFFFF" 0]
  show ?thesis by auto
qed

end
