(* ===== verification/Ieee.thy ===== *)
theory Ieee
  imports VecBase "HOL-Library.Log_Nat"
begin

text \<open>
  The binary floating-point arithmetic of C on WebAssembly: IEEE 754 formats with \<open>e\<close> exponent bits
  and \<open>m\<close> mantissa bits, rounding to nearest, ties to even. A value is decoded to its sign and the
  exact rational magnitude, the operation is exact, and the result is rounded when it is encoded.
  A NaN is encoded as the canonical one.
\<close>

section \<open>Decoded values\<close>

datatype fp = NaN | Inf bool | Fin bool rat

definition pow2 :: "int \<Rightarrow> rat" where
  "pow2 k = (if 0 \<le> k then 2 ^ nat k else 1 / 2 ^ nat (- k))"

text \<open>The exponent of the last bit of a subnormal: -1074 for \<open>double\<close>.\<close>

definition least_exp :: "nat \<Rightarrow> nat \<Rightarrow> int" where
  "least_exp e m = 2 - 2 ^ (e - 1) - int m"

definition fp_decode :: "nat \<Rightarrow> nat \<Rightarrow> int \<Rightarrow> fp" where
  "fp_decode e m b =
     (let s = odd (b div 2 ^ (e + m)); x = b div 2 ^ m mod 2 ^ e; f = b mod 2 ^ m in
      if x = 2 ^ e - 1 then (if f = 0 then Inf s else NaN)
      else if x = 0 then Fin s (of_int f * pow2 (least_exp e m))
      else Fin s (of_int (2 ^ m + f) * pow2 (least_exp e m + x - 1)))"

section \<open>Rounding\<close>

definition round_even :: "rat \<Rightarrow> int" where
  "round_even q = (let f = \<lfloor>q\<rfloor>; d = q - of_int f in
     if d < 1 / 2 \<or> (d = 1 / 2 \<and> even f) then f else f + 1)"

text \<open>The exponent of the leading bit of a positive rational.\<close>

definition lead_exp :: "rat \<Rightarrow> int" where
  "lead_exp r = (let (n, d) = quotient_of r; k = bitlen n - bitlen d in if pow2 k \<le> r then k else k - 1)"

definition fp_encode :: "nat \<Rightarrow> nat \<Rightarrow> fp \<Rightarrow> int" where
  "fp_encode e m x =
     (let sign = (\<lambda>s. if s then 2 ^ (e + m) else 0); top = (2 ^ e - 1) * 2 ^ m in
      case x of NaN \<Rightarrow> top + 2 ^ (m - 1)
      | Inf s \<Rightarrow> sign s + top
      | Fin s r \<Rightarrow>
          if r \<le> 0 then sign s
          else let k = max (lead_exp r - int m) (least_exp e m);
                   b = (k - least_exp e m) * 2 ^ m + round_even (r / pow2 k) in
               sign s + min b top)"

section \<open>Exact operations\<close>

fun fp_neg :: "fp \<Rightarrow> fp" where
  "fp_neg NaN = NaN"
| "fp_neg (Inf s) = Inf (\<not> s)"
| "fp_neg (Fin s r) = Fin (\<not> s) r"

fun fp_add :: "fp \<Rightarrow> fp \<Rightarrow> fp" where
  "fp_add NaN y = NaN"
| "fp_add x NaN = NaN"
| "fp_add (Inf s) (Inf t) = (if s = t then Inf s else NaN)"
| "fp_add (Inf s) (Fin t q) = Inf s"
| "fp_add (Fin s r) (Inf t) = Inf t"
| "fp_add (Fin s r) (Fin t q) =
     (if s = t then Fin s (r + q)
      else if r = q then Fin False 0
      else if r > q then Fin s (r - q) else Fin t (q - r))"

fun fp_mul :: "fp \<Rightarrow> fp \<Rightarrow> fp" where
  "fp_mul NaN y = NaN"
| "fp_mul x NaN = NaN"
| "fp_mul (Inf s) (Inf t) = Inf (s \<noteq> t)"
| "fp_mul (Inf s) (Fin t q) = (if q = 0 then NaN else Inf (s \<noteq> t))"
| "fp_mul (Fin s r) (Inf t) = (if r = 0 then NaN else Inf (s \<noteq> t))"
| "fp_mul (Fin s r) (Fin t q) = Fin (s \<noteq> t) (r * q)"

fun fp_div :: "fp \<Rightarrow> fp \<Rightarrow> fp" where
  "fp_div NaN y = NaN"
| "fp_div x NaN = NaN"
| "fp_div (Inf s) (Inf t) = NaN"
| "fp_div (Inf s) (Fin t q) = Inf (s \<noteq> t)"
| "fp_div (Fin s r) (Inf t) = Fin (s \<noteq> t) 0"
| "fp_div (Fin s r) (Fin t q) =
     (if q = 0 then (if r = 0 then NaN else Inf (s \<noteq> t)) else Fin (s \<noteq> t) (r / q))"

definition fp_num :: "bool \<Rightarrow> rat \<Rightarrow> rat" where
  "fp_num s r = (if s then - r else r)"

fun fp_less :: "fp \<Rightarrow> fp \<Rightarrow> bool" where
  "fp_less (Inf s) (Inf t) \<longleftrightarrow> s \<and> \<not> t"
| "fp_less (Inf s) (Fin t q) \<longleftrightarrow> s"
| "fp_less (Fin s r) (Inf t) \<longleftrightarrow> \<not> t"
| "fp_less (Fin s r) (Fin t q) \<longleftrightarrow> fp_num s r < fp_num t q"
| "fp_less x y \<longleftrightarrow> False"

fun fp_eq :: "fp \<Rightarrow> fp \<Rightarrow> bool" where
  "fp_eq (Inf s) (Inf t) \<longleftrightarrow> s = t"
| "fp_eq (Fin s r) (Fin t q) \<longleftrightarrow> fp_num s r = fp_num t q"
| "fp_eq x y \<longleftrightarrow> False"

definition fp_of_int :: "int \<Rightarrow> fp" where
  "fp_of_int k = Fin (k < 0) (of_int \<bar>k\<bar>)"

text \<open>The conversion to an integer truncates; out of the range of the type it is undefined.\<close>

fun fp_trunc :: "fp \<Rightarrow> int option" where
  "fp_trunc (Fin s r) = Some (if s then - \<lfloor>r\<rfloor> else \<lfloor>r\<rfloor>)"
| "fp_trunc x = None"

section \<open>The types double and long double\<close>

type_synonym f64 = "64 word"

definition f64_decode :: "f64 \<Rightarrow> fp" where
  "f64_decode x = fp_decode 11 52 (uint x)"

definition f64_encode :: "fp \<Rightarrow> f64" where
  "f64_encode x = word_of_int (fp_encode 11 52 x)"

definition f64_neg :: "f64 \<Rightarrow> f64" where
  "f64_neg x = x XOR push_bit 63 1"

definition f64_add :: "f64 \<Rightarrow> f64 \<Rightarrow> f64" where
  "f64_add x y = f64_encode (fp_add (f64_decode x) (f64_decode y))"

definition f64_sub :: "f64 \<Rightarrow> f64 \<Rightarrow> f64" where
  "f64_sub x y = f64_encode (fp_add (f64_decode x) (fp_neg (f64_decode y)))"

definition f64_mul :: "f64 \<Rightarrow> f64 \<Rightarrow> f64" where
  "f64_mul x y = f64_encode (fp_mul (f64_decode x) (f64_decode y))"

definition f64_div :: "f64 \<Rightarrow> f64 \<Rightarrow> f64" where
  "f64_div x y = f64_encode (fp_div (f64_decode x) (f64_decode y))"

definition f64_less :: "f64 \<Rightarrow> f64 \<Rightarrow> bool" where
  "f64_less x y = fp_less (f64_decode x) (f64_decode y)"

definition f64_eq :: "f64 \<Rightarrow> f64 \<Rightarrow> bool" where
  "f64_eq x y = fp_eq (f64_decode x) (f64_decode y)"

definition f64_of_int :: "int \<Rightarrow> f64" where
  "f64_of_int k = f64_encode (fp_of_int k)"

definition f64_trunc :: "f64 \<Rightarrow> int option" where
  "f64_trunc x = fp_trunc (f64_decode x)"

text \<open>A decimal literal is the nearest \<open>double\<close>.\<close>

definition f64_lit :: "rat \<Rightarrow> f64" where
  "f64_lit q = f64_encode (Fin (q < 0) \<bar>q\<bar>)"

definition f64_of_f128 :: "128 word \<Rightarrow> f64" where
  "f64_of_f128 x = f64_encode (fp_decode 15 112 (uint x))"

section \<open>Square roots and the type float\<close>

text \<open>
  The integer square root, and the root of a rational to more bits than any format has, with a
  last bit that says whether it is exact: rounding it gives the correctly rounded root.
\<close>

function isqrt :: "int \<Rightarrow> int" where
  "isqrt n = (if n \<le> 0 then 0
     else let s = 2 * isqrt (n div 4) in if (s + 1) * (s + 1) \<le> n then s + 1 else s)"
  by pat_completeness auto
termination
  by (relation "measure nat") auto

declare isqrt.simps [simp del]

lemma isqrt_bounds: "0 \<le> n \<Longrightarrow> 0 \<le> isqrt n \<and> isqrt n * isqrt n \<le> n \<and> n < (isqrt n + 1) * (isqrt n + 1)"
proof (induction n rule: isqrt.induct)
  case (1 n)
  show ?case
  proof (cases "n \<le> 0")
    case True
    then show ?thesis using 1(2) by (simp add: isqrt.simps)
  next
    case False
    define r where "r = isqrt (n div 4)"
    have r: "0 \<le> r" "r * r \<le> n div 4" "n div 4 < (r + 1) * (r + 1)" using 1(1) [OF False] False by (simp_all add: r_def)
    have "4 * (r * r) \<le> n" "n < 4 * ((r + 1) * (r + 1))" using r(2,3) by linarith+
    then have "2 * r * (2 * r) \<le> n" "n < (2 * r + 2) * (2 * r + 2)" by (simp_all add: algebra_simps)
    then show ?thesis using False r(1) by (auto simp: isqrt.simps [of n] Let_def r_def [symmetric] algebra_simps)
  qed
qed

definition root_bits :: nat where
  "root_bits = 1200"

fun fp_sqrt :: "fp \<Rightarrow> fp" where
  "fp_sqrt NaN = NaN"
| "fp_sqrt (Inf s) = (if s then NaN else Inf False)"
| "fp_sqrt (Fin s r) =
     (if r = 0 then Fin s r
      else if s then NaN
      else let q = r * 4 ^ root_bits; i = isqrt \<lfloor>q\<rfloor> in
        Fin False ((2 * of_int i + (if of_int (i * i) = q then 0 else 1)) / 2 ^ (root_bits + 1)))"

fun fp_abs :: "fp \<Rightarrow> fp" where
  "fp_abs NaN = NaN"
| "fp_abs (Inf s) = Inf False"
| "fp_abs (Fin s r) = Fin False r"

definition f64_sqrt :: "f64 \<Rightarrow> f64" where
  "f64_sqrt x = f64_encode (fp_sqrt (f64_decode x))"

definition f64_abs :: "f64 \<Rightarrow> f64" where
  "f64_abs x = f64_encode (fp_abs (f64_decode x))"

definition f32_decode :: "f32 \<Rightarrow> fp" where
  "f32_decode x = fp_decode 8 23 (uint x)"

definition f32_encode :: "fp \<Rightarrow> f32" where
  "f32_encode x = word_of_int (fp_encode 8 23 x)"

definition f32_add :: "f32 \<Rightarrow> f32 \<Rightarrow> f32" where
  "f32_add x y = f32_encode (fp_add (f32_decode x) (f32_decode y))"

definition f32_sub :: "f32 \<Rightarrow> f32 \<Rightarrow> f32" where
  "f32_sub x y = f32_encode (fp_add (f32_decode x) (fp_neg (f32_decode y)))"

definition f32_mul :: "f32 \<Rightarrow> f32 \<Rightarrow> f32" where
  "f32_mul x y = f32_encode (fp_mul (f32_decode x) (f32_decode y))"

definition f32_div :: "f32 \<Rightarrow> f32 \<Rightarrow> f32" where
  "f32_div x y = f32_encode (fp_div (f32_decode x) (f32_decode y))"

definition f32_of_int :: "int \<Rightarrow> f32" where
  "f32_of_int k = f32_encode (fp_of_int k)"

text \<open>Promotion to \<open>double\<close> is exact; the conversion back rounds.\<close>

definition f64_of_f32 :: "f32 \<Rightarrow> f64" where
  "f64_of_f32 x = f64_encode (f32_decode x)"

definition f32_of_f64 :: "f64 \<Rightarrow> f32" where
  "f32_of_f64 x = f32_encode (f64_decode x)"

end
