(* ===== verification/PrintfFloat.thy ===== *)
theory PrintfFloat
  imports PrintfOut Ieee "HOL-Library.Signed_Division"
begin

text \<open>
  The floating-point printing of \<^verbatim>\<open>shim/printf/printf.c\<close>: the decimal components of a \<open>double\<close>, the
  decimal notation, and the exponential notation with its base-10 exponent estimate. A conversion
  to an integer that is out of range, and an access past the table of powers, are \<open>None\<close>.
\<close>

section \<open>Components\<close>

record fp_components =
  integral :: i64
  fractional :: i64
  is_negative :: bool

definition get_sign_bit :: "f64 \<Rightarrow> bool" where
  "get_sign_bit x = bit x 63"

definition get_exp2 :: "f64 \<Rightarrow> int" where
  "get_exp2 x = uint (drop_bit 52 x AND 0x7FF) - 1023"

definition SIGN :: "bool \<Rightarrow> f64 \<Rightarrow> f64" where
  "SIGN negative x = (if negative then f64_neg x else x)"

definition powers_of_10 :: "f64 list" where
  "powers_of_10 = map (\<lambda>k. f64_lit (10 ^ k)) [0..<18]"

definition to_i64 :: "f64 \<Rightarrow> i64 option" where
  "to_i64 x = do { k \<leftarrow> f64_trunc x; if - (2 ^ 63) \<le> k \<and> k < 2 ^ 63 then Some (word_of_int k) else None }"

definition to_i32 :: "f64 \<Rightarrow> int option" where
  "to_i32 x = do { k \<leftarrow> f64_trunc x; if - (2 ^ 31) \<le> k \<and> k < 2 ^ 31 then Some k else None }"

definition of_i64 :: "i64 \<Rightarrow> f64" where
  "of_i64 n = f64_of_int (sint n)"

definition f64_ge :: "f64 \<Rightarrow> f64 \<Rightarrow> bool" where
  "f64_ge x y \<longleftrightarrow> f64_less y x \<or> f64_eq x y"

abbreviation one_half :: f64 where "one_half \<equiv> f64_lit (1 / 2)"

definition get_components :: "f64 \<Rightarrow> u32 \<Rightarrow> fp_components option" where
  "get_components number precision = do {
     let negative = get_sign_bit number;
     let abs_number = SIGN negative number;
     i \<leftarrow> to_i64 abs_number;
     power \<leftarrow> rd powers_of_10 (unat precision);
     let scaled_remainder = f64_mul (f64_sub abs_number (of_i64 i)) power;
     f \<leftarrow> to_i64 scaled_remainder;
     let remainder = f64_sub scaled_remainder (of_i64 f);
     let f = (if f64_less one_half remainder \<or> (f64_eq remainder one_half \<and> bit f 0) then f + 1 else f);
     let (i, f) = (if f64_ge (of_i64 f) power then (i + 1, 0) else (i, f));
     let i = (if precision = 0 then
                let remainder = f64_sub abs_number (of_i64 i) in
                if f64_eq remainder one_half \<and> bit i 0 then i + 1 else i
              else i);
     Some \<lparr>integral = i, fractional = f, is_negative = negative\<rparr> }"

section \<open>Scaling\<close>

record scaling_factor =
  raw_factor :: f64
  multiply :: bool

definition apply_scaling :: "f64 \<Rightarrow> scaling_factor \<Rightarrow> f64" where
  "apply_scaling num n = (if multiply n then f64_mul num (raw_factor n) else f64_div num (raw_factor n))"

definition unapply_scaling :: "f64 \<Rightarrow> scaling_factor \<Rightarrow> f64" where
  "unapply_scaling normalized n =
     (if multiply n then f64_div normalized (raw_factor n) else f64_mul normalized (raw_factor n))"

definition update_normalization :: "scaling_factor \<Rightarrow> f64 \<Rightarrow> scaling_factor" where
  "update_normalization sf extra =
     (if multiply sf then \<lparr>raw_factor = f64_mul (raw_factor sf) extra, multiply = True\<rparr>
      else if \<bar>get_exp2 (raw_factor sf)\<bar> > \<bar>get_exp2 extra\<bar>
      then \<lparr>raw_factor = f64_div (raw_factor sf) extra, multiply = False\<rparr>
      else \<lparr>raw_factor = f64_div extra (raw_factor sf), multiply = True\<rparr>)"

definition get_normalized_components ::
  "bool \<Rightarrow> u32 \<Rightarrow> f64 \<Rightarrow> scaling_factor \<Rightarrow> int \<Rightarrow> fp_components option" where
  "get_normalized_components negative precision non_normalized normalization floored_exp10 = do {
     let scaled = apply_scaling non_normalized normalization;
     if - floored_exp10 + sint precision \<ge> 307 then get_components (SIGN negative scaled) precision
     else do {
       i \<leftarrow> to_i64 scaled;
       let remainder = f64_sub non_normalized (unapply_scaling (of_i64 i) normalization);
       prec_power_of_10 \<leftarrow> rd powers_of_10 (unat precision);
       let account_for_precision = update_normalization normalization prec_power_of_10;
       let scaled_remainder = apply_scaling remainder account_for_precision;
       f \<leftarrow> to_i64 scaled_remainder;
       let scaled_remainder = f64_sub scaled_remainder (of_i64 f);
       let f = f + (if f64_ge scaled_remainder one_half then 1 else 0);
       let f = (if f64_eq scaled_remainder one_half then f AND NOT 1 else f);
       let (i, f) = (if f64_ge (of_i64 f) prec_power_of_10 then (i + 1, 0) else (i, f));
       Some \<lparr>integral = i, fractional = f, is_negative = negative\<rparr> } }"

section \<open>Decimal notation\<close>

text \<open>C division and remainder of \<open>int64_t\<close> truncate.\<close>

definition i64_div :: "i64 \<Rightarrow> int \<Rightarrow> i64" where
  "i64_div n k = word_of_int (sint n sdiv k)"

definition i64_mod :: "i64 \<Rightarrow> int \<Rightarrow> int" where
  "i64_mod n k = sint n smod k"

text \<open>The loop \<open>while (true)\<close> that drops trailing zeros; it ends as soon as a digit is not zero.\<close>

partial_function (option) strip_zeros :: "u32 \<Rightarrow> i64 \<Rightarrow> (u32 \<times> i64) option" where
  "strip_zeros count n =
     (if i64_mod n 10 \<noteq> 0 then Some (count, n) else strip_zeros (count - 1) (i64_div n 10))"

declare strip_zeros.simps [code]

text \<open>The digits of the fraction, with the count of those still to come, and of the integral part.\<close>

function fraction_digits :: "u8 list \<Rightarrow> u32 \<Rightarrow> i64 \<Rightarrow> (u8 list \<times> u32) option" where
  "fraction_digits buf count n =
     (if length buf < PRINTF_INTEGER_BUFFER_SIZE then do {
        buf \<leftarrow> push buf (48 + word_of_int (i64_mod n 10));
        if i64_div n 10 = 0 then Some (buf, count - 1) else fraction_digits buf (count - 1) (i64_div n 10) }
      else Some (buf, count))"
  by pat_completeness auto
termination
  by (relation "measure (\<lambda>(b, c, n). PRINTF_INTEGER_BUFFER_SIZE - length b)") (auto simp: push_def)

function extra_zeros :: "u8 list \<Rightarrow> u32 \<Rightarrow> u8 list option" where
  "extra_zeros buf count =
     (if length buf < PRINTF_INTEGER_BUFFER_SIZE \<and> count > 0
      then do { buf \<leftarrow> push buf 48; extra_zeros buf (count - 1) } else Some buf)"
  by pat_completeness auto
termination
  by (relation "measure (\<lambda>(b, c). PRINTF_INTEGER_BUFFER_SIZE - length b)") (auto simp: push_def)

function integral_digits :: "u8 list \<Rightarrow> i64 \<Rightarrow> u8 list option" where
  "integral_digits buf n =
     (if length buf < PRINTF_INTEGER_BUFFER_SIZE then do {
        buf \<leftarrow> push buf (48 + word_of_int (i64_mod n 10));
        if i64_div n 10 = 0 then Some buf else integral_digits buf (i64_div n 10) }
      else Some buf)"
  by pat_completeness auto
termination
  by (relation "measure (\<lambda>(b, n). PRINTF_INTEGER_BUFFER_SIZE - length b)") (auto simp: push_def)

declare fraction_digits.simps [simp del] extra_zeros.simps [simp del] integral_digits.simps [simp del]

definition print_fraction :: "u8 list \<Rightarrow> i64 \<Rightarrow> u32 \<Rightarrow> printf_flags \<Rightarrow> u8 list option" where
  "print_fraction buf f precision flags =
     (if precision \<noteq> 0 then do {
        (count, f) \<leftarrow> (if has flags FLAGS_ADAPT_EXP \<and> \<not> has flags FLAGS_HASH \<and> sint f > 0
                      then strip_zeros precision f else Some (precision, f));
        if sint f > 0 \<or> \<not> has flags FLAGS_ADAPT_EXP \<or> has flags FLAGS_HASH then do {
          (buf, count) \<leftarrow> fraction_digits buf count f;
          buf \<leftarrow> extra_zeros buf count;
          push_if_room buf 46 }
        else Some buf }
      else if has flags FLAGS_HASH then push_if_room buf 46 else Some buf)"

definition print_broken_up_decimal ::
  "fp_components \<Rightarrow> gadget \<Rightarrow> u32 \<Rightarrow> u32 \<Rightarrow> printf_flags \<Rightarrow> u8 list \<Rightarrow> gadget option" where
  "print_broken_up_decimal number output precision width flags buf = do {
     buf \<leftarrow> print_fraction buf (fractional number) precision flags;
     buf \<leftarrow> integral_digits buf (integral number);
     let zeropad = \<not> has flags FLAGS_LEFT \<and> has flags FLAGS_ZEROPAD;
     let width = (if zeropad \<and> width \<noteq> 0 \<and> (is_negative number \<or> has flags FLAGS_PLUS \<or> has flags FLAGS_SPACE)
                  then width - 1 else width);
     buf \<leftarrow> (if zeropad then pad_zeros buf width else Some buf);
     buf \<leftarrow> print_sign buf (is_negative number) flags;
     out_rev output buf width flags }"

definition print_decimal_number ::
  "gadget \<Rightarrow> f64 \<Rightarrow> u32 \<Rightarrow> u32 \<Rightarrow> printf_flags \<Rightarrow> u8 list \<Rightarrow> gadget option" where
  "print_decimal_number output number precision width flags buf = do {
     value \<leftarrow> get_components number precision;
     print_broken_up_decimal value output precision width flags buf }"

section \<open>The base-10 exponent\<close>

definition bastardized_floor :: "f64 \<Rightarrow> int option" where
  "bastardized_floor x =
     (if f64_ge x 0 then to_i32 x
      else do { n \<leftarrow> to_i32 x; Some (if f64_eq (f64_of_int n) x then n else n - 1) })"

definition log10_of_positive :: "f64 \<Rightarrow> f64" where
  "log10_of_positive positive_number =
     (let exp2 = get_exp2 positive_number;
          m = (positive_number AND (push_bit 52 1 - 1)) OR push_bit 52 1023;
          z = f64_sub m (f64_lit (15 / 10)) in
      f64_add
        (f64_add
          (f64_sub
            (f64_add (f64_lit (1760912590556812420 / 10 ^ 19))
              (f64_mul z (f64_lit (2895296546021678851 / 10 ^ 19))))
            (f64_mul (f64_mul z z) (f64_lit (965098848673892950 / 10 ^ 19))))
          (f64_mul (f64_mul (f64_mul z z) z) (f64_lit (428932821632841311 / 10 ^ 19))))
        (f64_mul (f64_of_int exp2) (f64_lit (30102999566398119521 / 10 ^ 20))))"

definition pow10_of_int :: "int \<Rightarrow> f64 option" where
  "pow10_of_int floored_exp10 =
     (if floored_exp10 = - 308 then Some (f64_lit (1 / 10 ^ 308))
      else do {
        exp2 \<leftarrow> bastardized_floor (f64_add (f64_mul (f64_of_int floored_exp10) (f64_lit (3321928094887362 / 10 ^ 15)))
                                   (f64_lit (1 / 2)));
        let z = f64_sub (f64_mul (f64_of_int floored_exp10) (f64_lit (2302585092994046 / 10 ^ 15)))
                  (f64_mul (f64_of_int exp2) (f64_lit (6931471805599453 / 10 ^ 16)));
        let z2 = f64_mul z z;
        let base = push_bit 52 (word_of_int (exp2 + 1023));
        Some (f64_mul base
          (f64_add (f64_of_int 1)
            (f64_div (f64_mul (f64_of_int 2) z)
              (f64_add (f64_sub (f64_of_int 2) z)
                (f64_div z2 (f64_add (f64_of_int 6)
                  (f64_div z2 (f64_add (f64_of_int 10) (f64_div z2 (f64_of_int 14)))))))))) })"

section \<open>Exponential notation\<close>

text \<open>The exponent of the number and its normalisation; zero needs none.\<close>

definition decimal_exponent :: "f64 \<Rightarrow> (int \<times> scaling_factor) option" where
  "decimal_exponent abs_number =
     (if f64_eq abs_number 0 then Some (0, \<lparr>raw_factor = 0, multiply = False\<rparr>)
      else do {
        e \<leftarrow> bastardized_floor (log10_of_positive abs_number);
        p10 \<leftarrow> pow10_of_int e;
        let (e, p10) = (if f64_less abs_number p10 then (e - 1, f64_div p10 (f64_of_int 10)) else (e, p10));
        let covered = \<bar>e\<bar> < 17;
        factor \<leftarrow> (if covered then rd powers_of_10 (nat \<bar>e\<bar>) else Some p10);
        Some (e, \<lparr>raw_factor = factor, multiply = e < 0 \<and> covered\<rparr>) })"

text \<open>The way back to the decimal notation of \<open>%g\<close>: the components and the precision.\<close>

definition fall_back_components :: "bool \<Rightarrow> f64 \<Rightarrow> u32 \<Rightarrow> int \<Rightarrow> int \<Rightarrow> (fp_components \<times> u32) option" where
  "fall_back_components negative abs_number precision floored_exp10 original = do {
     let precision = (if sint precision > floored_exp10 then word_of_int (sint precision - floored_exp10) else 0);
     c \<leftarrow> get_components (SIGN negative abs_number) precision;
     if original \<ge> - 1 then do {
       p \<leftarrow> rd powers_of_10 (nat (original + 1));
       p \<leftarrow> to_i64 p;
       Some (c, if integral c = p \<and> precision > 0 then precision - 1 else precision) }
     else Some (c, precision) }"

definition print_exponential_number ::
  "gadget \<Rightarrow> f64 \<Rightarrow> u32 \<Rightarrow> u32 \<Rightarrow> printf_flags \<Rightarrow> u8 list \<Rightarrow> gadget option" where
  "print_exponential_number output number precision width flags buf = do {
     let negative = get_sign_bit number;
     let abs_number = SIGN negative number;
     (e, normalization) \<leftarrow> decimal_exponent abs_number;
     let adapt = has flags FLAGS_ADAPT_EXP;
     let precision = (if adapt then (if precision > 1 then precision - 1 else 0) else precision);
     let flags = (if adapt then set_flag FLAGS_PRECISION flags else flags);
     c \<leftarrow> (if e = 0 then get_components (SIGN negative abs_number) precision
          else get_normalized_components negative precision abs_number normalization e);
     let original = e;
     let (c, e) = (if sint (integral c) \<ge> 10 then (c\<lparr>integral := 1, fractional := 0\<rparr>, e + 1) else (c, e));
     let fall_back = adapt \<and> e \<ge> - 4 \<and> e < sint precision + 1;
     (c, precision) \<leftarrow> (if fall_back then fall_back_components negative abs_number precision e original
                       else Some (c, precision));
     let exp10_part_width = (if fall_back then 0 else if \<bar>e\<bar> < 100 then 4 else 5 :: u32);
     let decimal_part_width =
       (if has flags FLAGS_LEFT \<and> exp10_part_width \<noteq> 0 then 0
        else if width > exp10_part_width then width - exp10_part_width else 0);
     let start = out_pos output;
     output \<leftarrow> print_broken_up_decimal c output precision decimal_part_width flags buf;
     if fall_back then Some output
     else do {
       output \<leftarrow> putchar_via_gadget output (if has flags FLAGS_UPPERCASE then 69 else 101);
       output \<leftarrow> print_integer output (word_of_int \<bar>e\<bar>) (e < 0) 10 0 (exp10_part_width - 1)
                  (set_flag FLAGS_ZEROPAD (set_flag FLAGS_PLUS 0));
       if has flags FLAGS_LEFT then pad_to output start width else Some output } }"

section \<open>The dispatcher\<close>

abbreviation FP_TYPE_MAX :: f64 where "FP_TYPE_MAX \<equiv> 0x7FEFFFFFFFFFFFFF"
abbreviation PRINTF_FLOAT_NOTATION_THRESHOLD :: f64 where
  "PRINTF_FLOAT_NOTATION_THRESHOLD \<equiv> f64_lit (10 ^ 9)"

text \<open>Digits past the 17 supported are zeros, put in the buffer first.\<close>

function limit_precision :: "u8 list \<Rightarrow> u32 \<Rightarrow> (u8 list \<times> u32) option" where
  "limit_precision buf precision =
     (if length buf < PRINTF_INTEGER_BUFFER_SIZE \<and> precision > 17
      then do { buf \<leftarrow> push buf 48; limit_precision buf (precision - 1) } else Some (buf, precision))"
  by pat_completeness auto
termination
  by (relation "measure (\<lambda>(b, p). PRINTF_INTEGER_BUFFER_SIZE - length b)") (auto simp: push_def)

declare limit_precision.simps [simp del]

definition print_floating_point ::
  "gadget \<Rightarrow> f64 \<Rightarrow> u32 \<Rightarrow> u32 \<Rightarrow> printf_flags \<Rightarrow> bool \<Rightarrow> gadget option" where
  "print_floating_point output val precision width flags prefer_exponential =
     (if \<not> f64_eq val val then out_rev output (lit ''nan'') width flags
      else if f64_less val (f64_neg FP_TYPE_MAX) then out_rev output (lit ''fni-'') width flags
      else if f64_less FP_TYPE_MAX val
      then out_rev output (if has flags FLAGS_PLUS then lit ''fni+'' else lit ''fni'') width flags
      else if \<not> prefer_exponential \<and>
          (f64_less PRINTF_FLOAT_NOTATION_THRESHOLD val \<or> f64_less val (f64_neg PRINTF_FLOAT_NOTATION_THRESHOLD))
      then print_exponential_number output val precision width flags []
      else do {
        let precision = (if has flags FLAGS_PRECISION then precision else 6);
        (buf, precision) \<leftarrow> limit_precision [] precision;
        if prefer_exponential then print_exponential_number output val precision width flags buf
        else print_decimal_number output val precision width flags buf })"

section \<open>The buffer is never overrun\<close>

lemma push_room_le: "push buf c = Some buf' \<Longrightarrow> length buf' \<le> PRINTF_INTEGER_BUFFER_SIZE"
  by (auto simp: push_def split: if_splits)

lemma fraction_digits_room: "fraction_digits buf c n = Some (buf', c') \<Longrightarrow> length buf \<le> PRINTF_INTEGER_BUFFER_SIZE \<Longrightarrow>
   length buf' \<le> PRINTF_INTEGER_BUFFER_SIZE"
proof (induction buf c n rule: fraction_digits.induct)
  case (1 buf c n)
  from 1(2,3) show ?case unfolding fraction_digits.simps [of buf c n]
    by (auto dest: push_room_le intro: 1(1) split: bind_splits if_splits)
qed

lemma extra_zeros_room: "extra_zeros buf c = Some buf' \<Longrightarrow> length buf \<le> PRINTF_INTEGER_BUFFER_SIZE \<Longrightarrow>
   length buf' \<le> PRINTF_INTEGER_BUFFER_SIZE"
proof (induction buf c rule: extra_zeros.induct)
  case (1 buf c)
  from 1(2,3) show ?case unfolding extra_zeros.simps [of buf c]
    by (auto dest: push_room_le intro: 1(1) split: bind_splits if_splits)
qed

lemma integral_digits_room: "integral_digits buf n = Some buf' \<Longrightarrow> length buf \<le> PRINTF_INTEGER_BUFFER_SIZE \<Longrightarrow>
   length buf' \<le> PRINTF_INTEGER_BUFFER_SIZE"
proof (induction buf n rule: integral_digits.induct)
  case (1 buf n)
  from 1(2,3) show ?case unfolding integral_digits.simps [of buf n]
    by (auto dest: push_room_le intro: 1(1) split: bind_splits if_splits)
qed

lemma limit_precision_room: "limit_precision buf n = Some (buf', p) \<Longrightarrow> length buf \<le> PRINTF_INTEGER_BUFFER_SIZE \<Longrightarrow>
   length buf' \<le> PRINTF_INTEGER_BUFFER_SIZE"
proof (induction buf n rule: limit_precision.induct)
  case (1 buf n)
  from 1(2,3) show ?case unfolding limit_precision.simps [of buf n]
    by (auto dest: push_room_le intro: 1(1) split: bind_splits if_splits)
qed

end
