(* ===== verification/PrintfFormat.thy ===== *)
theory PrintfFormat
  imports PrintfFloat VecScanText
begin

text \<open>
  The format interpreter of \<^verbatim>\<open>shim/printf/printf.c\<close> and the functions of the printf family built on
  it. The format, the strings printed and the targets of \<open>%n\<close> are in the linear memory; the
  buffer written is the gadget's own. A variadic argument has the type it was passed with, and
  fetching it at another type is undefined.
\<close>

section \<open>Arguments\<close>

datatype va_arg =
  VInt u32 | VLong u32 | VLLong u64 | VDouble f64 | VLDouble "128 word" | VPtr u32

type_synonym va_list = "va_arg list"

fun va_int :: "va_list \<Rightarrow> (u32 \<times> va_list) option" where
  "va_int (VInt w # args) = Some (w, args)"
| "va_int args = None"

fun va_long :: "va_list \<Rightarrow> (u32 \<times> va_list) option" where
  "va_long (VLong w # args) = Some (w, args)"
| "va_long args = None"

fun va_llong :: "va_list \<Rightarrow> (u64 \<times> va_list) option" where
  "va_llong (VLLong w # args) = Some (w, args)"
| "va_llong args = None"

fun va_ptr :: "va_list \<Rightarrow> (u32 \<times> va_list) option" where
  "va_ptr (VPtr w # args) = Some (w, args)"
| "va_ptr args = None"

fun va_double :: "bool \<Rightarrow> va_list \<Rightarrow> (f64 \<times> va_list) option" where
  "va_double long_double (VDouble x # args) = (if long_double then None else Some (x, args))"
| "va_double long_double (VLDouble x # args) = (if long_double then Some (f64_of_f128 x, args) else None)"
| "va_double long_double args = None"

section \<open>Parsing a conversion specification\<close>

text \<open>\<open>ADVANCE_IN_FORMAT_STRING\<close> returns from the interpreter at the end of the format.\<close>

datatype 'a flow = Return | Go 'a

definition go :: "'a flow option \<Rightarrow> ('a \<Rightarrow> 'b flow option) \<Rightarrow> 'b flow option" where
  "go x f = do { r \<leftarrow> x; case r of Return \<Rightarrow> Some Return | Go a \<Rightarrow> f a }"

definition advance :: "mem \<Rightarrow> addr \<Rightarrow> addr flow option" where
  "advance m format = do { b \<leftarrow> ld8 m (format + 1); Some (if b = 0 then Return else Go (format + 1)) }"

function parse_flags_loop :: "mem \<Rightarrow> addr \<Rightarrow> printf_flags \<Rightarrow> (printf_flags \<times> addr) option" where
  "parse_flags_loop m format flags = do {
     b \<leftarrow> ld8 m format;
     if b = 48 then parse_flags_loop m (format + 1) (set_flag FLAGS_ZEROPAD flags)
     else if b = 45 then parse_flags_loop m (format + 1) (set_flag FLAGS_LEFT flags)
     else if b = 43 then parse_flags_loop m (format + 1) (set_flag FLAGS_PLUS flags)
     else if b = 32 then parse_flags_loop m (format + 1) (set_flag FLAGS_SPACE flags)
     else if b = 35 then parse_flags_loop m (format + 1) (set_flag FLAGS_HASH flags)
     else Some (flags, format) }"
  by pat_completeness auto
termination
  by (relation "measure (\<lambda>(m, s, i). length m - s)") (auto simp: mem_simps)

definition parse_flags :: "mem \<Rightarrow> addr \<Rightarrow> (printf_flags \<times> addr) option" where
  "parse_flags m format = parse_flags_loop m format 0"

definition parse_width ::
  "mem \<Rightarrow> addr \<Rightarrow> va_list \<Rightarrow> printf_flags \<Rightarrow> (addr \<times> va_list \<times> printf_flags \<times> u32) flow option" where
  "parse_width m format args flags = do {
     b \<leftarrow> ld8 m format;
     if is_digit_char b then do { (w, format) \<leftarrow> atou m format 0; Some (Go (format, args, flags, w)) }
     else if b = 42 then do {
       (w, args) \<leftarrow> va_int args;
       let (flags, width) = (if sint w < 0 then (set_flag FLAGS_LEFT flags, - w) else (flags, w));
       go (advance m format) (\<lambda>format. Some (Go (format, args, flags, width))) }
     else Some (Go (format, args, flags, 0)) }"

text \<open>The digits of a negative precision: \<open>do ADVANCE while digit\<close>.\<close>

function skip_precision :: "mem \<Rightarrow> addr \<Rightarrow> addr flow option" where
  "skip_precision m format = do {
     b \<leftarrow> ld8 m (format + 1);
     if b = 0 then Some Return
     else if is_digit_char b then skip_precision m (format + 1) else Some (Go (format + 1)) }"
  by pat_completeness auto
termination
  by (relation "measure (\<lambda>(m, s). length m - s)") (auto simp: mem_simps)

declare parse_flags_loop.simps [simp del] skip_precision.simps [simp del]

definition parse_precision ::
  "mem \<Rightarrow> addr \<Rightarrow> va_list \<Rightarrow> printf_flags \<Rightarrow> (addr \<times> va_list \<times> printf_flags \<times> u32) flow option" where
  "parse_precision m format args flags = do {
     b \<leftarrow> ld8 m format;
     if b = 46 then
       let flags = set_flag FLAGS_PRECISION flags in
       go (advance m format) (\<lambda>format. do {
         b \<leftarrow> ld8 m format;
         if b = 45 then
           go (skip_precision m format) (\<lambda>format. Some (Go (format, args, clear_flag FLAGS_PRECISION flags, 0)))
         else if is_digit_char b then do {
           (p, format) \<leftarrow> atou m format 0; Some (Go (format, args, flags, p)) }
         else if b = 42 then do {
           (p, args) \<leftarrow> va_int args;
           let (flags, precision) = (if sint p < 0 then (clear_flag FLAGS_PRECISION flags, 0) else (flags, p));
           go (advance m format) (\<lambda>format. Some (Go (format, args, flags, precision))) }
         else Some (Go (format, args, flags, 0)) })
     else Some (Go (format, args, flags, 0)) }"

text \<open>
  On WebAssembly \<open>ptrdiff_t\<close> and \<open>size_t\<close> have the size of \<open>int\<close>, and \<open>intmax_t\<close> that of \<open>long long\<close>.
\<close>

definition parse_length :: "mem \<Rightarrow> addr \<Rightarrow> printf_flags \<Rightarrow> (addr \<times> printf_flags) flow option" where
  "parse_length m format flags = do {
     b \<leftarrow> ld8 m format;
     if b = 108 then
       go (advance m format) (\<lambda>format. do {
         b \<leftarrow> ld8 m format;
         if b = 108 then go (advance m format) (\<lambda>format. Some (Go (format, set_flag FLAGS_LONG_LONG (set_flag FLAGS_LONG flags))))
         else Some (Go (format, set_flag FLAGS_LONG flags)) })
     else if b = 76 then go (advance m format) (\<lambda>format. Some (Go (format, set_flag FLAGS_LONG_DOUBLE flags)))
     else if b = 104 then
       go (advance m format) (\<lambda>format. do {
         b \<leftarrow> ld8 m format;
         if b = 104 then go (advance m format) (\<lambda>format. Some (Go (format, set_flag FLAGS_CHAR (set_flag FLAGS_SHORT flags))))
         else Some (Go (format, set_flag FLAGS_SHORT flags)) })
     else if b = 116 then go (advance m format) (\<lambda>format. Some (Go (format, set_flag FLAGS_INT flags)))
     else if b = 106 then go (advance m format) (\<lambda>format. Some (Go (format, set_flag FLAGS_LONG_LONG flags)))
     else if b = 122 then go (advance m format) (\<lambda>format. Some (Go (format, set_flag FLAGS_INT flags)))
     else Some (Go (format, flags)) }"

section \<open>Conversions\<close>

definition ABS_FOR_PRINTING :: "i64 \<Rightarrow> u64" where
  "ABS_FOR_PRINTING x = (if sint x \<ge> 0 then x else - x)"

definition signed_arg :: "printf_flags \<Rightarrow> va_list \<Rightarrow> (i64 \<times> va_list) option" where
  "signed_arg flags args =
     (if has flags FLAGS_LONG_LONG then va_llong args
      else if has flags FLAGS_LONG then do { (w, args) \<leftarrow> va_long args; Some (scast w, args) }
      else do {
        (w, args) \<leftarrow> va_int args;
        Some (if has flags FLAGS_CHAR then scast (ucast w :: 8 word)
              else if has flags FLAGS_SHORT then scast (ucast w :: 16 word)
              else scast w, args) })"

definition unsigned_arg :: "printf_flags \<Rightarrow> va_list \<Rightarrow> (u64 \<times> va_list) option" where
  "unsigned_arg flags args =
     (if has flags FLAGS_LONG_LONG then va_llong args
      else if has flags FLAGS_LONG then do { (w, args) \<leftarrow> va_long args; Some (ucast w, args) }
      else do {
        (w, args) \<leftarrow> va_int args;
        Some (if has flags FLAGS_CHAR then ucast (ucast w :: 8 word)
              else if has flags FLAGS_SHORT then ucast (ucast w :: 16 word)
              else ucast w, args) })"

definition print_int_spec ::
  "gadget \<Rightarrow> u8 \<Rightarrow> va_list \<Rightarrow> printf_flags \<Rightarrow> u32 \<Rightarrow> u32 \<Rightarrow> (gadget \<times> va_list) option" where
  "print_int_spec output c args flags width precision = do {
     let flags = (if c = 100 \<or> c = 105 then set_flag FLAGS_SIGNED flags else flags);
     let base = (if c = 120 \<or> c = 88 then 16 else if c = 111 then 8 else if c = 98 then 2 else 10 :: nat);
     let flags = (if base = 10 then clear_flag FLAGS_HASH flags else flags);
     let flags = (if c = 88 then set_flag FLAGS_UPPERCASE flags else flags);
     let flags = (if has flags FLAGS_PRECISION then clear_flag FLAGS_ZEROPAD flags else flags);
     if has flags FLAGS_SIGNED then do {
       (x, args) \<leftarrow> signed_arg flags args;
       output \<leftarrow> print_integer output (ABS_FOR_PRINTING x) (sint x < 0) base precision width flags;
       Some (output, args) }
     else do {
       let flags = clear_flag FLAGS_PLUS (clear_flag FLAGS_SPACE flags);
       (x, args) \<leftarrow> unsigned_arg flags args;
       output \<leftarrow> print_integer output x False base precision width flags;
       Some (output, args) } }"

definition print_float_spec ::
  "gadget \<Rightarrow> u8 \<Rightarrow> va_list \<Rightarrow> printf_flags \<Rightarrow> u32 \<Rightarrow> u32 \<Rightarrow> (gadget \<times> va_list) option" where
  "print_float_spec output c args flags width precision = do {
     (x, args) \<leftarrow> va_double (has flags FLAGS_LONG_DOUBLE) args;
     let flags = (if c = 103 \<or> c = 71 then set_flag FLAGS_ADAPT_EXP flags else flags);
     let flags = (if c = 70 \<or> c = 69 \<or> c = 71 then set_flag FLAGS_UPPERCASE flags else flags);
     output \<leftarrow> print_floating_point output x precision width flags (c \<noteq> 102 \<and> c \<noteq> 70);
     Some (output, args) }"

definition print_char_spec ::
  "gadget \<Rightarrow> va_list \<Rightarrow> printf_flags \<Rightarrow> u32 \<Rightarrow> (gadget \<times> va_list) option" where
  "print_char_spec output args flags width = do {
     output \<leftarrow> (if \<not> has flags FLAGS_LEFT then pad_from output 1 width else Some output);
     (w, args) \<leftarrow> va_int args;
     output \<leftarrow> putchar_via_gadget output (ucast w);
     output \<leftarrow> (if has flags FLAGS_LEFT then pad_from output 1 width else Some output);
     Some (output, args) }"

text \<open>\<open>while (*p != 0 && (!(flags & FLAGS_PRECISION) || precision)) putchar(*p++), --precision\<close>\<close>

function put_string :: "mem \<Rightarrow> gadget \<Rightarrow> addr \<Rightarrow> bool \<Rightarrow> u32 \<Rightarrow> gadget option" where
  "put_string m output p limited precision = do {
     b \<leftarrow> ld8 m p;
     if b \<noteq> 0 \<and> (\<not> limited \<or> precision \<noteq> 0)
     then do { output \<leftarrow> putchar_via_gadget output b; put_string m output (p + 1) limited (precision - 1) }
     else Some output }"
  by pat_completeness auto
termination
  by (relation "measure (\<lambda>(m, g, s, l, p). length m - s)") (auto simp: mem_simps)

declare put_string.simps [simp del]

definition print_string_spec ::
  "mem \<Rightarrow> gadget \<Rightarrow> va_list \<Rightarrow> printf_flags \<Rightarrow> u32 \<Rightarrow> u32 \<Rightarrow> (gadget \<times> va_list) option" where
  "print_string_spec m output args flags width precision = do {
     (w, args) \<leftarrow> va_ptr args;
     let p = unat w;
     if w = 0 then do { output \<leftarrow> out_rev output (lit '')llun('') width flags; Some (output, args) }
     else do {
       l \<leftarrow> strnlen_s m p (if precision \<noteq> 0 then precision else PRINTF_MAX_POSSIBLE_BUFFER_SIZE);
       let l = (if has flags FLAGS_PRECISION then (if l < precision then l else precision) else l);
       output \<leftarrow> (if \<not> has flags FLAGS_LEFT then pad_from output l width else Some output);
       output \<leftarrow> put_string m output p (has flags FLAGS_PRECISION) precision;
       output \<leftarrow> (if has flags FLAGS_LEFT then pad_from output l width else Some output);
       Some (output, args) } }"

definition print_pointer_spec ::
  "gadget \<Rightarrow> va_list \<Rightarrow> printf_flags \<Rightarrow> u32 \<Rightarrow> u32 \<Rightarrow> (gadget \<times> va_list) option" where
  "print_pointer_spec output args flags width precision = do {
     (w, args) \<leftarrow> va_ptr args;
     output \<leftarrow> (if w = 0 then out_rev output (lit '')lin('') width flags
       else print_integer output (ucast w) False 16 precision ((if width > 0 then width else 8) + 2)
              (set_flag FLAGS_ZEROPAD (set_flag FLAGS_POINTER flags)));
     Some (output, args) }"

text \<open>The stores of \<open>%n\<close>, little-endian.\<close>

definition write_back :: "mem \<Rightarrow> va_list \<Rightarrow> printf_flags \<Rightarrow> u32 \<Rightarrow> (mem \<times> va_list) option" where
  "write_back m args flags pos = do {
     (w, args) \<leftarrow> va_ptr args;
     let p = unat w;
     m \<leftarrow> (if has flags FLAGS_CHAR then st8 m p (byte_of_word pos 0)
       else if has flags FLAGS_SHORT then do { m \<leftarrow> st8 m p (byte_of_word pos 0); st8 m (p + 1) (byte_of_word pos 1) }
       else if has flags FLAGS_LONG then st32 m p pos
       else if has flags FLAGS_LONG_LONG then do { m \<leftarrow> st32 m p pos; st32 m (p + 4) 0 }
       else st32 m p pos);
     Some (m, args) }"

section \<open>The interpreter\<close>

text \<open>One conversion specification, from the percent sign: the memory, the gadget, the position after it.\<close>

definition conversion ::
  "mem \<Rightarrow> gadget \<Rightarrow> addr \<Rightarrow> va_list \<Rightarrow> printf_flags \<Rightarrow> u32 \<Rightarrow> u32 \<Rightarrow> (mem \<times> gadget \<times> addr \<times> va_list) option" where
  "conversion m output format args flags width precision = do {
     c \<leftarrow> ld8 m format;
     if c \<in> {100, 105, 117, 120, 88, 111, 98} then do {
       (output, args) \<leftarrow> print_int_spec output c args flags width precision; Some (m, output, format + 1, args) }
     else if c \<in> {102, 70, 101, 69, 103, 71} then do {
       (output, args) \<leftarrow> print_float_spec output c args flags width precision; Some (m, output, format + 1, args) }
     else if c = 99 then do {
       (output, args) \<leftarrow> print_char_spec output args flags width; Some (m, output, format + 1, args) }
     else if c = 115 then do {
       (output, args) \<leftarrow> print_string_spec m output args flags width precision; Some (m, output, format + 1, args) }
     else if c = 112 then do {
       (output, args) \<leftarrow> print_pointer_spec output args flags width precision; Some (m, output, format + 1, args) }
     else if c = 37 then do { output \<leftarrow> putchar_via_gadget output 37; Some (m, output, format + 1, args) }
     else if c = 110 then do {
       (m, args) \<leftarrow> write_back m args flags (out_pos output); Some (m, output, format + 1, args) }
     else do { output \<leftarrow> putchar_via_gadget output c; Some (m, output, format + 1, args) } }"

definition directive :: "mem \<Rightarrow> gadget \<Rightarrow> addr \<Rightarrow> va_list \<Rightarrow> (mem \<times> gadget \<times> addr \<times> va_list) flow option" where
  "directive m output format args =
     go (advance m format) (\<lambda>format. do {
       (flags, format) \<leftarrow> parse_flags m format;
       go (parse_width m format args flags) (\<lambda>(format, args, flags, width).
         go (parse_precision m format args flags) (\<lambda>(format, args, flags, precision).
           go (parse_length m format flags) (\<lambda>(format, flags). do {
             r \<leftarrow> conversion m output format args flags width precision;
             Some (Go r) }))) })"

subsection \<open>A directive moves forward\<close>

lemma go_Some: "go x f = Some r \<longleftrightarrow> (x = Some Return \<and> r = Return) \<or> (\<exists>a. x = Some (Go a) \<and> f a = Some r)"
  by (auto simp: go_def split: bind_splits flow.splits)

lemma go_Go: "go x f = Some (Go r) \<longleftrightarrow> (\<exists>a. x = Some (Go a) \<and> f a = Some (Go r))"
  by (simp add: go_Some)

lemma advance_Go [simp]: "advance m s = Some (Go t) \<longleftrightarrow> t = s + 1 \<and> t < length m \<and> m ! t \<noteq> 0"
  by (auto simp: advance_def mem_simps split: bind_splits if_splits)

lemma parse_flags_loop_forward: "parse_flags_loop m s f = Some (f', t) \<Longrightarrow> s \<le> t"
proof (induction m s f arbitrary: f' t rule: parse_flags_loop.induct)
  case (1 m s f)
  from 1(6) show ?case
    unfolding parse_flags_loop.simps [of m s f]
    by (auto split: bind_splits if_splits) (use 1(1-5) in \<open>fastforce dest: Suc_leD\<close>)+
qed

lemma atou_forward: "atou m s i = Some (n, t) \<Longrightarrow> s \<le> t"
proof (induction m s i rule: atou.induct)
  case (1 m s i)
  from 1(2) show ?case
    unfolding atou.simps [of m s i] by (auto split: bind_splits if_splits) (use 1(1) in \<open>fastforce dest: Suc_leD\<close>)
qed

lemma skip_precision_forward: "skip_precision m s = Some (Go t) \<Longrightarrow> s \<le> t"
proof (induction m s rule: skip_precision.induct)
  case (1 m s)
  from 1(2) show ?case
    unfolding skip_precision.simps [of m s] by (auto split: bind_splits if_splits) (use 1(1) in \<open>fastforce dest: Suc_leD\<close>)
qed

lemma parse_width_forward: "parse_width m s args f = Some (Go (t, args', f', w)) \<Longrightarrow> s \<le> t"
  by (auto simp: parse_width_def go_Go Let_def dest: atou_forward split: bind_splits if_splits)

lemma parse_precision_forward: "parse_precision m s args f = Some (Go (t, args', f', p)) \<Longrightarrow> s \<le> t"
  by (auto simp: parse_precision_def go_Go Let_def dest!: atou_forward skip_precision_forward
      split: bind_splits if_splits)

lemma parse_length_forward: "parse_length m s f = Some (Go (t, f')) \<Longrightarrow> s \<le> t"
  by (auto simp: parse_length_def go_Go split: bind_splits if_splits)

lemma write_back_length: "write_back m args f p = Some (m', args') \<Longrightarrow> length m' = length m"
  by (auto simp: write_back_def Let_def dest!: st8_length st32_length split: bind_splits if_splits)

lemma if_elim: "(if b then x else y) = z \<Longrightarrow> (b \<Longrightarrow> x = z \<Longrightarrow> R) \<Longrightarrow> (\<not> b \<Longrightarrow> y = z \<Longrightarrow> R) \<Longrightarrow> R"
  by (cases b) simp_all

lemma conversion_forward:
  assumes "conversion m g s args f w p = Some (m', g', t, args')"
  shows "t = s + 1 \<and> length m' = length m"
proof -
  obtain c where c: "ld8 m s = Some c" using assms by (cases "ld8 m s") (simp_all add: conversion_def)
  have out: "t = s + 1 \<and> length m' = length m"
    if "do { (g, a) \<leftarrow> x; Some (m, g, s + 1, a) } = Some (m', g', t, args')" for x
    using that by (auto split: bind_splits)
  have put: "t = s + 1 \<and> length m' = length m"
    if "do { g \<leftarrow> x; Some (m, g, s + 1, args) } = Some (m', g', t, args')" for x
    using that by (auto split: bind_splits)
  have wb: "t = s + 1 \<and> length m' = length m"
    if "do { (m, a) \<leftarrow> write_back m args f (out_pos g); Some (m, g, s + 1, a) } = Some (m', g', t, args')"
    using that by (auto dest: write_back_length split: bind_splits)
  show ?thesis using assms unfolding conversion_def c bind.bind_lunit
    by (elim if_elim) (erule out put wb)+
qed

lemma directive_forward:
  assumes "directive m g s args = Some (Go (m', g', t, args'))"
  shows "s < t \<and> length m' = length m"
proof -
  obtain f s1 where 1: "parse_flags m (s + 1) = Some (f, s1)"
    and r: "go (parse_width m s1 args f) (\<lambda>(format, args, flags, width).
         go (parse_precision m format args flags) (\<lambda>(format, args, flags, precision).
           go (parse_length m format flags) (\<lambda>(format, flags). do {
             r \<leftarrow> conversion m g format args flags width precision; Some (Go r) }))) = Some (Go (m', g', t, args'))"
    using assms unfolding directive_def by (auto simp: go_Go split: bind_splits)
  from r obtain s2 a2 f2 w where 2: "parse_width m s1 args f = Some (Go (s2, a2, f2, w))"
    and r: "go (parse_precision m s2 a2 f2) (\<lambda>(format, args, flags, precision).
           go (parse_length m format flags) (\<lambda>(format, flags). do {
             r \<leftarrow> conversion m g format args flags w precision; Some (Go r) })) = Some (Go (m', g', t, args'))"
    by (auto simp: go_Go)
  from r obtain s3 a3 f3 p where 3: "parse_precision m s2 a2 f2 = Some (Go (s3, a3, f3, p))"
    and r: "go (parse_length m s3 f3) (\<lambda>(format, flags). do {
             r \<leftarrow> conversion m g format a3 flags w p; Some (Go r) }) = Some (Go (m', g', t, args'))"
    by (auto simp: go_Go)
  from r obtain s4 f4 where 4: "parse_length m s3 f3 = Some (Go (s4, f4))"
    and 5: "conversion m g s4 a3 f4 w p = Some (m', g', t, args')"
    by (auto simp: go_Go split: bind_splits)
  have "s + 1 \<le> s1" using 1 parse_flags_loop_forward unfolding parse_flags_def by blast
  then show ?thesis using parse_width_forward [OF 2] parse_precision_forward [OF 3] parse_length_forward [OF 4]
      conversion_forward [OF 5] by simp
qed

function format_string_loop :: "mem \<Rightarrow> gadget \<Rightarrow> addr \<Rightarrow> va_list \<Rightarrow> (mem \<times> gadget) option" where
  "format_string_loop m output format args = do {
     b \<leftarrow> ld8 m format;
     if b = 0 then Some (m, output)
     else if b \<noteq> 37 then do { output \<leftarrow> putchar_via_gadget output b; format_string_loop m output (format + 1) args }
     else do {
       r \<leftarrow> directive m output format args;
       case r of Return \<Rightarrow> Some (m, output)
       | Go (m, output, format, args) \<Rightarrow> format_string_loop m output format args } }"
  by pat_completeness auto
termination
  by (relation "measure (\<lambda>(m, g, s, a). length m - s)") (auto simp: mem_simps dest!: directive_forward)

declare format_string_loop.simps [simp del]

text \<open>\<open>vsnprintf_impl\<close> and the family: the number of characters is the \<open>int\<close> with the bits of \<open>pos\<close>.\<close>

definition vsnprintf_impl :: "mem \<Rightarrow> gadget \<Rightarrow> addr \<Rightarrow> va_list \<Rightarrow> (mem \<times> gadget \<times> int) option" where
  "vsnprintf_impl m output format args = do {
     (m, output) \<leftarrow> format_string_loop m output format args;
     output \<leftarrow> append_termination_via_gadget output;
     Some (m, output, sint (out_pos output)) }"

definition vprintf :: "mem \<Rightarrow> addr \<Rightarrow> va_list \<Rightarrow> (mem \<times> gadget \<times> int) option" where
  "vprintf m format arg = vsnprintf_impl m function_gadget format arg"

definition vsnprintf :: "mem \<Rightarrow> u8 list option \<Rightarrow> u32 \<Rightarrow> addr \<Rightarrow> va_list \<Rightarrow> (mem \<times> gadget \<times> int) option" where
  "vsnprintf m s n format arg = vsnprintf_impl m (buffer_gadget s n) format arg"

definition vsprintf :: "mem \<Rightarrow> u8 list option \<Rightarrow> addr \<Rightarrow> va_list \<Rightarrow> (mem \<times> gadget \<times> int) option" where
  "vsprintf m s format arg = vsnprintf m s PRINTF_MAX_POSSIBLE_BUFFER_SIZE format arg"

definition vfctprintf :: "mem \<Rightarrow> bool \<Rightarrow> addr \<Rightarrow> va_list \<Rightarrow> (mem \<times> gadget \<times> int) option" where
  "vfctprintf m out_given format arg =
     (if \<not> out_given then Some (m, discarding_gadget, 0) else vsnprintf_impl m function_gadget format arg)"

definition printf :: "mem \<Rightarrow> addr \<Rightarrow> va_list \<Rightarrow> (mem \<times> gadget \<times> int) option" where
  "printf m format args = vprintf m format args"

definition sprintf :: "mem \<Rightarrow> u8 list option \<Rightarrow> addr \<Rightarrow> va_list \<Rightarrow> (mem \<times> gadget \<times> int) option" where
  "sprintf m s format args = vsprintf m s format args"

definition snprintf :: "mem \<Rightarrow> u8 list option \<Rightarrow> u32 \<Rightarrow> addr \<Rightarrow> va_list \<Rightarrow> (mem \<times> gadget \<times> int) option" where
  "snprintf m s n format args = vsnprintf m s n format args"

definition fctprintf :: "mem \<Rightarrow> bool \<Rightarrow> addr \<Rightarrow> va_list \<Rightarrow> (mem \<times> gadget \<times> int) option" where
  "fctprintf m out_given format args = vfctprintf m out_given format args"

section \<open>The text does not depend on where it goes\<close>

text \<open>
  A writer sends a text that does not depend on the gadget, or is undefined for every gadget. The
  interpreter depends on the gadget through its position only, which \<open>%n\<close> stores.
\<close>

definition writes :: "(gadget \<Rightarrow> gadget option) \<Rightarrow> bool" where
  "writes F \<longleftrightarrow> (\<exists>X. \<forall>g. F g = do { T \<leftarrow> X; puts g T })"

named_theorems writes_intros

lemma writes_puts [writes_intros]: "writes (\<lambda>g. puts g T)"
  unfolding writes_def by (rule exI [of _ "Some T"]) simp

lemma writes_Some [writes_intros]: "writes Some"
  unfolding writes_def by (rule exI [of _ "Some []"]) simp

lemma writes_None [writes_intros]: "writes (\<lambda>g. None)"
  unfolding writes_def by (rule exI [of _ None]) simp

lemma writes_putchar [writes_intros]: "writes (\<lambda>g. putchar_via_gadget g c)"
  unfolding writes_def by (rule exI [of _ "Some [c]"]) simp

lemma writes_if [writes_intros]: "(b \<Longrightarrow> writes F) \<Longrightarrow> (\<not> b \<Longrightarrow> writes G) \<Longrightarrow> writes (\<lambda>g. if b then F g else G g)"
  by (cases b) simp_all

lemma writes_value: "(\<And>a. x = Some a \<Longrightarrow> writes (F a)) \<Longrightarrow> writes (\<lambda>g. do { a \<leftarrow> x; F a g })"
  by (cases x) (simp_all add: writes_None)

lemma writes_bind [writes_intros]:
  assumes "writes F" "writes G"
  shows "writes (\<lambda>g. do { g \<leftarrow> F g; G g })"
proof -
  from assms obtain X Y where X: "F = (\<lambda>g. do { T \<leftarrow> X; puts g T })" and Y: "G = (\<lambda>g. do { T \<leftarrow> Y; puts g T })"
    unfolding writes_def by (auto simp: fun_eq_iff)
  show ?thesis
  proof (cases X; cases Y)
    fix T U assume "X = Some T" "Y = Some U"
    then show ?thesis unfolding writes_def by (intro exI [of _ "Some (T @ U)"]) (simp add: X Y puts_append)
  qed (auto simp: writes_def X Y intro!: exI [of _ None] split: bind_splits)
qed

lemma writes_pad_from [writes_intros]: "writes (\<lambda>g. pad_from g i width)"
  unfolding pad_from_puts by (rule writes_puts)

lemma writes_out_rev [writes_intros]: "length buf < 2 ^ 32 \<Longrightarrow> writes (\<lambda>g. out_rev g buf width flags)"
  by (simp add: out_rev_puts writes_puts)

lemma writes_print_integer [writes_intros]:
  "2 \<le> base \<Longrightarrow> writes (\<lambda>g. print_integer g x negative base precision width flags)"
  unfolding writes_def using print_integer_puts [of base x negative precision width flags]
  by (metis bind.bind_lunit)

text \<open>Padding up to a width counted from where the writer began.\<close>

lemma writes_pad_to:
  assumes "writes F"
  shows "writes (\<lambda>g. do { g' \<leftarrow> F g; pad_to g' (out_pos g) width })"
proof -
  from assms obtain X where X: "F g = do { T \<leftarrow> X; puts g T }" for g unfolding writes_def by blast
  show ?thesis
  proof (cases X)
    case None
    then show ?thesis by (simp add: X writes_None)
  next
    case (Some T)
    let ?U = "T @ replicate (unat width - unat (word_of_nat (length T) :: u32)) 32"
    have "do { g' \<leftarrow> F g; pad_to g' (out_pos g) width } = puts g ?U" for g
      by (cases "puts g T") (auto simp: X Some pad_to_puts puts_append dest: puts_pos)
    then show ?thesis by (simp add: writes_puts)
  qed
qed

lemma print_fraction_room:
  assumes "print_fraction buf f precision flags = Some buf'" "length buf \<le> PRINTF_INTEGER_BUFFER_SIZE"
  shows "length buf' \<le> PRINTF_INTEGER_BUFFER_SIZE"
  using assms by (auto simp: print_fraction_def push_if_room_def
      dest!: fraction_digits_room extra_zeros_room push_room_le split: bind_splits if_splits)

lemma small_buffer: "length buf \<le> PRINTF_INTEGER_BUFFER_SIZE \<Longrightarrow> length buf < 2 ^ 32"
  by (simp add: PRINTF_INTEGER_BUFFER_SIZE_def)

lemma writes_print_broken_up_decimal [writes_intros]:
  assumes "length buf \<le> PRINTF_INTEGER_BUFFER_SIZE"
  shows "writes (\<lambda>g. print_broken_up_decimal c g precision width flags buf)"
proof -
  have "length b4 \<le> PRINTF_INTEGER_BUFFER_SIZE"
    if "print_fraction buf (fractional c) precision flags = Some b1" "integral_digits b1 (integral c) = Some b2"
      "(if z then pad_zeros b2 w else Some b2) = Some b3" "print_sign b3 n flags = Some b4" for b1 b2 b3 b4 n w z
  proof -
    have b2: "length b2 \<le> PRINTF_INTEGER_BUFFER_SIZE"
      using integral_digits_room [OF that(2)] print_fraction_room [OF that(1) assms] by blast
    then have "length b3 \<le> PRINTF_INTEGER_BUFFER_SIZE" using that(3) pad_zeros_room [OF b2, of w] by (auto split: if_splits)
    then show ?thesis using that(4) print_sign_room [of b3 n flags] by auto
  qed
  then show ?thesis unfolding print_broken_up_decimal_def Let_def
    by (intro writes_value writes_out_rev small_buffer) blast
qed

lemma writes_print_decimal_number [writes_intros]:
  "length buf \<le> PRINTF_INTEGER_BUFFER_SIZE \<Longrightarrow> writes (\<lambda>g. print_decimal_number g x precision width flags buf)"
  unfolding print_decimal_number_def by (intro writes_value writes_intros)

lemma writes_exponent:
  assumes F: "writes F"
  shows "writes (\<lambda>g. do { g' \<leftarrow> F g; if fall_back then Some g' else do {
      g' \<leftarrow> putchar_via_gadget g' c; g' \<leftarrow> print_integer g' x negative 10 0 w f;
      if left then pad_to g' (out_pos g) width else Some g' } })"
proof (cases "fall_back \<or> \<not> left")
  case True
  have "writes (\<lambda>g. do { g' \<leftarrow> F g; g' \<leftarrow> putchar_via_gadget g' c; print_integer g' x negative 10 0 w f })"
    by (intro writes_intros F) simp
  moreover have "writes (\<lambda>g. do { g' \<leftarrow> F g; Some g' })" by (intro writes_intros F)
  ultimately show ?thesis using True by (cases fall_back) simp_all
next
  case False
  let ?F = "\<lambda>g. do { g' \<leftarrow> F g; g' \<leftarrow> putchar_via_gadget g' c; print_integer g' x negative 10 0 w f }"
  have "writes ?F" by (intro writes_intros F) simp
  then have "writes (\<lambda>g. do { g' \<leftarrow> ?F g; pad_to g' (out_pos g) width })" by (rule writes_pad_to)
  then show ?thesis using False by (simp add: bind_assoc)
qed

lemma writes_print_exponential_number [writes_intros]:
  assumes "length buf \<le> PRINTF_INTEGER_BUFFER_SIZE"
  shows "writes (\<lambda>g. print_exponential_number g x precision width flags buf)"
  unfolding print_exponential_number_def Let_def split_def
  by (intro writes_value writes_exponent writes_print_broken_up_decimal assms)

lemma writes_print_floating_point [writes_intros]:
  "writes (\<lambda>g. print_floating_point g x precision width flags e)"
  unfolding print_floating_point_def Let_def split_def
  by (intro writes_if writes_value writes_out_rev writes_print_exponential_number writes_print_decimal_number)
    (auto dest: limit_precision_room)

text \<open>A writer that also hands on the rest of the arguments.\<close>

definition writes_on :: "(gadget \<Rightarrow> (gadget \<times> 'a) option) \<Rightarrow> bool" where
  "writes_on F \<longleftrightarrow> (\<exists>X. \<forall>g. F g = do { (T, a) \<leftarrow> X; g' \<leftarrow> puts g T; Some (g', a) })"

lemma writes_on_done [writes_intros]:
  assumes "writes F"
  shows "writes_on (\<lambda>g. do { g' \<leftarrow> F g; Some (g', a) })"
proof -
  from assms obtain X where "F = (\<lambda>g. do { T \<leftarrow> X; puts g T })" unfolding writes_def by (auto simp: fun_eq_iff)
  then show ?thesis unfolding writes_on_def
    by (cases X) (auto intro: exI [of _ None] exI [of _ "Some (T, a)" for T])
qed

lemma writes_on_if [writes_intros]:
  "(b \<Longrightarrow> writes_on F) \<Longrightarrow> (\<not> b \<Longrightarrow> writes_on G) \<Longrightarrow> writes_on (\<lambda>g. if b then F g else G g)"
  by (cases b) simp_all

lemma writes_on_value: "(\<And>a. x = Some a \<Longrightarrow> writes_on (F a)) \<Longrightarrow> writes_on (\<lambda>g. do { a \<leftarrow> x; F a g })"
  by (cases x) (auto simp: writes_on_def intro: exI [of _ None])

lemma writes_on_bind:
  assumes "writes F" "writes_on G"
  shows "writes_on (\<lambda>g. do { g' \<leftarrow> F g; G g' })"
proof -
  from assms(1) obtain X where X: "F = (\<lambda>g. do { T \<leftarrow> X; puts g T })"
    unfolding writes_def by (auto simp: fun_eq_iff)
  from assms(2) obtain Y where Y: "G = (\<lambda>g. do { (T, a) \<leftarrow> Y; g' \<leftarrow> puts g T; Some (g', a) })"
    unfolding writes_on_def by (auto simp: fun_eq_iff)
  show ?thesis
  proof (cases "X = None \<or> Y = None")
    case True
    then have "do { g' \<leftarrow> F g; G g' } = None" for g by (cases X) (auto simp: X Y split: bind_splits)
    then show ?thesis by (auto simp: writes_on_def intro: exI [of _ None])
  next
    case False
    then obtain T U a where "X = Some T" "Y = Some (U, a)" by auto
    then show ?thesis unfolding writes_on_def
      by (intro exI [of _ "Some (T @ U, a)"]) (simp add: X Y puts_append bind_assoc)
  qed
qed

lemma writes_put_string [writes_intros]: "writes (\<lambda>g. put_string m g p limited precision)"
proof (induction "length m - p" arbitrary: p precision rule: less_induct)
  case less
  have u: "(\<lambda>g. put_string m g p limited precision) = (\<lambda>g. do {
     b \<leftarrow> ld8 m p;
     if b \<noteq> 0 \<and> (\<not> limited \<or> precision \<noteq> 0)
     then do { g \<leftarrow> putchar_via_gadget g b; put_string m g (p + 1) limited (precision - 1) } else Some g })"
    by (rule ext) (rule put_string.simps)
  show ?case unfolding u
    by (intro writes_value writes_if writes_bind writes_putchar writes_Some less) (auto simp: mem_simps)
qed

lemma two_bases: "2 \<le> (if a then 16 else if b then 8 else if c then 2 else 10 :: nat)"
  by simp

lemma writes_on_specs:
  "writes_on (\<lambda>g. print_int_spec g c args flags width precision)"
  "writes_on (\<lambda>g. print_float_spec g c args flags width precision)"
  "writes_on (\<lambda>g. print_char_spec g args flags width)"
  "writes_on (\<lambda>g. print_string_spec m g args flags width precision)"
  "writes_on (\<lambda>g. print_pointer_spec g args flags width precision)"
proof -
  show "writes_on (\<lambda>g. print_int_spec g c args flags width precision)"
    unfolding print_int_spec_def Let_def split_def
    by (intro writes_on_if writes_on_value writes_on_done writes_print_integer two_bases)
  show "writes_on (\<lambda>g. print_float_spec g c args flags width precision)"
    unfolding print_float_spec_def Let_def split_def
    by (intro writes_on_value writes_on_done writes_print_floating_point)
  show "writes_on (\<lambda>g. print_char_spec g args flags width)"
    unfolding print_char_spec_def split_def
    by (intro writes_on_bind writes_on_value writes_on_done writes_if writes_pad_from writes_Some writes_putchar)
  show "writes_on (\<lambda>g. print_string_spec m g args flags width precision)"
    unfolding print_string_spec_def Let_def split_def
    by (intro writes_on_value writes_on_if writes_on_bind writes_on_done writes_if writes_pad_from writes_Some
        writes_put_string writes_out_rev) simp
  show "writes_on (\<lambda>g. print_pointer_spec g args flags width precision)"
    unfolding print_pointer_spec_def split_def
    by (intro writes_on_value writes_on_done writes_if writes_print_integer writes_out_rev) simp_all
qed

text \<open>A conversion from the position \<open>p\<close>: its text, and what it leaves in the memory.\<close>

definition renders :: "u32 \<Rightarrow> (gadget \<Rightarrow> (mem \<times> gadget \<times> 'a) option) \<Rightarrow> bool" where
  "renders p F \<longleftrightarrow> (\<exists>X. \<forall>g. out_pos g = p \<longrightarrow>
     F g = do { (m, T, a) \<leftarrow> X; g' \<leftarrow> puts g T; Some (m, g', a) })"

lemma renders_writes_on:
  assumes "writes_on F"
  shows "renders p (\<lambda>g. do { (g', a) \<leftarrow> F g; Some (m, g', s, a) })"
proof -
  from assms obtain Y where Y: "F = (\<lambda>g. do { (T, a) \<leftarrow> Y; g' \<leftarrow> puts g T; Some (g', a) })"
    unfolding writes_on_def by (auto simp: fun_eq_iff)
  show ?thesis
  proof (cases Y)
    case None
    then show ?thesis by (auto simp: renders_def Y intro: exI [of _ None])
  next
    case (Some Ta)
    then obtain T a where "Y = Some (T, a)" by (cases Ta) auto
    then show ?thesis unfolding renders_def by (intro exI [of _ "Some (m, T, s, a)"]) (simp add: Y bind_assoc)
  qed
qed

lemma renders_putchar: "renders p (\<lambda>g. do { g' \<leftarrow> putchar_via_gadget g c; Some (m, g', a) })"
  unfolding renders_def by (intro exI [of _ "Some (m, [c], a)"]) simp

lemma renders_write_back: "renders p (\<lambda>g. do { (m', a) \<leftarrow> write_back m args f (out_pos g); Some (m', g, s, a) })"
proof (cases "write_back m args f p")
  case None
  then show ?thesis by (auto simp: renders_def intro: exI [of _ None])
next
  case (Some ma)
  then show ?thesis unfolding renders_def
    by (cases ma) (intro exI [of _ "Some (fst ma, [], s, snd ma)"], simp)
qed

lemma renders_if: "(b \<Longrightarrow> renders p F) \<Longrightarrow> (\<not> b \<Longrightarrow> renders p G) \<Longrightarrow> renders p (\<lambda>g. if b then F g else G g)"
  by (cases b) simp_all

lemma renders_value: "(\<And>a. x = Some a \<Longrightarrow> renders p (F a)) \<Longrightarrow> renders p (\<lambda>g. do { a \<leftarrow> x; F a g })"
  by (cases x) (auto simp: renders_def intro: exI [of _ None])

lemma renders_conversion: "renders p (\<lambda>g. conversion m g s args flags width precision)"
  unfolding conversion_def
  by (intro renders_value renders_if renders_writes_on renders_putchar renders_write_back writes_on_specs)

definition renders_flow :: "u32 \<Rightarrow> (gadget \<Rightarrow> (mem \<times> gadget \<times> 'a) flow option) \<Rightarrow> bool" where
  "renders_flow p F \<longleftrightarrow> (\<exists>X. \<forall>g. out_pos g = p \<longrightarrow>
     F g = go X (\<lambda>(m, T, a). do { g' \<leftarrow> puts g T; Some (Go (m, g', a)) }))"

lemma renders_flow_go:
  "(\<And>a. x = Some (Go a) \<Longrightarrow> renders_flow p (F a)) \<Longrightarrow> renders_flow p (\<lambda>g. go x (\<lambda>a. F a g))"
proof (cases x)
  case None
  then show ?thesis by (auto simp: renders_flow_def go_def intro: exI [of _ None])
next
  case (Some r)
  assume F: "\<And>a. x = Some (Go a) \<Longrightarrow> renders_flow p (F a)"
  show ?thesis
  proof (cases r)
    case Return
    with Some show ?thesis by (auto simp: renders_flow_def go_def intro: exI [of _ "Some Return"])
  next
    case (Go a)
    with Some F [of a] show ?thesis by (simp add: go_def)
  qed
qed

lemma renders_flow_value:
  "(\<And>a. x = Some a \<Longrightarrow> renders_flow p (F a)) \<Longrightarrow> renders_flow p (\<lambda>g. do { a \<leftarrow> x; F a g })"
  by (cases x) (auto simp: renders_flow_def go_def intro: exI [of _ None])

lemma renders_flow_done:
  assumes "renders p F"
  shows "renders_flow p (\<lambda>g. do { r \<leftarrow> F g; Some (Go r) })"
proof -
  from assms obtain X where X: "out_pos g = p \<Longrightarrow>
     F g = do { (m, T, a) \<leftarrow> X; g' \<leftarrow> puts g T; Some (m, g', a) }" for g unfolding renders_def by blast
  show ?thesis unfolding renders_flow_def
    by (intro exI [of _ "map_option Go X"]) (cases X; auto simp: X go_def bind_assoc split_def)
qed

lemma renders_directive: "renders_flow p (\<lambda>g. directive m g s args)"
  unfolding directive_def split_def
  by (intro renders_flow_go renders_flow_value renders_flow_done renders_conversion)

lemma puts_function: "out_fn g \<Longrightarrow> \<exists>g'. puts g T = Some g' \<and> out_fn g'"
  using puts_fits [of g T] by (auto simp: fits_def same_gadget_def)

lemma renders_function: "\<exists>g :: gadget. out_fn g \<and> out_pos g = p"
  by (intro exI [of _ "function_gadget\<lparr>out_pos := p\<rparr>"]) (simp add: function_gadget_def)

text \<open>The whole format: one text, whatever the gadget.\<close>

definition prints :: "u32 \<Rightarrow> (gadget \<Rightarrow> (mem \<times> gadget) option) \<Rightarrow> bool" where
  "prints p F \<longleftrightarrow> (\<exists>X. \<forall>g. out_pos g = p \<longrightarrow> F g = do { (m, T) \<leftarrow> X; g' \<leftarrow> puts g T; Some (m, g') })"

lemma printsI: "(\<And>g. out_pos g = p \<Longrightarrow> F g = do { (m, T) \<leftarrow> X; g' \<leftarrow> puts g T; Some (m, g') }) \<Longrightarrow> prints p F"
  unfolding prints_def by blast

lemma prints_after:
  assumes "prints (p + word_of_nat (length T)) F" "\<And>g. out_pos g = p \<Longrightarrow> G g = do { g' \<leftarrow> puts g T; F g' }"
  shows "prints p G"
proof -
  from assms(1) obtain X where X: "out_pos g = p + word_of_nat (length T) \<Longrightarrow>
      F g = do { (m, T) \<leftarrow> X; g' \<leftarrow> puts g T; Some (m, g') }" for g unfolding prints_def by blast
  have "G g = do { (m, U) \<leftarrow> map_option (\<lambda>(m, U). (m, T @ U)) X; g' \<leftarrow> puts g U; Some (m, g') }"
    if g: "out_pos g = p" for g
  proof (cases "puts g T")
    case None
    then show ?thesis using assms(2) [OF g] by (cases X) (auto simp: puts_append)
  next
    case (Some g')
    then have "F g' = do { (m, T) \<leftarrow> X; g'' \<leftarrow> puts g' T; Some (m, g'') }" using X puts_pos g by blast
    then show ?thesis using assms(2) [OF g] Some by (cases X) (auto simp: puts_append)
  qed
  then show ?thesis by (rule printsI)
qed

lemma prints_format: "prints p (\<lambda>g. format_string_loop m g s args)"
proof (induction "length m - s" arbitrary: m p s args rule: less_induct)
  case less
  note u = format_string_loop.simps [of m _ s args]
  show ?case
  proof (cases "ld8 m s")
    case None
    then show ?thesis unfolding u by (intro printsI [of _ _ None]) simp
  next
    case (Some b)
    then have s: "s < length m" by (simp add: mem_simps)
    consider "b = 0" | "b \<noteq> 0" "b \<noteq> 37" | "b = 37" by blast
    then show ?thesis
    proof cases
      case 1
      then show ?thesis unfolding u Some by (intro printsI [of _ _ "Some (m, [])"]) simp
    next
      case 2
      have "prints (p + 1) (\<lambda>g. format_string_loop m g (s + 1) args)" using less s by simp
      then show ?thesis unfolding u Some using 2 by (intro prints_after [of p "[b]"]) simp_all
    next
      case 3
      obtain X where X: "out_pos g = p \<Longrightarrow> directive m g s args =
          go X (\<lambda>(m, T, a). do { g' \<leftarrow> puts g T; Some (Go (m, g', a)) })" for g
        using renders_directive [of p m s args] unfolding renders_flow_def by blast
      consider "X = None" | "X = Some Return" | m' T t args' where "X = Some (Go (m', T, t, args'))"
        by (metis flow.exhaust option.exhaust prod_cases4)
      then show ?thesis
      proof cases
        case 1
        then show ?thesis unfolding u Some using 3 by (intro printsI [of _ _ None]) (simp add: X go_def)
      next
        case 2
        then show ?thesis unfolding u Some using 3
          by (intro printsI [of _ _ "Some (m, [])"]) (simp add: X go_def)
      next
        case X': 3
        obtain g g' where "out_pos g = p" "puts g T = Some g'"
          using renders_function [of p] puts_function [of _ T] by metis
        then have "directive m g s args = Some (Go (m', g', t, args'))" by (simp add: X X' go_def)
        then have "s < t" "length m' = length m" using directive_forward by blast+
        then have "prints (p + word_of_nat (length T)) (\<lambda>g. format_string_loop m' g t args')"
          using less s by simp
        then show ?thesis unfolding u Some using 3
          by (intro prints_after [of p T]) (simp_all add: X X' go_def bind_assoc)
      qed
    qed
  qed
qed

section \<open>The printf family\<close>

lemma termination_of_buffer:
  assumes "0 < n" "n \<le> PRINTF_MAX_POSSIBLE_BUFFER_SIZE" "unat n \<le> length b" "length T < 2 ^ 31"
    "puts (buffer_gadget (Some b) n) T = Some g"
  obtains g' where "append_termination_via_gadget g = Some g'" "out_pos g' = word_of_nat (length T)"
    "out_buf g' = Some (put_bytes b 0 (take (unat n - 1) T @ [0]))"
proof -
  let ?G = "buffer_gadget (Some b) n"
  have G: "\<not> out_fn ?G" "out_buf ?G = Some b" "out_max ?G = n" "out_pos ?G = 0"
    using assms(2) by (auto simp: buffer_gadget_def discarding_gadget_def Let_def)
  have "puts ?G T = Some (?G\<lparr>out_pos := word_of_nat (length T), out_buf := Some (put_bytes b 0 (take (unat n) T))\<rparr>)"
    using puts_buffer [of ?G b T] G assms(3,4) by simp
  then have g: "g = ?G\<lparr>out_pos := word_of_nat (length T), out_buf := Some (put_bytes b 0 (take (unat n) T))\<rparr>"
    using assms(5) by simp
  have l: "unat (word_of_nat (length T) :: u32) = length T"
    using assms(4) by (simp add: unsigned_of_nat take_bit_nat_eq_self)
  have n1: "unat (n - 1) = unat n - 1" using assms(1) by (metis unat_minus_one word_greater_zero_iff)
  have n0: "0 < unat n" using assms(1) by (simp add: word_less_nat_alt)
  define q where "q = (if word_of_nat (length T) < n then word_of_nat (length T) else n - 1 :: u32)"
  have q: "unat q = min (length T) (unat n - 1)"
    using l n1 n0 by (auto simp: q_def word_less_nat_alt)
  have "(put_bytes b 0 (take (unat n) T))[unat q := 0] = put_bytes b 0 (take (unat n - 1) T @ [0])"
  proof (cases "length T < unat n")
    case True
    then have "unat q = length T" "take (unat n) T = T" "take (unat n - 1) T = T" using q by auto
    then show ?thesis using put_bytes_snoc [of 0 T b 0] True assms(3) by simp
  next
    case False
    have "take (unat n) T = take (unat n - 1) T @ [T ! (unat n - 1)]"
      using take_Suc_conv_app_nth [of "unat n - 1" T] False n0 by simp
    moreover have "unat q = unat n - 1" "length (take (unat n - 1) T) = unat n - 1" using False q n0 by auto
    ultimately show ?thesis using assms(3) n0 by (simp add: put_bytes_def list_update_append)
  qed
  moreover have "append_termination_via_gadget g =
      Some (g\<lparr>out_buf := Some ((put_bytes b 0 (take (unat n) T))[unat q := 0])\<rparr>)"
    using G assms(1,3) q n0 unfolding q_def
    by (cases "word_of_nat (length T) < n") (auto simp: g append_termination_via_gadget_def Let_def)
  ultimately show ?thesis using that by (simp add: g)
qed

lemma sint_length: "n < 2 ^ 31 \<Longrightarrow> sint (word_of_nat n :: u32) = int n"
  by (simp add: sint_uint uint_nat unsigned_of_nat signed_take_bit_eq_if_positive take_bit_int_eq_self bit_iff_odd take_bit_nat_eq_self)

lemma vsnprintf_prints:
  assumes X: "\<And>g. out_pos g = 0 \<Longrightarrow>
      format_string_loop m g format args = do { (m, T) \<leftarrow> X; g' \<leftarrow> puts g T; Some (m, g') }"
    and n: "n \<le> PRINTF_MAX_POSSIBLE_BUFFER_SIZE" "unat n \<le> length b"
  shows "X = None \<Longrightarrow> vsnprintf m (Some b) n format args = None"
    and "X = Some (m', T) \<Longrightarrow> length T < 2 ^ 31 \<Longrightarrow>
      \<exists>g. vsnprintf m (Some b) n format args = Some (m', g, int (length T)) \<and>
        out_buf g = Some (if n = 0 then b else put_bytes b 0 (take (unat n - 1) T @ [0]))"
proof -
  let ?G = "buffer_gadget (Some b) n"
  have G: "out_pos ?G = 0" "out_max ?G = n" "\<not> out_fn ?G" "out_buf ?G = Some b"
    using n(1) by (auto simp: buffer_gadget_def discarding_gadget_def Let_def)
  note E = X [OF G(1)]
  show "X = None \<Longrightarrow> vsnprintf m (Some b) n format args = None"
    by (simp add: vsnprintf_def vsnprintf_impl_def E)
  assume X: "X = Some (m', T)" and T: "length T < 2 ^ 31"
  obtain g where g: "puts ?G T = Some g" using puts_fits [of ?G T] G n(2) by (auto simp: fits_def)
  show "\<exists>g. vsnprintf m (Some b) n format args = Some (m', g, int (length T)) \<and>
        out_buf g = Some (if n = 0 then b else put_bytes b 0 (take (unat n - 1) T @ [0]))"
  proof (cases "n = 0")
    case True
    have "puts ?G T = Some (?G\<lparr>out_pos := word_of_nat (length T), out_buf := Some b\<rparr>)"
      using puts_buffer [of ?G b T] G True T by simp
    then have "puts ?G T = Some (?G\<lparr>out_pos := word_of_nat (length T), out_buf := Some b\<rparr>)" by simp
    then show ?thesis unfolding vsnprintf_def vsnprintf_impl_def E X using True G T
      by (simp add: append_termination_via_gadget_def sint_length)
  next
    case False
    then have "0 < n" by (simp add: word_neq_0_conv)
    then obtain g' where "append_termination_via_gadget g = Some g'" "out_pos g' = word_of_nat (length T)"
      "out_buf g' = Some (put_bytes b 0 (take (unat n - 1) T @ [0]))"
      using termination_of_buffer [OF _ n T g] by blast
    then show ?thesis using False T by (simp add: vsnprintf_def vsnprintf_impl_def E X g sint_length)
  qed
qed

text \<open>A function takes every character of a text that fits an \<open>int\<close>.\<close>

lemma puts_sent:
  "out_fn g \<Longrightarrow> unat (out_pos g) + length T \<le> unat (out_max g) \<Longrightarrow>
   puts g T = Some (g\<lparr>out_pos := out_pos g + word_of_nat (length T), out_sent := out_sent g @ T\<rparr>)"
proof (induction T arbitrary: g)
  case (Cons c T)
  have "unat (out_pos g) < unat (out_max g)" using Cons.prems by simp
  then have lt: "out_pos g < out_max g" by (simp add: word_less_nat_alt)
  let ?g = "g\<lparr>out_pos := out_pos g + 1, out_sent := out_sent g @ [c]\<rparr>"
  have "putchar_via_gadget g c = Some ?g" using lt Cons.prems by (simp add: putchar_via_gadget_def Let_def)
  moreover have "puts ?g T = Some (?g\<lparr>out_pos := out_pos ?g + word_of_nat (length T), out_sent := out_sent ?g @ T\<rparr>)"
    using Cons.prems unat_Suc_less [OF lt] by (intro Cons.IH) simp_all
  ultimately show ?case by (simp add: algebra_simps)
qed simp

lemma puts_sent_grows: "puts g T = Some g' \<Longrightarrow> length (out_sent g) \<le> length (out_sent g')"
proof (induction T arbitrary: g)
  case (Cons c T)
  obtain g1 where g1: "putchar_via_gadget g c = Some g1" "puts g1 T = Some g'"
    using Cons.prems by (auto split: bind_splits)
  have "length (out_sent g) \<le> length (out_sent g1)"
    using g1(1) by (auto simp: putchar_via_gadget_def Let_def split: if_splits bind_splits)
  then show ?case using Cons.IH [OF g1(2)] by simp
qed simp

lemma function_text:
  assumes "puts function_gadget T = Some g" "length (out_sent g) < 2147483647"
  shows "out_sent g = T \<and> out_pos g = word_of_nat (length T) \<and> length T < 2147483647"
proof -
  have G: "out_fn function_gadget" "out_pos function_gadget = 0" "out_sent function_gadget = []"
    "unat (out_max function_gadget) = 2147483647"
    by (simp_all add: function_gadget_def discarding_gadget_def PRINTF_MAX_POSSIBLE_BUFFER_SIZE_def)
  have "length T < 2147483647"
  proof (rule ccontr)
    assume long: "\<not> length T < 2147483647"
    let ?A = "take 2147483647 T"
    have l: "length ?A = 2147483647" using long by simp
    obtain g1 where g1: "puts function_gadget ?A = Some g1" "out_sent g1 = ?A"
      using puts_sent [of function_gadget ?A] G l by simp
    have "puts g1 (drop 2147483647 T) = Some g"
      using assms(1) puts_append [of function_gadget ?A "drop 2147483647 T"] g1(1) by simp
    then show False using puts_sent_grows [of g1] assms(2) g1(2) l by fastforce
  qed
  then show ?thesis using puts_sent [of function_gadget T] G assms(1) by auto
qed

lemma vsnprintf_of_vprintf:
  assumes n: "n \<le> PRINTF_MAX_POSSIBLE_BUFFER_SIZE" "unat n \<le> length b"
    and v: "vprintf m format args = Some (m', g0, r)" "length (out_sent g0) < 2147483647"
  shows "r = int (length (out_sent g0)) \<and>
    (\<exists>g. vsnprintf m (Some b) n format args = Some (m', g, r) \<and>
       out_buf g = Some (if n = 0 then b else put_bytes b 0 (take (unat n - 1) (out_sent g0) @ [0])))"
proof -
  obtain X where X: "\<And>g. out_pos g = 0 \<Longrightarrow>
      format_string_loop m g format args = do { (m, T) \<leftarrow> X; g' \<leftarrow> puts g T; Some (m, g') }"
    using prints_format [of 0 m format args] unfolding prints_def by blast
  have G: "out_pos function_gadget = 0" "out_fn function_gadget"
    by (simp_all add: function_gadget_def discarding_gadget_def)
  from v(1) obtain T g where T: "X = Some (m', T)" "puts function_gadget T = Some g"
    and g: "append_termination_via_gadget g = Some g0" "r = sint (out_pos g0)"
    unfolding vprintf_def vsnprintf_impl_def X [OF G(1)] by (auto split: bind_splits)
  have "out_fn g" using puts_fits [of function_gadget T] T(2) G(2) by (auto simp: fits_def same_gadget_def)
  then have "g0 = g" using g(1) by (simp add: append_termination_via_gadget_def)
  then have t: "out_sent g0 = T" "out_pos g0 = word_of_nat (length T)" "length T < 2147483647"
    using function_text [OF T(2)] v(2) by simp_all
  have l: "length T < 2 ^ 31" using t(3) by simp
  have r: "r = int (length T)" unfolding g(2) t(2) by (rule sint_length [OF l])
  show ?thesis unfolding t(1) r using vsnprintf_prints(2) [OF X n T(1) l] by blast
qed

text \<open>
  C38: \<open>vsnprintf\<close> stores as much as fits before a terminator of the text that \<open>vprintf\<close> sends for the
  same format and arguments, whatever the size of the buffer; it touches nothing else of the
  buffer, never writes past its size, and returns the length of the whole text, as C99 requires.
\<close>

theorem vsnprintf_correct:
  assumes "n \<le> PRINTF_MAX_POSSIBLE_BUFFER_SIZE" "unat n \<le> length b"
    and "vprintf m format args = Some (m', g0, r)" "length (out_sent g0) < 2147483647"
  shows "r = int (length (out_sent g0)) \<and>
    (\<exists>g. vsnprintf m (Some b) n format args = Some (m', g, r) \<and>
       out_buf g = Some (if n = 0 then b else put_bytes b 0 (take (unat n - 1) (out_sent g0) @ [0])))"
  using assms by (rule vsnprintf_of_vprintf)

theorem vsnprintf_correct_witness:
  "\<exists>g0 g. vprintf [97, 37, 100, 0] 0 [VInt 42] = Some ([97, 37, 100, 0], g0, 3) \<and>
     vsnprintf [97, 37, 100, 0] (Some [9, 9, 9, 9]) 3 0 [VInt 42] = Some ([97, 37, 100, 0], g, 3) \<and>
     out_buf g = Some [97, 52, 0, 9]"
proof -
  have v: "vprintf [97, 37, 100, 0] 0 [VInt 42] = Some ([97, 37, 100, 0],
      \<lparr>out_fn = True, out_sent = [97, 52, 50], out_buf = None, out_pos = 3, out_max = 2147483647\<rparr>, 3)"
    by code_simp
  then show ?thesis
    using vsnprintf_correct [of 3 "[9, 9, 9, 9]" "[97, 37, 100, 0]" 0 "[VInt 42]"]
    by (fastforce simp: PRINTF_MAX_POSSIBLE_BUFFER_SIZE_def put_bytes_def)
qed

end
