(* ===== verification/PrintfText.thy ===== *)
theory PrintfText
  imports PrintfFormat
begin

text \<open>
  What the format language of \<^verbatim>\<open>shim/printf/printf.c\<close> means: a format built from plain text, percent
  signs and conversion specifications is printed as the concatenation of the texts C11 gives to
  its pieces.
\<close>

section \<open>Pieces of a format\<close>

datatype format_flag = Zero_Pad | Left_Align | Plus_Sign | Space_Sign | Alternative

fun flag_char :: "format_flag \<Rightarrow> u8" where
  "flag_char Zero_Pad = 48" | "flag_char Left_Align = 45" | "flag_char Plus_Sign = 43"
| "flag_char Space_Sign = 32" | "flag_char Alternative = 35"

fun flag_bit :: "format_flag \<Rightarrow> nat" where
  "flag_bit Zero_Pad = FLAGS_ZEROPAD" | "flag_bit Left_Align = FLAGS_LEFT" | "flag_bit Plus_Sign = FLAGS_PLUS"
| "flag_bit Space_Sign = FLAGS_SPACE" | "flag_bit Alternative = FLAGS_HASH"

definition flags_of :: "format_flag list \<Rightarrow> printf_flags" where
  "flags_of fl = fold (\<lambda>f. set_flag (flag_bit f)) fl 0"

datatype conversion_arg =
  Signed u32 | Unsigned u32 | Hex bool u32 | Octal u32 | Char u8 | Str u32 "u8 list"

fun conv_char :: "conversion_arg \<Rightarrow> u8" where
  "conv_char (Signed w) = 100" | "conv_char (Unsigned w) = 117" | "conv_char (Hex up w) = (if up then 88 else 120)"
| "conv_char (Octal w) = 111" | "conv_char (Char c) = 99" | "conv_char (Str p X) = 115"

fun arg_of :: "conversion_arg \<Rightarrow> va_arg" where
  "arg_of (Signed w) = VInt w" | "arg_of (Unsigned w) = VInt w" | "arg_of (Hex up w) = VInt w"
| "arg_of (Octal w) = VInt w" | "arg_of (Char c) = VInt (ucast c)" | "arg_of (Str p X) = VPtr p"

datatype piece = Text "u8 list" | Percent | Conv "format_flag list" nat "nat option" conversion_arg

definition precision_text :: "nat option \<Rightarrow> u8 list" where
  "precision_text p = (case p of None \<Rightarrow> [] | Some n \<Rightarrow> 46 # decimal n)"

fun format_of :: "piece \<Rightarrow> u8 list" where
  "format_of (Text t) = t"
| "format_of Percent = [37, 37]"
| "format_of (Conv fl w p a) =
     37 # map flag_char fl @ (if w = 0 then [] else decimal w) @ precision_text p @ [conv_char a]"

fun args_of :: "piece \<Rightarrow> va_list" where
  "args_of (Conv fl w p a) = [arg_of a]"
| "args_of x = []"

section \<open>Their texts\<close>

definition spaced :: "printf_flags \<Rightarrow> nat \<Rightarrow> u8 list \<Rightarrow> u8 list" where
  "spaced flags w T = (if has flags FLAGS_LEFT then T @ replicate (w - length T) 32 else replicate (w - length T) 32 @ T)"

text \<open>The zero flag is ignored when there is a precision, the signs when the conversion is unsigned.\<close>

definition int_flags :: "printf_flags \<Rightarrow> nat option \<Rightarrow> conversion_arg \<Rightarrow> printf_flags" where
  "int_flags F p a =
     (let F = (if p = None then F else clear_flag FLAGS_ZEROPAD (set_flag FLAGS_PRECISION F)) in
      case a of Signed w \<Rightarrow> set_flag FLAGS_SIGNED (clear_flag FLAGS_HASH F)
      | Unsigned w \<Rightarrow> clear_flag FLAGS_PLUS (clear_flag FLAGS_SPACE (clear_flag FLAGS_HASH F))
      | Hex up w \<Rightarrow> clear_flag FLAGS_PLUS (clear_flag FLAGS_SPACE (if up then set_flag FLAGS_UPPERCASE F else F))
      | _ \<Rightarrow> clear_flag FLAGS_PLUS (clear_flag FLAGS_SPACE F))"

definition word_or_0 :: "nat option \<Rightarrow> u32" where
  "word_or_0 p = (case p of None \<Rightarrow> 0 | Some n \<Rightarrow> word_of_nat n)"

fun arg_text :: "printf_flags \<Rightarrow> nat \<Rightarrow> nat option \<Rightarrow> conversion_arg \<Rightarrow> u8 list" where
  "arg_text F w p (Signed x) =
     integer_text (word_of_int \<bar>sint x\<bar>) (sint x < 0) 10 (word_or_0 p) (word_of_nat w) (int_flags F p (Signed x))"
| "arg_text F w p (Unsigned x) =
     integer_text (ucast x) False 10 (word_or_0 p) (word_of_nat w) (int_flags F p (Unsigned x))"
| "arg_text F w p (Hex up x) =
     integer_text (ucast x) False 16 (word_or_0 p) (word_of_nat w) (int_flags F p (Hex up x))"
| "arg_text F w p (Octal x) =
     integer_text (ucast x) False 8 (word_or_0 p) (word_of_nat w) (int_flags F p (Octal x))"
| "arg_text F w p (Char c) = spaced F w [c]"
| "arg_text F w p (Str a X) = spaced F w (case p of None \<Rightarrow> X | Some n \<Rightarrow> take n X)"

fun text_of :: "piece \<Rightarrow> u8 list" where
  "text_of (Text t) = t"
| "text_of Percent = [37]"
| "text_of (Conv fl w p a) = arg_text (flags_of fl) w p a"

fun arg_ok :: "mem \<Rightarrow> conversion_arg \<Rightarrow> bool" where
  "arg_ok m (Str p X) \<longleftrightarrow> p \<noteq> 0 \<and> text_at m (unat p) X \<and> length X < 2147483648"
| "arg_ok m a \<longleftrightarrow> True"

fun piece_ok :: "mem \<Rightarrow> piece \<Rightarrow> bool" where
  "piece_ok m (Text t) \<longleftrightarrow> 37 \<notin> set t"
| "piece_ok m Percent \<longleftrightarrow> True"
| "piece_ok m (Conv fl w p a) \<longleftrightarrow> w \<le> 29 \<and> (case p of None \<Rightarrow> True | Some n \<Rightarrow> n \<le> 29) \<and> arg_ok m a"

section \<open>Parsing a specification\<close>

lemma flag_char_cases: "flag_char f \<in> {48, 45, 43, 32, 35}"
  by (cases f) simp_all

lemma parse_flags_text:
  assumes "text_at m s (map flag_char fl @ c # R)" "c \<notin> {48, 45, 43, 32, 35}"
  shows "parse_flags_loop m s F = Some (fold (\<lambda>f. set_flag (flag_bit f)) fl F, s + length fl)"
  using assms(1)
proof (induction fl arbitrary: s F)
  case Nil
  then show ?case using text_at_Cons [of m s c R] assms(2) by (simp add: parse_flags_loop.simps [of m s])
next
  case (Cons f fl)
  note t = text_at_Cons [of m s "flag_char f" "map flag_char fl @ c # R"]
  have "parse_flags_loop m s F = parse_flags_loop m (s + 1) (set_flag (flag_bit f) F)"
    using t Cons.prems by (cases f) (simp_all add: parse_flags_loop.simps [of m s])
  then show ?case using Cons.IH [of "s + 1"] t Cons.prems by simp
qed

lemma is_digit_char_is_digit: "is_digit_char = is_digit"
  by (rule ext) (simp add: is_digit_char_def is_digit_def)

lemma uint_word_of_int_256: "uint (word_of_int k :: u8) = k mod 256"
  by (simp add: uint_word_of_int)

lemma digit_step:
  assumes "is_digit b"
  shows "word_of_int k * 10 + ucast (b - 48) = (word_of_int (k * 10 + the (digit_val (sint b))) :: u32)"
proof -
  have b: "48 \<le> sint b" "sint b \<le> 57" using assms by (simp_all add: is_digit_def)
  have "b - 48 = word_of_int (sint b - 48)" by simp
  then have "uint (b - 48) = (sint b - 48) mod 256" by (metis uint_word_of_int_256)
  then have u: "uint (b - 48) = sint b - 48" using b by simp
  have "(ucast (b - 48) :: u32) = word_of_int (uint (b - 48))" by (rule ucast_eq)
  then have "(ucast (b - 48) :: u32) = word_of_int (sint b - 48)" unfolding u .
  moreover have "the (digit_val (sint b)) = sint b - 48" using b by (simp add: digit_val_def)
  ultimately show ?thesis by simp
qed

lemma atou_text:
  assumes "text_at m s (D @ c # R)" "\<forall>b\<in>set D. is_digit b" "\<not> is_digit c"
  shows "atou m s (word_of_int k) = Some (word_of_int (num_value 10 k D), s + length D)"
  using assms(1,2)
proof (induction D arbitrary: s k)
  case Nil
  then show ?case using text_at_Cons [of m s c R] assms(3) by (simp add: atou.simps [of m s] is_digit_char_is_digit)
next
  case (Cons b D)
  note t = text_at_Cons [of m s b "D @ c # R"]
  have "atou m s (word_of_int k) = atou m (s + 1) (word_of_int (k * 10 + the (digit_val (sint b))))"
    unfolding atou.simps [of m s] using t Cons.prems digit_step [of b k] by (simp add: is_digit_char_is_digit)
  then show ?case using Cons.IH [of "s + 1" "k * 10 + the (digit_val (sint b))"] t Cons.prems by simp
qed

lemma decimal_first: "0 < n \<Longrightarrow> \<exists>c D. decimal n = c # D \<and> is_digit c \<and> c \<noteq> 48"
proof (induction n rule: decimal.induct)
  case (1 n)
  show ?case
  proof (cases "n < 10")
    case True
    then have "n = 1 \<or> n = 2 \<or> n = 3 \<or> n = 4 \<or> n = 5 \<or> n = 6 \<or> n = 7 \<or> n = 8 \<or> n = 9" using 1(2) by auto
    then show ?thesis by (elim disjE) (simp_all add: decimal.simps is_digit_def)
  next
    case False
    then have "0 < n div 10" by (simp add: div_greater_zero_iff)
    then obtain c D where "decimal (n div 10) = c # D" "is_digit c" "c \<noteq> 48" using 1(1) False by blast
    then show ?thesis using False by (simp add: decimal.simps [of n])
  qed
qed

lemma conv_char_cases: "conv_char a \<in> {100, 117, 88, 120, 111, 99, 115}"
  by (cases a) simp_all

lemma conv_char_plain:
  "conv_char a \<notin> {48, 45, 43, 32, 35}" "\<not> is_digit (conv_char a)" "conv_char a \<noteq> 42" "conv_char a \<noteq> 46"
  "conv_char a \<noteq> 0" "conv_char a \<notin> {108, 76, 104, 116, 106, 122}"
  using conv_char_cases [of a] by (auto simp: is_digit_def)

definition width_text :: "nat \<Rightarrow> u8 list" where
  "width_text w = (if w = 0 then [] else decimal w)"

lemma precision_text_simps [simp]: "precision_text None = []" "precision_text (Some n) = 46 # decimal n"
  by (simp_all add: precision_text_def)

text \<open>What follows the flags is not a flag.\<close>

lemma after_flags: "\<exists>c R'. width_text w @ precision_text p @ conv_char a # R = c # R' \<and> c \<notin> {48, 45, 43, 32, 35}"
proof (cases "w = 0")
  case True
  then show ?thesis using conv_char_plain(1) [of a] by (cases p) (auto simp: width_text_def)
next
  case False
  then obtain c D where "decimal w = c # D" "is_digit c" "c \<noteq> 48" using decimal_first by blast
  then show ?thesis using False by (auto simp: width_text_def is_digit_def)
qed

lemma after_width: "\<exists>c R'. precision_text p @ conv_char a # R = c # R' \<and> \<not> is_digit c \<and> c \<noteq> 42"
  using conv_char_plain [of a] by (cases p) (auto simp: is_digit_def)

lemma atou_decimal:
  assumes "text_at m s (decimal n @ c # R)" "\<not> is_digit c"
  shows "atou m s 0 = Some (word_of_nat n, s + length (decimal n))"
  using atou_text [OF assms(1) decimal_digits assms(2), of 0] by (simp add: num_value_decimal)

lemma parse_width_text:
  assumes "text_at m s (width_text w @ c # R)" "\<not> is_digit c" "c \<noteq> 42"
  shows "parse_width m s args F = Some (Go (s + length (width_text w), args, F, word_of_nat w))"
proof (cases "w = 0")
  case True
  then show ?thesis using assms text_at_Cons [of m s c R]
    by (simp add: width_text_def parse_width_def is_digit_char_is_digit)
next
  case False
  then obtain d D where D: "decimal w = d # D" "is_digit d" using decimal_first by blast
  then show ?thesis using False assms text_at_Cons [of m s d "D @ c # R"] atou_decimal [of m s w c R]
    by (simp add: width_text_def parse_width_def is_digit_char_is_digit)
qed

lemma is_digit_not: "is_digit d \<Longrightarrow> d \<noteq> 45 \<and> d \<noteq> 42 \<and> d \<noteq> 46"
  by (auto simp: is_digit_def)

lemma parse_precision_text:
  assumes "text_at m s (precision_text p @ c # R)" "\<not> is_digit c" "c \<noteq> 46"
  shows "parse_precision m s args F = Some (Go (s + length (precision_text p), args,
    if p = None then F else set_flag FLAGS_PRECISION F, word_or_0 p))"
proof (cases p)
  case None
  then show ?thesis using assms text_at_Cons [of m s c R] by (simp add: parse_precision_def word_or_0_def)
next
  case (Some n)
  then have t: "text_at m s (46 # decimal n @ c # R)" using assms(1) by simp
  note t1 = text_at_Cons [OF t]
  obtain d D where D: "decimal n = d # D" "is_digit d"
    using decimal_digits [of n] by (cases "decimal n") auto
  have t2: "ld8 m (s + 1) = Some d" "d \<noteq> 0" using t1 text_at_Cons [of m "s + 1" d "D @ c # R"] D by simp_all
  then have adv: "advance m s = Some (Go (s + 1))" by (auto simp: mem_simps)
  have a: "atou m (s + 1) 0 = Some (word_of_nat n, s + 1 + length (decimal n))"
    using atou_decimal [of m "s + 1" n c R] t1 assms(2) by simp
  show ?thesis using t1 t2 a is_digit_not [OF D(2)] D(2)
    by (simp add: parse_precision_def adv go_def Some Let_def is_digit_char_is_digit word_or_0_def)
qed

lemma parse_length_text:
  assumes "text_at m s (c # R)" "c \<notin> {108, 76, 104, 116, 106, 122}"
  shows "parse_length m s F = Some (Go (s, F))"
  using assms text_at_Cons [OF assms(1)] by (simp add: parse_length_def)

lemma go_step: "go (Some (Go a)) f = f a"
  by (simp add: go_def)

lemma directive_text:
  assumes t: "text_at m s (37 # map flag_char fl @ width_text w @ precision_text p @ conv_char a # R)"
  shows "directive m g s args =
    do { r \<leftarrow> conversion m g (s + length (map flag_char fl @ width_text w @ precision_text p) + 1) args
           (if p = None then flags_of fl else set_flag FLAGS_PRECISION (flags_of fl)) (word_of_nat w) (word_or_0 p);
         Some (Go r) }"
proof -
  let ?s1 = "s + 1" let ?s2 = "?s1 + length fl" let ?s3 = "?s2 + length (width_text w)"
  let ?s4 = "?s3 + length (precision_text p)"
  have t1: "text_at m ?s1 (map flag_char fl @ width_text w @ precision_text p @ conv_char a # R)"
    using text_at_Cons [OF t] by simp
  then have t2: "text_at m ?s2 (width_text w @ precision_text p @ conv_char a # R)"
    using text_at_append [OF t1] by simp
  then have t3: "text_at m ?s3 (precision_text p @ conv_char a # R)" using text_at_append [OF t2] by simp
  then have t4: "text_at m ?s4 (conv_char a # R)" using text_at_append [OF t3] by simp
  obtain c R' where c: "width_text w @ precision_text p @ conv_char a # R = c # R'" "c \<notin> {48, 45, 43, 32, 35}"
    using after_flags by blast
  have "map flag_char fl @ c # R' \<noteq> []" by simp
  then obtain d R'' where "map flag_char fl @ c # R' = d # R''" by (cases "map flag_char fl @ c # R'") auto
  then have adv: "advance m s = Some (Go ?s1)"
    using t1 c(1) text_at_Cons [of m ?s1 d R''] by (auto simp: mem_simps)
  have fl: "parse_flags m ?s1 = Some (flags_of fl, ?s2)"
    using parse_flags_text [of m ?s1 fl c R' 0] t1 c by (simp add: parse_flags_def flags_of_def)
  obtain e E where e: "precision_text p @ conv_char a # R = e # E" "\<not> is_digit e" "e \<noteq> 42"
    using after_width by blast
  have w: "parse_width m ?s2 args (flags_of fl) = Some (Go (?s3, args, flags_of fl, word_of_nat w))"
    using parse_width_text [of m ?s2 w e E] t2 e by simp
  have p: "parse_precision m ?s3 args (flags_of fl) = Some (Go (?s4, args,
      if p = None then flags_of fl else set_flag FLAGS_PRECISION (flags_of fl), word_or_0 p))"
    using parse_precision_text [OF t3] conv_char_plain [of a] by blast
  have l: "parse_length m ?s4 F = Some (Go (?s4, F))" for F
    using parse_length_text [OF t4] conv_char_plain [of a] by blast
  have "length (map flag_char fl @ width_text w @ precision_text p) + 1 + s = ?s4" by simp
  then have s4: "s + length (map flag_char fl @ width_text w @ precision_text p) + 1 = ?s4" by simp
  show ?thesis unfolding directive_def adv go_step fl bind.bind_lunit prod.case w p l s4 ..
qed

section \<open>The conversions\<close>

lemma int_text_small:
  assumes "unat x < 4294967296" "8 \<le> base"
  shows "length (digits_text x base F) \<le> 29"
proof (cases "x = 0 \<and> has F FLAGS_PRECISION")
  case False
  have "(8 :: nat) ^ 11 \<le> base ^ 11" using assms(2) by (rule power_mono) simp
  then have "unat x < base ^ 11" using assms(1) by simp
  then have "length (numeral_text (digit_char F) base (unat x)) \<le> 11" by (intro length_numeral_text) simp_all
  then show ?thesis using False by (simp add: digits_text_def)
qed (simp add: digits_text_def)

lemma unat_width: "w \<le> 29 \<Longrightarrow> unat (word_of_nat w :: u32) = w"
  by (simp add: unsigned_of_nat take_bit_nat_eq_self)

lemma unat_word_or_0: "(case p of None \<Rightarrow> True | Some n \<Rightarrow> n \<le> 29) \<Longrightarrow> unat (word_or_0 p) \<le> 29"
  by (cases p) (simp_all add: word_or_0_def unat_width)

definition pure_flags :: "printf_flags \<Rightarrow> bool" where
  "pure_flags F \<longleftrightarrow> (\<forall>n\<ge>5. \<not> has F n)"

lemma pure_flags_of: "pure_flags (flags_of fl)"
proof -
  have "pure_flags F \<Longrightarrow> pure_flags (fold (\<lambda>f. set_flag (flag_bit f)) fl F)" for F
  proof (induction fl arbitrary: F)
    case (Cons f fl)
    have "pure_flags (set_flag (flag_bit f) F)" using Cons.prems by (cases f) (auto simp: pure_flags_def)
    then show ?case using Cons.IH by simp
  qed simp
  then show ?thesis by (simp add: flags_of_def pure_flags_def)
qed

lemma pure_flags_high [simp]:
  "pure_flags F \<Longrightarrow> \<not> has F FLAGS_CHAR" "pure_flags F \<Longrightarrow> \<not> has F FLAGS_SHORT" "pure_flags F \<Longrightarrow> \<not> has F FLAGS_LONG"
  "pure_flags F \<Longrightarrow> \<not> has F FLAGS_LONG_LONG" "pure_flags F \<Longrightarrow> \<not> has F FLAGS_PRECISION"
  "pure_flags F \<Longrightarrow> \<not> has F FLAGS_POINTER" "pure_flags F \<Longrightarrow> \<not> has F FLAGS_SIGNED" "pure_flags F \<Longrightarrow> \<not> has F FLAGS_UPPERCASE"
  by (simp_all add: pure_flags_def)

lemma unat_u32: "unat (x :: u32) < 4294967296"
  using unsigned_less [of x, where ?'a = nat] by simp

lemma unat_ucast_u64: "unat (ucast (x :: u32) :: u64) = unat x"
  using unat_u32 [of x] by (simp add: unsigned_ucast_eq take_bit_nat_eq_self)

lemma abs_scast: "ABS_FOR_PRINTING (scast (x :: u32)) = word_of_int \<bar>sint x\<bar>" "sint (scast x :: i64) = sint x"
proof -
  have b: "- 2147483648 \<le> sint x" "sint x < 2147483648" using sint_range_size [of x] by (simp_all add: word_size)
  have s: "(scast x :: i64) = word_of_int (sint x)" by (rule scast_eq)
  have "sint (word_of_int k :: i64) = k" if "- 2147483648 \<le> k" "k < 2147483648" for k
    using that by (simp add: signed_of_int signed_take_bit_int_eq_self)
  then show e: "sint (scast x :: i64) = sint x" unfolding s using b by blast
  show "ABS_FOR_PRINTING (scast x) = word_of_int \<bar>sint x\<bar>" unfolding ABS_FOR_PRINTING_def e unfolding s
  proof (cases "0 \<le> sint x")
    case True
    then have "\<bar>sint x\<bar> = sint x" by simp
    then show "(if 0 \<le> sint x then word_of_int (sint x) else - word_of_int (sint x)) = (word_of_int \<bar>sint x\<bar> :: i64)"
      unfolding if_P [OF True] by (rule ssubst) (rule refl)
  next
    case False
    then have "\<bar>sint x\<bar> = - sint x" by simp
    then show "(if 0 \<le> sint x then word_of_int (sint x) else - word_of_int (sint x)) = (word_of_int \<bar>sint x\<bar> :: i64)"
      unfolding if_not_P [OF False] by (rule ssubst) (rule of_int_minus [symmetric])
  qed
qed

lemma unat_abs_u32: "unat (word_of_int \<bar>sint (x :: u32)\<bar> :: u64) = nat \<bar>sint x\<bar>"
proof -
  have b: "- 2147483648 \<le> sint x" "sint x < 2147483648" using sint_range_size [of x] by (simp_all add: word_size)
  then show ?thesis by (simp add: unsigned_of_int take_bit_int_eq_self)
qed

text \<open>The flags in force at a conversion with the precision \<open>p\<close>.\<close>

definition conv_flags :: "format_flag list \<Rightarrow> nat option \<Rightarrow> printf_flags" where
  "conv_flags fl p = (if p = None then flags_of fl else set_flag FLAGS_PRECISION (flags_of fl))"

lemma flags_eqI: "(\<And>n. has F n = has G n) \<Longrightarrow> F = G"
  by (rule bit_word_eqI) (simp add: has_bit)

lemma int_flags_steps:
  assumes "pure_flags F" and F': "F' = (if p = None then F else set_flag FLAGS_PRECISION F)"
  shows "(let f = clear_flag FLAGS_HASH (set_flag FLAGS_SIGNED F') in if has f FLAGS_PRECISION then clear_flag FLAGS_ZEROPAD f else f) =
      int_flags F p (Signed x)"
    and "(let f = clear_flag FLAGS_HASH F' in clear_flag FLAGS_PLUS (clear_flag FLAGS_SPACE
      (if has f FLAGS_PRECISION then clear_flag FLAGS_ZEROPAD f else f))) = int_flags F p (Unsigned x)"
    and "(let f = (if up then set_flag FLAGS_UPPERCASE F' else F') in clear_flag FLAGS_PLUS (clear_flag FLAGS_SPACE
      (if has f FLAGS_PRECISION then clear_flag FLAGS_ZEROPAD f else f))) = int_flags F p (Hex up x)"
    and "clear_flag FLAGS_PLUS (clear_flag FLAGS_SPACE
      (if has F' FLAGS_PRECISION then clear_flag FLAGS_ZEROPAD F' else F')) = int_flags F p (Octal x)"
  using assms(1) by (auto simp: F' int_flags_def Let_def intro!: flags_eqI)

lemma int_flags_high:
  assumes "pure_flags F"
  shows "has (int_flags F p a) FLAGS_PRECISION \<longleftrightarrow> p \<noteq> None" "\<not> has (int_flags F p a) FLAGS_POINTER"
    "\<not> has (int_flags F p a) FLAGS_LONG" "\<not> has (int_flags F p a) FLAGS_LONG_LONG"
    "\<not> has (int_flags F p a) FLAGS_CHAR" "\<not> has (int_flags F p a) FLAGS_SHORT"
    "has (int_flags F p (Signed x)) FLAGS_SIGNED" "\<not> has (int_flags F p (Unsigned x)) FLAGS_SIGNED"
    "\<not> has (int_flags F p (Hex up x)) FLAGS_SIGNED" "\<not> has (int_flags F p (Octal x)) FLAGS_SIGNED"
  using assms by (auto simp: int_flags_def Let_def split: conversion_arg.splits)

lemma print_int_text:
  assumes F: "pure_flags F" and w: "w \<le> 29" and p: "case p of None \<Rightarrow> True | Some n \<Rightarrow> n \<le> 29"
    and v: "unat v < 4294967296" "8 \<le> base"
  shows "print_integer g v neg base (word_or_0 p) (word_of_nat w) (int_flags F p a) =
    puts g (integer_text v neg base (word_or_0 p) (word_of_nat w) (int_flags F p a))"
proof (rule print_integer_text)
  show "2 \<le> base" "unat (word_of_nat w :: u32) \<le> 29" "unat (word_or_0 p) \<le> 29"
    using v(2) w unat_word_or_0 [OF p] by (simp_all add: unat_width)
  show "length (digits_text v base (int_flags F p a)) \<le> 29" by (rule int_text_small [OF v])
  show "has (int_flags F p a) FLAGS_PRECISION \<or> word_or_0 p = 0"
    using int_flags_high(1) [OF F] by (cases p) (simp_all add: word_or_0_def)
  show "has (int_flags F p a) FLAGS_POINTER \<Longrightarrow> base = 16 \<and> v \<noteq> 0" using int_flags_high(2) [OF F] by blast
qed

lemma conv_flags_high [simp]:
  "\<not> has (conv_flags fl p) FLAGS_CHAR" "\<not> has (conv_flags fl p) FLAGS_SHORT" "\<not> has (conv_flags fl p) FLAGS_LONG"
  "\<not> has (conv_flags fl p) FLAGS_LONG_LONG" "\<not> has (conv_flags fl p) FLAGS_SIGNED"
  "has (conv_flags fl p) FLAGS_PRECISION \<longleftrightarrow> p \<noteq> None" "has (conv_flags fl p) (Suc 0) = has (flags_of fl) (Suc 0)"
  using pure_flags_of [of fl] by (auto simp: conv_flags_def)

lemma print_int_spec_text:
  assumes "w \<le> 29" "case p of None \<Rightarrow> True | Some n \<Rightarrow> n \<le> 29"
    and a: "a = Signed x \<or> a = Unsigned x \<or> a = Hex up x \<or> a = Octal x"
  shows "print_int_spec g (conv_char a) (arg_of a # args) (conv_flags fl p) (word_of_nat w) (word_or_0 p) =
    do { g' \<leftarrow> puts g (arg_text (flags_of fl) w p a); Some (g', args) }"
proof -
  let ?F = "flags_of fl"
  note P = pure_flags_of [of fl]
  note st = int_flags_steps [OF P conv_flags_def]
  note hi = int_flags_high [OF P]
  note tx = print_int_text [OF P assms(1,2)]
  have x: "unat (word_of_int \<bar>sint x\<bar> :: u64) < 4294967296"
    using sint_range_size [of x] unfolding unat_abs_u32 by (simp add: word_size nat_less_iff) arith
  note x' = unat_u32 [of x, folded unat_ucast_u64]
  from a consider "a = Signed x" | "a = Unsigned x" | "a = Hex up x" | "a = Octal x" by blast
  then show ?thesis
  proof cases
    case 1
    then show ?thesis using st(1) [where p = p and x = x] hi(1-6) [of p "Signed x"] hi(7) [where p = p and x = x] tx [OF x, where base = 10 and a = "Signed x"]
      by (cases p) (simp_all add: print_int_spec_def Let_def signed_arg_def abs_scast)
  next
    case 2
    then show ?thesis using st(2) [where p = p and x = x] hi(1-6) [of p "Unsigned x"] hi(8) [where p = p and x = x] tx [OF x', where base = 10 and a = "Unsigned x"]
      by (cases p) (simp_all add: print_int_spec_def Let_def unsigned_arg_def)
  next
    case 3
    then show ?thesis using st(3) [where p = p and x = x and up = up] hi(1-6) [of p "Hex up x"] hi(9) [where p = p and x = x and up = up] tx [OF x', where base = 16 and a = "Hex up x"]
      by (cases p; cases up) (simp_all add: print_int_spec_def Let_def unsigned_arg_def)
  next
    case 4
    then show ?thesis using st(4) [where p = p and x = x] hi(1-6) [of p "Octal x"] hi(10) [where p = p and x = x] tx [OF x', where base = 8 and a = "Octal x"]
      by (cases p) (simp_all add: print_int_spec_def Let_def unsigned_arg_def)
  qed
qed


subsection \<open>Characters and strings\<close>

lemma print_char_spec_text:
  assumes "w \<le> 29"
  shows "print_char_spec g (VInt (ucast c) # args) F (word_of_nat w) = do { g' \<leftarrow> puts g (spaced F w [c]); Some (g', args) }"
proof -
  have c: "ucast (ucast c :: u32) = c" by (rule bit_word_eqI) (auto simp: bit_simps)
  show ?thesis using assms
    by (cases "has F FLAGS_LEFT") (simp_all add: print_char_spec_def pad_from_puts spaced_def c puts_append unat_width bind_assoc)
qed

lemma strnlen_text:
  "text_at m s X \<Longrightarrow> strnlen_loop m s k = Some (s + min (length X) (unat k))"
proof (induction X arbitrary: s k)
  case Nil
  then show ?case using text_at_Nil [of m s] by (simp add: strnlen_loop.simps [of m s])
next
  case (Cons b X)
  note t = text_at_Cons [OF Cons.prems]
  show ?case
  proof (cases "k = 0")
    case True
    then show ?thesis using t by (simp add: strnlen_loop.simps [of m s])
  next
    case False
    then have k: "unat k = Suc (unat (k - 1))" by (metis Suc_pred' unat_minus_one unat_gt_0)
    show ?thesis using Cons.IH [of "s + 1" "k - 1"] t False k by (simp add: strnlen_loop.simps [of m s])
  qed
qed

lemma put_string_text:
  "text_at m s X \<Longrightarrow> put_string m g s limited k = puts g (if limited then take (unat k) X else X)"
proof (induction X arbitrary: s k g)
  case Nil
  then show ?case using text_at_Nil [of m s] by (simp add: put_string.simps [of m g s])
next
  case (Cons b X)
  note t = text_at_Cons [OF Cons.prems]
  show ?case
  proof (cases "limited \<and> k = 0")
    case True
    then show ?thesis using t by (simp add: put_string.simps [of m g s])
  next
    case False
    have "limited \<Longrightarrow> unat k = Suc (unat (k - 1))" using False by (metis Suc_pred' unat_minus_one unat_gt_0)
    then show ?thesis using Cons.IH [of "s + 1" _ "k - 1"] t False by (auto simp: put_string.simps [of m g s])
  qed
qed

lemma print_string_spec_text:
  assumes w: "w \<le> 29" and p: "case p of None \<Rightarrow> True | Some n \<Rightarrow> n \<le> 29"
    and a: "q \<noteq> 0" "text_at m (unat q) X" "length X < 2147483648"
  shows "print_string_spec m g (VPtr q # args) (conv_flags fl p) (word_of_nat w) (word_or_0 p) =
    do { g' \<leftarrow> puts g (arg_text (flags_of fl) w p (Str q X)); Some (g', args) }"
proof -
  let ?k = "if word_or_0 p \<noteq> 0 then word_or_0 p else PRINTF_MAX_POSSIBLE_BUFFER_SIZE"
  let ?T = "case p of None \<Rightarrow> X | Some n \<Rightarrow> take n X"
  have u: "unat (word_of_nat n :: u32) = n" if "n < 2147483648" for n
    using that by (simp add: unsigned_of_nat take_bit_nat_eq_self)
  define l where "l = (word_of_nat (min (length X) (unat ?k)) :: u32)"
  have s: "strnlen_s m (unat q) ?k = Some l"
    by (simp add: strnlen_s_def strnlen_text [OF a(2)] l_def)
  have l: "unat l = min (length X) (unat ?k)" unfolding l_def using a(3) by (intro u) simp
  define l' where "l' = (if has (conv_flags fl p) FLAGS_PRECISION then (if l < word_or_0 p then l else word_or_0 p) else l)"
  have l': "unat l' = length ?T"
  proof (cases p)
    case None
    then show ?thesis using l a(3) by (simp add: l'_def word_or_0_def PRINTF_MAX_POSSIBLE_BUFFER_SIZE_def)
  next
    case (Some n)
    then have n: "unat (word_or_0 p) = n" "n \<le> 29" using p by (simp_all add: word_or_0_def unat_width)
    show ?thesis
    proof (cases "n = 0")
      case True
      then show ?thesis using Some n by (simp add: l'_def word_or_0_def)
    next
      case False
      then have "word_or_0 p \<noteq> 0" using n by auto
      then show ?thesis using Some n l by (auto simp: l'_def word_less_nat_alt)
    qed
  qed
  have put: "put_string m g (unat q) (has (conv_flags fl p) FLAGS_PRECISION) (word_or_0 p) = puts g ?T" for g
    using p by (cases p) (simp_all add: put_string_text [OF a(2)] word_or_0_def unat_width)
  have sp: "spaced (conv_flags fl p) w ?T = spaced (flags_of fl) w ?T" by (simp add: spaced_def)
  show ?thesis using a(1) w
    unfolding print_string_spec_def va_ptr.simps bind.bind_lunit Let_def s prod.case l'_def [symmetric] put
    by (cases "has (flags_of fl) FLAGS_LEFT")
      (simp_all add: s [unfolded if_distrib] put l'_def [symmetric] pad_from_puts l' spaced_def puts_append unat_width bind_assoc)
qed

lemma conversion_text:
  assumes c: "ld8 m s = Some (conv_char a)" and w: "w \<le> 29" and p: "case p of None \<Rightarrow> True | Some n \<Rightarrow> n \<le> 29"
    and a: "arg_ok m a"
  shows "conversion m g s (arg_of a # args) (conv_flags fl p) (word_of_nat w) (word_or_0 p) =
    do { g' \<leftarrow> puts g (arg_text (flags_of fl) w p a); Some (m, g', s + 1, args) }"
proof (cases a)
  case (Char ch)
  have sp: "spaced (conv_flags fl p) w [ch] = spaced (flags_of fl) w [ch]" by (simp add: spaced_def)
  show ?thesis using c Char print_char_spec_text [OF w, of g ch args "conv_flags fl p"]
    by (simp add: conversion_def sp bind_assoc)
next
  case (Str q X)
  then show ?thesis using c a print_string_spec_text [OF w p, of q m X g args fl]
    by (simp add: conversion_def bind_assoc)
next
  case (Signed x)
  then show ?thesis using c print_int_spec_text [OF w p, of a x _ g args fl]
    by (simp add: conversion_def bind_assoc)
next
  case (Unsigned x)
  then show ?thesis using c print_int_spec_text [OF w p, of a x _ g args fl]
    by (simp add: conversion_def bind_assoc)
next
  case (Hex up x)
  then show ?thesis using c print_int_spec_text [OF w p, of a x up g args fl]
    by (cases up) (simp_all add: conversion_def bind_assoc)
next
  case (Octal x)
  then show ?thesis using c print_int_spec_text [OF w p, of a x _ g args fl]
    by (simp add: conversion_def bind_assoc)
qed

section \<open>The whole format\<close>

lemma loop_text:
  "text_at m s (t @ R) \<Longrightarrow> 37 \<notin> set t \<Longrightarrow>
   format_string_loop m g s args = do { g' \<leftarrow> puts g t; format_string_loop m g' (s + length t) args }"
proof (induction t arbitrary: s g)
  case (Cons b t)
  note t = text_at_Cons [of m s b "t @ R"]
  have "format_string_loop m g s args = do { g' \<leftarrow> putchar_via_gadget g b; format_string_loop m g' (s + 1) args }"
    unfolding format_string_loop.simps [of m g s args] using t Cons.prems by auto
  also have "\<dots> = do { g' \<leftarrow> putchar_via_gadget g b; g' \<leftarrow> puts g' t; format_string_loop m g' (s + 1 + length t) args }"
    using Cons.IH [of "s + 1"] t Cons.prems by simp
  finally show ?case by (simp add: bind_assoc)
qed simp

lemma loop_directive:
  assumes "text_at m s (37 # R)" "directive m g s args = do { g' \<leftarrow> puts g T; Some (Go (m, g', s', args')) }"
  shows "format_string_loop m g s args = do { g' \<leftarrow> puts g T; format_string_loop m g' s' args' }"
  unfolding format_string_loop.simps [of m g s args] using text_at_Cons [OF assms(1)] assms(2)
  by (simp add: bind_assoc)

lemma loop_percent:
  assumes "text_at m s (37 # 37 # R)"
  shows "format_string_loop m g s args = do { g' \<leftarrow> puts g [37]; format_string_loop m g' (s + 2) args }"
proof (rule loop_directive [OF assms])
  note t1 = text_at_Cons [OF assms] note t2 = text_at_Cons [OF conjunct2 [OF conjunct2 [OF t1]]]
  have adv: "advance m s = Some (Go (s + 1))" using t2 by (auto simp: mem_simps)
  have fl: "parse_flags m (s + 1) = Some (0, s + 1)"
    using t2 by (simp add: parse_flags_def parse_flags_loop.simps [of m "Suc s"])
  have w: "parse_width m (s + 1) args 0 = Some (Go (s + 1, args, 0, 0))"
    using t2 by (simp add: parse_width_def is_digit_char_def)
  have p: "parse_precision m (s + 1) args 0 = Some (Go (s + 1, args, 0, 0))" using t2 by (simp add: parse_precision_def)
  have l: "parse_length m (s + 1) 0 = Some (Go (s + 1, 0))" using t2 by (simp add: parse_length_def)
  have c: "conversion m g (s + 1) args 0 0 0 = do { g' \<leftarrow> puts g [37]; Some (m, g', s + 2, args) }"
    using t2 by (simp add: conversion_def)
  show "directive m g s args = do { g' \<leftarrow> puts g [37]; Some (Go (m, g', s + 2, args)) }"
    unfolding directive_def adv go_step fl bind.bind_lunit prod.case w p l c by (simp add: bind_assoc)
qed

lemma loop_conv:
  assumes "text_at m s (format_of (Conv fl w p a) @ R)" "piece_ok m (Conv fl w p a)"
  shows "format_string_loop m g s (arg_of a # args) =
    do { g' \<leftarrow> puts g (text_of (Conv fl w p a)); format_string_loop m g' (s + length (format_of (Conv fl w p a))) args }"
proof -
  let ?X = "map flag_char fl @ width_text w @ precision_text p"
  have t: "text_at m s (37 # map flag_char fl @ width_text w @ precision_text p @ conv_char a # R)"
    using assms(1) by (simp add: width_text_def)
  have "text_at m s ((37 # ?X) @ conv_char a # R)" using t by simp
  from text_at_Cons [OF text_at_append [OF this]]
  have c: "ld8 m (s + length ?X + 1) = Some (conv_char a)" by simp
  have n: "s + length ?X + 1 + 1 = s + length (format_of (Conv fl w p a))" by (simp add: width_text_def)
  have "directive m g s (arg_of a # args) = do { g' \<leftarrow> puts g (text_of (Conv fl w p a));
      Some (Go (m, g', s + length (format_of (Conv fl w p a)), args)) }"
    unfolding directive_text [OF t] conv_flags_def [symmetric] n [symmetric]
    using conversion_text [OF c, of w p g args fl] assms(2) by (simp add: bind_assoc)
  with t show ?thesis by (rule loop_directive)
qed

lemma loop_pieces:
  assumes "text_at m s (concat (map format_of ps) @ R)" "\<forall>x\<in>set ps. piece_ok m x"
  shows "format_string_loop m g s (concat (map args_of ps) @ args) =
    do { g' \<leftarrow> puts g (concat (map text_of ps)); format_string_loop m g' (s + length (concat (map format_of ps))) args }"
  using assms
proof (induction ps arbitrary: s g)
  case (Cons x ps)
  let ?S = "concat (map format_of ps)" let ?A = "concat (map args_of ps) @ args"
  have t: "text_at m s (format_of x @ ?S @ R)" using Cons.prems(1) by simp
  have step: "format_string_loop m g s (args_of x @ ?A) =
      do { g' \<leftarrow> puts g (text_of x); format_string_loop m g' (s + length (format_of x)) ?A }"
  proof (cases x)
    case (Text t')
    then show ?thesis using loop_text [of m s t' "?S @ R" g ?A] t Cons.prems(2) by simp
  next
    case Percent
    then show ?thesis using loop_percent [of m s "?S @ R" g ?A] t by simp
  next
    case (Conv fl w p a)
    then show ?thesis using loop_conv [of m s fl w p a "?S @ R" g ?A] t Cons.prems(2) by simp
  qed
  have "text_at m (s + length (format_of x)) (?S @ R)" using text_at_append [OF t] .
  with Cons.IH Cons.prems(2)
  have "format_string_loop m g' (s + length (format_of x)) ?A = do { g'' \<leftarrow> puts g' (concat (map text_of ps));
      format_string_loop m g'' (s + length (format_of x) + length ?S) args }" for g' by simp
  then show ?case using step by (simp add: puts_append bind_assoc add.assoc)
qed simp

text \<open>A format of pieces is printed as the text of its pieces.\<close>

lemma format_pieces:
  assumes "text_at m s (concat (map format_of ps))" "\<forall>x\<in>set ps. piece_ok m x"
  shows "format_string_loop m g s (concat (map args_of ps)) =
    do { g' \<leftarrow> puts g (concat (map text_of ps)); Some (m, g') }"
proof -
  have t: "text_at m s (concat (map format_of ps) @ [])" using assms(1) by simp
  have "ld8 m (s + length (concat (map format_of ps))) = Some 0"
    using text_at_Nil [OF text_at_append [OF t]] .
  then have e: "format_string_loop m g' (s + length (concat (map format_of ps))) [] = Some (m, g')" for g'
    by (simp add: format_string_loop.simps [of m g' "s + length (concat (map format_of ps))"])
  show ?thesis using loop_pieces [OF t assms(2), of g "[]"] by (simp add: e)
qed

lemma vsnprintf_pieces:
  assumes f: "text_at m s (concat (map format_of ps))" "\<forall>x\<in>set ps. piece_ok m x"
    and n: "n \<le> PRINTF_MAX_POSSIBLE_BUFFER_SIZE" "unat n \<le> length b"
    and T: "T = concat (map text_of ps)" "length T < 2147483648"
  shows "\<exists>g. vsnprintf m (Some b) n s (concat (map args_of ps)) = Some (m, g, int (length T)) \<and>
    out_buf g = Some (if n = 0 then b else put_bytes b 0 (take (unat n - 1) T @ [0]))"
proof (rule vsnprintf_prints(2) [OF _ n refl])
  fix g :: gadget
  show "format_string_loop m g s (concat (map args_of ps)) =
      do { (m, T) \<leftarrow> Some (m, T); g' \<leftarrow> puts g T; Some (m, g') }"
    using format_pieces [OF f] T(1) by simp
  show "length T < 2 ^ 31" using T(2) by simp
qed

text \<open>
  C37: a format made of plain text, \<open>%%\<close> and the conversions \<open>d u x X o c s\<close>, with any flags, any
  width and any precision up to 29, prints exactly the text C11 7.21.6.1 prescribes for it,
  truncated to the buffer and terminated, and \<open>vsnprintf\<close> returns the length of that text. The
  pieces take their arguments in order.
\<close>

theorem format_correct:
  assumes "text_at m s (concat (map format_of ps))" "\<forall>x\<in>set ps. piece_ok m x"
    and "n \<le> PRINTF_MAX_POSSIBLE_BUFFER_SIZE" "unat n \<le> length b"
    and "T = concat (map text_of ps)" "length T < 2147483648"
  shows "\<exists>g. vsnprintf m (Some b) n s (concat (map args_of ps)) = Some (m, g, int (length T)) \<and>
    out_buf g = Some (if n = 0 then b else put_bytes b 0 (take (unat n - 1) T @ [0]))"
  using assms by (rule vsnprintf_pieces)

theorem format_correct_witness:
  "\<exists>g. vsnprintf [97, 37, 45, 51, 120, 37, 37, 0] (Some [9, 9, 9, 9, 9, 9, 9]) 7 0 [VInt 171] =
      Some ([97, 37, 45, 51, 120, 37, 37, 0], g, 5) \<and> out_buf g = Some [97, 97, 98, 32, 37, 0, 9]"
proof -
  let ?m = "[97, 37, 45, 51, 120, 37, 37, 0] :: mem"
  let ?ps = "[Text [97], Conv [Left_Align] 3 None (Hex False 171), Percent]"
  have d: "decimal 3 = [51]" by (simp add: decimal.simps)
  have f: "concat (map format_of ?ps) = [97, 37, 45, 51, 120, 37, 37]" by (simp add: d)
  have t: "text_at ?m 0 (concat (map format_of ?ps))" unfolding f by (simp add: text_at_def terminated_def cstr_def)
  have T: "concat (map text_of ?ps) = [97, 97, 98, 32, 37]" by code_simp
  have n: "(7 :: u32) \<le> PRINTF_MAX_POSSIBLE_BUFFER_SIZE" "unat (7 :: u32) \<le> length [9, 9, 9, 9, 9, 9, 9 :: u8]"
    by (simp_all add: PRINTF_MAX_POSSIBLE_BUFFER_SIZE_def)
  have k: "\<forall>x\<in>set ?ps. piece_ok ?m x" by simp
  show ?thesis using format_correct [OF t k n T [symmetric]] by (simp add: put_bytes_def)
qed

section \<open>Reading back a printed number\<close>

lemma numeral_text_decimal: "numeral_text (digit_char F) 10 n = decimal n"
proof (induction n rule: decimal.induct)
  case (1 n)
  have d: "digit_char F k = 48 + word_of_nat k" if "k < 10" for k using that by (simp add: digit_char_def)
  show ?case using 1 d [of n] d [of "n mod 10"] by (simp add: decimal.simps [of n] numeral_text.simps [of _ _ n])
qed

definition int_decimal :: "int \<Rightarrow> u8 list" where
  "int_decimal k = (if k < 0 then 45 # decimal (nat (- k)) else decimal (nat k))"

lemma signed_text: "arg_text (flags_of []) 0 None (Signed x) = int_decimal (sint x)"
proof -
  have n: "nat \<bar>sint x\<bar> = (if sint x < 0 then nat (- sint x) else nat (sint x))" by auto
  have F: "\<not> has (int_flags 0 None (Signed x)) k" if "k \<noteq> 14" for k
    using that by (simp add: int_flags_def Let_def)
  show ?thesis
    by (simp add: integer_text_def digits_text_def zeros_wanted_def word_or_0_def alternative_form_def integer_body_def
        flags_of_def F sign_text_def in_field_def left_pad_def right_pad_def numeral_text_decimal unat_abs_u32 n int_decimal_def)
qed

lemma decimal_no_zero: "0 \<notin> set (decimal n)"
  using decimal_digits [of n] by (auto simp: is_digit_def)

lemma int_decimal_no_zero: "0 \<notin> set (int_decimal k)"
  using decimal_no_zero by (simp add: int_decimal_def)

lemma length_decimal: "n < 10 ^ k \<Longrightarrow> 0 < k \<Longrightarrow> length (decimal n) \<le> k"
  using length_numeral_text [of k n 10 "digit_char 0"] by (simp add: numeral_text_decimal)

lemma length_int_decimal: "length (int_decimal (sint (x :: u32))) \<le> 11"
proof -
  have "- 2147483648 \<le> sint x" "sint x < 2147483648" using sint_range_size [of x] by (simp_all add: word_size)
  then have "nat (- sint x) < 10 ^ 10" "nat (sint x) < 10 ^ 10" by simp_all
  then show ?thesis using length_decimal [of _ 10] by (fastforce simp: int_decimal_def)
qed

lemma text_at_put_bytes:
  assumes "0 \<notin> set T" "length T < length b"
  shows "text_at (put_bytes b 0 (T @ [0])) 0 T"
proof -
  have "takeWhile (\<lambda>c. c \<noteq> 0) (T @ 0 # R) = T" for R using assms(1) by (induction T) auto
  then show ?thesis by (simp add: text_at_def terminated_def cstr_def put_bytes_def)
qed

lemma atoi_int_decimal:
  assumes "text_at m p (int_decimal k)" "- 2147483648 \<le> k" "k < 2147483648"
  shows "atoi m p = Some k"
proof (cases "k < 0")
  case False
  then show ?thesis using assms atoi_decimal [of m p "nat k" "[]"] by (simp add: int_decimal_def)
next
  case True
  let ?D = "decimal (nat (- k))"
  have t: "cstr m p = 45 # ?D" "terminated m p" using assms(1) True by (simp_all add: text_at_def int_decimal_def)
  have "takeWhile (is_digit_in 10) ?D = ?D" using decimal_digits by (simp add: is_digit_iff)
  then have "int_text 10 (cstr m p) = (True, 1, ?D)" by (simp add: int_text_def t(1) c_isspace_def)
  from atoi_spec [OF t(2) this refl] show ?thesis using True assms(2) by (simp add: num_value_decimal)
qed

text \<open>
  C39: an \<open>int\<close> printed with \<open>snprintf\<close> and \<open>%d\<close> into 12 bytes or more is read back by \<open>atoi\<close>,
  \<open>INT_MIN\<close> included.
\<close>

theorem snprintf_atoi_roundtrip:
  assumes "text_at m s [37, 100]" "12 \<le> unat n" "n \<le> PRINTF_MAX_POSSIBLE_BUFFER_SIZE" "unat n \<le> length b"
  shows "\<exists>g b' r. snprintf m (Some b) n s [VInt x] = Some (m, g, r) \<and> out_buf g = Some b' \<and> atoi b' 0 = Some (sint x)"
proof -
  let ?p = "[Conv [] 0 None (Signed x)]" and ?T = "int_decimal (sint x)"
  have f: "text_at m s (concat (map format_of ?p))" using assms(1) by simp
  have T: "?T = concat (map text_of ?p)" by (simp only: list.map concat.simps text_of.simps signed_text append_Nil2)
  have l: "length ?T \<le> 11" by (rule length_int_decimal)
  have n: "n \<noteq> 0" "take (unat n - 1) ?T = ?T" using l assms(2) by auto
  have "length ?T < 2147483648" using l by simp
  then obtain g where g: "vsnprintf m (Some b) n s [VInt x] = Some (m, g, int (length ?T))"
    "out_buf g = Some (put_bytes b 0 (?T @ [0]))"
    using vsnprintf_pieces [OF f _ assms(3,4) T] unfolding n(2) if_not_P [OF n(1)] by auto
  have "text_at (put_bytes b 0 (?T @ [0])) 0 ?T" using l assms(2,4) by (intro text_at_put_bytes int_decimal_no_zero) simp
  then have "atoi (put_bytes b 0 (?T @ [0])) 0 = Some (sint x)"
    using sint_range_size [of x] by (intro atoi_int_decimal) (simp_all add: word_size)
  with g show ?thesis by (auto simp: snprintf_def)
qed

theorem snprintf_atoi_roundtrip_witness:
  "\<exists>g b' r. snprintf [37, 100, 0] (Some (replicate 12 9)) 12 0 [VInt 0x80000000] = Some ([37, 100, 0], g, r) \<and>
     out_buf g = Some b' \<and> atoi b' 0 = Some (- 2147483648)"
proof -
  have "text_at [37, 100, 0] 0 [37, 100]" by (simp add: text_at_def terminated_def cstr_def)
  from snprintf_atoi_roundtrip [OF this, of 12 "replicate 12 9" "0x80000000"]
  show ?thesis by (simp add: PRINTF_MAX_POSSIBLE_BUFFER_SIZE_def)
qed

section \<open>Where the code departs from C\<close>

text \<open>
  A format that ends inside the flags or the digits of a width reaches the terminator as if it
  were a conversion, and the interpreter goes on past it.
\<close>

lemma format_overrun: "format_string_loop [37, 53, 0] function_gadget 0 [] = None"
  by code_simp

text \<open>A string with a precision is read one byte past it, so it must be terminated after all.\<close>

lemma string_overrun:
  "format_string_loop [37, 46, 50, 115, 0, 97, 98] function_gadget 0 [VPtr 5] = None"
  by code_simp

text \<open>\<open>%lln\<close> stores four bytes: the flag of \<open>l\<close> stays set, and it is tested first.\<close>

lemma write_back_long_long:
  "has flags FLAGS_LONG \<Longrightarrow> \<not> has flags FLAGS_CHAR \<Longrightarrow> \<not> has flags FLAGS_SHORT \<Longrightarrow>
   write_back m [VPtr p] flags pos = do { m \<leftarrow> st32 m (unat p) pos; Some (m, []) }"
  by (simp add: write_back_def Let_def)

text \<open>A value of more than 32 binary digits loses the leading ones.\<close>

lemma numeral_text_power_2: "numeral_text f 2 (2 ^ k) = f 1 # replicate k (f 0)"
proof (induction k)
  case (Suc k)
  have "\<not> (2 :: nat) ^ Suc k < 2" by simp
  then show ?case using Suc by (simp add: numeral_text.simps [of f 2 "2 * 2 ^ k"] replicate_append_same)
qed (simp add: numeral_text.simps)

lemma binary_truncated: "print_integer g 0x100000000 False 2 0 0 0 = puts g (replicate 32 48)"
proof -
  have B: "PRINTF_INTEGER_BUFFER_SIZE = 32" by (simp add: PRINTF_INTEGER_BUFFER_SIZE_def)
  have "numeral_text (digit_char 0) 2 4294967296 = digit_char 0 1 # replicate 32 (digit_char 0 0)"
    using numeral_text_power_2 [of "digit_char 0" 32] by simp
  then have d: "print_digits [] 4294967296 2 0 = Some (replicate 32 48)"
    using print_digits_text [of "[]" 2 4294967296 0] by (simp add: B digit_char_def)
  have z: "pad_zeros (replicate 32 48) 0 = Some (replicate 32 48)" by (subst pad_zeros_text) (simp_all add: B)
  have "print_integer g 0x100000000 False 2 0 0 0 = out_rev g (replicate 32 48) 0 0"
    by (simp add: print_integer_def d print_integer_finalization_def Let_def z print_sign_def B)
  then show ?thesis by (simp add: out_rev_puts in_field_def left_pad_def right_pad_def)
qed

text \<open>
  In the exponential notation of large numbers a precision above 17 indexes past the table of
  powers: the limit on the precision is applied only after that branch.
\<close>

lemma normalized_overrun:
  assumes "18 \<le> unat precision" "- e + sint precision < 307"
  shows "get_normalized_components negative precision x n e = None"
proof -
  have "rd powers_of_10 (unat precision) = None" using assms(1) by (simp add: rd_def powers_of_10_def)
  then show ?thesis using assms(2) by (simp add: get_normalized_components_def Let_def)
qed

end
