(* ===== verification/VecDistance.thy ===== *)
theory VecDistance
  imports Ieee
begin

text \<open>
  The distance functions of \<^verbatim>\<open>extensions/sqlite-vec/cc/sqlite-vec.c\<close>, as they are compiled for
  WebAssembly (without NEON and AVX). A vector is its bytes; reading past them is \<open>None\<close>, and so is
  a signed overflow. The functions take the number of dimensions where the code takes its address.
\<close>

section \<open>Loops and elements\<close>

text \<open>\<open>for (i = start; n iterations; i++) body\<close>\<close>

fun for_loop :: "(nat \<Rightarrow> 's \<Rightarrow> 's option) \<Rightarrow> nat \<Rightarrow> nat \<Rightarrow> 's \<Rightarrow> 's option" where
  "for_loop body i 0 s = Some s"
| "for_loop body i (Suc n) s = do { s \<leftarrow> body i s; for_loop body (i + 1) n s }"

lemma for_loop_invariant:
  assumes "I i s" "\<And>j s. i \<le> j \<Longrightarrow> j < i + n \<Longrightarrow> I j s \<Longrightarrow> \<exists>s'. body j s = Some s' \<and> I (j + 1) s'"
  shows "\<exists>s'. for_loop body i n s = Some s' \<and> I (i + n) s'"
  using assms
proof (induction n arbitrary: i s)
  case (Suc n)
  obtain s1 where s1: "body i s = Some s1" "I (i + 1) s1" using Suc.prems(2) [of i s] Suc.prems(1) by auto
  have "\<exists>s'. for_loop body (i + 1) n s1 = Some s' \<and> I (i + 1 + n) s'"
    by (rule Suc.IH [OF s1(2)]) (use Suc.prems(2) in auto)
  then show ?case using s1(1) by simp
qed simp

lemma for_loop_cong:
  "(\<And>j s. i \<le> j \<Longrightarrow> j < i + n \<Longrightarrow> f j s = g j s) \<Longrightarrow> for_loop f i n s = for_loop g i n s"
  by (induction n arbitrary: i s) (auto intro!: Option.bind_cong)

definition f32_at :: "u8 list \<Rightarrow> nat \<Rightarrow> f32 option" where
  "f32_at v i = ld32 v (4 * i)"

definition i8_at :: "u8 list \<Rightarrow> nat \<Rightarrow> int option" where
  "i8_at v i = map_option sint (rd v i)"

definition u64_at :: "u8 list \<Rightarrow> nat \<Rightarrow> u64 option" where
  "u64_at v i = do { lo \<leftarrow> ld32 v (8 * i); hi \<leftarrow> ld32 v (8 * i + 4); Some (ucast lo OR push_bit 32 (ucast hi)) }"

text \<open>An \<open>int\<close> overflow is undefined.\<close>

definition i32_add :: "int \<Rightarrow> int \<Rightarrow> int option" where
  "i32_add x y = (if - 2147483648 \<le> x + y \<and> x + y < 2147483648 then Some (x + y) else None)"

section \<open>Euclidean and Manhattan distance\<close>

definition l2_sqr_float :: "u8 list \<Rightarrow> u8 list \<Rightarrow> nat \<Rightarrow> f32 option" where
  "l2_sqr_float a b qty = do {
     res \<leftarrow> for_loop (\<lambda>i res. do {
       x \<leftarrow> f32_at a i; y \<leftarrow> f32_at b i;
       let t = f32_sub x y;
       Some (f32_add res (f32_mul t t)) }) 0 qty 0;
     Some (f32_of_f64 (f64_sqrt (f64_of_f32 res))) }"

definition l2_sqr_int8 :: "u8 list \<Rightarrow> u8 list \<Rightarrow> nat \<Rightarrow> f32 option" where
  "l2_sqr_int8 a b d = do {
     res \<leftarrow> for_loop (\<lambda>i res. do {
       x \<leftarrow> i8_at a i; y \<leftarrow> i8_at b i;
       let t = f32_of_int (x - y);
       Some (f32_add res (f32_mul t t)) }) 0 d 0;
     Some (f32_of_f64 (f64_sqrt (f64_of_f32 res))) }"

definition distance_l2_sqr_float :: "u8 list \<Rightarrow> u8 list \<Rightarrow> nat \<Rightarrow> f32 option" where
  "distance_l2_sqr_float a b d = l2_sqr_float a b d"

definition distance_l2_sqr_int8 :: "u8 list \<Rightarrow> u8 list \<Rightarrow> nat \<Rightarrow> f32 option" where
  "distance_l2_sqr_int8 a b d = l2_sqr_int8 a b d"

definition l1_int8 :: "u8 list \<Rightarrow> u8 list \<Rightarrow> nat \<Rightarrow> int option" where
  "l1_int8 a b d =
     for_loop (\<lambda>i res. do { x \<leftarrow> i8_at a i; y \<leftarrow> i8_at b i; i32_add res \<bar>x - y\<bar> }) 0 d 0"

definition distance_l1_int8 :: "u8 list \<Rightarrow> u8 list \<Rightarrow> nat \<Rightarrow> int option" where
  "distance_l1_int8 a b d = l1_int8 a b d"

definition l1_f32 :: "u8 list \<Rightarrow> u8 list \<Rightarrow> nat \<Rightarrow> f64 option" where
  "l1_f32 a b d =
     for_loop (\<lambda>i res. do {
       x \<leftarrow> f32_at a i; y \<leftarrow> f32_at b i;
       Some (f64_add res (f64_abs (f64_sub (f64_of_f32 x) (f64_of_f32 y)))) }) 0 d 0"

definition distance_l1_f32 :: "u8 list \<Rightarrow> u8 list \<Rightarrow> nat \<Rightarrow> f64 option" where
  "distance_l1_f32 a b d = l1_f32 a b d"

section \<open>Cosine distance\<close>

definition cosine_of :: "f32 \<Rightarrow> f32 \<Rightarrow> f32 \<Rightarrow> f32" where
  "cosine_of dot aMag bMag = f32_of_f64 (f64_sub (f64_of_int 1)
     (f64_div (f64_of_f32 dot) (f64_mul (f64_sqrt (f64_of_f32 aMag)) (f64_sqrt (f64_of_f32 bMag)))))"

definition distance_cosine_float :: "u8 list \<Rightarrow> u8 list \<Rightarrow> nat \<Rightarrow> f32 option" where
  "distance_cosine_float a b qty = do {
     (dot, aMag, bMag) \<leftarrow> for_loop (\<lambda>i (dot, aMag, bMag). do {
       x \<leftarrow> f32_at a i; y \<leftarrow> f32_at b i;
       Some (f32_add dot (f32_mul x y), f32_add aMag (f32_mul x x), f32_add bMag (f32_mul y y)) }) 0 qty (0, 0, 0);
     Some (cosine_of dot aMag bMag) }"

definition distance_cosine_int8 :: "u8 list \<Rightarrow> u8 list \<Rightarrow> nat \<Rightarrow> f32 option" where
  "distance_cosine_int8 a b d = do {
     (dot, aMag, bMag) \<leftarrow> for_loop (\<lambda>i (dot, aMag, bMag). do {
       x \<leftarrow> i8_at a i; y \<leftarrow> i8_at b i;
       Some (f32_add dot (f32_of_int (x * y)), f32_add aMag (f32_of_int (x * x)), f32_add bMag (f32_of_int (y * y))) })
       0 d (0, 0, 0);
     Some (cosine_of dot aMag bMag) }"

section \<open>Hamming distance\<close>

definition hamdist_table :: "int list" where
  "hamdist_table = [
    0, 1, 1, 2, 1, 2, 2, 3, 1, 2, 2, 3, 2, 3, 3, 4, 1, 2, 2, 3, 2, 3, 3, 4,
    2, 3, 3, 4, 3, 4, 4, 5, 1, 2, 2, 3, 2, 3, 3, 4, 2, 3, 3, 4, 3, 4, 4, 5,
    2, 3, 3, 4, 3, 4, 4, 5, 3, 4, 4, 5, 4, 5, 5, 6, 1, 2, 2, 3, 2, 3, 3, 4,
    2, 3, 3, 4, 3, 4, 4, 5, 2, 3, 3, 4, 3, 4, 4, 5, 3, 4, 4, 5, 4, 5, 5, 6,
    2, 3, 3, 4, 3, 4, 4, 5, 3, 4, 4, 5, 4, 5, 5, 6, 3, 4, 4, 5, 4, 5, 5, 6,
    4, 5, 5, 6, 5, 6, 6, 7, 1, 2, 2, 3, 2, 3, 3, 4, 2, 3, 3, 4, 3, 4, 4, 5,
    2, 3, 3, 4, 3, 4, 4, 5, 3, 4, 4, 5, 4, 5, 5, 6, 2, 3, 3, 4, 3, 4, 4, 5,
    3, 4, 4, 5, 4, 5, 5, 6, 3, 4, 4, 5, 4, 5, 5, 6, 4, 5, 5, 6, 5, 6, 6, 7,
    2, 3, 3, 4, 3, 4, 4, 5, 3, 4, 4, 5, 4, 5, 5, 6, 3, 4, 4, 5, 4, 5, 5, 6,
    4, 5, 5, 6, 5, 6, 6, 7, 3, 4, 4, 5, 4, 5, 5, 6, 4, 5, 5, 6, 5, 6, 6, 7,
    4, 5, 5, 6, 5, 6, 6, 7, 5, 6, 6, 7, 6, 7, 7, 8]"

definition distance_hamming_u8 :: "u8 list \<Rightarrow> u8 list \<Rightarrow> nat \<Rightarrow> f32 option" where
  "distance_hamming_u8 a b n = do {
     same \<leftarrow> for_loop (\<lambda>i same. do {
       x \<leftarrow> rd a i; y \<leftarrow> rd b i; h \<leftarrow> rd hamdist_table (unat (x XOR y)); i32_add same h }) 0 n 0;
     Some (f32_of_int same) }"

text \<open>\<open>unsigned long\<close> has 32 bits on WebAssembly, so \<open>__builtin_popcountl\<close> counts the low half.\<close>

definition popcountl :: "u64 \<Rightarrow> int" where
  "popcountl x = int (length (filter (bit (ucast x :: u32)) [0..<32]))"

definition distance_hamming_u64 :: "u8 list \<Rightarrow> u8 list \<Rightarrow> nat \<Rightarrow> f32 option" where
  "distance_hamming_u64 a b n = do {
     same \<leftarrow> for_loop (\<lambda>i same. do { x \<leftarrow> u64_at a i; y \<leftarrow> u64_at b i; i32_add same (popcountl (x XOR y)) }) 0 n 0;
     Some (f32_of_int same) }"

definition distance_hamming :: "u8 list \<Rightarrow> u8 list \<Rightarrow> nat \<Rightarrow> f32 option" where
  "distance_hamming a b dimensions =
     (if dimensions mod 64 = 0 then distance_hamming_u64 a b (dimensions div 8 div 8)
      else distance_hamming_u8 a b (dimensions div 8))"

section \<open>Hamming distance: correctness\<close>

definition vbit :: "u8 list \<Rightarrow> nat \<Rightarrow> bool" where
  "vbit v i \<longleftrightarrow> bit (v ! (i div 8)) (i mod 8)"

text \<open>The positions where two bit vectors differ, among those \<open>P\<close> admits.\<close>

definition differing :: "(nat \<Rightarrow> bool) \<Rightarrow> u8 list \<Rightarrow> u8 list \<Rightarrow> nat \<Rightarrow> nat" where
  "differing P a b n = card {i. i < n \<and> P i \<and> vbit a i \<noteq> vbit b i}"

lemma card_block:
  "card {i. i < k * Suc n \<and> P i} = card {i. i < k * n \<and> P i} + card {j. j < k \<and> P (k * n + j)}"
proof -
  have "{i. i < k * Suc n \<and> P i} = {i. i < k * n \<and> P i} \<union> (+) (k * n) ` {j. j < k \<and> P (k * n + j)}" (is "_ = ?A \<union> ?B")
  proof -
    have "i \<in> ?A \<union> ?B" if "i < k * Suc n" "P i" for i
      using that by (cases "i < k * n") (auto simp: image_iff intro!: exI [of _ "i - k * n"])
    then show ?thesis by auto
  qed
  moreover have "card (?A \<union> ?B) = card ?A + card ?B" by (rule card_Un_disjoint) auto
  moreover have "card ?B = card {j. j < k \<and> P (k * n + j)}" by (rule card_image) simp
  ultimately show ?thesis by simp
qed

lemma length_filter_card: "length (filter P [0..<k]) = card {j. j < k \<and> P j}"
proof -
  have "length (filter P [0..<k]) = card (set (filter P [0..<k]))" by (rule distinct_card [symmetric]) simp
  also have "set (filter P [0..<k]) = {j. j < k \<and> P j}" by auto
  finally show ?thesis .
qed

lemma hamdist_table_popcount: "hamdist_table = map (\<lambda>k. int (length (filter (bit (word_of_nat k :: u8)) [0..<8]))) [0..<256]"
  by code_simp

lemma hamdist_table_nth: "rd hamdist_table (unat (x :: u8)) = Some (int (card {j. j < 8 \<and> bit x j}))"
proof -
  have "unat x < 256" using unsigned_less [of x, where ?'a = nat] by simp
  then show ?thesis unfolding hamdist_table_popcount by (simp add: length_filter_card)
qed

lemma differing_le: "differing P a b n \<le> n"
proof -
  have "card {i. i < n \<and> P i \<and> vbit a i \<noteq> vbit b i} \<le> card {..<n}" by (rule card_mono) auto
  then show ?thesis by (simp add: differing_def)
qed

lemma hamming_loop:
  assumes step: "\<And>i s. i < n \<Longrightarrow> f i s = i32_add s (int (card {j. j < k \<and> P (k * i + j) \<and> vbit a (k * i + j) \<noteq> vbit b (k * i + j)}))"
    and n: "k * n < 2147483648"
  shows "for_loop f 0 n 0 = Some (int (differing P a b (k * n)))"
proof -
  have "\<exists>s'. for_loop f 0 n 0 = Some s' \<and> s' = int (differing P a b (k * (0 + n)))"
  proof (rule for_loop_invariant)
    show "(0 :: int) = int (differing P a b (k * 0))" by (simp add: differing_def)
  next
    fix i s assume i: "i < 0 + n" and s: "s = int (differing P a b (k * i))"
    let ?c = "card {j. j < k \<and> P (k * i + j) \<and> vbit a (k * i + j) \<noteq> vbit b (k * i + j)}"
    have d: "differing P a b (k * Suc i) = differing P a b (k * i) + ?c"
      using card_block [of k i "\<lambda>i. P i \<and> vbit a i \<noteq> vbit b i"] by (simp add: differing_def)
    have "k * Suc i \<le> k * n" using i by (intro mult_le_mono2) simp
    then have "differing P a b (k * Suc i) < 2147483648"
      using differing_le [of P a b "k * Suc i"] n by linarith
    then show "\<exists>s'. f i s = Some s' \<and> s' = int (differing P a b (k * (i + 1)))"
      using step [of i s] i s d by (simp add: i32_add_def)
  qed
  then show ?thesis by simp
qed

lemma hamming_u8:
  assumes "n \<le> length a" "n \<le> length b" "8 * n < 2147483648"
  shows "distance_hamming_u8 a b n = Some (f32_of_int (int (differing (\<lambda>i. True) a b (8 * n))))"
proof -
  have "for_loop (\<lambda>i same. do { x \<leftarrow> rd a i; y \<leftarrow> rd b i; h \<leftarrow> rd hamdist_table (unat (x XOR y)); i32_add same h }) 0 n 0 =
      Some (int (differing (\<lambda>i. True) a b (8 * n)))"
  proof (rule hamming_loop [OF _ assms(3)])
    fix i s assume i: "i < n"
    have "{j. j < 8 \<and> bit (a ! i XOR b ! i) j} = {j. j < 8 \<and> True \<and> vbit a (8 * i + j) \<noteq> vbit b (8 * i + j)}"
      by (auto simp: bit_xor_iff vbit_def)
    then show "do { x \<leftarrow> rd a i; y \<leftarrow> rd b i; h \<leftarrow> rd hamdist_table (unat (x XOR y)); i32_add s h } =
        i32_add s (int (card {j. j < 8 \<and> True \<and> vbit a (8 * i + j) \<noteq> vbit b (8 * i + j)}))"
      using i assms by (simp add: hamdist_table_nth)
  qed
  then show ?thesis by (simp add: distance_hamming_u8_def)
qed

lemma bit_word_of_bytes:
  assumes "j < 32"
  shows "bit (word_of_bytes b0 b1 b2 b3) j = bit ([b0, b1, b2, b3] ! (j div 8)) (j mod 8)"
proof -
  let ?w = "word_of_bytes b0 b1 b2 b3"
  have "bit (byte_of_word ?w (j div 8)) (j mod 8) = bit ?w j"
    by (simp add: byte_of_word_def bit_ucast_iff bit_drop_bit_eq)
  moreover have "j div 8 = 0 \<or> j div 8 = 1 \<or> j div 8 = 2 \<or> j div 8 = 3" using assms by linarith
  then have "byte_of_word ?w (j div 8) = [b0, b1, b2, b3] ! (j div 8)" by (elim disjE) simp_all
  ultimately show ?thesis by simp
qed

lemma u64_at_low:
  assumes "8 * i + 8 \<le> length v"
  shows "\<exists>x. u64_at v i = Some x \<and> (\<forall>j<32. bit (ucast x :: u32) j = vbit v (64 * i + j))"
proof -
  define lo hi where "lo = word_of_bytes (v ! (8 * i)) (v ! (8 * i + 1)) (v ! (8 * i + 2)) (v ! (8 * i + 3))"
    and "hi = word_of_bytes (v ! (8 * i + 4)) (v ! (8 * i + 5)) (v ! (8 * i + 6)) (v ! (8 * i + 7))"
  have "u64_at v i = Some (ucast lo OR push_bit 32 (ucast hi))"
    using assms by (simp add: u64_at_def lo_def hi_def add.commute)
  moreover have "bit (ucast (ucast lo OR push_bit 32 (ucast hi) :: u64) :: u32) j = vbit v (64 * i + j)" if "j < 32" for j
  proof -
    have a: "(64 * i + j) div 8 = 8 * i + j div 8" "(64 * i + j) mod 8 = j mod 8" by presburger+
    have "bit (ucast (ucast lo OR push_bit 32 (ucast hi) :: u64) :: u32) j = bit lo j"
      using that by (simp add: bit_simps)
    moreover have "j div 8 = 0 \<or> j div 8 = 1 \<or> j div 8 = 2 \<or> j div 8 = 3" using that by linarith
    then have "[v ! (8 * i), v ! (8 * i + 1), v ! (8 * i + 2), v ! (8 * i + 3)] ! (j div 8) = v ! (8 * i + j div 8)"
      by (elim disjE) simp_all
    ultimately show ?thesis using bit_word_of_bytes [OF that, of "v ! (8 * i)" "v ! (8 * i + 1)" "v ! (8 * i + 2)" "v ! (8 * i + 3)"]
      by (simp add: lo_def vbit_def a)
  qed
  ultimately show ?thesis by blast
qed

lemma hamming_u64:
  assumes "8 * n \<le> length a" "8 * n \<le> length b" "64 * n < 2147483648"
  shows "distance_hamming_u64 a b n = Some (f32_of_int (int (differing (\<lambda>i. i mod 64 < 32) a b (64 * n))))"
proof -
  have "for_loop (\<lambda>i same. do { x \<leftarrow> u64_at a i; y \<leftarrow> u64_at b i; i32_add same (popcountl (x XOR y)) }) 0 n 0 =
      Some (int (differing (\<lambda>i. i mod 64 < 32) a b (64 * n)))"
  proof (rule hamming_loop [OF _ assms(3)])
    fix i s assume i: "i < n"
    obtain x where x: "u64_at a i = Some x" "\<forall>j<32. bit (ucast x :: u32) j = vbit a (64 * i + j)"
      using u64_at_low [of i a] i assms(1) by auto
    obtain y where y: "u64_at b i = Some y" "\<forall>j<32. bit (ucast y :: u32) j = vbit b (64 * i + j)"
      using u64_at_low [of i b] i assms(2) by auto
    have "bit (ucast (x XOR y) :: u32) j \<longleftrightarrow> vbit a (64 * i + j) \<noteq> vbit b (64 * i + j)" if "j < 32" for j
    proof -
      have "bit (ucast (x XOR y) :: u32) j \<longleftrightarrow> bit (ucast x :: u32) j \<noteq> bit (ucast y :: u32) j"
        using that by (simp add: bit_simps)
      then show ?thesis using x(2) y(2) that by simp
    qed
    then have "{j. j < 32 \<and> bit (ucast (x XOR y) :: u32) j} =
        {j. j < 64 \<and> (64 * i + j) mod 64 < 32 \<and> vbit a (64 * i + j) \<noteq> vbit b (64 * i + j)}" by auto
    then show "do { x \<leftarrow> u64_at a i; y \<leftarrow> u64_at b i; i32_add s (popcountl (x XOR y)) } =
        i32_add s (int (card {j. j < 64 \<and> (64 * i + j) mod 64 < 32 \<and> vbit a (64 * i + j) \<noteq> vbit b (64 * i + j)}))"
      by (simp add: x(1) y(1) popcountl_def length_filter_card)
  qed
  then show ?thesis by (simp add: distance_hamming_u64_def)
qed

lemma hamming_spec:
  assumes "d mod 8 = 0" "d \<le> 8 * length a" "d \<le> 8 * length b" "d < 2147483648"
  shows "distance_hamming a b d =
    Some (f32_of_int (int (differing (\<lambda>i. d mod 64 = 0 \<longrightarrow> i mod 64 < 32) a b d)))"
proof (cases "d mod 64 = 0")
  case True
  then obtain n where "d = 64 * n" by auto
  then show ?thesis using assms hamming_u64 [of n a b] by (simp add: distance_hamming_def)
next
  case False
  obtain n where "d = 8 * n" using assms(1) by auto
  then show ?thesis using assms False hamming_u8 [of n a b] by (simp add: distance_hamming_def)
qed



text \<open>Two vectors of 64 dimensions that differ in their upper half have distance 0.\<close>

lemma hamming_misses_high_half:
  "distance_hamming [0, 0, 0, 0, 0, 0, 0, 0] [0, 0, 0, 0, 255, 255, 255, 255] 64 = Some (f32_of_int 0)"
  by code_simp

section \<open>Manhattan distance of int8 vectors\<close>

definition i8s :: "u8 list \<Rightarrow> nat \<Rightarrow> int" where
  "i8s v i = sint (v ! i)"

lemma sint_u8_eq: "sint (x :: u8) = sint y \<longleftrightarrow> x = y"
  by (auto intro: signed_word_eqI)

lemma i8_range: "\<bar>sint (x :: u8) - sint (y :: u8)\<bar> \<le> 255"
  using sint_range_size [of x] sint_range_size [of y] by (simp add: word_size) arith

lemma l1_sum_bound: "(\<Sum>i<n. \<bar>i8s a i - i8s b i\<bar>) \<le> 255 * int n"
proof (induction n)
  case (Suc n)
  have "\<bar>i8s a n - i8s b n\<bar> \<le> 255" unfolding i8s_def by (rule i8_range)
  then show ?case using Suc by simp
qed simp

lemma l1_int8_spec:
  assumes "d \<le> length a" "d \<le> length b" "255 * d < 2147483648"
  shows "l1_int8 a b d = Some (\<Sum>i<d. \<bar>i8s a i - i8s b i\<bar>)"
proof -
  let ?f = "\<lambda>i res. do { x \<leftarrow> i8_at a i; y \<leftarrow> i8_at b i; i32_add res \<bar>x - y\<bar> }"
  have "\<exists>s. for_loop ?f 0 d 0 = Some s \<and> s = (\<Sum>i<0 + d. \<bar>i8s a i - i8s b i\<bar>)"
  proof (rule for_loop_invariant)
    fix j s assume j: "j < 0 + d" and s: "s = (\<Sum>i<j. \<bar>i8s a i - i8s b i\<bar>)"
    have "0 \<le> (\<Sum>i<Suc j. \<bar>i8s a i - i8s b i\<bar>)" by (rule sum_nonneg) simp
    then have "- 2147483648 \<le> (\<Sum>i<Suc j. \<bar>i8s a i - i8s b i\<bar>)" by linarith
    moreover have "(\<Sum>i<Suc j. \<bar>i8s a i - i8s b i\<bar>) < 2147483648"
      by (rule le_less_trans [OF l1_sum_bound]) (use j assms(3) in simp)
    ultimately show "\<exists>s'. ?f j s = Some s' \<and> s' = (\<Sum>i<j + 1. \<bar>i8s a i - i8s b i\<bar>)"
      using j assms(1,2) by (simp add: s i8_at_def i8s_def i32_add_def)
  qed simp
  then show ?thesis by (simp add: l1_int8_def)
qed

text \<open>
  C25: the Manhattan distance of two int8 vectors is the exact sum of the differences, with no
  overflow up to 8,421,504 dimensions, and it is zero just for equal vectors.
\<close>

theorem distance_l1_int8_correct:
  assumes "d \<le> length a" "d \<le> length b" "255 * d < 2147483648"
  shows "distance_l1_int8 a b d = Some (\<Sum>i<d. \<bar>sint (a ! i) - sint (b ! i)\<bar>) \<and>
    (distance_l1_int8 a b d = Some 0 \<longleftrightarrow> take d a = take d b)"
proof -
  have v: "distance_l1_int8 a b d = Some (\<Sum>i<d. \<bar>i8s a i - i8s b i\<bar>)"
    unfolding distance_l1_int8_def by (rule l1_int8_spec [OF assms])
  have "(\<Sum>i<d. \<bar>i8s a i - i8s b i\<bar>) = 0 \<longleftrightarrow> (\<forall>i<d. i8s a i = i8s b i)"
    by (subst sum_nonneg_eq_0_iff) auto
  also have "\<dots> \<longleftrightarrow> (\<forall>i<d. a ! i = b ! i)" by (simp add: i8s_def sint_u8_eq)
  also have "\<dots> \<longleftrightarrow> take d a = take d b" using assms(1,2) by (auto simp: list_eq_iff_nth_eq)
  finally show ?thesis using v by (simp add: i8s_def)
qed

theorem distance_l1_int8_correct_witness:
  "distance_l1_int8 [128, 5] [127, 7] 2 = Some 257"
proof -
  have "(\<Sum>i<2. \<bar>sint ([128, 5 :: u8] ! i) - sint ([127, 7 :: u8] ! i)\<bar>) = 257" by (simp add: eval_nat_numeral)
  then show ?thesis using distance_l1_int8_correct [of 2 "[128, 5]" "[127, 7]"] by simp
qed

section \<open>The distance of a vector to itself\<close>

definition f32_finite :: "f32 \<Rightarrow> bool" where
  "f32_finite x \<longleftrightarrow> (case f32_decode x of Fin s r \<Rightarrow> True | _ \<Rightarrow> False)"

lemma f32_decode_0 [simp]: "f32_decode 0 = Fin False 0"
  by (simp add: f32_decode_def fp_decode_def Let_def)

lemma f64_decode_0 [simp]: "f64_decode 0 = Fin False 0"
  by (simp add: f64_decode_def fp_decode_def Let_def)

lemma encode_0 [simp]: "f32_encode (Fin False 0) = 0" "f64_encode (Fin False 0) = 0"
  by (simp_all add: f32_encode_def f64_encode_def fp_encode_def Let_def)

lemma f32_zero [simp]:
  "f32_mul 0 0 = 0" "f32_add 0 0 = 0" "f64_of_f32 0 = 0" "f64_sqrt 0 = 0" "f32_of_f64 0 = 0" "f64_add 0 0 = 0" "f64_abs 0 = 0"
  "f32_of_int 0 = 0"
  by (simp_all add: f32_mul_def f32_add_def f64_of_f32_def f64_sqrt_def f32_of_f64_def f64_add_def f64_abs_def
      f32_of_int_def fp_of_int_def)

lemma f32_sub_self: "f32_finite x \<Longrightarrow> f32_sub x x = 0"
  by (auto simp: f32_finite_def f32_sub_def split: fp.splits)

lemma for_loop_constant: "(\<And>j. i \<le> j \<Longrightarrow> j < i + n \<Longrightarrow> f j s = Some s) \<Longrightarrow> for_loop f i n s = Some s"
  by (induction n arbitrary: i) auto

lemma distance_self:
  assumes "\<forall>i<d. \<exists>x. f32_at a i = Some x \<and> f32_finite x"
  shows "distance_l2_sqr_float a a d = Some 0"
proof -
  have "for_loop (\<lambda>i res. do { x \<leftarrow> f32_at a i; y \<leftarrow> f32_at a i;
      let t = f32_sub x y; Some (f32_add res (f32_mul t t)) }) 0 d 0 = Some 0"
  proof (rule for_loop_constant)
    fix j assume "j < 0 + d"
    then obtain x where "f32_at a j = Some x" "f32_finite x" using assms by auto
    then show "do { x \<leftarrow> f32_at a j; y \<leftarrow> f32_at a j;
      let t = f32_sub x y; Some (f32_add 0 (f32_mul t t)) } = Some 0" by (simp add: f32_sub_self)
  qed
  then show ?thesis by (simp add: distance_l2_sqr_float_def l2_sqr_float_def)
qed

lemma distance_self_int8: "d \<le> length a \<Longrightarrow> distance_l2_sqr_int8 a a d = Some 0"
proof -
  assume d: "d \<le> length a"
  have "for_loop (\<lambda>i res. do { x \<leftarrow> i8_at a i; y \<leftarrow> i8_at a i;
      let t = f32_of_int (x - y); Some (f32_add res (f32_mul t t)) }) 0 d 0 = Some 0"
    by (rule for_loop_constant) (use d in \<open>simp add: i8_at_def\<close>)
  then show ?thesis by (simp add: distance_l2_sqr_int8_def l2_sqr_int8_def)
qed

text \<open>
  The Euclidean distance of a vector to itself is zero, for a float vector whose elements are
  all finite and for every int8 vector.
\<close>

lemma distance_l2_self:
  assumes "\<forall>i<d. \<exists>x. f32_at a i = Some x \<and> f32_finite x" "e \<le> length b"
  shows "distance_l2_sqr_float a a d = Some 0 \<and> distance_l2_sqr_int8 b b e = Some 0"
  using distance_self [OF assms(1)] distance_self_int8 [OF assms(2)] by simp

text \<open>The cosine distance of zero vectors is not a number.\<close>

lemma f64_nan: "f64_decode 0x7FF8000000000000 = NaN" "f64_encode NaN = 0x7FF8000000000000" "f32_encode NaN = 0x7FC00000"
  by (simp_all add: f64_decode_def fp_decode_def f64_encode_def f32_encode_def fp_encode_def Let_def)

lemma fp_add_NaN [simp]: "fp_add x NaN = NaN"
  by (cases x) simp_all

lemma cosine_zero: "distance_cosine_int8 (replicate d 0) (replicate d 0) d = Some 0x7FC00000"
proof -
  have "f64_mul 0 0 = 0" by (simp add: f64_mul_def)
  moreover have "f64_div 0 0 = 0x7FF8000000000000" by (simp add: f64_div_def f64_nan)
  moreover have "f32_of_f64 (f64_sub x 0x7FF8000000000000) = 0x7FC00000" for x
    by (simp add: f64_sub_def f64_nan f32_of_f64_def)
  ultimately have c: "cosine_of 0 0 0 = 0x7FC00000" by (simp add: cosine_of_def)
  have "for_loop (\<lambda>i (dot, aMag, bMag). do {
       x \<leftarrow> i8_at (replicate d 0) i; y \<leftarrow> i8_at (replicate d 0) i;
       Some (f32_add dot (f32_of_int (x * y)), f32_add aMag (f32_of_int (x * x)), f32_add bMag (f32_of_int (y * y))) })
       0 d (0, 0, 0) = Some (0, 0, 0)"
    by (rule for_loop_constant) (simp add: i8_at_def)
  then show ?thesis by (simp add: distance_cosine_int8_def c)
qed

end
