(* ===== verification/VecValue.thy ===== *)
theory VecValue
  imports VecDistance MuslStdlib
begin

text \<open>
  Vectors from SQL values in \<^verbatim>\<open>extensions/sqlite-vec/cc/sqlite-vec.c\<close>: blobs, which are used in place,
  and JSON arrays, which are parsed into a growing array. The allocator of SQLite may fail at any
  call; the heap records the live blocks, so a leak, a double free or the use of an error pointer
  that was never set is visible. \<open>strtod\<close> is a parameter.
\<close>

section \<open>The heap\<close>

record heap =
  h_live :: "nat list"
  h_next :: nat
  h_fail :: "nat \<Rightarrow> bool"

text \<open>\<open>sqlite3_malloc\<close> returns \<open>NULL\<close> for a size that is not positive, and when memory is out.\<close>

definition malloc :: "int \<Rightarrow> heap \<Rightarrow> nat option \<times> heap" where
  "malloc n h =
     (if n \<le> 0 then (None, h)
      else let i = h_next h; h = h\<lparr>h_next := i + 1\<rparr> in
        if h_fail h i then (None, h) else (Some i, h\<lparr>h_live := i # h_live h\<rparr>))"

text \<open>Freeing \<open>NULL\<close> does nothing; freeing what is not a live block is undefined.\<close>

definition free :: "nat option \<Rightarrow> heap \<Rightarrow> heap option" where
  "free z h = (case z of None \<Rightarrow> Some h
     | Some i \<Rightarrow> if i \<in> set (h_live h) then Some (h\<lparr>h_live := remove1 i (h_live h)\<rparr>) else None)"

text \<open>
  A successful \<open>sqlite3_realloc64\<close> replaces the block; a failed one keeps it; the size 0 frees it.
\<close>

definition realloc :: "nat option \<Rightarrow> int \<Rightarrow> heap \<Rightarrow> (nat option \<times> heap) option" where
  "realloc z n h =
     (if n \<le> 0 \<and> z \<noteq> None then do { h \<leftarrow> free z h; Some (None, h) }
      else case malloc n h of
        (None, h) \<Rightarrow> Some (None, h)
      | (Some i, h) \<Rightarrow> do { h \<leftarrow> free z h; Some (Some i, h) })"

section \<open>Messages, values and results\<close>

datatype message = Msg string | Msg_Ints string "int list" | Msg_Names string "string list" | Wrap string "message option"

datatype value_type = SQLITE_INTEGER | SQLITE_FLOAT | SQLITE_TEXT | SQLITE_BLOB | SQLITE_NULL

text \<open>A value with its subtype; the bytes are those of a text or a blob.\<close>

record sql_value =
  val_type :: value_type
  val_bytes :: "u8 list"
  val_subtype :: nat

text \<open>
  A vector: its bytes, its dimensions, the block that holds it when it was parsed, and whether its
  cleanup function is \<open>sqlite3_free\<close> rather than the one that does nothing.
\<close>

record vec =
  v_data :: "u8 list"
  v_dims :: nat
  v_block :: "nat option"
  v_frees :: bool

text \<open>A failure leaves the error pointer set, or not set at all.\<close>

datatype 'a outcome = Done 'a | Fail "message option"

definition cleanup :: "vec \<Rightarrow> heap \<Rightarrow> heap option" where
  "cleanup v h = (if v_frees v then free (v_block v) h else Some h)"

fun vector_subtype_name :: "element_type \<Rightarrow> string" where
  "vector_subtype_name FLOAT32 = ''float32''"
| "vector_subtype_name INT8 = ''int8''"
| "vector_subtype_name BIT = ''bit''"

fun type_name :: "value_type \<Rightarrow> string" where
  "type_name SQLITE_INTEGER = ''INTEGER''"
| "type_name SQLITE_BLOB = ''BLOB''"
| "type_name SQLITE_TEXT = ''TEXT''"
| "type_name SQLITE_FLOAT = ''FLOAT''"
| "type_name SQLITE_NULL = ''NULL''"

text \<open>The subtypes: \<open>SQLITE_VEC_ELEMENT_TYPE_FLOAT32\<close>, \<open>_BIT\<close>, \<open>_INT8\<close>, and that of JSON.\<close>

fun subtype_of :: "element_type \<Rightarrow> nat" where
  "subtype_of FLOAT32 = 223" | "subtype_of BIT = 224" | "subtype_of INT8 = 225"

definition JSON_SUBTYPE :: nat where
  "JSON_SUBTYPE = 74"

section \<open>The growing array\<close>

record array =
  a_elem :: nat
  a_length :: nat
  a_capacity :: nat
  a_z :: "nat option"
  a_data :: "u8 list"

definition array_init :: "nat \<Rightarrow> nat \<Rightarrow> heap \<Rightarrow> array option \<times> heap" where
  "array_init element_size init_capacity h =
     (case malloc (sint (word_of_nat (element_size * init_capacity) :: u32)) h of
        (None, h) \<Rightarrow> (None, h)
      | (Some z, h) \<Rightarrow>
          (Some \<lparr>a_elem = element_size, a_length = 0, a_capacity = init_capacity, a_z = Some z, a_data = []\<rparr>, h))"

text \<open>The array after the call, and whether the element was stored: only a failed \<open>realloc\<close> drops it.\<close>

definition array_append :: "array \<Rightarrow> u8 list \<Rightarrow> heap \<Rightarrow> ((bool \<times> array) \<times> heap) option" where
  "array_append a element h =
     (if a_length a = a_capacity a then
        (let new_capacity = a_capacity a * 2 + 100 in
         do { (z, h) \<leftarrow> realloc (a_z a) (uint (word_of_nat (a_elem a * new_capacity) :: u32)) h;
              case z of None \<Rightarrow> Some ((False, a), h)
              | Some z \<Rightarrow> Some ((True, a\<lparr>a_capacity := new_capacity, a_z := Some z,
                                        a_data := a_data a @ element, a_length := a_length a + 1\<rparr>), h) })
      else Some ((True, a\<lparr>a_data := a_data a @ element, a_length := a_length a + 1\<rparr>), h))"

definition array_cleanup :: "array \<Rightarrow> heap \<Rightarrow> (array \<times> heap) option" where
  "array_cleanup a h = do {
     h \<leftarrow> free (a_z a) h;
     Some (\<lparr>a_elem = 0, a_length = 0, a_capacity = 0, a_z = None, a_data = []\<rparr>, h) }"

section \<open>JSON arrays\<close>

definition vecJsonIsspace :: "u8 \<Rightarrow> bool" where
  "vecJsonIsspace x \<longleftrightarrow> unat x \<in> {9, 10, 13, 32}"

text \<open>White space up to the bracket: its position, or the input does not start with one.\<close>

function find_bracket :: "mem \<Rightarrow> nat \<Rightarrow> nat \<Rightarrow> nat option option" where
  "find_bracket m i source_len =
     (if i < source_len then do {
        b \<leftarrow> ld8 m i;
        if vecJsonIsspace b then find_bracket m (i + 1) source_len
        else if b = 91 then Some (Some i) else Some None }
      else do { b \<leftarrow> ld8 m i; Some (if b = 91 then Some i else None) })"
  by pat_completeness auto
termination
  by (relation "measure (\<lambda>(m, i, n). n - i)") auto

text \<open>White space and commas after an element: where they end, and whether a bracket closes the array.\<close>

function skip_separators :: "mem \<Rightarrow> nat \<Rightarrow> nat \<Rightarrow> (nat \<times> bool) option" where
  "skip_separators m offset source_len =
     (if offset < source_len then do {
        b \<leftarrow> ld8 m offset;
        if vecJsonIsspace b \<or> b = 44 then skip_separators m (offset + 1) source_len
        else Some (offset, b = 93) }
      else Some (offset, False))"
  by pat_completeness auto
termination
  by (relation "measure (\<lambda>(m, i, n). n - i)") auto

declare find_bracket.simps [simp del] skip_separators.simps [simp del]

lemma skip_separators_forward: "skip_separators m i n = Some (j, c) \<Longrightarrow> i \<le> j"
proof (induction m i n rule: skip_separators.induct)
  case (1 m i n)
  note u = skip_separators.simps [of m i n]
  show ?case
  proof (cases "i < n")
    case True
    then obtain b where b: "ld8 m i = Some b" using 1(2) u by (cases "ld8 m i") simp_all
    show ?thesis
    proof (cases "vecJsonIsspace b \<or> b = 44")
      case more: True
      then have "skip_separators m (i + 1) n = Some (j, c)" using 1(2) u True b by simp
      then have "i + 1 \<le> j" by (rule 1(1) [OF True b more])
      then show ?thesis by simp
    next
      case False
      then show ?thesis using 1(2) u True b by simp
    qed
  next
    case False
    then show ?thesis using 1(2) u by simp
  qed
qed

text \<open>What the number parser of an element type makes of the text: an element and where it ends.\<close>

datatype element = Bad | No_Number | Out_Of_Range | Element "u8 list" nat

text \<open>The loop over the elements; the parsers move forward when they find a number.\<close>

function json_elements ::
  "(nat \<Rightarrow> element option) \<Rightarrow> mem \<Rightarrow> nat \<Rightarrow> nat \<Rightarrow> array \<Rightarrow> heap \<Rightarrow> ((message + array) \<times> heap) option" where
  "json_elements read_elem m offset source_len x h =
     (if offset < source_len then do {
        e \<leftarrow> read_elem offset;
        case e of
          Bad \<Rightarrow> do { h \<leftarrow> free (a_z x) h; Some (Inl (Msg ''JSON parsing error''), h) }
        | No_Number \<Rightarrow> do {
            b \<leftarrow> ld8 m offset;
            if b \<noteq> 93 then do { h \<leftarrow> free (a_z x) h; Some (Inl (Msg ''JSON parsing error''), h) }
            else Some (Inr x, h) }
        | Out_Of_Range \<Rightarrow> do {
            h \<leftarrow> free (a_z x) h; Some (Inl (Msg ''JSON parsing error: value out of range for int8''), h) }
        | Element bytes endptr \<Rightarrow>
            if endptr \<le> offset then None
            else do {
              ((_, x), h) \<leftarrow> array_append x bytes h;
              (offset', closed) \<leftarrow> skip_separators m endptr source_len;
              if closed then Some (Inr x, h)
              else json_elements read_elem m offset' source_len x h } }
      else Some (Inr x, h))"
  by pat_completeness auto
termination
  by (relation "measure (\<lambda>(r, m, i, n, x, h). n - i)") (auto dest!: skip_separators_forward)

declare json_elements.simps [simp del]

definition zero_length :: message where
  "zero_length = Msg ''zero-length vectors are not supported.''"

text \<open>A JSON text as a vector of elements of the given size.\<close>

definition json_vector :: "(mem \<Rightarrow> nat \<Rightarrow> element option) \<Rightarrow> nat \<Rightarrow> u8 list \<Rightarrow> heap \<Rightarrow> (vec outcome \<times> heap) option" where
  "json_vector read_elem elem_size bytes h =
     (let m = bytes @ [0]; source_len = length bytes in
      if source_len = 0 then Some (Fail (Some zero_length), h)
      else case array_init elem_size ((source_len + 1) div 2) h of
        (None, h) \<Rightarrow> Some (Fail None, h)
      | (Some x, h) \<Rightarrow> do {
          i \<leftarrow> find_bracket m 0 source_len;
          case i of None \<Rightarrow> do {
              (_, h) \<leftarrow> array_cleanup x h;
              Some (Fail (Some (Msg (''JSON array parsing error: Input does not start with '' @ [CHR 0x27, CHR 0x5B, CHR 0x27]))), h) }
          | Some i \<Rightarrow> do {
              (r, h) \<leftarrow> json_elements (read_elem m) m (i + 1) source_len x h;
              case r of Inl e \<Rightarrow> Some (Fail (Some e), h)
              | Inr x \<Rightarrow>
                  if a_length x > 0 then
                    Some (Done \<lparr>v_data = a_data x, v_dims = a_length x, v_block = a_z x, v_frees = True\<rparr>, h)
                  else do {
                    h \<leftarrow> free (a_z x) h;
                    Some (Fail (Some zero_length), h) } } })"

section \<open>Vectors from values\<close>

text \<open>What \<open>strtod\<close> does at an address: the number, where it ends, and the \<open>errno\<close> it sets, if any.\<close>

type_synonym strtod_fn = "mem \<Rightarrow> nat \<Rightarrow> (f64 \<times> nat \<times> errno_code option) option"

definition f64_infinite :: "f64 \<Rightarrow> bool" where
  "f64_infinite x \<longleftrightarrow> f64_eq x (f64_encode (Inf False)) \<or> f64_eq x (f64_encode (Inf True))"

definition f32_bytes :: "f32 \<Rightarrow> u8 list" where
  "f32_bytes x = [byte_of_word x 0, byte_of_word x 1, byte_of_word x 2, byte_of_word x 3]"

definition read_f32 :: "strtod_fn \<Rightarrow> mem \<Rightarrow> nat \<Rightarrow> element option" where
  "read_f32 strtod m ptr = do {
     (result, endptr, e) \<leftarrow> strtod m ptr;
     Some (if (e \<noteq> None \<and> f64_eq result 0) \<or> (e = Some ERANGE \<and> f64_infinite result) then Bad
           else if endptr = ptr then No_Number
           else Element (f32_bytes (f32_of_f64 result)) endptr) }"

definition read_int8 :: "mem \<Rightarrow> nat \<Rightarrow> element option" where
  "read_int8 m ptr = do {
     (result, endp, e) \<leftarrow> strtol m ptr True 10;
     endptr \<leftarrow> endp;
     Some (if (e \<noteq> None \<and> result = 0) \<or>
              (e = Some ERANGE \<and> (result = 2147483647 \<or> result = - 2147483648)) then Bad
           else if endptr = ptr then No_Number
           else if result < - 128 \<or> result > 127 then Out_Of_Range
           else Element [word_of_int result] endptr) }"

text \<open>A blob is the vector, in place: nothing has to be freed.\<close>

definition blob_vector :: "u8 list \<Rightarrow> nat \<Rightarrow> vec" where
  "blob_vector bytes dims = \<lparr>v_data = bytes, v_dims = dims, v_block = None, v_frees = False\<rparr>"

definition fvec_from_value :: "strtod_fn \<Rightarrow> sql_value \<Rightarrow> heap \<Rightarrow> (vec outcome \<times> heap) option" where
  "fvec_from_value strtod v h =
     (let bytes = length (val_bytes v) in
      case val_type v of
        SQLITE_BLOB \<Rightarrow>
          if bytes = 0 then Some (Fail (Some zero_length), h)
          else if bytes mod 4 \<noteq> 0 then
            Some (Fail (Some (Msg_Ints ''invalid float32 vector BLOB length. Must be divisible by %d, found %d''
                                       [4, int bytes])), h)
          else Some (Done (blob_vector (val_bytes v) (bytes div 4)), h)
      | SQLITE_TEXT \<Rightarrow> json_vector (read_f32 strtod) 4 (val_bytes v) h
      | t \<Rightarrow> Some (Fail (Some (Msg_Names ''Input must have type BLOB (compact format) or TEXT (JSON), found %s''
                                         [type_name t])), h))"

text \<open>The dimensions of a bit vector are computed in an \<open>int\<close>, whose overflow is undefined.\<close>

definition bitvec_from_value :: "sql_value \<Rightarrow> heap \<Rightarrow> (vec outcome \<times> heap) option" where
  "bitvec_from_value v h =
     (if val_type v = SQLITE_BLOB then
        let bytes = length (val_bytes v) in
        if bytes = 0 then Some (Fail (Some zero_length), h)
        else if bytes * 8 < 2 ^ 31 then Some (Done (blob_vector (val_bytes v) (bytes * 8)), h) else None
      else Some (Fail (Some (Msg ''Unknown type for bitvector.'')), h))"

definition int8_vec_from_value :: "sql_value \<Rightarrow> heap \<Rightarrow> (vec outcome \<times> heap) option" where
  "int8_vec_from_value v h =
     (let bytes = length (val_bytes v) in
      case val_type v of
        SQLITE_BLOB \<Rightarrow>
          if bytes = 0 then Some (Fail (Some zero_length), h)
          else Some (Done (blob_vector (val_bytes v) bytes), h)
      | SQLITE_TEXT \<Rightarrow> json_vector read_int8 1 (val_bytes v) h
      | _ \<Rightarrow> Some (Fail (Some (Msg ''Unknown type for int8 vector.'')), h))"

definition with_type :: "element_type \<Rightarrow> (vec outcome \<times> heap) option \<Rightarrow> ((vec \<times> element_type) outcome \<times> heap) option" where
  "with_type t r = map_option (\<lambda>(x, h). (map_outcome (\<lambda>v. (v, t)) x, h)) r"

definition vector_from_value ::
  "strtod_fn \<Rightarrow> sql_value \<Rightarrow> heap \<Rightarrow> ((vec \<times> element_type) outcome \<times> heap) option" where
  "vector_from_value strtod v h =
     (let subtype = val_subtype v in
      if subtype = 0 \<or> subtype = subtype_of FLOAT32 \<or> subtype = JSON_SUBTYPE then
        with_type FLOAT32 (fvec_from_value strtod v h)
      else if subtype = subtype_of BIT then with_type BIT (bitvec_from_value v h)
      else if subtype = subtype_of INT8 then with_type INT8 (int8_vec_from_value v h)
      else Some (Fail (Some (Msg_Ints ''Unknown subtype: %d'' [int subtype])), h))"

text \<open>
  The two vectors of a binary function. When the second cannot be read, the cleanup of the first
  is called on the address of the variable that holds it, which is no block of the heap.
\<close>

definition ensure_vector_match ::
  "strtod_fn \<Rightarrow> sql_value \<Rightarrow> sql_value \<Rightarrow> heap \<Rightarrow> ((vec \<times> vec \<times> element_type \<times> nat) outcome \<times> heap) option" where
  "ensure_vector_match strtod aValue bValue h = do {
     (r, h) \<leftarrow> vector_from_value strtod aValue h;
     case r of
       Fail e \<Rightarrow> Some (Fail (Some (Wrap ''Error reading 1st vector: %s'' e)), h)
     | Done (a, aType) \<Rightarrow> do {
         (r, h) \<leftarrow> vector_from_value strtod bValue h;
         case r of
           Fail e \<Rightarrow>
             if v_frees a then None
             else Some (Fail (Some (Wrap ''Error reading 2nd vector: %s'' e)), h)
         | Done (b, bType) \<Rightarrow>
             if aType \<noteq> bType then do {
               h \<leftarrow> cleanup a h;
               h \<leftarrow> cleanup b h;
               Some (Fail (Some (Msg_Names ''Vector type mistmatch. First vector has type %s, while the second has type %s.''
                 [vector_subtype_name aType, vector_subtype_name bType])), h) }
             else if v_dims a \<noteq> v_dims b then do {
               h \<leftarrow> cleanup a h;
               h \<leftarrow> cleanup b h;
               Some (Fail (Some (Msg_Ints ''Vector dimension mistmatch. First vector has %ld dimensions, while the second has %ld dimensions.''
                 [int (v_dims a), int (v_dims b)])), h) }
             else Some (Done (a, b, aType, v_dims a), h) } }"

section \<open>Heap balance\<close>

abbreviation live :: "heap \<Rightarrow> nat set" where
  "live h \<equiv> set (h_live h)"

text \<open>Blocks are distinct and older than the next one.\<close>

definition heap_ok :: "heap \<Rightarrow> bool" where
  "heap_ok h \<longleftrightarrow> distinct (h_live h) \<and> (\<forall>i\<in>live h. i < h_next h)"

text \<open>From \<open>h\<close> to \<open>h'\<close> the blocks \<open>F\<close> were freed and the fresh blocks \<open>A\<close> allocated.\<close>

definition changes :: "nat set \<Rightarrow> nat set \<Rightarrow> heap \<Rightarrow> heap \<Rightarrow> bool" where
  "changes F A h h' \<longleftrightarrow> heap_ok h' \<and> h_fail h' = h_fail h \<and> h_next h \<le> h_next h' \<and> live h' = (live h - F) \<union> A \<and>
     (\<forall>i\<in>A. i \<notin> live h \<and> h_next h \<le> i)"

lemma changes_refl [simp]: "heap_ok h \<Longrightarrow> changes {} {} h h"
  by (simp add: changes_def)

lemma changes_ok: "changes F A h h' \<Longrightarrow> heap_ok h'"
  by (simp add: changes_def)

lemma malloc_changes:
  assumes "heap_ok h" "malloc n h = (r, h')"
  shows "changes {} (set_option r) h h'"
  using assms by (auto simp: malloc_def changes_def heap_ok_def Let_def less_Suc_eq split: if_splits)

lemma free_changes:
  assumes "heap_ok h" "z \<in> live h"
  shows "\<exists>h'. free (Some z) h = Some h' \<and> changes {z} {} h h'"
  using assms by (auto simp: free_def changes_def heap_ok_def)

lemma changes_alloc_free: "changes {} A h h1 \<Longrightarrow> changes A {} h1 h2 \<Longrightarrow> changes {} {} h h2"
  by (auto simp: changes_def)

lemma changes_alloc_alloc: "changes {} A h h1 \<Longrightarrow> changes {} B h1 h2 \<Longrightarrow> changes {} (A \<union> B) h h2"
  by (auto simp: changes_def)

lemma changes_alloc_swap:
  assumes "changes {} A h h1" "changes A B h1 h2"
  shows "changes {} B h h2"
proof -
  have "live h1 - A = live h" using assms(1) by (auto simp: changes_def)
  then have "live h2 = live h \<union> B" using assms(2) by (simp add: changes_def)
  moreover have "\<forall>i\<in>B. i \<notin> live h \<and> h_next h \<le> i" using assms by (auto simp: changes_def)
  ultimately show ?thesis using assms by (simp add: changes_def)
qed

lemma changes_none: "changes F A h h1 \<Longrightarrow> changes {} {} h1 h2 \<Longrightarrow> changes F A h h2"
  by (simp add: changes_def)

lemma changes_swap_swap:
  assumes "changes {y} {z} h h1" "changes {z} B h1 h2" "y \<in> live h" "heap_ok h"
  shows "changes {y} B h h2"
proof -
  have "live h1 - {z} = live h - {y}" using assms(1) by (auto simp: changes_def)
  then have "live h2 = (live h - {y}) \<union> B" using assms(2) by (simp add: changes_def)
  moreover have "\<forall>i\<in>B. i \<notin> live h \<and> h_next h \<le> i"
  proof
    fix i assume "i \<in> B"
    then have i: "i \<notin> live h1" "h_next h1 \<le> i" using assms(2) by (auto simp: changes_def)
    moreover have "h_next h \<le> h_next h1" using assms(1) by (simp add: changes_def)
    moreover have "y < h_next h" using assms(3,4) by (simp add: heap_ok_def)
    ultimately show "i \<notin> live h \<and> h_next h \<le> i" using assms(1) by (auto simp: changes_def)
  qed
  ultimately show ?thesis using assms by (simp add: changes_def)
qed

lemma realloc_changes:
  assumes h: "heap_ok h" "z \<in> live h" and n: "0 < n"
  shows "\<exists>r h'. realloc (Some z) n h = Some (r, h') \<and>
    (case r of None \<Rightarrow> changes {} {} h h' | Some y \<Rightarrow> changes {z} {y} h h' \<and> y \<in> live h')"
proof (cases "malloc n h")
  case (Pair r h1)
  note c = malloc_changes [OF h(1) Pair]
  show ?thesis
  proof (cases r)
    case None
    then show ?thesis using Pair n c by (simp add: realloc_def)
  next
    case (Some y)
    then have z: "z \<in> live h1" using h c by (auto simp: changes_def)
    obtain h2 where h2: "free (Some z) h1 = Some h2" "changes {z} {} h1 h2"
      using free_changes [OF changes_ok [OF c] z] by blast
    have "changes {z} {y} h h2" "y \<in> live h2"
      using c h2(2) h Some by (auto simp: changes_def)
    then show ?thesis using Pair n Some h2 by (simp add: realloc_def)
  qed
qed

text \<open>
  A number parser is sound on a text when it answers at every offset of the text, and moves
  forward when it finds a number.
\<close>

definition reads :: "(nat \<Rightarrow> element option) \<Rightarrow> nat \<Rightarrow> bool" where
  "reads r n \<longleftrightarrow> (\<forall>i<n. \<exists>e. r i = Some e \<and> (\<forall>bs j. e = Element bs j \<longrightarrow> i < j))"

text \<open>
  The array during the loop at \<open>offset\<close> of \<open>n\<close> bytes: it holds at most one element per byte read,
  and either it still has room for an element per byte left, or the size of its next growth fits.
\<close>

definition growing :: "nat \<Rightarrow> nat \<Rightarrow> array \<Rightarrow> bool" where
  "growing offset n x \<longleftrightarrow> 0 < a_elem x \<and> a_length x \<le> offset \<and> a_length x \<le> a_capacity x \<and> n \<le> 2 * a_capacity x \<and>
     (a_elem x * (a_capacity x * 2 + 100) < 2 ^ 32 \<or> a_length x + (n - offset) \<le> a_capacity x)"

lemma growing_later:
  assumes "growing i n x" "i \<le> j"
  shows "growing j n x"
  using assms by (auto simp: growing_def)

lemma uint_word_of_nat_u32: "k < 2 ^ 32 \<Longrightarrow> uint (word_of_nat k :: u32) = int k"
  by (simp add: unsigned_of_nat take_bit_nat_eq_self)

lemma array_append_balanced:
  assumes h: "heap_ok h" "a_z x = Some z" "z \<in> live h" and g: "growing i n x" "i < n" "i < j"
  shows "\<exists>s y h' z'. array_append x bs h = Some ((s, y), h') \<and> growing j n y \<and> a_z y = Some z' \<and>
    z' \<in> live h' \<and> heap_ok h' \<and> (changes {z} {z'} h h' \<or> z' = z \<and> changes {} {} h h')"
proof (cases "a_length x = a_capacity x")
  case False
  then show ?thesis using assms by (auto simp: array_append_def growing_def)
next
  case True
  let ?k = "a_elem x * (a_capacity x * 2 + 100)"
  have k: "?k < 2 ^ 32" "0 < ?k" using g True by (auto simp: growing_def)
  have "0 < int ?k" using k(2) by simp
  then obtain r h' where r: "realloc (Some z) (uint (word_of_nat ?k :: u32)) h = Some (r, h')"
    "case r of None \<Rightarrow> changes {} {} h h' | Some y \<Rightarrow> changes {z} {y} h h' \<and> y \<in> live h'"
    using realloc_changes [OF h(1,3)] unfolding uint_word_of_nat_u32 [OF k(1)] by blast
  show ?thesis
  proof (cases r)
    case None
    then have c: "changes {} {} h h'" using r(2) by simp
    then have "z \<in> live h'" using h(3) by (auto simp: changes_def)
    then show ?thesis using True r(1) None c h(2) growing_later [OF g(1)] g(3) changes_ok [OF c]
      by (auto simp: array_append_def Let_def)
  next
    case (Some y)
    then have c: "changes {z} {y} h h'" "y \<in> live h'" using r(2) by simp_all
    let ?y = "x\<lparr>a_capacity := a_capacity x * 2 + 100, a_z := Some y, a_data := a_data x @ bs, a_length := a_length x + 1\<rparr>"
    have "growing j n ?y" using g True by (auto simp: growing_def)
    then show ?thesis using True r(1) Some c h(2) changes_ok [OF c(1)]
      by (auto simp: array_append_def Let_def)
  qed
qed

lemma skip_separators_total: "n < length m \<Longrightarrow> \<exists>j c. skip_separators m i n = Some (j, c) \<and> i \<le> j"
proof -
  assume n: "n < length m"
  have "\<exists>j c. skip_separators m i n = Some (j, c)"
    using n by (induction m i n rule: skip_separators.induct) (subst skip_separators.simps, auto)
  then show ?thesis using skip_separators_forward by blast
qed

text \<open>What the loop leaves: an error and no array, or an array in a live block.\<close>

definition loop_result :: "nat \<Rightarrow> heap \<Rightarrow> ((message + array) \<times> heap) option \<Rightarrow> bool" where
  "loop_result z h r \<longleftrightarrow> (\<exists>e h'. r = Some (Inl e, h') \<and> changes {z} {} h h') \<or>
     (\<exists>x h' z'. r = Some (Inr x, h') \<and> a_z x = Some z' \<and> z' \<in> live h' \<and> heap_ok h' \<and>
        (changes {z} {z'} h h' \<or> z' = z \<and> changes {} {} h h'))"

lemma loop_result_free:
  assumes "heap_ok h" "a_z x = Some z" "z \<in> live h"
  shows "loop_result z h (do { h \<leftarrow> free (a_z x) h; Some (Inl e, h) })"
  using free_changes [OF assms(1,3)] assms(2) by (auto simp: loop_result_def)

lemma loop_result_done:
  assumes "heap_ok h" "a_z x = Some z" "z \<in> live h"
  shows "loop_result z h (Some (Inr x, h))"
  using assms by (simp add: loop_result_def)

lemma loop_result_step:
  assumes h: "heap_ok h" "z \<in> live h" and c: "changes {z} {z'} h h1 \<or> z' = z \<and> changes {} {} h h1"
    and r: "loop_result z' h1 r"
  shows "loop_result z h r"
proof -
  have step: "changes {z} B h h2" if "changes {z'} B h1 h2" for B h2
    using c
  proof
    assume "changes {z} {z'} h h1"
    then show ?thesis using that by (rule changes_swap_swap [OF _ _ h(2,1)])
  next
    assume "z' = z \<and> changes {} {} h h1"
    then have "z' = z" "live h1 = live h" "h_next h \<le> h_next h1" "h_fail h1 = h_fail h"
      by (simp_all add: changes_def)
    then show ?thesis using that unfolding changes_def by (metis order_trans)
  qed
  have same': "changes {z} {z'} h h2 \<or> z' = z \<and> changes {} {} h h2" if "changes {} {} h1 h2" for h2
    using c that changes_none by blast
  from r consider (err) e h2 where "r = Some (Inl e, h2)" "changes {z'} {} h1 h2"
    | (swap) x h2 y where "r = Some (Inr x, h2)" "a_z x = Some y" "y \<in> live h2" "heap_ok h2" "changes {z'} {y} h1 h2"
    | (same) x h2 where "r = Some (Inr x, h2)" "a_z x = Some z'" "z' \<in> live h2" "heap_ok h2" "changes {} {} h1 h2"
    unfolding loop_result_def by blast
  then show ?thesis
  proof cases
    case err
    then show ?thesis using step unfolding loop_result_def by blast
  next
    case swap
    then show ?thesis using step [OF swap(5)] unfolding loop_result_def by blast
  next
    case same
    show ?thesis using same(1-4) same' [OF same(5)] unfolding loop_result_def by blast
  qed
qed

lemma json_elements_balanced:
  assumes reads: "reads r n" and n: "n < length m"
  shows "heap_ok h \<Longrightarrow> a_z x = Some z \<Longrightarrow> z \<in> live h \<Longrightarrow> growing i n x \<Longrightarrow>
    loop_result z h (json_elements r m i n x h)"
proof (induction "n - i" arbitrary: i x z h rule: less_induct)
  case less
  note h = less.prems(1-3) and u = json_elements.simps [of r m i n x h]
  show ?case
  proof (cases "i < n")
    case False
    then show ?thesis using loop_result_done [OF h] u by simp
  next
    case True
    then obtain e where e: "r i = Some e" "\<And>bs j. e = Element bs j \<Longrightarrow> i < j"
      using reads unfolding reads_def by blast
    have b: "ld8 m i = Some (m ! i)" using True n by simp
    show ?thesis
    proof (cases e)
      case (Element bs j)
      then have ij: "i < j" by (rule e(2))
      obtain s y h1 z1 where y: "array_append x bs h = Some ((s, y), h1)" "growing j n y" "a_z y = Some z1"
        "z1 \<in> live h1" "heap_ok h1" "changes {z} {z1} h h1 \<or> z1 = z \<and> changes {} {} h h1"
        using array_append_balanced [OF h less.prems(4) True ij] by blast
      obtain k c where k: "skip_separators m j n = Some (k, c)" "j \<le> k"
        using skip_separators_total [OF n] by blast
      have eq: "json_elements r m i n x h = (if c then Some (Inr y, h1) else json_elements r m k n y h1)"
        using u True e(1) Element ij y(1) k(1) by simp
      have "n - k < n - i" using True ij k(2) by linarith
      then have "loop_result z1 h1 (json_elements r m k n y h1)"
        using less.hyps [OF _ y(5,3,4) growing_later [OF y(2) k(2)]] by blast
      then have "loop_result z1 h1 (json_elements r m i n x h)"
        using loop_result_done [OF y(5,3,4)] unfolding eq by simp
      then show ?thesis by (rule loop_result_step [OF h(1,3) y(6)])
    qed (use u True e(1) b loop_result_free [OF h] loop_result_done [OF h] in simp_all)
  qed
qed

text \<open>The blocks an outcome hands to the caller: that of a vector parsed from JSON.\<close>

definition vec_blocks :: "vec \<Rightarrow> nat set" where
  "vec_blocks v = (if v_frees v then set_option (v_block v) else {})"

definition vec_ok :: "vec \<Rightarrow> heap \<Rightarrow> bool" where
  "vec_ok v h \<longleftrightarrow> (v_frees v \<longrightarrow> v_block v \<noteq> None) \<and> vec_blocks v \<subseteq> live h"

lemma cleanup_changes:
  assumes "heap_ok h" "vec_ok v h"
  shows "\<exists>h'. cleanup v h = Some h' \<and> changes (vec_blocks v) {} h h'"
proof (cases "v_frees v")
  case True
  then obtain z where z: "v_block v = Some z" "z \<in> live h" using assms(2) by (auto simp: vec_ok_def vec_blocks_def)
  then show ?thesis using free_changes [OF assms(1) z(2)] True by (simp add: cleanup_def vec_blocks_def)
next
  case False
  then show ?thesis using assms(1) by (simp add: cleanup_def vec_blocks_def)
qed

text \<open>
  A reader of vectors is balanced at a heap when it answers, and adds exactly the block of the
  vector it returns, or nothing when it fails.
\<close>

definition balanced :: "heap \<Rightarrow> (vec outcome \<times> heap) option \<Rightarrow> bool" where
  "balanced h r \<longleftrightarrow> (\<exists>e h'. r = Some (Fail e, h') \<and> changes {} {} h h') \<or>
     (\<exists>v h'. r = Some (Done v, h') \<and> changes {} (vec_blocks v) h h' \<and> (v_frees v \<longrightarrow> v_block v \<noteq> None))"

lemma find_bracket_total:
  assumes "n < length m"
  shows "i \<le> n \<Longrightarrow> \<exists>x. find_bracket m i n = Some x"
proof (induction "n - i" arbitrary: i)
  case 0
  then show ?case using assms by (subst find_bracket.simps) auto
next
  case (Suc k)
  then have "\<exists>x. find_bracket m (Suc i) n = Some x" by simp
  then show ?case using assms Suc(2) by (subst find_bracket.simps) auto
qed

lemma array_init_ok:
  assumes "heap_ok h" "0 < k" "k * c < 2 ^ 31" "0 < c"
  shows "(\<exists>h'. array_init k c h = (None, h') \<and> changes {} {} h h') \<or>
    (\<exists>z h'. array_init k c h = (Some \<lparr>a_elem = k, a_length = 0, a_capacity = c, a_z = Some z, a_data = []\<rparr>, h') \<and>
       changes {} {z} h h' \<and> z \<in> live h')"
proof (cases "malloc (sint (word_of_nat (k * c) :: u32)) h")
  case (Pair r h')
  note ch = malloc_changes [OF assms(1) Pair]
  then show ?thesis using Pair by (cases r) (auto simp: array_init_def changes_def)
qed

lemma json_vector_balanced:
  assumes h: "heap_ok h" and k: "0 < k" "k \<le> 4" and len: "length bytes < 2 ^ 28"
    and reads: "reads (read_elem (bytes @ [0])) (length bytes)"
  shows "balanced h (json_vector read_elem k bytes h)"
proof (cases "length bytes = 0")
  case True
  then show ?thesis using h by (simp add: json_vector_def balanced_def)
next
  case False
  let ?n = "length bytes" let ?m = "bytes @ [0]" let ?c = "(?n + 1) div 2"
  have le: "k * j \<le> 4 * j" for j using k by simp
  have "k * ?c < 2 ^ 31" by (rule le_less_trans [OF le]) (use len in simp)
  then consider (none) h' where "array_init k ?c h = (None, h')" "changes {} {} h h'"
    | (some) z h' where "array_init k ?c h = (Some \<lparr>a_elem = k, a_length = 0, a_capacity = ?c, a_z = Some z, a_data = []\<rparr>, h')"
        "changes {} {z} h h'" "z \<in> live h'"
    using array_init_ok [OF h k(1), of ?c] False by auto
  then show ?thesis
  proof cases
    case none
    then show ?thesis using False by (simp add: json_vector_def Let_def balanced_def)
  next
    case some
    let ?x = "\<lparr>a_elem = k, a_length = 0, a_capacity = ?c, a_z = Some z, a_data = []\<rparr>"
    note h' = changes_ok [OF some(2)]
    have freed: "\<exists>h2. free (Some y) h1 = Some h2 \<and> changes {} {} h h2" if "changes {} {y} h h1" "y \<in> live h1" for y h1
      using free_changes [OF changes_ok [OF that(1)] that(2)] changes_alloc_free [OF that(1)] by blast
    obtain b where b: "find_bracket ?m 0 ?n = Some b" using find_bracket_total [of ?n ?m 0] by auto
    show ?thesis
    proof (cases b)
      case None
      then show ?thesis using freed [OF some(2,3)] False some(1) b
        by (auto simp: json_vector_def Let_def balanced_def array_cleanup_def)
    next
      case (Some i)
      have "k * (?c * 2 + 100) < 2 ^ 32" by (rule le_less_trans [OF le]) (use len in simp)
      then have g: "growing (i + 1) ?n ?x" using k by (simp add: growing_def)
      have "loop_result z h' (json_elements (read_elem ?m) ?m (i + 1) ?n ?x h')"
        by (rule json_elements_balanced [OF reads _ h' _ some(3) g]) simp_all
      then consider (err) e h2 where "json_elements (read_elem ?m) ?m (i + 1) ?n ?x h' = Some (Inl e, h2)" "changes {z} {} h' h2"
        | (ok) x h2 y where "json_elements (read_elem ?m) ?m (i + 1) ?n ?x h' = Some (Inr x, h2)" "a_z x = Some y" "y \<in> live h2"
            "changes {z} {y} h' h2 \<or> y = z \<and> changes {} {} h' h2"
        unfolding loop_result_def by blast
      then show ?thesis
      proof cases
        case err
        then show ?thesis using False some(1) b Some changes_alloc_free [OF some(2)]
          by (simp add: json_vector_def Let_def balanced_def)
      next
        case ok
        have c: "changes {} {y} h h2"
          using ok(4) changes_alloc_swap [OF some(2)] changes_none [OF some(2)] by blast
        show ?thesis
        proof (cases "a_length x > 0")
          case True
          then show ?thesis using False some(1) b Some ok(1,2) c
            by (simp add: json_vector_def Let_def balanced_def vec_blocks_def)
        next
          case nothing: False
          then show ?thesis using False some(1) b Some ok(1,2) freed [OF c ok(3)]
            by (auto simp: json_vector_def Let_def balanced_def)
        qed
      qed
    qed
  qed
qed

text \<open>The number parsers move forward on every text; of \<open>strtod\<close> it is what the C standard says.\<close>

definition strtod_ok :: "strtod_fn \<Rightarrow> bool" where
  "strtod_ok strtod \<longleftrightarrow> (\<forall>m i. terminated m i \<longrightarrow> (\<exists>x j e. strtod m i = Some (x, j, e) \<and> i \<le> j))"

lemma terminated_snoc: "i \<le> length bytes \<Longrightarrow> terminated (bytes @ [0]) i"
  by (auto simp: terminated_def nth_append)

lemma reads_f32:
  assumes "strtod_ok strtod"
  shows "reads (read_f32 strtod (bytes @ [0])) (length bytes)"
  unfolding reads_def
proof (intro allI impI)
  fix i assume "i < length bytes"
  then have "terminated (bytes @ [0]) i" by (intro terminated_snoc) simp
  then obtain x j e where j: "strtod (bytes @ [0]) i = Some (x, j, e)" "i \<le> j"
    using assms unfolding strtod_ok_def by blast
  then show "\<exists>e. read_f32 strtod (bytes @ [0]) i = Some e \<and> (\<forall>bs j. e = Element bs j \<longrightarrow> i < j)"
    by (simp add: read_f32_def)
qed

lemma strtol_forward:
  assumes "terminated m i" "2 \<le> base" "base \<le> 36" "base \<noteq> 16"
  shows "\<exists>v j e. strtol m i True base = Some (v, Some j, e) \<and> i \<le> j"
proof -
  obtain neg k ds where "int_text base (cstr m i) = (neg, k, ds)" by (cases "int_text base (cstr m i)")
  then show ?thesis using strtol_spec [OF assms _ refl] by simp
qed

lemma reads_int8: "reads (read_int8 (bytes @ [0])) (length bytes)"
  unfolding reads_def
proof (intro allI impI)
  fix i assume "i < length bytes"
  then have "terminated (bytes @ [0]) i" by (intro terminated_snoc) simp
  then obtain v j e where j: "strtol (bytes @ [0]) i True 10 = Some (v, Some j, e)" "i \<le> j"
    using strtol_forward [of "bytes @ [0]" i 10] by force
  then show "\<exists>e. read_int8 (bytes @ [0]) i = Some e \<and> (\<forall>bs j. e = Element bs j \<longrightarrow> i < j)"
    by (simp add: read_int8_def)
qed

section \<open>Every reader is balanced\<close>

lemma balanced_fail [simp]: "heap_ok h \<Longrightarrow> balanced h (Some (Fail e, h))"
  by (simp add: balanced_def)

lemma balanced_blob [simp]: "heap_ok h \<Longrightarrow> balanced h (Some (Done (blob_vector bytes n), h))"
  by (simp add: balanced_def blob_vector_def vec_blocks_def)

lemma fvec_balanced:
  "heap_ok h \<Longrightarrow> strtod_ok strtod \<Longrightarrow> length (val_bytes v) < 2 ^ 28 \<Longrightarrow> balanced h (fvec_from_value strtod v h)"
  using json_vector_balanced [where read_elem = "read_f32 strtod" and k = 4 and bytes = "val_bytes v" and h = h] reads_f32
  by (cases "val_type v") (simp_all add: fvec_from_value_def Let_def)

lemma bitvec_balanced: "heap_ok h \<Longrightarrow> length (val_bytes v) < 2 ^ 28 \<Longrightarrow> balanced h (bitvec_from_value v h)"
  by (simp add: bitvec_from_value_def Let_def)

lemma int8_vec_balanced:
  "heap_ok h \<Longrightarrow> length (val_bytes v) < 2 ^ 28 \<Longrightarrow> balanced h (int8_vec_from_value v h)"
  using json_vector_balanced [where read_elem = read_int8 and k = 1 and bytes = "val_bytes v" and h = h] reads_int8
  by (cases "val_type v") (simp_all add: int8_vec_from_value_def Let_def)

text \<open>The typed form: an error, or a vector whose block, if any, is the only new one.\<close>

definition balanced_typed :: "heap \<Rightarrow> ((vec \<times> element_type) outcome \<times> heap) option \<Rightarrow> bool" where
  "balanced_typed h r \<longleftrightarrow> (\<exists>e h'. r = Some (Fail e, h') \<and> changes {} {} h h') \<or>
     (\<exists>v t h'. r = Some (Done (v, t), h') \<and> changes {} (vec_blocks v) h h' \<and> vec_ok v h')"

lemma balanced_with_type: "balanced h r \<Longrightarrow> balanced_typed h (with_type t r)"
  by (auto simp: balanced_def balanced_typed_def with_type_def vec_ok_def changes_def)

lemma vector_from_value_balanced:
  "heap_ok h \<Longrightarrow> strtod_ok strtod \<Longrightarrow> length (val_bytes v) < 2 ^ 28 \<Longrightarrow> balanced_typed h (vector_from_value strtod v h)"
  by (simp add: vector_from_value_def Let_def balanced_with_type fvec_balanced bitvec_balanced int8_vec_balanced)
     (simp add: balanced_typed_def)

lemma vec_ok_later: "vec_ok a h \<Longrightarrow> changes {} B h h' \<Longrightarrow> vec_ok a h'"
  by (auto simp: vec_ok_def changes_def)

text \<open>Both cleanups of a binary function give the heap back.\<close>

lemma cleanup_both:
  assumes a: "heap_ok h" "changes {} (vec_blocks a) h h1" "vec_ok a h1"
    and b: "changes {} (vec_blocks b) h1 h2" "vec_ok b h2"
  shows "\<exists>h3 h4. cleanup a h2 = Some h3 \<and> cleanup b h3 = Some h4 \<and> changes {} {} h h4"
proof -
  obtain h3 where h3: "cleanup a h2 = Some h3" "changes (vec_blocks a) {} h2 h3"
    using cleanup_changes [OF changes_ok [OF b(1)] vec_ok_later [OF a(3) b(1)]] by blast
  have "vec_blocks a \<inter> vec_blocks b = {}" using a(3) b(1) by (auto simp: vec_ok_def changes_def)
  then have "vec_ok b h3" using b(2) h3(2) by (auto simp: vec_ok_def changes_def)
  then obtain h4 where h4: "cleanup b h3 = Some h4" "changes (vec_blocks b) {} h3 h4"
    using cleanup_changes [OF changes_ok [OF h3(2)]] by blast
  have "live h4 = ((live h \<union> vec_blocks a \<union> vec_blocks b) - vec_blocks a) - vec_blocks b"
    using a(2) b(1) h3(2) h4(2) by (simp add: changes_def)
  moreover have "vec_blocks a \<inter> live h = {}" using a(2) by (auto simp: changes_def)
  moreover have "vec_blocks b \<inter> live h = {}" using a(2) b(1) by (auto simp: changes_def)
  ultimately have "live h4 = live h" by blast
  then have "changes {} {} h h4" using a(2) b(1) h3(2) h4(2) by (simp add: changes_def)
  then show ?thesis using h3(1) h4(1) by blast
qed

text \<open>
  The pair of a binary function: both vectors, of one type and dimension, with their blocks; or an
  error and no block. It is undefined exactly when the first vector was parsed and the second
  cannot be read.
\<close>

definition balanced_pair :: "heap \<Rightarrow> ((vec \<times> vec \<times> element_type \<times> nat) outcome \<times> heap) option \<Rightarrow> bool" where
  "balanced_pair h r \<longleftrightarrow> (\<exists>e h'. r = Some (Fail (Some e), h') \<and> changes {} {} h h') \<or>
     (\<exists>a b t h1 h2. r = Some (Done (a, b, t, v_dims a), h2) \<and> v_dims b = v_dims a \<and>
        changes {} (vec_blocks a) h h1 \<and> vec_ok a h1 \<and> changes {} (vec_blocks b) h1 h2 \<and> vec_ok b h2)"

definition second_fails :: "strtod_fn \<Rightarrow> sql_value \<Rightarrow> sql_value \<Rightarrow> heap \<Rightarrow> bool" where
  "second_fails strtod x y h = (case vector_from_value strtod x h of
      Some (Done (a, t), h) \<Rightarrow> v_frees a \<and> (case vector_from_value strtod y h of Some (Fail e, h) \<Rightarrow> True | _ \<Rightarrow> False)
    | _ \<Rightarrow> False)"

lemma ensure_vector_match_balanced:
  assumes h: "heap_ok h" and s: "strtod_ok strtod"
    and x: "length (val_bytes x) < 2 ^ 28" and y: "length (val_bytes y) < 2 ^ 28"
  shows "if second_fails strtod x y h then ensure_vector_match strtod x y h = None
    else balanced_pair h (ensure_vector_match strtod x y h)"
proof -
  consider (fail) e h1 where "vector_from_value strtod x h = Some (Fail e, h1)" "changes {} {} h h1"
    | (good) a t h1 where "vector_from_value strtod x h = Some (Done (a, t), h1)" "changes {} (vec_blocks a) h h1" "vec_ok a h1"
    using vector_from_value_balanced [OF h s x] unfolding balanced_typed_def by blast
  then show ?thesis
  proof cases
    case fail
    then show ?thesis by (simp add: ensure_vector_match_def second_fails_def balanced_pair_def)
  next
    case a: good
    consider (fail) e h2 where "vector_from_value strtod y h1 = Some (Fail e, h2)" "changes {} {} h1 h2"
      | (good) b u h2 where "vector_from_value strtod y h1 = Some (Done (b, u), h2)" "changes {} (vec_blocks b) h1 h2" "vec_ok b h2"
      using vector_from_value_balanced [OF changes_ok [OF a(2)] s y] unfolding balanced_typed_def by blast
    then show ?thesis
    proof cases
      case fail
      have "changes {} {} h h2" if "\<not> v_frees a"
        using a(2) fail(2) that changes_none by (simp add: vec_blocks_def)
      then show ?thesis using a(1) fail(1)
        by (simp add: ensure_vector_match_def second_fails_def balanced_pair_def)
    next
      case b: good
      obtain h3 h4 where "cleanup a h2 = Some h3" "cleanup b h3 = Some h4" "changes {} {} h h4"
        using cleanup_both [OF h a(2,3) b(2,3)] by blast
      then show ?thesis using a b
        by (auto simp: ensure_vector_match_def second_fails_def balanced_pair_def)
    qed
  qed
qed

end
