(* ===== verification/VecScalar.thy ===== *)
theory VecScalar
  imports VecValue
begin

text \<open>
  The scalar SQL functions of \<^verbatim>\<open>extensions/sqlite-vec/cc/sqlite-vec.c\<close>, from \<open>vec_f32\<close> to
  \<open>vec_normalize\<close>: each takes SQL values and the heap and leaves a result. \<open>None\<close> is undefined
  behaviour: the use of an error pointer that was not set, the free of what is no block, or a
  conversion out of range. \<open>strtod\<close>, \<open>sqlite3_value_int\<close> and the text of a \<open>%f\<close> are parameters.
\<close>

section \<open>Results\<close>

text \<open>Who owns the bytes of a result: SQLite copies them, borrows them, or frees the block later.\<close>

datatype storage = Copied | Borrowed | Owned nat

text \<open>A blob and a text carry their subtype; \<open>RNomem\<close> is the error code \<open>SQLITE_NOMEM\<close>.\<close>

datatype result =
    RError message
  | RNomem
  | RInt int
  | RDouble f64
  | RText "u8 list" nat storage
  | RBlob "u8 list" nat storage

fun result_blocks :: "result \<Rightarrow> nat set" where
  "result_blocks (RText _ _ (Owned i)) = {i}"
| "result_blocks (RBlob _ _ (Owned i)) = {i}"
| "result_blocks _ = {}"

type_synonym run = "(result \<times> heap) option"

text \<open>
  The head of every function: a failure reports the message, whose pointer must have been set.
\<close>

definition from_value :: "('a outcome \<times> heap) option \<Rightarrow> ('a \<Rightarrow> heap \<Rightarrow> run) \<Rightarrow> run" where
  "from_value r k = do {
     (x, h) \<leftarrow> r;
     case x of
       Fail None \<Rightarrow> None
     | Fail (Some e) \<Rightarrow> Some (RError e, h)
     | Done v \<Rightarrow> k v h }"

text \<open>The end of a function: the cleanup of its vectors after the result is set.\<close>

definition finish1 :: "vec \<Rightarrow> result \<Rightarrow> heap \<Rightarrow> run" where
  "finish1 v r h = do { h \<leftarrow> cleanup v h; Some (r, h) }"

definition finish2 :: "vec \<Rightarrow> vec \<Rightarrow> result \<Rightarrow> heap \<Rightarrow> run" where
  "finish2 a b r h = do { h \<leftarrow> cleanup a h; h \<leftarrow> cleanup b h; Some (r, h) }"

text \<open>An \<open>int\<close> from a \<open>size_t\<close>.\<close>

definition int_of_size :: "nat \<Rightarrow> int" where
  "int_of_size n = sint (word_of_nat n :: u32)"

section \<open>Constructors\<close>

definition vec_f32 :: "strtod_fn \<Rightarrow> sql_value \<Rightarrow> heap \<Rightarrow> run" where
  "vec_f32 strtod x h = from_value (fvec_from_value strtod x h) (\<lambda>v h.
     Some (RBlob (take (v_dims v * 4) (v_data v)) (subtype_of FLOAT32)
             (case v_block v of Some i \<Rightarrow> if v_frees v then Owned i else Borrowed | None \<Rightarrow> Borrowed), h))"

definition vec_bit :: "sql_value \<Rightarrow> heap \<Rightarrow> run" where
  "vec_bit x h = from_value (bitvec_from_value x h) (\<lambda>v h.
     finish1 v (RBlob (take (v_dims v div 8) (v_data v)) (subtype_of BIT) Copied) h)"

definition vec_int8 :: "sql_value \<Rightarrow> heap \<Rightarrow> run" where
  "vec_int8 x h = from_value (int8_vec_from_value x h) (\<lambda>v h.
     finish1 v (RBlob (take (v_dims v) (v_data v)) (subtype_of INT8) Copied) h)"

definition vec_length :: "strtod_fn \<Rightarrow> sql_value \<Rightarrow> heap \<Rightarrow> run" where
  "vec_length strtod x h = from_value (vector_from_value strtod x h) (\<lambda>(v, t) h.
     finish1 v (RInt (int (v_dims v))) h)"

definition vec_type_name :: "element_type \<Rightarrow> string" where
  "vec_type_name t = (case t of FLOAT32 \<Rightarrow> ''float32'' | INT8 \<Rightarrow> ''int8'' | BIT \<Rightarrow> ''bit'')"

definition vec_type :: "strtod_fn \<Rightarrow> sql_value \<Rightarrow> heap \<Rightarrow> run" where
  "vec_type strtod x h = from_value (vector_from_value strtod x h) (\<lambda>(v, t) h.
     finish1 v (RText (lit (vec_type_name t)) 0 Borrowed) h)"

section \<open>Distances\<close>

definition vec_distance_cosine :: "strtod_fn \<Rightarrow> sql_value \<Rightarrow> sql_value \<Rightarrow> heap \<Rightarrow> run" where
  "vec_distance_cosine strtod x y h = from_value (ensure_vector_match strtod x y h) (\<lambda>(a, b, t, dimensions) h.
     case t of
       BIT \<Rightarrow> finish2 a b (RError (Msg ''Cannot calculate cosine distance between two bitvectors.'')) h
     | FLOAT32 \<Rightarrow> do {
         d \<leftarrow> distance_cosine_float (v_data a) (v_data b) dimensions;
         finish2 a b (RDouble (f64_of_f32 d)) h }
     | INT8 \<Rightarrow> do {
         d \<leftarrow> distance_cosine_int8 (v_data a) (v_data b) dimensions;
         finish2 a b (RDouble (f64_of_f32 d)) h })"

definition vec_distance_l2 :: "strtod_fn \<Rightarrow> sql_value \<Rightarrow> sql_value \<Rightarrow> heap \<Rightarrow> run" where
  "vec_distance_l2 strtod x y h = from_value (ensure_vector_match strtod x y h) (\<lambda>(a, b, t, dimensions) h.
     case t of
       BIT \<Rightarrow> finish2 a b (RError (Msg ''Cannot calculate L2 distance between two bitvectors.'')) h
     | FLOAT32 \<Rightarrow> do {
         d \<leftarrow> distance_l2_sqr_float (v_data a) (v_data b) dimensions;
         finish2 a b (RDouble (f64_of_f32 d)) h }
     | INT8 \<Rightarrow> do {
         d \<leftarrow> distance_l2_sqr_int8 (v_data a) (v_data b) dimensions;
         finish2 a b (RDouble (f64_of_f32 d)) h })"

text \<open>The 64-bit sum of an \<open>int8\<close> distance is passed as an \<open>int\<close>.\<close>

definition vec_distance_l1 :: "strtod_fn \<Rightarrow> sql_value \<Rightarrow> sql_value \<Rightarrow> heap \<Rightarrow> run" where
  "vec_distance_l1 strtod x y h = from_value (ensure_vector_match strtod x y h) (\<lambda>(a, b, t, dimensions) h.
     case t of
       BIT \<Rightarrow> finish2 a b (RError (Msg ''Cannot calculate L1 distance between two bitvectors.'')) h
     | FLOAT32 \<Rightarrow> do {
         d \<leftarrow> distance_l1_f32 (v_data a) (v_data b) dimensions;
         finish2 a b (RDouble d) h }
     | INT8 \<Rightarrow> do {
         d \<leftarrow> distance_l1_int8 (v_data a) (v_data b) dimensions;
         finish2 a b (RInt (sint (word_of_int d :: u32))) h })"

definition vec_distance_hamming :: "strtod_fn \<Rightarrow> sql_value \<Rightarrow> sql_value \<Rightarrow> heap \<Rightarrow> run" where
  "vec_distance_hamming strtod x y h = from_value (ensure_vector_match strtod x y h) (\<lambda>(a, b, t, dimensions) h.
     case t of
       BIT \<Rightarrow> do {
         d \<leftarrow> distance_hamming (v_data a) (v_data b) dimensions;
         finish2 a b (RDouble (f64_of_f32 d)) h }
     | FLOAT32 \<Rightarrow> finish2 a b (RError (Msg ''Cannot calculate hamming distance between two float32 vectors.'')) h
     | INT8 \<Rightarrow> finish2 a b (RError (Msg ''Cannot calculate hamming distance between two int8 vectors.'')) h)"

section \<open>Quantization\<close>

definition CHAR_BIT :: nat where
  "CHAR_BIT = 8"

text \<open>The bit of an element: whether it is positive.\<close>

definition f32_positive :: "u8 list \<Rightarrow> nat \<Rightarrow> bool option" where
  "f32_positive v i = map_option (\<lambda>x. f64_less 0 (f64_of_f32 x)) (f32_at v i)"

definition i8_positive :: "u8 list \<Rightarrow> nat \<Rightarrow> bool option" where
  "i8_positive v i = map_option (\<lambda>x. x > 0) (i8_at v i)"

definition or_bit :: "(nat \<Rightarrow> bool option) \<Rightarrow> nat \<Rightarrow> u8 list \<Rightarrow> u8 list option" where
  "or_bit res i out = do {
     r \<leftarrow> res i;
     b \<leftarrow> rd out (i div 8);
     wr out (i div 8) (b OR push_bit (i mod 8) (if r then 1 else 0)) }"

definition quantize_binary :: "vec \<times> element_type \<Rightarrow> heap \<Rightarrow> run" where
  "quantize_binary = (\<lambda>(v, t) h.
     if v_dims v \<le> 0 then finish1 v (RError (Msg ''Zero length vectors are not supported.'')) h
     else if v_dims v mod CHAR_BIT \<noteq> 0 then
       finish1 v (RError (Msg ''Binary quantization requires vectors with a length divisible by 8'')) h
     else
       let sz = v_dims v div CHAR_BIT in
       case malloc (int_of_size sz) h of
         (None, h) \<Rightarrow> finish1 v RNomem h
       | (Some z, h) \<Rightarrow>
           let out = replicate sz 0 in
           (case t of
              FLOAT32 \<Rightarrow> do {
                out \<leftarrow> for_loop (or_bit (f32_positive (v_data v))) 0 (v_dims v) out;
                finish1 v (RBlob out (subtype_of BIT) (Owned z)) h }
            | INT8 \<Rightarrow> do {
                out \<leftarrow> for_loop (or_bit (i8_positive (v_data v))) 0 (v_dims v) out;
                finish1 v (RBlob out (subtype_of BIT) (Owned z)) h }
            | BIT \<Rightarrow> do {
                h \<leftarrow> free (Some z) h;
                Some (RError (Msg ''Can only binary quantize float or int8 vectors''), h) }))"

definition vec_quantize_binary :: "strtod_fn \<Rightarrow> sql_value \<Rightarrow> heap \<Rightarrow> run" where
  "vec_quantize_binary strtod x h = from_value (vector_from_value strtod x h) quantize_binary"

text \<open>A double to an \<open>i8\<close>: undefined when the truncated value does not fit.\<close>

definition i8_of_f64 :: "f64 \<Rightarrow> u8 option" where
  "i8_of_f64 x = do {
     k \<leftarrow> f64_trunc x;
     if - 128 \<le> k \<and> k \<le> 127 then Some (word_of_int k) else None }"

definition step :: f32 where
  "step = f32_of_f64 (f64_div (f64_sub (f64_of_int 1) (f64_of_int (- 1))) (f64_of_int 255))"

definition quantize_f32 :: "f32 \<Rightarrow> u8 option" where
  "quantize_f32 x =
     i8_of_f64 (f64_sub (f64_div (f64_sub (f64_of_f32 x) (f64_of_int (- 1))) (f64_of_f32 step)) (f64_of_int 128))"

definition quantize_step :: "u8 list \<Rightarrow> nat \<Rightarrow> u8 list \<Rightarrow> u8 list option" where
  "quantize_step src i out = do { x \<leftarrow> f32_at src i; y \<leftarrow> quantize_f32 x; wr out i y }"

text \<open>ASCII letters compare without case; the second argument has to be the text \<open>unit\<close>.\<close>

definition lower :: "u8 \<Rightarrow> u8" where
  "lower b = (if 65 \<le> b \<and> b \<le> 90 then b + 32 else b)"

definition is_unit :: "sql_value \<Rightarrow> bool" where
  "is_unit x \<longleftrightarrow> val_type x = SQLITE_TEXT \<and> length (val_bytes x) = 4 \<and> map lower (val_bytes x) = lit ''unit''"

definition quantize_int8 :: "sql_value \<Rightarrow> vec \<Rightarrow> heap \<Rightarrow> run" where
  "quantize_int8 y = (\<lambda>v h.
     case malloc (int_of_size (v_dims v)) h of
       (None, h) \<Rightarrow> finish1 v RNomem h
     | (Some z, h) \<Rightarrow>
         let out = replicate (v_dims v) 0 in
         if \<not> is_unit y then do {
           h \<leftarrow> free (Some z) h;
           finish1 v (RError (Msg (''2nd argument to vec_quantize_int8() must be '' @ [CHR 0x27] @ ''unit'' @ [CHR 0x27, CHR 0x2E]))) h }
         else do {
           out \<leftarrow> for_loop (quantize_step (v_data v)) 0 (v_dims v) out;
           finish1 v (RBlob out (subtype_of INT8) (Owned z)) h })"

definition vec_quantize_int8 :: "strtod_fn \<Rightarrow> sql_value \<Rightarrow> sql_value \<Rightarrow> heap \<Rightarrow> run" where
  "vec_quantize_int8 strtod x y h = from_value (fvec_from_value strtod x h) (quantize_int8 y)"

section \<open>Arithmetic\<close>

text \<open>One element of the output, from those of the operands; the \<open>int8\<close> sum is taken modulo 256.\<close>

definition f32_step :: "(f32 \<Rightarrow> f32 \<Rightarrow> f32) \<Rightarrow> u8 list \<Rightarrow> u8 list \<Rightarrow> nat \<Rightarrow> u8 list \<Rightarrow> u8 list option" where
  "f32_step f a b i out = do { x \<leftarrow> f32_at a i; y \<leftarrow> f32_at b i; st32 out (4 * i) (f x y) }"

definition i8_step :: "(int \<Rightarrow> int \<Rightarrow> int) \<Rightarrow> u8 list \<Rightarrow> u8 list \<Rightarrow> nat \<Rightarrow> u8 list \<Rightarrow> u8 list option" where
  "i8_step f a b i out = do { x \<leftarrow> i8_at a i; y \<leftarrow> i8_at b i; wr out i (word_of_int (f x y)) }"

definition add_vectors :: "vec \<times> vec \<times> element_type \<times> nat \<Rightarrow> heap \<Rightarrow> run" where
  "add_vectors = (\<lambda>(a, b, t, dimensions) h.
     case t of
       BIT \<Rightarrow> finish2 a b (RError (Msg ''Cannot add two bitvectors together.'')) h
     | FLOAT32 \<Rightarrow>
         let outSize = dimensions * 4 in
         (case malloc (int_of_size outSize) h of
            (None, h) \<Rightarrow> finish2 a b RNomem h
          | (Some z, h) \<Rightarrow> do {
              out \<leftarrow> for_loop (f32_step f32_add (v_data a) (v_data b)) 0 dimensions (replicate outSize 0);
              finish2 a b (RBlob out (subtype_of FLOAT32) (Owned z)) h })
     | INT8 \<Rightarrow>
         let outSize = dimensions in
         (case malloc (int_of_size outSize) h of
            (None, h) \<Rightarrow> finish2 a b RNomem h
          | (Some z, h) \<Rightarrow> do {
              out \<leftarrow> for_loop (i8_step (+) (v_data a) (v_data b)) 0 dimensions (replicate outSize 0);
              finish2 a b (RBlob out (subtype_of INT8) (Owned z)) h }))"

definition vec_add :: "strtod_fn \<Rightarrow> sql_value \<Rightarrow> sql_value \<Rightarrow> heap \<Rightarrow> run" where
  "vec_add strtod x y h = from_value (ensure_vector_match strtod x y h) add_vectors"

definition sub_vectors :: "vec \<times> vec \<times> element_type \<times> nat \<Rightarrow> heap \<Rightarrow> run" where
  "sub_vectors = (\<lambda>(a, b, t, dimensions) h.
     case t of
       BIT \<Rightarrow> finish2 a b (RError (Msg ''Cannot subtract two bitvectors together.'')) h
     | FLOAT32 \<Rightarrow>
         let outSize = dimensions * 4 in
         (case malloc (int_of_size outSize) h of
            (None, h) \<Rightarrow> finish2 a b RNomem h
          | (Some z, h) \<Rightarrow> do {
              out \<leftarrow> for_loop (f32_step f32_sub (v_data a) (v_data b)) 0 dimensions (replicate outSize 0);
              finish2 a b (RBlob out (subtype_of FLOAT32) (Owned z)) h })
     | INT8 \<Rightarrow>
         let outSize = dimensions in
         (case malloc (int_of_size outSize) h of
            (None, h) \<Rightarrow> finish2 a b RNomem h
          | (Some z, h) \<Rightarrow> do {
              out \<leftarrow> for_loop (i8_step (-) (v_data a) (v_data b)) 0 dimensions (replicate outSize 0);
              finish2 a b (RBlob out (subtype_of INT8) (Owned z)) h }))"

definition vec_sub :: "strtod_fn \<Rightarrow> sql_value \<Rightarrow> sql_value \<Rightarrow> heap \<Rightarrow> run" where
  "vec_sub strtod x y h = from_value (ensure_vector_match strtod x y h) sub_vectors"

section \<open>Slices\<close>

text \<open>The checks of the bounds, in the order of the code.\<close>

definition slice_error :: "int \<Rightarrow> int \<Rightarrow> nat \<Rightarrow> message option" where
  "slice_error start stop dimensions =
     (if start < 0 then Some (Msg (''slice '' @ [CHR 0x27] @ ''start'' @ [CHR 0x27] @ '' index must be a postive number.''))
      else if stop < 0 then Some (Msg (''slice '' @ [CHR 0x27] @ ''end'' @ [CHR 0x27] @ '' index must be a postive number.''))
      else if nat start > dimensions then
        Some (Msg (''slice '' @ [CHR 0x27] @ ''start'' @ [CHR 0x27] @ '' index is greater than the number of dimensions''))
      else if nat stop > dimensions then
        Some (Msg (''slice '' @ [CHR 0x27] @ ''end'' @ [CHR 0x27] @ '' index is greater than the number of dimensions''))
      else if start > stop then
        Some (Msg (''slice '' @ [CHR 0x27] @ ''start'' @ [CHR 0x27] @ '' index is greater than '' @ [CHR 0x27] @ ''end'' @ [CHR 0x27] @ '' index''))
      else if start = stop then
        Some (Msg (''slice '' @ [CHR 0x27] @ ''start'' @ [CHR 0x27] @ '' index is equal to the '' @ [CHR 0x27] @ ''end'' @ [CHR 0x27] @
                   '' index, vectors must have non-zero length''))
      else None)"

definition slice_f32 :: "u8 list \<Rightarrow> nat \<Rightarrow> nat \<Rightarrow> u8 list \<Rightarrow> u8 list option" where
  "slice_f32 v start i out = do { x \<leftarrow> f32_at v (start + i); st32 out (4 * i) x }"

definition slice_u8 :: "u8 list \<Rightarrow> nat \<Rightarrow> nat \<Rightarrow> u8 list \<Rightarrow> u8 list option" where
  "slice_u8 v start i out = do { x \<leftarrow> rd v (start + i); wr out i x }"

definition slice_vector :: "int \<Rightarrow> int \<Rightarrow> vec \<times> element_type \<Rightarrow> heap \<Rightarrow> run" where
  "slice_vector start stop = (\<lambda>(v, t) h.
     case slice_error start stop (v_dims v) of
       Some e \<Rightarrow> finish1 v (RError e) h
     | None \<Rightarrow>
         let s = nat start; n = nat stop - nat start in
         case t of
           FLOAT32 \<Rightarrow>
             let outSize = n * 4 in
             (case malloc (int_of_size outSize) h of
                (None, h) \<Rightarrow> finish1 v RNomem h
              | (Some i, h) \<Rightarrow> do {
                  out \<leftarrow> for_loop (slice_f32 (v_data v) s) 0 n (replicate outSize 0);
                  finish1 v (RBlob out (subtype_of FLOAT32) (Owned i)) h })
         | INT8 \<Rightarrow>
             (case malloc (int_of_size n) h of
                (None, h) \<Rightarrow> Some (RNomem, h)
              | (Some i, h) \<Rightarrow> do {
                  out \<leftarrow> for_loop (slice_u8 (v_data v) s) 0 n (replicate n 0);
                  finish1 v (RBlob out (subtype_of INT8) (Owned i)) h })
         | BIT \<Rightarrow>
             if nat start mod CHAR_BIT \<noteq> 0 then finish1 v (RError (Msg ''start index must be divisible by 8.'')) h
             else if nat stop mod CHAR_BIT \<noteq> 0 then finish1 v (RError (Msg ''end index must be divisible by 8.'')) h
             else
               let outSize = n div CHAR_BIT in
               (case malloc (int_of_size outSize) h of
                  (None, h) \<Rightarrow> Some (RNomem, h)
                | (Some i, h) \<Rightarrow> do {
                    out \<leftarrow> for_loop (slice_u8 (v_data v) (s div CHAR_BIT)) 0 (n div CHAR_BIT) (replicate outSize 0);
                    finish1 v (RBlob out (subtype_of BIT) (Owned i)) h }))"

definition vec_slice ::
  "strtod_fn \<Rightarrow> (sql_value \<Rightarrow> int) \<Rightarrow> sql_value \<Rightarrow> sql_value \<Rightarrow> sql_value \<Rightarrow> heap \<Rightarrow> run" where
  "vec_slice strtod value_int x y z h =
     from_value (vector_from_value strtod x h) (slice_vector (value_int y) (value_int z))"

section \<open>JSON text\<close>

text \<open>The decimal text of a \<open>%d\<close>.\<close>

definition dec_text :: "int \<Rightarrow> u8 list" where
  "dec_text k = (if k < 0 then 45 # decimal (nat (- k)) else decimal (nat k))"

definition json_element :: "(f64 \<Rightarrow> u8 list) \<Rightarrow> element_type \<Rightarrow> u8 list \<Rightarrow> nat \<Rightarrow> u8 list option" where
  "json_element fmt_f t v i = (case t of
       FLOAT32 \<Rightarrow> do { x \<leftarrow> f32_at v i; Some (if f32_nan x then lit ''null'' else fmt_f (f64_of_f32 x)) }
     | INT8 \<Rightarrow> do { x \<leftarrow> i8_at v i; Some (dec_text x) }
     | BIT \<Rightarrow> do { b \<leftarrow> rd v (i div 8); Some (dec_text (if bit b (i mod CHAR_BIT) then 1 else 0)) })"

text \<open>The growing string of SQLite gives \<open>NULL\<close> at its end when memory ran out.\<close>

definition json_step :: "(f64 \<Rightarrow> u8 list) \<Rightarrow> element_type \<Rightarrow> u8 list \<Rightarrow> nat \<Rightarrow> u8 list \<Rightarrow> u8 list option" where
  "json_step fmt_f t v i str = do {
     e \<leftarrow> json_element fmt_f t v i;
     Some (str @ (if i \<noteq> 0 then lit '','' else []) @ e) }"

definition to_json :: "(f64 \<Rightarrow> u8 list) \<Rightarrow> vec \<times> element_type \<Rightarrow> heap \<Rightarrow> run" where
  "to_json fmt_f = (\<lambda>(v, t) h. do {
     str \<leftarrow> for_loop (json_step fmt_f t (v_data v)) 0 (v_dims v) (lit ''['');
     let str = str @ lit '']'';
     case malloc (int (length str + 1)) h of
       (None, h) \<Rightarrow> finish1 v RNomem h
     | (Some i, h) \<Rightarrow> finish1 v (RText str JSON_SUBTYPE (Owned i)) h })"

definition vec_to_json :: "strtod_fn \<Rightarrow> (f64 \<Rightarrow> u8 list) \<Rightarrow> sql_value \<Rightarrow> heap \<Rightarrow> run" where
  "vec_to_json strtod fmt_f x h = from_value (vector_from_value strtod x h) (to_json fmt_f)"

section \<open>Normalization\<close>

definition norm_step :: "u8 list \<Rightarrow> nat \<Rightarrow> f32 \<Rightarrow> f32 option" where
  "norm_step v i len2 = do { x \<leftarrow> f32_at v i; Some (f32_add len2 (f32_mul x x)) }"

definition divide_step :: "u8 list \<Rightarrow> f32 \<Rightarrow> nat \<Rightarrow> u8 list \<Rightarrow> u8 list option" where
  "divide_step v len2 i out = do { x \<leftarrow> f32_at v i; st32 out (4 * i) (f32_div x len2) }"

definition normalize :: "vec \<times> element_type \<Rightarrow> heap \<Rightarrow> run" where
  "normalize = (\<lambda>(v, t) h.
     if t \<noteq> FLOAT32 then finish1 v (RError (Msg ''only float32 vectors are supported when normalizing'')) h
     else
       let outSize = v_dims v * 4 in
       case malloc (int_of_size outSize) h of
         (None, h) \<Rightarrow> finish1 v RNomem h
       | (Some z, h) \<Rightarrow> do {
           len2 \<leftarrow> for_loop (norm_step (v_data v)) 0 (v_dims v) 0;
           let len2 = f32_of_f64 (f64_sqrt (f64_of_f32 len2));
           out \<leftarrow> for_loop (divide_step (v_data v) len2) 0 (v_dims v) (replicate outSize 0);
           finish1 v (RBlob out (subtype_of FLOAT32) (Owned z)) h })"

definition vec_normalize :: "strtod_fn \<Rightarrow> sql_value \<Rightarrow> heap \<Rightarrow> run" where
  "vec_normalize strtod x h = from_value (vector_from_value strtod x h) normalize"

section \<open>Registration\<close>

text \<open>The table \<open>aFunc\<close> of \<open>sqlite3_vec_init\<close>: the functions and their numbers of arguments.\<close>

datatype scalar =
    Vec_distance_l2 | Vec_distance_l1 | Vec_distance_hamming | Vec_distance_cosine | Vec_length | Vec_type
  | Vec_to_json | Vec_add | Vec_sub | Vec_slice | Vec_normalize | Vec_f32 | Vec_bit | Vec_int8
  | Vec_quantize_int8 | Vec_quantize_binary

definition nArg :: "scalar \<Rightarrow> nat" where
  "nArg f = (case f of Vec_slice \<Rightarrow> 3
     | Vec_distance_l2 \<Rightarrow> 2 | Vec_distance_l1 \<Rightarrow> 2 | Vec_distance_hamming \<Rightarrow> 2 | Vec_distance_cosine \<Rightarrow> 2
     | Vec_add \<Rightarrow> 2 | Vec_sub \<Rightarrow> 2 | Vec_quantize_int8 \<Rightarrow> 2 | _ \<Rightarrow> 1)"

definition scalar_call ::
  "strtod_fn \<Rightarrow> (sql_value \<Rightarrow> int) \<Rightarrow> (f64 \<Rightarrow> u8 list) \<Rightarrow> scalar \<Rightarrow> sql_value list \<Rightarrow> heap \<Rightarrow> run" where
  "scalar_call strtod value_int fmt_f f argv h = (case f of
       Vec_distance_l2 \<Rightarrow> vec_distance_l2 strtod (argv ! 0) (argv ! 1) h
     | Vec_distance_l1 \<Rightarrow> vec_distance_l1 strtod (argv ! 0) (argv ! 1) h
     | Vec_distance_hamming \<Rightarrow> vec_distance_hamming strtod (argv ! 0) (argv ! 1) h
     | Vec_distance_cosine \<Rightarrow> vec_distance_cosine strtod (argv ! 0) (argv ! 1) h
     | Vec_length \<Rightarrow> vec_length strtod (argv ! 0) h
     | Vec_type \<Rightarrow> vec_type strtod (argv ! 0) h
     | Vec_to_json \<Rightarrow> vec_to_json strtod fmt_f (argv ! 0) h
     | Vec_add \<Rightarrow> vec_add strtod (argv ! 0) (argv ! 1) h
     | Vec_sub \<Rightarrow> vec_sub strtod (argv ! 0) (argv ! 1) h
     | Vec_slice \<Rightarrow> vec_slice strtod value_int (argv ! 0) (argv ! 1) (argv ! 2) h
     | Vec_normalize \<Rightarrow> vec_normalize strtod (argv ! 0) h
     | Vec_f32 \<Rightarrow> vec_f32 strtod (argv ! 0) h
     | Vec_bit \<Rightarrow> vec_bit (argv ! 0) h
     | Vec_int8 \<Rightarrow> vec_int8 (argv ! 0) h
     | Vec_quantize_int8 \<Rightarrow> vec_quantize_int8 strtod (argv ! 0) (argv ! 1) h
     | Vec_quantize_binary \<Rightarrow> vec_quantize_binary strtod (argv ! 0) h)"

end
