(* ===== verification/VecScalarSpec.thy ===== *)
theory VecScalarSpec
  imports VecScalar
begin

text \<open>
  What the scalar functions promise: the heap they leave holds just the block of their result, and
  the vectors they return are the pointwise images of their arguments.
\<close>

section \<open>Sizes of vectors\<close>

text \<open>The bytes of a vector are those of its elements, eight bits of a bit vector to a byte.\<close>

fun sized :: "element_type \<Rightarrow> vec \<Rightarrow> bool" where
  "sized FLOAT32 v \<longleftrightarrow> length (v_data v) = 4 * v_dims v"
| "sized INT8 v \<longleftrightarrow> length (v_data v) = v_dims v"
| "sized BIT v \<longleftrightarrow> 8 * length (v_data v) = v_dims v"

lemma json_elements_sized:
  assumes r: "\<And>i bs j. r i = Some (Element bs j) \<Longrightarrow> length bs = k"
  shows "json_elements r m i n x h = Some (Inr y, h') \<Longrightarrow> length (a_data x) = k * a_length x \<Longrightarrow>
    a_length x \<le> i \<Longrightarrow> a_length x \<le> n \<Longrightarrow> length (a_data y) = k * a_length y \<and> a_length y \<le> n"
proof (induction "n - i" arbitrary: i x h rule: less_induct)
  case less
  note u = json_elements.simps [of r m i n x h]
  show ?case
  proof (cases "i < n \<and> (\<exists>bs j. r i = Some (Element bs j))")
    case False
    then show ?thesis using less.prems u
      by (auto split: element.splits Option.bind_splits if_splits)
  next
    case True
    then obtain bs j where e: "r i = Some (Element bs j)" "i < n" by blast
    then obtain s x1 h1 k' c where x1: "i < j" "array_append x bs h = Some ((s, x1), h1)"
      "skip_separators m j n = Some (k', c)"
      "(if c then Some (Inr x1, h1) else json_elements r m k' n x1 h1) = Some (Inr y, h')"
      using less.prems(1) u by (auto split: if_splits Option.bind_splits)
    have grown: "length (a_data x1) = k * a_length x1" "a_length x1 \<le> Suc i" "a_length x1 \<le> n"
      using x1(2) less.prems(2-4) e(2) r [OF e(1)]
      by (auto simp: array_append_def Let_def split: if_splits Option.bind_splits option.splits)
    have "j \<le> k'" by (rule skip_separators_forward [OF x1(3)])
    then have "n - k' < n - i" "a_length x1 \<le> k'" using x1(1) e(2) grown(2) by linarith+
    then show ?thesis using x1(4) less.hyps [OF _ _ grown(1) _ grown(3)] grown by (auto split: if_splits)
  qed
qed

lemma json_vector_sized:
  assumes r: "\<And>m i bs j. read_elem m i = Some (Element bs j) \<Longrightarrow> length bs = k"
    and j: "json_vector read_elem k bytes h = Some (Done v, h')"
  shows "length (v_data v) = k * v_dims v \<and> 0 < v_dims v \<and> v_dims v \<le> length bytes"
proof -
  obtain x h1 i y h2 where x: "array_init k ((length bytes + 1) div 2) h = (Some x, h1)"
    "json_elements (read_elem (bytes @ [0])) (bytes @ [0]) (Suc i) (length bytes) x h1 = Some (Inr y, h2)"
    "a_length y > 0" "v = \<lparr>v_data = a_data y, v_dims = a_length y, v_block = a_z y, v_frees = True\<rparr>"
    using j by (auto simp: json_vector_def Let_def split: if_splits option.splits prod.splits Option.bind_splits sum.splits)
  have "a_data x = []" "a_length x = 0" using x(1) by (auto simp: array_init_def split: prod.splits option.splits)
  then have "length (a_data y) = k * a_length y \<and> a_length y \<le> length bytes"
    using json_elements_sized [OF r x(2)] by simp
  then show ?thesis using x(3,4) by simp
qed

lemma read_lengths:
  "read_f32 strtod m i = Some (Element bs j) \<Longrightarrow> length bs = 4"
  "read_int8 m i = Some (Element bs j) \<Longrightarrow> length bs = 1"
  by (auto simp: read_f32_def read_int8_def f32_bytes_def split: if_splits Option.bind_splits prod.splits)

lemma json_sized:
  "json_vector (read_f32 strtod) 4 bytes h = Some (Done v, h') \<Longrightarrow>
     length (v_data v) = 4 * v_dims v \<and> 0 < v_dims v \<and> v_dims v \<le> length bytes"
  "json_vector read_int8 1 bytes h = Some (Done v, h') \<Longrightarrow>
     length (v_data v) = 1 * v_dims v \<and> 0 < v_dims v \<and> v_dims v \<le> length bytes"
  using json_vector_sized [of "read_f32 strtod" 4] json_vector_sized [of read_int8 1] read_lengths by blast+

lemma fvec_sized:
  "fvec_from_value strtod x h = Some (Done v, h') \<Longrightarrow>
     sized FLOAT32 v \<and> 0 < v_dims v \<and> v_dims v \<le> length (val_bytes x)"
  using json_sized(1)
  by (cases "val_type x") (auto simp: fvec_from_value_def Let_def blob_vector_def length_greater_0_conv [symmetric]
        simp del: length_greater_0_conv elim!: dvdE split: if_splits)

lemma bitvec_sized:
  "bitvec_from_value x h = Some (Done v, h') \<Longrightarrow>
     sized BIT v \<and> 0 < v_dims v \<and> v_dims v = 8 * length (val_bytes x)"
  by (auto simp: bitvec_from_value_def Let_def blob_vector_def split: if_splits)

lemma int8_vec_sized:
  "int8_vec_from_value x h = Some (Done v, h') \<Longrightarrow>
     sized INT8 v \<and> 0 < v_dims v \<and> v_dims v \<le> length (val_bytes x)"
  using json_sized(2)
  by (cases "val_type x") (auto simp: int8_vec_from_value_def Let_def blob_vector_def split: if_splits)

lemma with_type_Done: "with_type t r = Some (Done (v, u), h') \<longleftrightarrow> u = t \<and> r = Some (Done v, h')"
proof (cases r)
  case (Some p)
  then show ?thesis by (cases p; cases "fst p") (auto simp: with_type_def)
qed (simp add: with_type_def)

lemma with_type_Fail: "with_type t r = Some (Fail e, h') \<longleftrightarrow> r = Some (Fail e, h')"
proof (cases r)
  case (Some p)
  then show ?thesis by (cases p; cases "fst p") (auto simp: with_type_def)
qed (simp add: with_type_def)

lemma vector_from_value_sized:
  assumes "vector_from_value strtod x h = Some (Done (v, t), h')"
  shows "sized t v \<and> 0 < v_dims v \<and> v_dims v \<le> 8 * length (val_bytes x)"
proof -
  consider "t = FLOAT32" "fvec_from_value strtod x h = Some (Done v, h')"
    | "t = BIT" "bitvec_from_value x h = Some (Done v, h')"
    | "t = INT8" "int8_vec_from_value x h = Some (Done v, h')"
    using assms by (auto simp: vector_from_value_def Let_def with_type_Done split: if_splits)
  then show ?thesis
    by cases (use fvec_sized [of strtod x h v h'] bitvec_sized [of x h v h'] int8_vec_sized [of x h v h'] in auto)
qed

section \<open>Readers that set the error pointer\<close>

text \<open>As long as memory lasts every failure of a reader carries a message.\<close>

definition no_failures :: "heap \<Rightarrow> bool" where
  "no_failures h \<longleftrightarrow> h_fail h = (\<lambda>i. False)"

lemma malloc_succeeds:
  assumes "heap_ok h" "no_failures h" "0 < n"
  shows "\<exists>z h'. malloc n h = (Some z, h') \<and> changes {} {z} h h'"
proof (cases "malloc n h")
  case (Pair r h')
  then obtain z where "r = Some z" using assms(2,3) by (auto simp: malloc_def no_failures_def Let_def)
  then show ?thesis using malloc_changes [OF assms(1) Pair] Pair by simp
qed

lemma int_of_size_small: "n < 2 ^ 31 \<Longrightarrow> int_of_size n = int n"
  unfolding int_of_size_def by (simp add: signed_of_nat signed_take_bit_int_eq_self)

lemma json_vector_message:
  assumes f: "no_failures h" and k: "0 < k" "k \<le> 4" and len: "length bytes < 2 ^ 28"
  shows "json_vector read_elem k bytes h \<noteq> Some (Fail None, h')"
proof (cases "length bytes = 0")
  case False
  let ?c = "(length bytes + 1) div 2"
  have "k * ?c \<le> 4 * ?c" using k by simp
  then have "k * ?c < 2 ^ 31" by (rule le_less_trans) (use len in simp)
  moreover have "0 < k * ?c" using k False by simp
  ultimately have "0 < int_of_size (k * ?c)" by (simp add: int_of_size_small)
  then have "\<exists>x h1. array_init k ?c h = (Some x, h1)"
    using f by (auto simp: array_init_def malloc_def no_failures_def Let_def int_of_size_def)
  then show ?thesis using False
    by (auto simp: json_vector_def Let_def zero_length_def
        split: option.splits Option.bind_splits sum.splits if_splits)
qed (simp add: json_vector_def zero_length_def)

lemma vector_from_value_message:
  assumes "no_failures h" "length (val_bytes x) < 2 ^ 28"
  shows "fvec_from_value strtod x h \<noteq> Some (Fail None, h')" "bitvec_from_value x h \<noteq> Some (Fail None, h')"
    "int8_vec_from_value x h \<noteq> Some (Fail None, h')" "vector_from_value strtod x h \<noteq> Some (Fail None, h')"
proof -
  note j = json_vector_message [OF assms(1) _ _ assms(2)]
  show f: "fvec_from_value strtod x h \<noteq> Some (Fail None, h')"
    using j [of 4] by (cases "val_type x") (auto simp: fvec_from_value_def Let_def zero_length_def)
  show i: "int8_vec_from_value x h \<noteq> Some (Fail None, h')"
    using j [of 1] by (cases "val_type x") (auto simp: int8_vec_from_value_def Let_def zero_length_def)
  show b: "bitvec_from_value x h \<noteq> Some (Fail None, h')"
    by (auto simp: bitvec_from_value_def Let_def zero_length_def)
  show "vector_from_value strtod x h \<noteq> Some (Fail None, h')"
    using f i b by (auto simp: vector_from_value_def Let_def with_type_Fail)
qed

section \<open>Loops that fill a vector\<close>

lemma st32_append: "length p = a \<Longrightarrow> st32 (p @ b0 # b1 # b2 # b3 # r) a w = Some (p @ f32_bytes w @ r)"
  by (simp add: st32_def f32_bytes_def list_update_append eval_nat_numeral)

lemma fill_f32:
  assumes body: "\<And>i out. i < n \<Longrightarrow> body i out = st32 out (4 * i) (x i)"
  shows "for_loop body 0 n (replicate (n * 4) 0) = Some (concat (map (\<lambda>i. f32_bytes (x i)) [0..<n]))"
proof -
  let ?I = "\<lambda>i out. i \<le> n \<and> out = concat (map (\<lambda>i. f32_bytes (x i)) [0..<i]) @ replicate (4 * (n - i)) 0"
  have len: "length (concat (map (\<lambda>i. f32_bytes (x i)) [0..<i])) = 4 * i" for i
    by (induction i) (simp_all add: f32_bytes_def)
  have "\<exists>out. for_loop body 0 n (replicate (n * 4) 0) = Some out \<and> ?I (0 + n) out"
  proof (rule for_loop_invariant)
    fix j out assume j: "j < 0 + n" and out: "?I j out"
    then have "replicate (4 * (n - j)) (0 :: u8) = 0 # 0 # 0 # 0 # replicate (4 * (n - Suc j)) 0"
      by (simp add: eval_nat_numeral flip: replicate_Suc)
    then show "\<exists>out'. body j out = Some out' \<and> ?I (j + 1) out'"
      using j out by (simp add: body st32_append [OF len])
  qed (simp add: mult.commute)
  then show ?thesis by simp
qed

lemma fill_u8:
  fixes x :: "nat \<Rightarrow> u8"
  assumes body: "\<And>i out. i < n \<Longrightarrow> body i out = wr out i (x i)"
  shows "for_loop body 0 n (replicate n 0) = Some (map x [0..<n])"
proof -
  let ?I = "\<lambda>i out. i \<le> n \<and> out = map x [0..<i] @ replicate (n - i) 0"
  have "\<exists>out. for_loop body 0 n (replicate n 0) = Some out \<and> ?I (0 + n) out"
  proof (rule for_loop_invariant)
    fix j out assume j: "j < 0 + n" and out: "?I j out"
    then have "replicate (n - j) (0 :: u8) = 0 # replicate (n - Suc j) 0"
      by (simp add: Suc_diff_Suc flip: replicate_Suc)
    then show "\<exists>out'. body j out = Some out' \<and> ?I (j + 1) out'"
      using j out by (simp add: body list_update_append)
  qed simp
  then show ?thesis by simp
qed

lemma vbit_or:
  assumes "i < 8 * length out" "j < 8 * length out"
  shows "vbit (out[i div 8 := out ! (i div 8) OR push_bit (i mod 8) (if r then 1 else 0)]) j \<longleftrightarrow> vbit out j \<or> (r \<and> j = i)"
proof (cases "j div 8 = i div 8")
  case True
  then have "j mod 8 = i mod 8 \<longleftrightarrow> j = i" by (metis div_mult_mod_eq)
  moreover have "j mod 8 < 8" by simp
  ultimately show ?thesis using True assms(1)
    by (auto simp: vbit_def bit_or_iff bit_push_bit_iff bit_1_iff less_mult_imp_div_less mult.commute)
next
  case False
  then have "j \<noteq> i" by auto
  then show ?thesis using False by (simp add: vbit_def)
qed

lemma fill_bits:
  assumes "\<And>i. i < 8 * n \<Longrightarrow> res i = Some (P i)"
  shows "\<exists>out. for_loop (or_bit res) 0 (8 * n) (replicate n 0) = Some out \<and> length out = n \<and>
    (\<forall>j<8 * n. vbit out j \<longleftrightarrow> P j)"
proof -
  let ?I = "\<lambda>i out. length out = n \<and> (\<forall>j<8 * n. vbit out j \<longleftrightarrow> j < i \<and> P j)"
  have "\<exists>out. for_loop (or_bit res) 0 (8 * n) (replicate n 0) = Some out \<and> ?I (0 + 8 * n) out"
  proof (rule for_loop_invariant)
    show "?I 0 (replicate n (0 :: u8))" by (auto simp: vbit_def less_mult_imp_div_less mult.commute)
  next
    fix j out assume j: "j < 0 + 8 * n" and out: "?I j out"
    then have "j div 8 < length out" by (simp add: less_mult_imp_div_less mult.commute)
    then have "or_bit res j out = Some (out[j div 8 := out ! (j div 8) OR push_bit (j mod 8) (if P j then 1 else 0)])"
      using j assms by (simp add: or_bit_def)
    then show "\<exists>out'. or_bit res j out = Some out' \<and> ?I (j + 1) out'"
      using j out by (auto simp: vbit_or less_Suc_eq)
  qed
  then show ?thesis by simp
qed

section \<open>No leaks\<close>

text \<open>A call leaves a result, and of the blocks it allocated only that of the result is live.\<close>

definition leak_free :: "heap \<Rightarrow> run \<Rightarrow> bool" where
  "leak_free h r \<longleftrightarrow> (\<exists>res h'. r = Some (res, h') \<and> changes {} (result_blocks res) h h')"

text \<open>A vector in use: its block, if any, is one of those allocated since \<open>h\<close>, apart from \<open>B\<close>.\<close>

definition holds :: "vec \<Rightarrow> nat set \<Rightarrow> heap \<Rightarrow> heap \<Rightarrow> bool" where
  "holds v B h h1 \<longleftrightarrow> changes {} (vec_blocks v \<union> B) h h1 \<and> vec_blocks v \<inter> B = {} \<and> (v_frees v \<longrightarrow> v_block v \<noteq> None)"

lemma cleanup_holds:
  assumes "holds v B h h1"
  shows "\<exists>h2. cleanup v h1 = Some h2 \<and> changes {} B h h2"
proof -
  have ok: "vec_ok v h1" using assms by (auto simp: holds_def vec_ok_def changes_def)
  obtain h2 where h2: "cleanup v h1 = Some h2" "changes (vec_blocks v) {} h1 h2"
    using cleanup_changes [OF _ ok] assms by (auto simp: holds_def changes_def)
  have "live h2 = (live h \<union> vec_blocks v \<union> B) - vec_blocks v"
    using assms h2(2) by (auto simp: holds_def changes_def)
  moreover have "vec_blocks v \<inter> (live h \<union> B) = {}" using assms by (auto simp: holds_def changes_def)
  ultimately have "live h2 = live h \<union> B" by blast
  then have "changes {} B h h2" using assms h2(2) by (simp add: holds_def changes_def)
  then show ?thesis using h2(1) by blast
qed

lemma finish1_leak_free: "holds v (result_blocks r) h h1 \<Longrightarrow> leak_free h (finish1 v r h1)"
  using cleanup_holds by (fastforce simp: finish1_def leak_free_def)

lemma finish2_leak_free:
  assumes "holds a (vec_blocks b \<union> result_blocks r) h h1" "vec_blocks b \<inter> result_blocks r = {}"
    and "v_frees b \<longrightarrow> v_block b \<noteq> None"
  shows "leak_free h (finish2 a b r h1)"
proof -
  obtain h2 where h2: "cleanup a h1 = Some h2" "changes {} (vec_blocks b \<union> result_blocks r) h h2"
    using cleanup_holds [OF assms(1)] by blast
  then have "holds b (result_blocks r) h h2" using assms(2,3) by (simp add: holds_def)
  from cleanup_holds [OF this] h2(1) show ?thesis by (auto simp: finish2_def leak_free_def)
qed

lemma malloc_holds:
  assumes "holds v B h h1" "no_failures h" "0 < n"
  shows "\<exists>z h2. malloc n h1 = (Some z, h2) \<and> holds v (B \<union> {z}) h h2 \<and> z \<notin> B"
proof -
  have c: "changes {} (vec_blocks v \<union> B) h h1" using assms(1) by (simp add: holds_def)
  then have h1: "heap_ok h1" "no_failures h1" using assms(2) by (simp_all add: changes_def no_failures_def)
  obtain z h2 where z: "malloc n h1 = (Some z, h2)" "changes {} {z} h1 h2"
    using malloc_succeeds [OF h1 assms(3)] by blast
  have "z \<notin> vec_blocks v \<union> B" using c z(2) by (auto simp: changes_def)
  moreover have "changes {} (vec_blocks v \<union> B \<union> {z}) h h2" by (rule changes_alloc_alloc [OF c z(2)])
  ultimately show ?thesis using z(1) assms(1) by (auto simp: holds_def Un_assoc)
qed

lemma free_extra:
  assumes "holds v (B \<union> {z}) h h1" "z \<notin> B"
  shows "\<exists>h2. free (Some z) h1 = Some h2 \<and> holds v B h h2"
proof -
  have z: "z \<in> live h1" "heap_ok h1" "z \<notin> live h" "z \<notin> vec_blocks v"
    using assms(1) by (auto simp: holds_def changes_def)
  obtain h2 where h2: "free (Some z) h1 = Some h2" "changes {z} {} h1 h2" using free_changes [OF z(2,1)] by blast
  have "live h2 = (live h \<union> (vec_blocks v \<union> (B \<union> {z}))) - {z}"
    using assms(1) h2(2) by (simp add: holds_def changes_def)
  then have "live h2 = live h \<union> (vec_blocks v \<union> B)" using z assms(2) by blast
  then have "changes {} (vec_blocks v \<union> B) h h2" using assms(1) h2(2) by (simp add: holds_def changes_def)
  then show ?thesis using assms(1) h2(1) by (auto simp: holds_def)
qed

text \<open>The head of a unary and of a binary function.\<close>

lemma from_value_leak_free:
  assumes "balanced_typed h r" "\<And>h'. r \<noteq> Some (Fail None, h')"
    and "\<And>v t h1. r = Some (Done (v, t), h1) \<Longrightarrow> holds v {} h h1 \<Longrightarrow> leak_free h (k (v, t) h1)"
  shows "leak_free h (from_value r k)"
proof -
  consider (fail) e h' where "r = Some (Fail (Some e), h')" "changes {} {} h h'"
    | (good) v t h' where "r = Some (Done (v, t), h')" "changes {} (vec_blocks v) h h'" "vec_ok v h'"
    using assms(1,2) unfolding balanced_typed_def by (metis option.exhaust)
  then show ?thesis
  proof cases
    case fail
    then show ?thesis by (simp add: from_value_def leak_free_def)
  next
    case good
    then have "holds v {} h h'" by (simp add: holds_def vec_ok_def)
    then show ?thesis using assms(3) [OF good(1)] good(1) by (simp add: from_value_def)
  qed
qed

lemma from_pair_leak_free:
  assumes "balanced_pair h r"
    and "\<And>a b t h1. r = Some (Done (a, b, t, v_dims a), h1) \<Longrightarrow> v_dims b = v_dims a \<Longrightarrow> holds a (vec_blocks b) h h1 \<Longrightarrow>
      (v_frees b \<longrightarrow> v_block b \<noteq> None) \<Longrightarrow> leak_free h (k (a, b, t, v_dims a) h1)"
  shows "leak_free h (from_value r k)"
proof -
  consider (fail) e h' where "r = Some (Fail (Some e), h')" "changes {} {} h h'"
    | (good) a b t h1 h2 where "r = Some (Done (a, b, t, v_dims a), h2)" "v_dims b = v_dims a"
        "changes {} (vec_blocks a) h h1" "vec_ok a h1" "changes {} (vec_blocks b) h1 h2" "vec_ok b h2"
    using assms(1) unfolding balanced_pair_def by blast
  then show ?thesis
  proof cases
    case fail
    then show ?thesis by (simp add: from_value_def leak_free_def)
  next
    case good
    have "vec_blocks a \<inter> vec_blocks b = {}" using good(4,5) by (auto simp: vec_ok_def changes_def)
    then have "holds a (vec_blocks b) h h2" "v_frees b \<longrightarrow> v_block b \<noteq> None"
      using changes_alloc_alloc [OF good(3,5)] good(4,6) by (simp_all add: holds_def vec_ok_def)
    then show ?thesis using assms(2) [OF good(1,2)] good(1) by (simp add: from_value_def)
  qed
qed

section \<open>Elements of sized vectors\<close>

definition f32_get :: "u8 list \<Rightarrow> nat \<Rightarrow> f32" where
  "f32_get v i = word_of_bytes (v ! (4 * i)) (v ! (4 * i + 1)) (v ! (4 * i + 2)) (v ! (4 * i + 3))"

lemma f32_at_get: "4 * i + 3 < length v \<Longrightarrow> f32_at v i = Some (f32_get v i)"
  by (simp add: f32_at_def f32_get_def)

lemma i8_at_get: "i < length v \<Longrightarrow> i8_at v i = Some (i8s v i)"
  by (simp add: i8_at_def i8s_def)

text \<open>The calls considered: the heap is sound and never full, and the arguments are below a megabyte.\<close>

definition fair :: "strtod_fn \<Rightarrow> heap \<Rightarrow> sql_value list \<Rightarrow> bool" where
  "fair strtod h xs \<longleftrightarrow> heap_ok h \<and> no_failures h \<and> strtod_ok strtod \<and> (\<forall>x\<in>set xs. length (val_bytes x) < 2 ^ 20)"

lemma unary_leak_free:
  assumes f: "fair strtod h [x]"
    and k: "\<And>v t h1. sized t v \<Longrightarrow> 0 < v_dims v \<Longrightarrow> v_dims v < 2 ^ 23 \<Longrightarrow> (t = BIT \<Longrightarrow> \<not> v_frees v) \<Longrightarrow>
      holds v {} h h1 \<Longrightarrow> leak_free h (k (v, t) h1)"
  shows "leak_free h (from_value (vector_from_value strtod x h) k)"
proof (rule from_value_leak_free)
  have h: "heap_ok h" "no_failures h" "strtod_ok strtod" "length (val_bytes x) < 2 ^ 28"
    using f by (simp_all add: fair_def)
  show "balanced_typed h (vector_from_value strtod x h)"
    by (rule vector_from_value_balanced [OF h(1,3,4)])
  show "vector_from_value strtod x h \<noteq> Some (Fail None, h')" for h'
    by (rule vector_from_value_message(4) [OF h(2,4)])
next
  fix v t h1 assume r: "vector_from_value strtod x h = Some (Done (v, t), h1)" and hv: "holds v {} h h1"
  have b: "\<not> v_frees v" if "t = BIT"
    using r that by (auto simp: vector_from_value_def Let_def with_type_Done bitvec_from_value_def blob_vector_def split: if_splits)
  have "v_dims v < 2 ^ 23" using vector_from_value_sized [OF r] f by (simp add: fair_def)
  then show "leak_free h (k (v, t) h1)" using k [OF _ _ _ b hv] vector_from_value_sized [OF r] by blast
qed

lemma ensure_sized:
  assumes "ensure_vector_match strtod x y h = Some (Done (a, b, t, d), h')"
  shows "sized t a \<and> sized t b \<and> d = v_dims a \<and> v_dims b = d \<and> 0 < d \<and> d \<le> 8 * length (val_bytes x)"
proof -
  note e = assms [unfolded ensure_vector_match_def]
  obtain r1 h1 where r1: "vector_from_value strtod x h = Some (r1, h1)"
    using e by (cases "vector_from_value strtod x h") auto
  obtain a' t' where a': "r1 = Done (a', t')" using e r1 by (cases r1) auto
  obtain r2 h2 where r2: "vector_from_value strtod y h1 = Some (r2, h2)"
    using e r1 a' by (cases "vector_from_value strtod y h1") auto
  obtain b' u where b': "r2 = Done (b', u)" using e r1 a' r2 by (cases r2) (auto split: if_splits)
  have "t' = u" "v_dims a' = v_dims b'" "a' = a" "b' = b" "t' = t" "d = v_dims a" "h2 = h'"
    using e r1 a' r2 b' by (auto simp: bind_eq_Some_conv split: if_splits)
  then have "vector_from_value strtod x h = Some (Done (a, t), h1)"
      "vector_from_value strtod y h1 = Some (Done (b, t), h')" "d = v_dims a" "v_dims b = d"
    using r1 a' r2 b' by auto
  then show ?thesis using vector_from_value_sized by blast
qed

lemma binary_leak_free:
  assumes f: "fair strtod h [x, y]" and s: "\<not> second_fails strtod x y h"
    and k: "\<And>a b t h1. sized t a \<Longrightarrow> sized t b \<Longrightarrow> v_dims b = v_dims a \<Longrightarrow> 0 < v_dims a \<Longrightarrow> v_dims a < 2 ^ 23 \<Longrightarrow>
      holds a (vec_blocks b) h h1 \<Longrightarrow> (v_frees b \<longrightarrow> v_block b \<noteq> None) \<Longrightarrow> leak_free h (k (a, b, t, v_dims a) h1)"
  shows "leak_free h (from_value (ensure_vector_match strtod x y h) k)"
proof (rule from_pair_leak_free)
  have h: "heap_ok h" "strtod_ok strtod" "length (val_bytes x) < 2 ^ 28" "length (val_bytes y) < 2 ^ 28"
    using f by (simp_all add: fair_def)
  from ensure_vector_match_balanced [OF this] show "balanced_pair h (ensure_vector_match strtod x y h)" using s by simp
next
  fix a b t h1 assume r: "ensure_vector_match strtod x y h = Some (Done (a, b, t, v_dims a), h1)"
    and "v_dims b = v_dims a" "holds a (vec_blocks b) h h1" "v_frees b \<longrightarrow> v_block b \<noteq> None"
  moreover have "v_dims a < 2 ^ 23" using ensure_sized [OF r] f by (simp add: fair_def)
  ultimately show "leak_free h (k (a, b, t, v_dims a) h1)" using k ensure_sized [OF r] by blast
qed

section \<open>Every function\<close>

lemma finish1_plain: "holds v {} h h1 \<Longrightarrow> result_blocks r = {} \<Longrightarrow> leak_free h (finish1 v r h1)"
  by (simp add: finish1_leak_free)

lemma finish2_plain:
  "holds a (vec_blocks b) h h1 \<Longrightarrow> (v_frees b \<longrightarrow> v_block b \<noteq> None) \<Longrightarrow> result_blocks r = {} \<Longrightarrow> leak_free h (finish2 a b r h1)"
  by (simp add: finish2_leak_free)

lemma length_type_leak_free:
  assumes "fair strtod h [x]"
  shows "leak_free h (vec_length strtod x h)" "leak_free h (vec_type strtod x h)"
  unfolding vec_length_def vec_type_def by (rule unary_leak_free [OF assms], simp add: finish1_plain)+

lemma for_loop_total:
  assumes "\<And>j s. i \<le> j \<Longrightarrow> j < i + n \<Longrightarrow> \<exists>s'. f j s = Some s'"
  shows "\<exists>s'. for_loop f i n s = Some s'"
  by (rule exE [OF for_loop_invariant [of "\<lambda>_ _. True" i s n f]]) (use assms in auto)

lemma loop_then:
  assumes "\<And>j s. i \<le> j \<Longrightarrow> j < i + n \<Longrightarrow> \<exists>s'. f j s = Some s'" "\<And>s. \<exists>y. k s = Some y"
  shows "\<exists>y. do { s \<leftarrow> for_loop f i n s0; k s } = Some y"
  using for_loop_total [of i n f s0, OF assms(1)] assms(2) by auto

lemma f32_sized: "sized FLOAT32 v \<Longrightarrow> i < v_dims v \<Longrightarrow> f32_at (v_data v) i = Some (f32_get (v_data v) i)"
  by (simp add: f32_at_get)

lemma i8_sized: "sized INT8 v \<Longrightarrow> i < v_dims v \<Longrightarrow> i8_at (v_data v) i = Some (i8s (v_data v) i)"
  by (simp add: i8_at_get)

lemma distances_total:
  assumes "sized t a" "sized t b" "v_dims b = v_dims a" "v_dims a < 2 ^ 23"
  shows "t = FLOAT32 \<Longrightarrow> \<exists>d. distance_cosine_float (v_data a) (v_data b) (v_dims a) = Some d"
    "t = INT8 \<Longrightarrow> \<exists>d. distance_cosine_int8 (v_data a) (v_data b) (v_dims a) = Some d"
    "t = FLOAT32 \<Longrightarrow> \<exists>d. distance_l2_sqr_float (v_data a) (v_data b) (v_dims a) = Some d"
    "t = INT8 \<Longrightarrow> \<exists>d. distance_l2_sqr_int8 (v_data a) (v_data b) (v_dims a) = Some d"
    "t = FLOAT32 \<Longrightarrow> \<exists>d. distance_l1_f32 (v_data a) (v_data b) (v_dims a) = Some d"
    "t = INT8 \<Longrightarrow> \<exists>d. distance_l1_int8 (v_data a) (v_data b) (v_dims a) = Some d"
    "t = BIT \<Longrightarrow> \<exists>d. distance_hamming (v_data a) (v_data b) (v_dims a) = Some d"
proof -
  have f: "f32_at (v_data a) i = Some (f32_get (v_data a) i)" "f32_at (v_data b) i = Some (f32_get (v_data b) i)"
    if "t = FLOAT32" "i < v_dims a" for i
    using assms that by (simp_all add: f32_at_get)
  have g: "i8_at (v_data a) i = Some (i8s (v_data a) i)" "i8_at (v_data b) i = Some (i8s (v_data b) i)"
    if "t = INT8" "i < v_dims a" for i
    using assms that by (simp_all add: i8_at_get)
  note d = distance_cosine_float_def distance_cosine_int8_def distance_l2_sqr_float_def l2_sqr_float_def
    distance_l2_sqr_int8_def l2_sqr_int8_def distance_l1_f32_def l1_f32_def
  show "t = FLOAT32 \<Longrightarrow> \<exists>d. distance_l2_sqr_float (v_data a) (v_data b) (v_dims a) = Some d"
    unfolding d by (rule loop_then) (simp_all add: f Let_def)
  show "t = INT8 \<Longrightarrow> \<exists>d. distance_l2_sqr_int8 (v_data a) (v_data b) (v_dims a) = Some d"
    unfolding d by (rule loop_then) (simp_all add: g Let_def)
  show "t = FLOAT32 \<Longrightarrow> \<exists>d. distance_l1_f32 (v_data a) (v_data b) (v_dims a) = Some d"
    unfolding d by (rule for_loop_total) (simp add: f)
  show "t = FLOAT32 \<Longrightarrow> \<exists>d. distance_cosine_float (v_data a) (v_data b) (v_dims a) = Some d"
    unfolding d by (rule loop_then) (simp_all add: f split_beta)
  show "t = INT8 \<Longrightarrow> \<exists>d. distance_cosine_int8 (v_data a) (v_data b) (v_dims a) = Some d"
    unfolding d by (rule loop_then) (simp_all add: g split_beta)
  show "t = INT8 \<Longrightarrow> \<exists>d. distance_l1_int8 (v_data a) (v_data b) (v_dims a) = Some d"
    using assms l1_int8_spec [of "v_dims a" "v_data a" "v_data b"] by (simp add: distance_l1_int8_def)
  show "t = BIT \<Longrightarrow> \<exists>d. distance_hamming (v_data a) (v_data b) (v_dims a) = Some d"
    using assms hamming_spec [of "v_dims a" "v_data a" "v_data b"] mod_mult_self1_is_0 [of 8 "length (v_data a)"]
    by auto
qed

lemma from_plain_leak_free:
  assumes "balanced h r" "\<And>h'. r \<noteq> Some (Fail None, h')"
    and "\<And>v h1. r = Some (Done v, h1) \<Longrightarrow> holds v {} h h1 \<Longrightarrow> leak_free h (k v h1)"
  shows "leak_free h (from_value r k)"
proof -
  have "leak_free h (from_value (with_type BIT r) (\<lambda>(v, t). k v))"
  proof (rule from_value_leak_free)
    show "balanced_typed h (with_type BIT r)" by (rule balanced_with_type [OF assms(1)])
    show "with_type BIT r \<noteq> Some (Fail None, h')" for h' using assms(2) by (simp add: with_type_Fail)
  qed (use assms(3) in \<open>simp add: with_type_Done\<close>)
  also have "from_value (with_type BIT r) (\<lambda>(v, t). k v) = from_value r k"
    by (cases r; auto simp: from_value_def with_type_def split: outcome.splits)
  finally show ?thesis .
qed

lemma distances_leak_free:
  assumes "fair strtod h [x, y]" "\<not> second_fails strtod x y h"
  shows "leak_free h (vec_distance_l2 strtod x y h)" "leak_free h (vec_distance_l1 strtod x y h)"
    "leak_free h (vec_distance_cosine strtod x y h)" "leak_free h (vec_distance_hamming strtod x y h)"
proof -
  note b = binary_leak_free [OF assms]
  show "leak_free h (vec_distance_l2 strtod x y h)" unfolding vec_distance_l2_def
    by (rule b) (use distances_total(3,4) in \<open>fastforce intro!: finish2_plain split: element_type.split\<close>)
  show "leak_free h (vec_distance_l1 strtod x y h)" unfolding vec_distance_l1_def
    by (rule b) (use distances_total(5,6) in \<open>fastforce intro!: finish2_plain split: element_type.split\<close>)
  show "leak_free h (vec_distance_cosine strtod x y h)" unfolding vec_distance_cosine_def
    by (rule b) (use distances_total(1,2) in \<open>fastforce intro!: finish2_plain split: element_type.split\<close>)
  show "leak_free h (vec_distance_hamming strtod x y h)" unfolding vec_distance_hamming_def
    by (rule b) (use distances_total(7) in \<open>fastforce intro!: finish2_plain split: element_type.split\<close>)
qed

lemma constructors_leak_free:
  assumes "fair strtod h [x]"
  shows "leak_free h (vec_f32 strtod x h)" "leak_free h (vec_bit x h)" "leak_free h (vec_int8 x h)"
proof -
  have h: "heap_ok h" "no_failures h" "strtod_ok strtod" "length (val_bytes x) < 2 ^ 28"
    using assms by (simp_all add: fair_def)
  show "leak_free h (vec_f32 strtod x h)" unfolding vec_f32_def
  proof (rule from_plain_leak_free [OF fvec_balanced [OF h(1,3,4)] vector_from_value_message(1) [OF h(2,4)]])
    fix v h1 assume "holds v {} h h1"
    then show "leak_free h (Some (RBlob (take (v_dims v * 4) (v_data v)) (subtype_of FLOAT32)
        (case v_block v of Some i \<Rightarrow> if v_frees v then Owned i else Borrowed | None \<Rightarrow> Borrowed), h1))"
      by (auto simp: holds_def leak_free_def vec_blocks_def split: option.splits if_splits)
  qed
  show "leak_free h (vec_bit x h)" unfolding vec_bit_def
    by (rule from_plain_leak_free [OF bitvec_balanced [OF h(1,4)] vector_from_value_message(2) [OF h(2,4)]])
      (simp add: finish1_plain)
  show "leak_free h (vec_int8 x h)" unfolding vec_int8_def
    by (rule from_plain_leak_free [OF int8_vec_balanced [OF h(1,4)] vector_from_value_message(3) [OF h(2,4)]])
      (simp add: finish1_plain)
qed

text \<open>The shape shared by the functions that return a new blob.\<close>

lemma alloc1:
  assumes "holds v {} h h1" "no_failures h" "0 < n"
    and "\<And>z h2. holds v {z} h h2 \<Longrightarrow> leak_free h (k z h2)"
  shows "leak_free h (case malloc n h1 of (None, h) \<Rightarrow> e h | (Some z, h) \<Rightarrow> k z h)"
  using malloc_holds [OF assms(1-3)] assms(4) by fastforce

lemma alloc2:
  assumes "holds a (vec_blocks b) h h1" "v_frees b \<longrightarrow> v_block b \<noteq> None" "no_failures h" "0 < n"
    and "\<And>z h2. leak_free h (finish2 a b (RBlob out t (Owned z)) h2) \<Longrightarrow> leak_free h (k z h2)"
  shows "leak_free h (case malloc n h1 of (None, h) \<Rightarrow> e h | (Some z, h) \<Rightarrow> k z h)"
proof -
  obtain z h2 where z: "malloc n h1 = (Some z, h2)" "holds a (vec_blocks b \<union> {z}) h h2" "z \<notin> vec_blocks b"
    using malloc_holds [OF assms(1,3,4)] by blast
  have "leak_free h (finish2 a b (RBlob out t (Owned z)) h2)"
    by (rule finish2_leak_free) (use z assms(2) in simp_all)
  then show ?thesis using assms(5) z(1) by simp
qed

lemma finish1_blob: "holds v {z} h h1 \<Longrightarrow> leak_free h (finish1 v (RBlob out t (Owned z)) h1)"
  "holds v {z} h h1 \<Longrightarrow> leak_free h (finish1 v (RText out u (Owned z)) h1)"
  by (simp_all add: finish1_leak_free)

text \<open>What the loops compute on sized vectors.\<close>

lemma f32_loop:
  assumes "sized FLOAT32 a" "sized FLOAT32 b" "v_dims b = v_dims a"
  shows "for_loop (f32_step f (v_data a) (v_data b)) 0 (v_dims a) (replicate (v_dims a * 4) 0) =
    Some (concat (map (\<lambda>i. f32_bytes (f (f32_get (v_data a) i) (f32_get (v_data b) i))) [0..<v_dims a]))"
  by (rule fill_f32) (use assms in \<open>simp add: f32_step_def f32_at_get\<close>)

lemma i8_loop:
  assumes "sized INT8 a" "sized INT8 b" "v_dims b = v_dims a"
  shows "for_loop (i8_step f (v_data a) (v_data b)) 0 (v_dims a) (replicate (v_dims a) 0) =
    Some (map (\<lambda>i. word_of_int (f (i8s (v_data a) i) (i8s (v_data b) i))) [0..<v_dims a])"
  by (rule fill_u8) (use assms in \<open>simp add: i8_step_def i8_at_get\<close>)

lemma slice_f32_loop:
  assumes "sized FLOAT32 v" "s + n \<le> v_dims v"
  shows "for_loop (slice_f32 (v_data v) s) 0 n (replicate (n * 4) 0) =
    Some (concat (map (\<lambda>i. f32_bytes (f32_get (v_data v) (s + i))) [0..<n]))"
  by (rule fill_f32) (use assms in \<open>simp add: slice_f32_def f32_at_get\<close>)

lemma slice_u8_loop:
  assumes "s + n \<le> length v"
  shows "for_loop (slice_u8 v s) 0 n (replicate n 0) = Some (map (\<lambda>i. v ! (s + i)) [0..<n])"
  by (rule fill_u8) (use assms in \<open>simp add: slice_u8_def\<close>)

lemma bits_loop:
  assumes "8 dvd v_dims v"
  shows "sized FLOAT32 v \<Longrightarrow> \<exists>out. for_loop (or_bit (f32_positive (v_data v))) 0 (v_dims v) (replicate (v_dims v div 8) 0) = Some out \<and>
      length out = v_dims v div 8 \<and> (\<forall>j<v_dims v. vbit out j \<longleftrightarrow> f64_less 0 (f64_of_f32 (f32_get (v_data v) j)))"
    "sized INT8 v \<Longrightarrow> \<exists>out. for_loop (or_bit (i8_positive (v_data v))) 0 (v_dims v) (replicate (v_dims v div 8) 0) = Some out \<and>
      length out = v_dims v div 8 \<and> (\<forall>j<v_dims v. vbit out j \<longleftrightarrow> 0 < i8s (v_data v) j)"
proof -
  have d: "8 * (v_dims v div 8) = v_dims v" using assms by simp
  show "sized FLOAT32 v \<Longrightarrow> \<exists>out. for_loop (or_bit (f32_positive (v_data v))) 0 (v_dims v) (replicate (v_dims v div 8) 0) = Some out \<and>
      length out = v_dims v div 8 \<and> (\<forall>j<v_dims v. vbit out j \<longleftrightarrow> f64_less 0 (f64_of_f32 (f32_get (v_data v) j)))"
    using fill_bits [of "v_dims v div 8" "f32_positive (v_data v)" "\<lambda>j. f64_less 0 (f64_of_f32 (f32_get (v_data v) j))"]
    unfolding d by (simp add: f32_positive_def f32_at_get)
  show "sized INT8 v \<Longrightarrow> \<exists>out. for_loop (or_bit (i8_positive (v_data v))) 0 (v_dims v) (replicate (v_dims v div 8) 0) = Some out \<and>
      length out = v_dims v div 8 \<and> (\<forall>j<v_dims v. vbit out j \<longleftrightarrow> 0 < i8s (v_data v) j)"
    using fill_bits [of "v_dims v div 8" "i8_positive (v_data v)" "\<lambda>j. 0 < i8s (v_data v) j"]
    unfolding d by (simp add: i8_positive_def i8_at_get)
qed

lemma arithmetic_leak_free:
  assumes f: "fair strtod h [x, y]" and s: "\<not> second_fails strtod x y h"
  shows "leak_free h (vec_add strtod x y h)" "leak_free h (vec_sub strtod x y h)"
proof -
  have n: "no_failures h" using f by (simp add: fair_def)
  show "leak_free h (vec_add strtod x y h)" unfolding vec_add_def
    by (rule binary_leak_free [OF f s])
       (auto simp: add_vectors_def Let_def f32_loop i8_loop int_of_size_small finish2_plain n intro!: alloc2 split: element_type.split)
  show "leak_free h (vec_sub strtod x y h)" unfolding vec_sub_def
    by (rule binary_leak_free [OF f s])
       (auto simp: sub_vectors_def Let_def f32_loop i8_loop int_of_size_small finish2_plain n intro!: alloc2 split: element_type.split)
qed

lemma slice_error_None:
  "slice_error start stop n = None \<longleftrightarrow> 0 \<le> start \<and> start < stop \<and> nat stop \<le> n"
  by (auto simp: slice_error_def)

lemma slice_leak_free:
  assumes n: "no_failures h" and v: "sized t v" "v_dims v < 2 ^ 23" "holds v {} h h1"
  shows "leak_free h (slice_vector start stop (v, t) h1)"
proof (cases "slice_error start stop (v_dims v)")
  case (Some e)
  then show ?thesis using v(3) by (simp add: slice_vector_def finish1_plain)
next
  case None
  then have b: "0 \<le> start" "start < stop" "nat stop \<le> v_dims v" by (simp_all add: slice_error_None)
  define s k where "s = nat start" and "k = nat stop - nat start"
  have sk: "s + k \<le> v_dims v" "0 < k" "k < 2 ^ 23" "nat stop = s + k" using b v(2) by (auto simp: s_def k_def)
  note alloc = alloc1 [OF v(3) n]
  show ?thesis
  proof (cases t)
    case FLOAT32
    then show ?thesis using None sk v(1) slice_f32_loop [of v s k]
      by (auto simp: slice_vector_def Let_def int_of_size_small finish1_blob simp flip: s_def k_def intro!: alloc)
  next
    case INT8
    then show ?thesis using None sk v(1) slice_u8_loop [of s k "v_data v"]
      by (auto simp: slice_vector_def Let_def int_of_size_small finish1_blob simp flip: s_def k_def intro!: alloc)
  next
    case BIT
    show ?thesis
    proof (cases "s mod 8 = 0 \<and> (s + k) mod 8 = 0")
      case False
      then show ?thesis using None BIT v(3) sk(4)
        by (auto simp: slice_vector_def Let_def finish1_plain CHAR_BIT_def simp flip: s_def k_def)
    next
      case True
      then have "8 dvd s" "8 dvd k" by (auto simp: mod_eq_0_iff_dvd dvd_add_right_iff)
      then have "s div 8 + k div 8 \<le> length (v_data v)" "0 < k div 8"
        using sk(1,2) v(1) BIT by (auto elim!: dvdE)
      then show ?thesis using None BIT sk(3,4) True slice_u8_loop [of "s div 8" "k div 8" "v_data v"]
        by (auto simp: slice_vector_def Let_def int_of_size_small finish1_blob CHAR_BIT_def simp flip: s_def k_def intro!: alloc)
    qed
  qed
qed

lemma normalize_leak_free:
  assumes n: "no_failures h" and v: "sized t v" "0 < v_dims v" "v_dims v < 2 ^ 23" "holds v {} h h1"
  shows "leak_free h (normalize (v, t) h1)"
proof (cases "t = FLOAT32")
  case True
  have a: "i < v_dims v \<Longrightarrow> f32_at (v_data v) i = Some (f32_get (v_data v) i)" for i
    using v(1) True by (simp add: f32_at_get)
  obtain l where l: "for_loop (norm_step (v_data v)) 0 (v_dims v) 0 = Some l"
    using for_loop_total [of 0 "v_dims v" "norm_step (v_data v)" 0] a by (auto simp: norm_step_def)
  have d: "for_loop (divide_step (v_data v) q) 0 (v_dims v) (replicate (v_dims v * 4) 0) =
      Some (concat (map (\<lambda>i. f32_bytes (f32_div (f32_get (v_data v) i) q)) [0..<v_dims v]))" for q
    by (rule fill_f32) (simp add: divide_step_def a)
  show ?thesis using True v(2,3) l d
    by (auto simp: normalize_def Let_def int_of_size_small finish1_blob intro!: alloc1 [OF v(4) n])
next
  case False
  then show ?thesis using v(4) by (simp add: normalize_def finish1_plain)
qed

lemma quantize_binary_leak_free:
  assumes n: "no_failures h" and v: "sized t v" "0 < v_dims v" "v_dims v < 2 ^ 23" "t = BIT \<longrightarrow> \<not> v_frees v" "holds v {} h h1"
  shows "leak_free h (quantize_binary (v, t) h1)"
proof (cases "v_dims v mod 8 = 0")
  case True
  then have d: "8 dvd v_dims v" "0 < v_dims v div 8" using v(2) by (auto elim!: dvdE)
  have k: "0 < int_of_size (v_dims v div 8)" using d(2) v(3) by (simp add: int_of_size_small)
  obtain z h2 where z: "malloc (int_of_size (v_dims v div 8)) h1 = (Some z, h2)" "holds v {z} h h2"
    using malloc_holds [OF v(5) n k] by auto
  show ?thesis
  proof (cases t)
    case FLOAT32
    then show ?thesis using bits_loop(1) [OF d(1)] v True z finish1_blob(1) [OF z(2)]
      by (auto simp: quantize_binary_def CHAR_BIT_def Let_def)
  next
    case INT8
    then show ?thesis using bits_loop(2) [OF d(1)] v True z finish1_blob(1) [OF z(2)]
      by (auto simp: quantize_binary_def CHAR_BIT_def Let_def)
  next
    case BIT
    then have "vec_blocks v = {}" using v(4) by (simp add: vec_blocks_def)
    then show ?thesis using BIT v(2) True z free_extra [of v "{}" z h h2]
      by (auto simp: quantize_binary_def CHAR_BIT_def Let_def leak_free_def holds_def)
  qed
next
  case False
  then show ?thesis using v by (simp add: quantize_binary_def CHAR_BIT_def finish1_plain)
qed

lemma json_element_total:
  assumes "sized t v" "i < v_dims v"
  shows "\<exists>e. json_element fmt_f t (v_data v) i = Some e"
proof (cases t)
  case BIT
  then have "i div 8 < length (v_data v)" using assms by (simp add: less_mult_imp_div_less mult.commute)
  then show ?thesis using BIT by (simp add: json_element_def)
qed (use assms in \<open>simp_all add: json_element_def f32_at_get i8_at_get\<close>)

lemma to_json_leak_free:
  assumes n: "no_failures h" and v: "sized t v" "holds v {} h h1"
  shows "leak_free h (to_json fmt_f (v, t) h1)"
proof -
  have "\<exists>str'. json_step fmt_f t (v_data v) i str = Some str'" if "i < v_dims v" for i str
    using json_element_total [OF v(1) that, of fmt_f] by (auto simp: json_step_def)
  then obtain str where "for_loop (json_step fmt_f t (v_data v)) 0 (v_dims v) (lit ''['') = Some str"
    using for_loop_total [of 0 "v_dims v" "json_step fmt_f t (v_data v)" "lit ''[''"] by auto
  then show ?thesis
    by (auto simp: to_json_def Let_def finish1_blob simp del: of_nat_Suc intro!: alloc1 [OF v(2) n])
qed

definition quantizable :: "vec \<Rightarrow> bool" where
  "quantizable v \<longleftrightarrow> (\<forall>i<v_dims v. quantize_f32 (f32_get (v_data v) i) \<noteq> None)"

lemma quantize_int8_leak_free:
  assumes n: "no_failures h" and v: "sized FLOAT32 v" "0 < v_dims v" "v_dims v < 2 ^ 23" "holds v {} h h1" "quantizable v"
  shows "leak_free h (quantize_int8 y v h1)"
proof -
  have k: "0 < int_of_size (v_dims v)" using v(2,3) by (simp add: int_of_size_small)
  obtain z h2 where z: "malloc (int_of_size (v_dims v)) h1 = (Some z, h2)" "holds v {z} h h2"
    using malloc_holds [OF v(4) n k] by auto
  have "for_loop (quantize_step (v_data v)) 0 (v_dims v) (replicate (v_dims v) 0) =
      Some (map (\<lambda>i. the (quantize_f32 (f32_get (v_data v) i))) [0..<v_dims v])"
    by (rule fill_u8) (use v(1,5) in \<open>auto simp: quantize_step_def f32_at_get quantizable_def\<close>)
  then show ?thesis using z finish1_blob(1) [OF z(2)] free_extra [of v "{}" z h h2]
    by (auto simp: quantize_int8_def Let_def finish1_plain)
qed

text \<open>The calls the code leaves undefined, apart from a full heap.\<close>

definition undefined_call :: "strtod_fn \<Rightarrow> scalar \<Rightarrow> sql_value list \<Rightarrow> heap \<Rightarrow> bool" where
  "undefined_call strtod f argv h \<longleftrightarrow>
     (f \<in> {Vec_distance_l2, Vec_distance_l1, Vec_distance_hamming, Vec_distance_cosine, Vec_add, Vec_sub} \<and>
        second_fails strtod (argv ! 0) (argv ! 1) h) \<or>
     (f = Vec_quantize_int8 \<and> (case fvec_from_value strtod (argv ! 0) h of
        Some (Done v, h) \<Rightarrow> \<not> quantizable v | _ \<Rightarrow> False))"

lemma quantize_int8_call:
  assumes f: "fair strtod h [x]" and q: "\<not> undefined_call strtod Vec_quantize_int8 [x, y] h"
  shows "leak_free h (vec_quantize_int8 strtod x y h)"
proof -
  have h: "heap_ok h" "no_failures h" "strtod_ok strtod" "length (val_bytes x) < 2 ^ 28"
    using f by (simp_all add: fair_def)
  show ?thesis unfolding vec_quantize_int8_def
  proof (rule from_plain_leak_free [OF fvec_balanced [OF h(1,3,4)] vector_from_value_message(1) [OF h(2,4)]])
    fix v h1 assume r: "fvec_from_value strtod x h = Some (Done v, h1)" and hv: "holds v {} h h1"
    have s: "sized FLOAT32 v" "0 < v_dims v" "v_dims v \<le> length (val_bytes x)" using fvec_sized [OF r] by blast+
    then have "v_dims v < 2 ^ 23" using f by (simp add: fair_def)
    moreover have "quantizable v" using q r by (simp add: undefined_call_def)
    ultimately show "leak_free h (quantize_int8 y v h1)" by (intro quantize_int8_leak_free [OF h(2) s(1,2) _ hv])
  qed
qed

lemma scalar_call_leak_free:
  assumes f: "fair strtod h argv" and n: "length argv = nArg c" and u: "\<not> undefined_call strtod c argv h"
  shows "leak_free h (scalar_call strtod value_int fmt_f c argv h)"
proof -
  have nf: "no_failures h" using f by (simp add: fair_def)
  have ne: "0 < length argv" using n by (cases c) (simp_all add: nArg_def)
  have one: "fair strtod h [argv ! 0]" using f ne by (simp add: fair_def)
  have two: "fair strtod h [argv ! 0, argv ! 1]" if "1 < length argv" using f ne that by (simp add: fair_def)
  note unary = unary_leak_free [OF one]
  show ?thesis
  proof (cases c)
    case Vec_slice
    show ?thesis unfolding scalar_call_def Vec_slice scalar.case vec_slice_def by (rule unary) (rule slice_leak_free [OF nf])
  next
    case Vec_normalize
    show ?thesis unfolding scalar_call_def Vec_normalize scalar.case vec_normalize_def
      by (rule unary) (rule normalize_leak_free [OF nf])
  next
    case Vec_quantize_binary
    show ?thesis unfolding scalar_call_def Vec_quantize_binary scalar.case vec_quantize_binary_def
      by (rule unary) (simp add: quantize_binary_leak_free [OF nf])
  next
    case Vec_to_json
    show ?thesis unfolding scalar_call_def Vec_to_json scalar.case vec_to_json_def
      by (rule unary) (rule to_json_leak_free [OF nf])
  next
    case Vec_quantize_int8
    have "\<not> undefined_call strtod Vec_quantize_int8 [argv ! 0, argv ! 1] h"
      using u unfolding Vec_quantize_int8 by (simp add: undefined_call_def)
    then show ?thesis using quantize_int8_call [OF one] by (simp add: scalar_call_def Vec_quantize_int8)
  qed (use n two u distances_leak_free arithmetic_leak_free length_type_leak_free [OF one] constructors_leak_free [OF one]
        in \<open>simp_all add: scalar_call_def nArg_def undefined_call_def\<close>)
qed


text \<open>A \<open>strtod\<close> for whole numbers, and texts as values.\<close>

definition int_strtod :: strtod_fn where
  "int_strtod m i = map_option (\<lambda>(v, e, er). (f64_of_int v, the e, er)) (strtol m i True 10)"

definition text_value :: "string \<Rightarrow> nat \<Rightarrow> sql_value" where
  "text_value s t = \<lparr>val_type = SQLITE_TEXT, val_bytes = lit s, val_subtype = t\<rparr>"

definition empty_heap :: heap where
  "empty_heap = \<lparr>h_live = [], h_next = 0, h_fail = (\<lambda>i. False)\<rparr>"

lemma int_strtod_ok: "strtod_ok int_strtod"
  unfolding strtod_ok_def
proof (intro allI impI)
  fix m i assume "terminated m i"
  then obtain v j e where "strtol m i True 10 = Some (v, Some j, e)" "i \<le> j"
    using strtol_forward [of m i 10] by force
  then show "\<exists>x j e. int_strtod m i = Some (x, j, e) \<and> i \<le> j" by (simp add: int_strtod_def)
qed

lemma empty_heap_fair: "\<forall>x\<in>set xs. length (val_bytes x) < 2 ^ 20 \<Longrightarrow> fair int_strtod empty_heap xs"
  by (simp add: fair_def int_strtod_ok heap_ok_def no_failures_def empty_heap_def)


text \<open>
  When the second vector of a binary function is no vector, the cleanup of the first, parsed from
  JSON, is called with the address of the pointer instead of the pointer.
\<close>

lemma second_vector_frees_stack:
  "vec_distance_l2 int_strtod (text_value ''[1]'' 0) (text_value ''x'' 0) empty_heap = None"
  by code_simp

text \<open>When the array for the elements cannot be allocated, the error pointer is used but not set.\<close>

lemma error_pointer_unset:
  "vec_length int_strtod (text_value ''[1]'' 0) (empty_heap\<lparr>h_fail := (\<lambda>i. True)\<rparr>) = None"
  by code_simp

text \<open>When the slice of an int8 vector parsed from JSON cannot be allocated, the vector is not freed.\<close>

lemma slice_leaks:
  "map_option (\<lambda>(r, h). (r, h_live h))
     (vec_slice int_strtod (\<lambda>x. int (length (val_bytes x))) (text_value ''[1,2]'' 225) (text_value [] 0) (text_value ''x'' 0)
        (empty_heap\<lparr>h_fail := (\<lambda>i. i = 1)\<rparr>)) = Some (RNomem, [0])"
  by code_simp

text \<open>The top of the unit interval is quantized to 126, not to 127, and a value above it may be undefined.\<close>

lemma quantize_evaluation:
  "f64_sub (f64_of_int 1) (f64_of_int (- 1)) = 0x4000000000000000"
  "f64_div 0x4000000000000000 (f64_of_int 255) = 0x3F80101010101010"
  "f32_of_f64 0x3F80101010101010 = 0x3C008081" "f64_of_f32 0x3C008081 = 0x3F80101020000000"
  "f64_sub (f64_of_f32 0x3F800000) (f64_of_int (- 1)) = 0x4000000000000000"
  "f64_sub (f64_of_f32 0x40000000) (f64_of_int (- 1)) = 0x4008000000000000"
  "i8_of_f64 (f64_sub (f64_div 0x4000000000000000 0x3F80101020000000) (f64_of_int 128)) = Some 126"
  "f64_div 0x4008000000000000 0x3F80101020000000 = 4645436626955653144"
  "f64_sub 4645436626955653144 (f64_of_int 128) = 4643158438464954416" "f64_trunc 4643158438464954416 = Some 254"
  by code_simp+

lemma quantize_range: "quantize_f32 0x3F800000 = Some 126" "quantize_f32 0x40000000 = None"
proof -
  note e = quantize_evaluation
  have s: "step = 0x3C008081" by (simp add: step_def e(1-3))
  show "quantize_f32 0x3F800000 = Some 126" unfolding quantize_f32_def s e(4,5) by (rule e(7))
  show "quantize_f32 0x40000000 = None" unfolding quantize_f32_def s e(4,6,8,9) by (simp add: i8_of_f64_def e(10))
qed

end
