(* ===== verification/VecScalarLaws.thy ===== *)
theory VecScalarLaws
  imports VecScalarSpec
begin

text \<open>
  What the scalar functions compute: slices, binary quantization, the sum and difference of int8
  vectors, and the JSON text of a vector, which is read back to the vector.
\<close>

section \<open>Blob arguments\<close>

definition blob_value :: "element_type \<Rightarrow> u8 list \<Rightarrow> sql_value" where
  "blob_value t bytes = \<lparr>val_type = SQLITE_BLOB, val_bytes = bytes, val_subtype = subtype_of t\<rparr>"

text \<open>The bytes of a number of elements, and the blobs that are vectors.\<close>

fun bytes_of :: "element_type \<Rightarrow> nat \<Rightarrow> nat" where
  "bytes_of FLOAT32 n = 4 * n" | "bytes_of INT8 n = n" | "bytes_of BIT n = n div 8"

definition blob_dims :: "element_type \<Rightarrow> u8 list \<Rightarrow> nat" where
  "blob_dims t bytes = (case t of FLOAT32 \<Rightarrow> length bytes div 4 | INT8 \<Rightarrow> length bytes | BIT \<Rightarrow> 8 * length bytes)"

definition vector_blob :: "element_type \<Rightarrow> u8 list \<Rightarrow> bool" where
  "vector_blob t bytes \<longleftrightarrow> bytes \<noteq> [] \<and> length bytes < 2 ^ 20 \<and> (t = FLOAT32 \<longrightarrow> 4 dvd length bytes)"

lemma read_blob:
  assumes "vector_blob t bytes"
  shows "vector_from_value strtod (blob_value t bytes) h = Some (Done (blob_vector bytes (blob_dims t bytes), t), h)"
proof -
  have "length bytes * 8 < 2 ^ 31" using assms by (simp add: vector_blob_def)
  then show ?thesis using assms
    by (cases t) (simp_all add: vector_blob_def vector_from_value_def blob_value_def JSON_SUBTYPE_def Let_def
        fvec_from_value_def bitvec_from_value_def int8_vec_from_value_def with_type_def blob_dims_def mult.commute)
qed

lemma sized_blob: "vector_blob t bytes \<Longrightarrow> sized t (blob_vector bytes (blob_dims t bytes))"
  by (cases t) (auto simp: vector_blob_def blob_vector_def blob_dims_def)

lemma blob_dims_bounds: "vector_blob t bytes \<Longrightarrow> 0 < blob_dims t bytes \<and> blob_dims t bytes < 2 ^ 23"
  by (cases t) (auto simp: vector_blob_def blob_dims_def length_greater_0_conv [symmetric] simp del: length_greater_0_conv elim!: dvdE)

lemma blob_plain [simp]: "v_dims (blob_vector bytes n) = n" "v_data (blob_vector bytes n) = bytes"
  "cleanup (blob_vector bytes n) h = Some h"
  by (simp_all add: blob_vector_def cleanup_def)

lemma malloc_new: "no_failures h \<Longrightarrow> 0 < n \<Longrightarrow> malloc n h = (Some (h_next h), h\<lparr>h_next := h_next h + 1, h_live := h_next h # h_live h\<rparr>)"
  by (simp add: malloc_def no_failures_def Let_def)

section \<open>Slices\<close>

lemma map_nth_slice: "s + n \<le> length v \<Longrightarrow> map (\<lambda>i. v ! (s + i)) [0..<n] = take n (drop s v)"
  by (rule nth_equalityI) simp_all

lemma f32_bytes_get: "f32_bytes (f32_get v i) = [v ! (4 * i), v ! (4 * i + 1), v ! (4 * i + 2), v ! (4 * i + 3)]"
  by (simp add: f32_bytes_def f32_get_def)

lemma take_4:
  assumes "k + 3 < length v"
  shows "take 4 (drop k v) = [v ! k, v ! (k + 1), v ! (k + 2), v ! (k + 3)]"
  by (rule nth_equalityI) (use assms in \<open>auto simp: less_Suc_eq numeral_eq_Suc\<close>)

lemma f32_slice:
  "4 * (s + n) \<le> length v \<Longrightarrow> concat (map (\<lambda>i. f32_bytes (f32_get v (s + i))) [0..<n]) = take (4 * n) (drop (4 * s) v)"
proof (induction n)
  case (Suc n)
  then have "take (4 * Suc n) (drop (4 * s) v) = take (4 * n) (drop (4 * s) v) @ take 4 (drop (4 * (s + n)) v)"
    using take_add [of "4 * n" 4 "drop (4 * s) v"] by (simp add: distrib_left add.commute)
  also have "take 4 (drop (4 * (s + n)) v) = f32_bytes (f32_get v (s + n))"
    unfolding f32_bytes_get by (rule take_4) (use Suc.prems in simp)
  finally show ?case using Suc by simp
qed simp

lemma slice_spec:
  assumes b: "vector_blob t bytes" and h: "no_failures h"
    and r: "0 \<le> value_int y" "value_int y < value_int z" "nat (value_int z) \<le> blob_dims t bytes"
    and d: "t = BIT \<Longrightarrow> 8 dvd value_int y \<and> 8 dvd value_int z"
  defines "s \<equiv> nat (value_int y)" and "n \<equiv> nat (value_int z) - nat (value_int y)"
  shows "\<exists>i h'. vec_slice strtod value_int (blob_value t bytes) y z h =
    Some (RBlob (take (bytes_of t n) (drop (bytes_of t s) bytes)) (subtype_of t) (Owned i), h')"
proof -
  define D where "D = blob_dims t bytes"
  have e: "slice_error (value_int y) (value_int z) D = None" using r by (simp add: slice_error_None D_def)
  have eq: "vec_slice strtod value_int (blob_value t bytes) y z h =
      slice_vector (value_int y) (value_int z) (blob_vector bytes D, t) h"
    by (simp add: vec_slice_def from_value_def read_blob [OF b] D_def)
  have n: "0 < n" "n < 2 ^ 23" "s + n \<le> blob_dims t bytes" "nat (value_int z) = s + n"
    using r blob_dims_bounds [OF b] unfolding s_def n_def by auto
  note defs = eq slice_vector_def e Let_def finish1_def
  show ?thesis
  proof (cases t)
    case FLOAT32
    then have le: "4 * (s + n) \<le> length bytes" using n(3) b by (auto simp: blob_dims_def vector_blob_def)
    have "for_loop (slice_f32 bytes s) 0 n (replicate (n * 4) 0) = Some (take (4 * n) (drop (4 * s) bytes))"
      using slice_f32_loop [of "blob_vector bytes (blob_dims t bytes)" s n] sized_blob [OF b] n(3) FLOAT32 f32_slice [OF le] by simp
    then show ?thesis using FLOAT32 n(1,2) unfolding eq by (simp add: defs malloc_new [OF h] int_of_size_small n(4) flip: s_def)
  next
    case INT8
    then have le: "s + n \<le> length bytes" using n(3) by (simp add: blob_dims_def)
    have "for_loop (slice_u8 bytes s) 0 n (replicate n 0) = Some (take n (drop s bytes))"
      using slice_u8_loop [OF le] map_nth_slice [OF le] by simp
    then show ?thesis using INT8 n(1,2) unfolding eq by (simp add: defs malloc_new [OF h] int_of_size_small n(4) flip: s_def)
  next
    case BIT
    then have "8 dvd s" "8 dvd s + n"
      using d r n(4) by (auto simp: s_def simp flip: n(4)) (metis dvd_nat_abs_iff abs_of_nonneg int_dvd_int_iff nat_0_le of_nat_numeral order_trans less_imp_le)+
    then have "8 dvd s" "8 dvd n" by (simp_all add: dvd_add_right_iff)
    then have le: "s div 8 + n div 8 \<le> length bytes" and k: "0 < n div 8" and m: "s mod 8 = 0" "(s + n) mod 8 = 0"
      using n(1,3) BIT by (auto simp: blob_dims_def elim!: dvdE)
    have "for_loop (slice_u8 bytes (s div 8)) 0 (n div 8) (replicate (n div 8) 0) = Some (take (n div 8) (drop (s div 8) bytes))"
      using slice_u8_loop [OF le] map_nth_slice [OF le] by simp
    then show ?thesis using BIT n(2,4) k m
      unfolding eq by (simp add: defs malloc_new [OF h] int_of_size_small CHAR_BIT_def n(4) flip: s_def)
  qed
qed

text \<open>
  C21: a slice of a vector given as a blob is the run of its bytes from element \<open>start\<close> to before
  element \<open>end\<close>, for every element type; bit vectors are sliced at whole bytes.
\<close>

theorem vec_slice_correct:
  assumes "vector_blob t bytes" "no_failures h" "0 \<le> value_int y" "value_int y < value_int z"
    and "nat (value_int z) \<le> blob_dims t bytes" "t = BIT \<Longrightarrow> 8 dvd value_int y \<and> 8 dvd value_int z"
  shows "\<exists>i h'. vec_slice strtod value_int (blob_value t bytes) y z h =
    Some (RBlob (take (bytes_of t (nat (value_int z) - nat (value_int y))) (drop (bytes_of t (nat (value_int y))) bytes))
            (subtype_of t) (Owned i), h')"
  using assms by (rule slice_spec)

theorem vec_slice_correct_witness:
  "\<exists>i h'. vec_slice int_strtod (\<lambda>x. int (length (val_bytes x))) (blob_value INT8 [1, 2, 3, 4]) (text_value ''x'' 0) (text_value ''xyz'' 0)
     empty_heap = Some (RBlob [2, 3] 225 (Owned i), h')"
proof -
  let ?f = "\<lambda>x. int (length (val_bytes x))"
  have "vector_blob INT8 [1, 2, 3, 4]" "no_failures empty_heap"
    by (simp_all add: vector_blob_def no_failures_def empty_heap_def)
  moreover have "?f (text_value ''x'' 0) = 1" "?f (text_value ''xyz'' 0) = 3" by (simp_all add: text_value_def)
  ultimately show ?thesis
    using vec_slice_correct [of INT8 "[1, 2, 3, 4]" empty_heap ?f "text_value ''x'' 0" "text_value ''xyz'' 0" int_strtod]
    by (simp add: blob_dims_def)
qed

section \<open>Binary quantization\<close>

text \<open>An element counts as set when it is greater than zero.\<close>

definition positive :: "element_type \<Rightarrow> u8 list \<Rightarrow> nat \<Rightarrow> bool" where
  "positive t bytes j \<longleftrightarrow> (if t = FLOAT32 then f64_less 0 (f64_of_f32 (f32_get bytes j)) else 0 < i8s bytes j)"

lemma quantize_spec:
  assumes b: "vector_blob t bytes" "t \<noteq> BIT" "8 dvd blob_dims t bytes" and h: "no_failures h"
  shows "\<exists>out i h'. vec_quantize_binary strtod (blob_value t bytes) h = Some (RBlob out (subtype_of BIT) (Owned i), h') \<and>
    8 * length out = blob_dims t bytes \<and> (\<forall>j<blob_dims t bytes. vbit out j \<longleftrightarrow> positive t bytes j)"
proof -
  define D where "D = blob_dims t bytes"
  have eq: "vec_quantize_binary strtod (blob_value t bytes) h = quantize_binary (blob_vector bytes D, t) h"
    by (simp add: vec_quantize_binary_def from_value_def read_blob [OF b(1)] D_def)
  have d: "0 < D" "D < 2 ^ 23" "8 dvd D" "0 < D div 8" "sized t (blob_vector bytes D)"
    using blob_dims_bounds [OF b(1)] b(3) sized_blob [OF b(1)] by (auto simp: D_def elim!: dvdE)
  obtain out where out: "length out = D div 8" "\<forall>j<D. vbit out j \<longleftrightarrow> positive t bytes j"
    "for_loop (or_bit (if t = FLOAT32 then f32_positive bytes else i8_positive bytes)) 0 D (replicate (D div 8) 0) = Some out"
    using bits_loop [of "blob_vector bytes D"] d(3,5) b(2) by (cases t) (auto simp: positive_def)
  then have "\<exists>i h'. quantize_binary (blob_vector bytes D, t) h = Some (RBlob out (subtype_of BIT) (Owned i), h')"
    using d b(2) by (cases t) (auto simp: quantize_binary_def CHAR_BIT_def malloc_new [OF h] int_of_size_small finish1_def Let_def)
  then show ?thesis unfolding eq using out(1,2) d(3) by (auto simp flip: D_def)
qed

text \<open>
  C22: binary quantization of a float or int8 vector whose length is a multiple of eight yields the
  bit vector whose bit \<open>j\<close> says whether element \<open>j\<close> is positive.
\<close>

theorem vec_quantize_binary_correct:
  assumes "vector_blob t bytes" "t \<noteq> BIT" "8 dvd blob_dims t bytes" "no_failures h"
  shows "\<exists>out i h'. vec_quantize_binary strtod (blob_value t bytes) h = Some (RBlob out (subtype_of BIT) (Owned i), h') \<and>
    8 * length out = blob_dims t bytes \<and> (\<forall>j<blob_dims t bytes. vbit out j \<longleftrightarrow> positive t bytes j)"
  using assms by (rule quantize_spec)

theorem vec_quantize_binary_correct_witness:
  "\<exists>out i h'. vec_quantize_binary int_strtod (blob_value INT8 [1, 255, 0, 127, 128, 2, 3, 4]) empty_heap =
      Some (RBlob out 224 (Owned i), h') \<and> 8 * length out = 8 \<and>
    (\<forall>j<8. vbit out j \<longleftrightarrow> positive INT8 [1, 255, 0, 127, 128, 2, 3, 4] j)"
proof -
  let ?b = "[1, 255, 0, 127, 128, 2, 3, 4 :: u8]"
  have "vector_blob INT8 ?b" "no_failures empty_heap" "blob_dims INT8 ?b = 8"
    by (simp_all add: vector_blob_def no_failures_def empty_heap_def blob_dims_def)
  then show ?thesis using vec_quantize_binary_correct [of INT8 ?b empty_heap int_strtod] by simp
qed

section \<open>Sum and difference\<close>

lemma match_blobs:
  assumes "vector_blob t a" "vector_blob t b" "length b = length a"
  shows "ensure_vector_match strtod (blob_value t a) (blob_value t b) h =
    Some (Done (blob_vector a (blob_dims t a), blob_vector b (blob_dims t a), t, blob_dims t a), h)"
proof -
  have "blob_dims t b = blob_dims t a" using assms(3) by (cases t) (simp_all add: blob_dims_def)
  then show ?thesis by (simp add: ensure_vector_match_def read_blob [OF assms(1)] read_blob [OF assms(2)])
qed

text \<open>The int8 sum and difference are those of bytes.\<close>

lemma word_of_int_i8s: "word_of_int (i8s a i + i8s b i) = a ! i + b ! i" "word_of_int (i8s a i - i8s b i) = a ! i - b ! i"
  by (simp_all add: i8s_def)

lemma map2_nth: "length b = length a \<Longrightarrow> map (\<lambda>i. f (a ! i) (b ! i)) [0..<length a] = map2 f a b"
  by (rule nth_equalityI) simp_all

lemma int8_arithmetic:
  assumes a: "vector_blob INT8 a" "vector_blob INT8 b" "length b = length a" and h: "no_failures h"
  shows "\<exists>i h'. no_failures h' \<and> vec_add strtod (blob_value INT8 a) (blob_value INT8 b) h =
      Some (RBlob (map2 (+) a b) (subtype_of INT8) (Owned i), h')"
    "\<exists>i h'. no_failures h' \<and> vec_sub strtod (blob_value INT8 a) (blob_value INT8 b) h =
      Some (RBlob (map2 (-) a b) (subtype_of INT8) (Owned i), h')"
proof -
  let ?a = "blob_vector a (length a)" and ?b = "blob_vector b (length a)"
  have loop: "for_loop (i8_step (+) a b) 0 (length a) (replicate (length a) 0) = Some (map2 (+) a b)"
    "for_loop (i8_step (-) a b) 0 (length a) (replicate (length a) 0) = Some (map2 (-) a b)"
    using i8_loop [of ?a ?b "(+)"] i8_loop [of ?a ?b "(-)"] a(3) unfolding word_of_int_i8s by (simp_all add: map2_nth)
  have d: "blob_dims INT8 a = length a" "0 < length a" "length a < 2 ^ 31"
    using a(1) by (simp_all add: blob_dims_def vector_blob_def)
  note defs = from_value_def match_blobs [OF a] d(1) Let_def malloc_new [OF h] int_of_size_small loop finish2_def h no_failures_def
  show "\<exists>i h'. no_failures h' \<and> vec_add strtod (blob_value INT8 a) (blob_value INT8 b) h =
      Some (RBlob (map2 (+) a b) (subtype_of INT8) (Owned i), h')"
    using d(2,3) h by (simp add: vec_add_def add_vectors_def defs)
  show "\<exists>i h'. no_failures h' \<and> vec_sub strtod (blob_value INT8 a) (blob_value INT8 b) h =
      Some (RBlob (map2 (-) a b) (subtype_of INT8) (Owned i), h')"
    using d(2,3) h by (simp add: vec_sub_def sub_vectors_def defs)
qed

text \<open>
  C23: the sum of two int8 vectors is taken byte by byte modulo 256, and subtracting the second
  vector from the sum gives the first back.
\<close>

theorem vec_sub_undoes_vec_add:
  assumes "vector_blob INT8 a" "vector_blob INT8 b" "length b = length a" "no_failures h"
  shows "\<exists>c i h1 j h2. vec_add strtod (blob_value INT8 a) (blob_value INT8 b) h = Some (RBlob c 225 (Owned i), h1) \<and>
    c = map2 (+) a b \<and> vec_sub strtod (blob_value INT8 c) (blob_value INT8 b) h1 = Some (RBlob a 225 (Owned j), h2)"
proof -
  obtain i h1 where 1: "no_failures h1" "vec_add strtod (blob_value INT8 a) (blob_value INT8 b) h =
      Some (RBlob (map2 (+) a b) (subtype_of INT8) (Owned i), h1)"
    using int8_arithmetic(1) [OF assms] by blast
  let ?c = "map2 (+) a b"
  have c: "vector_blob INT8 ?c" "length b = length ?c" using assms(1,3) by (auto simp: vector_blob_def)
  have "map2 (-) ?c b = a" by (rule nth_equalityI) (simp_all add: assms(3))
  then show ?thesis using 1 int8_arithmetic(2) [OF c(1) assms(2) c(2) 1(1), of strtod] by auto
qed

theorem vec_sub_undoes_vec_add_witness:
  "\<exists>i h1 j h2. vec_add int_strtod (blob_value INT8 [100, 3]) (blob_value INT8 [100, 254]) empty_heap = Some (RBlob [200, 1] 225 (Owned i), h1) \<and>
    vec_sub int_strtod (blob_value INT8 [200, 1]) (blob_value INT8 [100, 254]) h1 = Some (RBlob [100, 3] 225 (Owned j), h2)"
proof -
  have v: "vector_blob INT8 [100, 3]" "vector_blob INT8 [100, 254]" "length [100, 254 :: u8] = length [100, 3 :: u8]"
    "no_failures empty_heap"
    by (simp_all add: vector_blob_def no_failures_def empty_heap_def)
  have c: "map2 (+) [100, 3] [100, 254 :: u8] = [200, 1]" by simp
  show ?thesis using vec_sub_undoes_vec_add [OF v, of int_strtod] unfolding c by blast
qed

end
