(* ===== verification/VecJson.thy ===== *)
theory VecJson
  imports VecScalarLaws
begin

text \<open>
  The JSON text of a vector and its reader. The reader of an array relies on the parser of one
  element only through the contract \<open>element_reader\<close>; the parser of int8 elements, on top of
  \<open>strtol\<close>, is shown to fulfil it, and so \<open>vec_int8\<close> reads back what \<open>vec_to_json\<close> writes.
\<close>

section \<open>Texts of arrays\<close>

fun commas :: "u8 list list \<Rightarrow> u8 list" where
  "commas [] = []"
| "commas [t] = t"
| "commas (t # ts) = t @ 44 # commas ts"

lemma commas_snoc: "commas (ts @ [t]) = commas ts @ (if ts = [] then [] else [44]) @ t"
  by (induction ts rule: commas.induct) simp_all

lemma length_commas: "\<forall>t\<in>set ts. t \<noteq> [] \<Longrightarrow> 2 * length ts \<le> length (commas ts) + 1"
proof (induction ts rule: commas.induct)
  case (2 t)
  then show ?case by (cases t) simp_all
next
  case (3 t u ts)
  then have "1 \<le> length t" by (cases t) simp_all
  then show ?case using 3 by simp
qed simp

section \<open>The contract of an element parser\<close>

text \<open>
  \<open>text x\<close> is what is read, \<open>enc x\<close> the bytes of the element. The text starts with no separator,
  and the parser stops before the comma or bracket after it.
\<close>

locale element_reader =
  fixes read_elem :: "mem \<Rightarrow> nat \<Rightarrow> element option"
    and elem_text :: "'a \<Rightarrow> u8 list"
    and enc :: "'a \<Rightarrow> u8 list"
  assumes reads_text: "drop i m = elem_text x @ d # rest \<Longrightarrow> d = 44 \<or> d = 93 \<Longrightarrow> 0 \<in> set rest \<Longrightarrow>
      read_elem m i = Some (Element (enc x) (i + length (elem_text x)))"
    and starts: "\<exists>c t. elem_text x = c # t \<and> \<not> vecJsonIsspace c \<and> c \<noteq> 44 \<and> c \<noteq> 93"
begin

lemma text_nonempty: "elem_text x \<noteq> []"
  using starts [of x] by auto

lemma elements_read:
  "drop i m = commas (map elem_text (x # xs)) @ [93, 0] \<Longrightarrow> n = length m - 1 \<Longrightarrow>
   a_length a + length (x # xs) \<le> a_capacity a \<Longrightarrow>
   json_elements (read_elem m) m i n a h =
     Some (Inr (a\<lparr>a_length := a_length a + length (x # xs), a_data := a_data a @ concat (map enc (x # xs))\<rparr>), h)"
proof (induction xs arbitrary: x i a)
  case Nil
  obtain c t where ct: "elem_text x = c # t" using starts by blast
  let ?j = "i + length (elem_text x)"
  have d: "drop i m = elem_text x @ 93 # [0]" using Nil(1) by simp
  have len: "length m = ?j + 2" using arg_cong [OF d, of length] ct by (cases "i \<le> length m") simp_all
  have "m ! ?j = 93"
    using d len nth_drop [of i m "length (elem_text x)"] by (simp add: nth_append)
  then have "skip_separators m ?j n = Some (?j, True)"
    using Nil(2) len by (subst skip_separators.simps) (simp add: vecJsonIsspace_def)
  then show ?case using Nil(2,3) len ct reads_text [OF d]
    by (subst json_elements.simps) (simp add: array_append_def)
next
  case (Cons y ys)
  obtain c t where ct: "elem_text x = c # t" using starts by blast
  obtain c' t' where ct': "elem_text y = c' # t'" "\<not> vecJsonIsspace c'" "c' \<noteq> 44" "c' \<noteq> 93" using starts by blast
  let ?j = "i + length (elem_text x)" let ?r = "commas (map elem_text (y # ys)) @ [93, 0]"
  have d: "drop i m = elem_text x @ 44 # ?r" using Cons(2) by simp
  obtain r' where r': "?r = c' # r'" "r' \<noteq> []" using ct'(1) by (cases ys) auto
  have i: "i \<le> length m" using d by (cases "i \<le> length m") simp_all
  then have len: "length m = ?j + 1 + length ?r" using arg_cong [OF d, of length] by simp
  have dj: "drop ?j m = 44 # ?r" "drop (?j + 1) m = ?r"
    using arg_cong [OF d, of "drop (length (elem_text x))"] arg_cong [OF d, of "drop (length (elem_text x) + 1)"]
    by (simp_all add: add.commute add.left_commute)
  have mj: "m ! ?j = 44" "m ! (?j + 1) = c'"
    using hd_drop_conv_nth [of ?j m] hd_drop_conv_nth [of "?j + 1" m] dj len r' by simp_all
  have k: "?j + 1 < n" using len r' Cons(3) by (cases r') simp_all
  have s: "skip_separators m (?j + 1) n = Some (?j + 1, False)"
    using mj k Cons(3) ct' by (subst skip_separators.simps) simp
  have "skip_separators m ?j n = skip_separators m (?j + 1) n"
    using mj k Cons(3) by (subst skip_separators.simps) simp
  then have skip: "skip_separators m ?j n = Some (?j + 1, False)" using s by simp
  let ?a = "a\<lparr>a_data := a_data a @ enc x, a_length := a_length a + 1\<rparr>"
  have "json_elements (read_elem m) m i n a h = json_elements (read_elem m) m (?j + 1) n ?a h"
    using k Cons(4) ct reads_text [OF d] skip by (subst json_elements.simps) (simp add: array_append_def)
  also have "\<dots> = Some (Inr (?a\<lparr>a_length := a_length ?a + length (y # ys),
      a_data := a_data ?a @ concat (map enc (y # ys))\<rparr>), h)"
    by (rule Cons.IH [OF dj(2) Cons(3)]) (use Cons(4) in simp)
  finally show ?case by simp
qed

text \<open>The text of a non-empty array is read back.\<close>

lemma array_read:
  assumes "xs \<noteq> []" "no_failures h" "0 < k" "k \<le> 4"
    and len: "length (commas (map elem_text xs)) < 2 ^ 27"
  shows "\<exists>z h'. json_vector read_elem k (91 # commas (map elem_text xs) @ [93]) h =
    Some (Done \<lparr>v_data = concat (map enc xs), v_dims = length xs, v_block = Some z, v_frees = True\<rparr>, h') \<and>
    malloc 1 h = (Some z, h')"
proof -
  obtain x ys where xs: "xs = x # ys" using assms(1) by (cases xs) auto
  let ?t = "commas (map elem_text xs)" let ?b = "91 # ?t @ [93]" let ?m = "?b @ [0]"
  let ?c = "(length ?b + 1) div 2"
  let ?a = "\<lparr>a_elem = k, a_length = 0, a_capacity = ?c, a_z = Some (h_next h), a_data = []\<rparr>"
  let ?h = "h\<lparr>h_next := h_next h + 1, h_live := h_next h # h_live h\<rparr>"
  have cap: "length xs \<le> ?c" using length_commas [of "map elem_text xs"] text_nonempty by auto
  have "k * ?c \<le> 4 * ?c" using assms(4) by (rule mult_le_mono1)
  then have "k * ?c < 2 ^ 31" by (rule le_less_trans) (use len in simp)
  moreover have "0 < k * ?c" using assms(3) by simp
  ultimately have "0 < int_of_size (k * ?c)" by (simp only: int_of_size_small of_nat_0_less_iff)
  then have "malloc (int_of_size (k * ?c)) h = (Some (h_next h), ?h)" by (rule malloc_new [OF assms(2), THEN trans]) simp
  then have init: "array_init k ?c h = (Some ?a, ?h)" by (simp add: array_init_def int_of_size_def)
  have find: "find_bracket ?m 0 (length ?b) = Some (Some 0)"
    by (subst find_bracket.simps) (simp add: vecJsonIsspace_def)
  have "json_elements (read_elem ?m) ?m 1 (length ?b) ?a ?h =
      Some (Inr (?a\<lparr>a_length := a_length ?a + length (x # ys), a_data := a_data ?a @ concat (map enc (x # ys))\<rparr>), ?h)"
    by (rule elements_read) (use cap xs in simp_all)
  then show ?thesis using init find xs malloc_new [OF assms(2), of 1] by (simp add: json_vector_def Let_def)
qed

end

section \<open>Decimal texts\<close>

lemma nat_less_10: "n < 10 \<Longrightarrow> n = 0 \<or> n = 1 \<or> n = 2 \<or> n = 3 \<or> n = 4 \<or> n = 5 \<or> n = 6 \<or> n = 7 \<or> n = 8 \<or> n = (9 :: nat)"
  by presburger

lemma digit_byte:
  assumes "d < 10"
  shows "digit_val (sint (48 + word_of_nat d :: u8)) = Some (int d)" "is_digit_in 10 (48 + word_of_nat d)"
    "(48 + word_of_nat d :: u8) \<noteq> 0" "\<not> c_isspace (sint (48 + word_of_nat d :: u8))"
    "(48 + word_of_nat d :: u8) \<notin> {43, 44, 45, 93}" "\<not> vecJsonIsspace (48 + word_of_nat d)"
  using nat_less_10 [OF assms]
  by (elim disjE; simp add: digit_val_def is_digit_in_def c_isspace_def vecJsonIsspace_def)+

text \<open>The text of a natural number consists of digits, and its value is the number.\<close>

lemma decimal_bytes: "b \<in> set (decimal n) \<Longrightarrow> \<exists>d<10. b = 48 + word_of_nat d"
proof (induction n rule: decimal.induct)
  case (1 n)
  then consider "b = 48 + word_of_nat (n mod 10)" | "\<not> n < 10" "b \<in> set (decimal (n div 10))"
    using decimal.simps [of n] by (auto split: if_splits)
  then show ?case
  proof cases
    case 1
    then show ?thesis by (intro exI [of _ "n mod 10"]) simp
  next
    case 2
    then show ?thesis by (rule "1.IH")
  qed
qed

lemma decimal_head: "\<exists>d t. decimal n = (48 + word_of_nat d) # t \<and> d < 10"
proof (cases "decimal n")
  case (Cons b t)
  then show ?thesis using decimal_bytes [of b n] by auto
qed (simp add: decimal_nonempty)

lemma takeWhile_digits:
  "takeWhile (is_digit_in 10) (decimal n @ d # rest) = decimal n" if "\<not> is_digit_in 10 d"
proof -
  have "\<forall>b\<in>set (decimal n). is_digit_in 10 b" using decimal_bytes digit_byte(2) by blast
  then show ?thesis using that by (simp add: takeWhile_append2)
qed

lemma takeWhile_nonzero:
  "takeWhile (\<lambda>b. b \<noteq> 0) (decimal n @ d # rest) = decimal n @ d # takeWhile (\<lambda>b. b \<noteq> 0) rest" if "d \<noteq> 0"
proof -
  have "\<forall>b\<in>set (decimal n). b \<noteq> 0"
  proof
    fix b assume "b \<in> set (decimal n)"
    then obtain e where e: "e < 10" "b = 48 + word_of_nat e" using decimal_bytes by blast
    show "b \<noteq> 0" unfolding e(2) by (rule digit_byte(3) [OF e(1)])
  qed
  then show ?thesis using that by (simp add: takeWhile_append2)
qed

lemma int_text_dec:
  assumes "\<not> is_digit_in 10 d"
  shows "int_text 10 (dec_text k @ d # rest) = (k < 0, if k < 0 then 1 else 0, decimal (nat \<bar>k\<bar>))"
proof (cases "k < 0")
  case True
  then show ?thesis using takeWhile_digits [OF assms]
    by (simp add: int_text_def dec_text_def c_isspace_def Let_def)
next
  case False
  obtain e t where t: "decimal (nat k) = (48 + word_of_nat e) # t" "e < 10" using decimal_head by blast
  have "takeWhile (is_digit_in 10) ((48 + word_of_nat e) # t @ d # rest) = (48 + word_of_nat e) # t"
    using takeWhile_digits [OF assms, of "nat k" rest] unfolding t(1) by simp
  then show ?thesis using False digit_byte [OF t(2)]
    by (simp add: int_text_def dec_text_def Let_def t(1))
qed

text \<open>\<open>strtol\<close> reads the text of a number in front of a byte that is no digit.\<close>

lemma strtol_dec_text:
  assumes m: "drop i m = dec_text k @ d # rest" "0 \<in> set rest" and d: "\<not> is_digit_in 10 d" "d \<noteq> 0"
    and k: "- 2147483648 \<le> k" "k \<le> 2147483647"
  shows "strtol m i True 10 = Some (k, Some (i + length (dec_text k)), None)"
proof -
  have t: "terminated m i" using m by (simp add: terminated_def)
  have c: "cstr m i = dec_text k @ d # takeWhile (\<lambda>b. b \<noteq> 0) rest"
    using m(1) d(2) takeWhile_nonzero [OF d(2)] by (simp add: cstr_def dec_text_def)
  note int = int_text_dec [OF d(1), of k "takeWhile (\<lambda>b. b \<noteq> 0) rest", folded c]
  have v: "(if k < 0 then - num_value 10 0 (decimal (nat \<bar>k\<bar>)) else num_value 10 0 (decimal (nat \<bar>k\<bar>))) = k"
    by (simp add: num_value_decimal)
  have "strtol m i True 10 = Some (clamp_long k,
      Some (if decimal (nat \<bar>k\<bar>) = [] then i else i + (if k < 0 then 1 else 0) + length (decimal (nat \<bar>k\<bar>))),
      if clamp_long k = k then None else Some ERANGE)"
    by (rule strtol_spec [OF t _ _ _ int v [symmetric]]) simp_all
  then show ?thesis using k by (simp add: clamp_long_def decimal_nonempty dec_text_def)
qed

section \<open>The parser of int8 elements\<close>

lemma sint_word_small: "- 128 \<le> sint (b :: u8) \<and> sint b \<le> 127"
  using sint_u8_bounds [of b] by simp

text \<open>The contract holds for the bytes, written as signed decimals.\<close>

interpretation int8_elements: element_reader read_int8 "\<lambda>b :: u8. dec_text (sint b)" "\<lambda>b. [b]"
proof
  fix i :: nat and m :: mem and x d :: u8 and rest :: "u8 list"
  assume m: "drop i m = dec_text (sint x) @ d # rest" "d = 44 \<or> d = 93" "0 \<in> set rest"
  have d: "\<not> is_digit_in 10 d" "d \<noteq> 0" using m(2) by (auto simp: is_digit_in_def digit_val_def)
  have "strtol m i True 10 = Some (sint x, Some (i + length (dec_text (sint x))), None)"
    using strtol_dec_text [OF m(1,3) d] sint_word_small [of x] by simp
  moreover have "dec_text (sint x) \<noteq> []" by (simp add: dec_text_def decimal_nonempty)
  ultimately show "read_int8 m i = Some (Element [x] (i + length (dec_text (sint x))))"
    using sint_word_small [of x] by (simp add: read_int8_def)
next
  fix x :: u8
  show "\<exists>c t. dec_text (sint x) = c # t \<and> \<not> vecJsonIsspace c \<and> c \<noteq> 44 \<and> c \<noteq> 93"
  proof (cases "sint x < 0")
    case True
    then show ?thesis by (simp add: dec_text_def vecJsonIsspace_def)
  next
    case False
    then show ?thesis using decimal_head [of "nat (sint x)"] digit_byte by (auto simp: dec_text_def)
  qed
qed

section \<open>Writing and reading back\<close>

lemma json_loop:
  assumes "\<And>i. i < n \<Longrightarrow> json_element fmt_f t v i = Some (f i)"
  shows "for_loop (json_step fmt_f t v) 0 n (lit ''['') = Some (91 # commas (map f [0..<n]))"
proof -
  let ?I = "\<lambda>i str. i \<le> n \<and> str = 91 # commas (map f [0..<i])"
  have "\<exists>str. for_loop (json_step fmt_f t v) 0 n (lit ''['') = Some str \<and> ?I (0 + n) str"
    by (rule for_loop_invariant) (auto simp: json_step_def assms commas_snoc)
  then show ?thesis by simp
qed

lemma decimal_length: "n < 1000 \<Longrightarrow> length (decimal n) \<le> 3"
  by (subst decimal.simps, subst decimal.simps, subst decimal.simps) auto

lemma dec_text_length: "length (dec_text (sint (b :: u8))) \<le> 4"
proof -
  have "nat \<bar>sint b\<bar> < 1000" using sint_word_small [of b] by arith
  then have "length (decimal (nat \<bar>sint b\<bar>)) \<le> 3" by (rule decimal_length)
  then show ?thesis by (cases "sint b < 0") (simp_all add: dec_text_def)
qed

lemma commas_length: "\<forall>t\<in>set ts. length t \<le> k \<Longrightarrow> length (commas ts) \<le> (k + 1) * length ts"
  by (induction ts rule: commas.induct) auto

lemma int8_json_length: "length (commas (map (\<lambda>b :: u8. dec_text (sint b)) bytes)) \<le> 5 * length bytes"
  using commas_length [of "map (\<lambda>b :: u8. dec_text (sint b)) bytes" 4] dec_text_length by simp

definition json_value :: "u8 list \<Rightarrow> sql_value" where
  "json_value bytes = \<lparr>val_type = SQLITE_TEXT, val_bytes = bytes, val_subtype = JSON_SUBTYPE\<rparr>"

lemma int8_to_json:
  assumes b: "vector_blob INT8 bytes" and h: "no_failures h"
  shows "\<exists>i h'. no_failures h' \<and> vec_to_json strtod fmt_f (blob_value INT8 bytes) h =
    Some (RText (91 # commas (map (\<lambda>b. dec_text (sint b)) bytes) @ [93]) JSON_SUBTYPE (Owned i), h')"
proof -
  let ?t = "\<lambda>b :: u8. dec_text (sint b)"
  have "for_loop (json_step fmt_f INT8 bytes) 0 (length bytes) (lit ''['') = Some (91 # commas (map (\<lambda>i. ?t (bytes ! i)) [0..<length bytes]))"
    by (rule json_loop) (simp add: json_element_def i8_at_get i8s_def)
  moreover have "map (\<lambda>i. ?t (bytes ! i)) [0..<length bytes] = map ?t bytes" by (rule nth_equalityI) simp_all
  ultimately have l: "for_loop (json_step fmt_f INT8 bytes) 0 (length bytes) (lit ''['') = Some (91 # commas (map ?t bytes))"
    by simp
  have "blob_dims INT8 bytes = length bytes" by (simp add: blob_dims_def)
  then show ?thesis using h
    by (simp add: vec_to_json_def from_value_def read_blob [OF b] to_json_def l Let_def malloc_new [OF h] finish1_def
        no_failures_def del: lit_simps(2)) simp
qed

lemma int8_from_json:
  assumes b: "vector_blob INT8 bytes" and h: "no_failures h"
  shows "\<exists>h'. vec_int8 (json_value (91 # commas (map (\<lambda>b. dec_text (sint b)) bytes) @ [93])) h =
    Some (RBlob bytes 225 Copied, h')"
proof -
  let ?s = "91 # commas (map (\<lambda>b. dec_text (sint b)) bytes) @ [93]"
  have ne: "bytes \<noteq> []" and len: "length (commas (map (\<lambda>b. dec_text (sint b)) bytes)) < 2 ^ 27"
    using b int8_json_length [of bytes] by (simp_all add: vector_blob_def)
  obtain z h1 where z: "malloc 1 h = (Some z, h1)" "json_vector read_int8 1 ?s h =
    Some (Done \<lparr>v_data = concat (map (\<lambda>b. [b]) bytes), v_dims = length bytes, v_block = Some z, v_frees = True\<rparr>, h1)"
    using int8_elements.array_read [OF ne h _ _ len, of 1] by auto
  have "z \<in> live h1" using z(1) malloc_new [OF h, of 1] by auto
  then have "\<exists>h2. free (Some z) h1 = Some h2" by (simp add: free_def)
  then show ?thesis using z(2)
    by (auto simp: vec_int8_def from_value_def int8_vec_from_value_def json_value_def finish1_def cleanup_def)
qed

text \<open>
  C20: the JSON array that \<open>vec_to_json\<close> writes for an int8 vector, its elements as signed decimals between
  brackets, is read back by \<open>vec_int8\<close> to the same vector.
\<close>

theorem int8_json_roundtrip:
  assumes "vector_blob INT8 bytes" "no_failures h"
  shows "\<exists>s i h1 h2. vec_to_json strtod fmt_f (blob_value INT8 bytes) h = Some (RText s JSON_SUBTYPE (Owned i), h1) \<and>
    s = 91 # commas (map (\<lambda>b. dec_text (sint b)) bytes) @ [93] \<and>
    vec_int8 (json_value s) h1 = Some (RBlob bytes 225 Copied, h2)"
proof -
  obtain i h1 where 1: "no_failures h1" "vec_to_json strtod fmt_f (blob_value INT8 bytes) h =
    Some (RText (91 # commas (map (\<lambda>b. dec_text (sint b)) bytes) @ [93]) JSON_SUBTYPE (Owned i), h1)"
    using int8_to_json [OF assms] by blast
  then show ?thesis using int8_from_json [OF assms(1) 1(1)] by blast
qed

theorem int8_json_roundtrip_witness:
  "\<exists>i h1 h2. vec_to_json int_strtod (\<lambda>_. []) (blob_value INT8 [1, 128]) empty_heap = Some (RText (lit ''[1,-128]'') 74 (Owned i), h1) \<and>
    vec_int8 (json_value (lit ''[1,-128]'')) h1 = Some (RBlob [1, 128] 225 Copied, h2)"
proof -
  have v: "vector_blob INT8 [1, 128]" "no_failures empty_heap"
    by (simp_all add: vector_blob_def no_failures_def empty_heap_def)
  have t: "91 # commas (map (\<lambda>b. dec_text (sint b)) [1, 128 :: u8]) @ [93] = lit ''[1,-128]''" by code_simp
  show ?thesis using int8_json_roundtrip [OF v, of int_strtod "\<lambda>_. []"] unfolding t JSON_SUBTYPE_def by blast
qed

end
