(* ===== verification/VecMeta.thy ===== *)
theory VecMeta
  imports VecJson VecScan VecBitmap "HOL-Library.List_Lexorder"
begin

text \<open>
  Metadata columns of \<^verbatim>\<open>vec0\<close> tables in \<^verbatim>\<open>extensions/sqlite-vec/cc/sqlite-vec.c\<close>: writing, clearing and
  reading the value of a row, and the filters that turn a constraint on a column into a bitmap of
  the rows of a chunk. A column keeps one blob per chunk; texts of more than twelve bytes are kept
  in a shadow table by row id, with their first twelve bytes in the blob. The I/O of SQLite itself
  does not fail here; what is missing or out of range in the shadow tables does.
\<close>

section \<open>Data\<close>

datatype datum = DNull | DInt i64 | DFloat f64 | DText "u8 list" | DBlob "u8 list"

text \<open>The conversions of the SQLite value interface.\<close>

record conversions =
  value_int :: "datum \<Rightarrow> int"
  value_int64 :: "datum \<Rightarrow> i64"
  value_double :: "datum \<Rightarrow> f64"
  value_text :: "datum \<Rightarrow> u8 list"

text \<open>What they return for a value of the type they ask for is documented.\<close>

definition faithful :: "conversions \<Rightarrow> bool" where
  "faithful c \<longleftrightarrow> (\<forall>x. value_int c (DInt x) = sint (ucast x :: u32)) \<and> (\<forall>x. value_int64 c (DInt x) = x) \<and>
     (\<forall>x. value_double c (DFloat x) = x) \<and> (\<forall>s. value_text c (DText s) = s) \<and> value_int64 c DNull = 0 \<and> value_text c DNull = []"

fun type_of :: "datum \<Rightarrow> value_type" where
  "type_of DNull = SQLITE_NULL"
| "type_of (DInt x) = SQLITE_INTEGER"
| "type_of (DFloat x) = SQLITE_FLOAT"
| "type_of (DText s) = SQLITE_TEXT"
| "type_of (DBlob b) = SQLITE_BLOB"

text \<open>The blob of a chunk and the long texts of a column.\<close>

record meta_column =
  m_data :: "u8 list"
  m_long :: "i64 \<rightharpoonup> u8 list"

definition VIEW_BUFFER_LENGTH :: nat where "VIEW_BUFFER_LENGTH = 16"
definition VIEW_DATA_LENGTH :: nat where "VIEW_DATA_LENGTH = 12"

text \<open>\<open>sqlite3_blob_read\<close> and \<open>sqlite3_blob_write\<close> refuse to leave the blob.\<close>

definition blob_read :: "u8 list \<Rightarrow> nat \<Rightarrow> nat \<Rightarrow> u8 list option" where
  "blob_read b n off = (if off + n \<le> length b then Some (take n (drop off b)) else None)"

definition blob_write :: "u8 list \<Rightarrow> u8 list \<Rightarrow> nat \<Rightarrow> u8 list option" where
  "blob_write b bytes off = (if off + length bytes \<le> length b then Some (put_bytes b off bytes) else None)"

text \<open>
  The writer overwrites the code of a failed write with that of closing the blob: a value that does
  not fit is dropped without an error.
\<close>

definition blob_overwrite :: "u8 list \<Rightarrow> u8 list \<Rightarrow> nat \<Rightarrow> u8 list" where
  "blob_overwrite b bytes off = (case blob_write b bytes off of None \<Rightarrow> b | Some b' \<Rightarrow> b')"

definition i64_bytes :: "i64 \<Rightarrow> u8 list" where
  "i64_bytes x = f32_bytes (ucast x) @ f32_bytes (ucast (drop_bit 32 x))"

definition int_bytes :: "nat \<Rightarrow> u8 list" where
  "int_bytes n = f32_bytes (word_of_nat n)"

definition vec0_metadata_chunk_size :: "metadata_kind \<Rightarrow> nat \<Rightarrow> nat" where
  "vec0_metadata_chunk_size kind chunk_size = (case kind of
       KIND_BOOLEAN \<Rightarrow> chunk_size div 8
     | KIND_INTEGER \<Rightarrow> chunk_size * 8
     | KIND_FLOAT \<Rightarrow> chunk_size * 8
     | KIND_TEXT \<Rightarrow> chunk_size * VIEW_BUFFER_LENGTH)"

text \<open>A step that fails without a message, unless it has the value.\<close>

definition or_fail :: "'a option \<Rightarrow> ('a \<Rightarrow> 'b outcome) \<Rightarrow> 'b outcome" where
  "or_fail x k = (case x of None \<Rightarrow> Fail None | Some v \<Rightarrow> k v)"

lemma or_fail_simps [simp]: "or_fail None k = Fail None" "or_fail (Some v) k = k v"
  by (simp_all add: or_fail_def)

section \<open>Writing\<close>

text \<open>The check of the type: the error, if any.\<close>

definition metadata_type_error :: "conversions \<Rightarrow> metadata_kind \<Rightarrow> string \<Rightarrow> datum \<Rightarrow> message option" where
  "metadata_type_error c kind name v = (case kind of
       KIND_BOOLEAN \<Rightarrow>
         if type_of v \<noteq> SQLITE_INTEGER \<or> (value_int c v \<noteq> 0 \<and> value_int c v \<noteq> 1)
         then Some (Msg_Names ''Expected 0 or 1 for BOOLEAN metadata column %.*s'' [name]) else None
     | KIND_INTEGER \<Rightarrow>
         if type_of v \<noteq> SQLITE_INTEGER
         then Some (Msg_Names ''Expected integer for INTEGER metadata column %.*s, received %s'' [name, type_name (type_of v)]) else None
     | KIND_FLOAT \<Rightarrow>
         if type_of v \<noteq> SQLITE_FLOAT
         then Some (Msg_Names ''Expected float for FLOAT metadata column %.*s, received %s'' [name, type_name (type_of v)]) else None
     | KIND_TEXT \<Rightarrow>
         if type_of v \<noteq> SQLITE_TEXT
         then Some (Msg_Names ''Expected text for TEXT metadata column %.*s, received %s'' [name, type_name (type_of v)]) else None)"

text \<open>The bit of a boolean is read, changed and written.\<close>

definition write_bit :: "u8 list \<Rightarrow> nat \<Rightarrow> bool \<Rightarrow> u8 list option" where
  "write_bit data off v = do {
     block \<leftarrow> blob_read data 1 (off div 8);
     let b = hd block;
     blob_write data [if v then b OR push_bit (off mod 8) 1 else b AND NOT (push_bit (off mod 8) 1)] (off div 8) }"

text \<open>The view of a text: its length and its first twelve bytes.\<close>

definition text_view :: "u8 list \<Rightarrow> u8 list" where
  "text_view s = int_bytes (length s) @ take VIEW_DATA_LENGTH s @ replicate (VIEW_DATA_LENGTH - length s) 0"

text \<open>
  The text data table has the row id as its key: an insertion over a row fails, an update or a
  deletion of a row that is not there does nothing.
\<close>

definition write_text :: "meta_column \<Rightarrow> i64 \<Rightarrow> nat \<Rightarrow> u8 list \<Rightarrow> bool \<Rightarrow> meta_column outcome" where
  "write_text col rowid off s isupdate =
     or_fail (blob_read (m_data col) 4 (off * VIEW_BUFFER_LENGTH)) (\<lambda>prev.
     or_fail (ld32 prev 0) (\<lambda>prev_n.
       let col = col\<lparr>m_data := blob_overwrite (m_data col) (text_view s) (off * VIEW_BUFFER_LENGTH)\<rparr> in
       if length s > VIEW_DATA_LENGTH then
         (if isupdate \<and> sint prev_n > int VIEW_DATA_LENGTH then
            Done (col\<lparr>m_long := (if m_long col rowid = None then m_long col else (m_long col)(rowid \<mapsto> s))\<rparr>)
          else if m_long col rowid \<noteq> None then Fail None
          else Done (col\<lparr>m_long := (m_long col)(rowid \<mapsto> s)\<rparr>))
       else if sint prev_n > int VIEW_DATA_LENGTH then Done (col\<lparr>m_long := (m_long col)(rowid := None)\<rparr>)
       else Done col))"

definition vec0_write_metadata_value ::
  "conversions \<Rightarrow> metadata_kind \<Rightarrow> string \<Rightarrow> meta_column \<Rightarrow> i64 \<Rightarrow> nat \<Rightarrow> datum \<Rightarrow> bool \<Rightarrow> meta_column outcome" where
  "vec0_write_metadata_value c kind name col rowid off v isupdate =
     (case metadata_type_error c kind name v of
        Some e \<Rightarrow> Fail (Some e)
      | None \<Rightarrow> (case kind of
          KIND_BOOLEAN \<Rightarrow> or_fail (write_bit (m_data col) off (value_int c v \<noteq> 0)) (\<lambda>d. Done (col\<lparr>m_data := d\<rparr>))
        | KIND_INTEGER \<Rightarrow> Done (col\<lparr>m_data := blob_overwrite (m_data col) (i64_bytes (value_int64 c v)) (off * 8)\<rparr>)
        | KIND_FLOAT \<Rightarrow> Done (col\<lparr>m_data := blob_overwrite (m_data col) (i64_bytes (value_double c v)) (off * 8)\<rparr>)
        | KIND_TEXT \<Rightarrow> write_text col rowid off (value_text c v) isupdate))"

section \<open>Clearing and reading\<close>

text \<open>
  The column and the code. After the deletion of a long text the code is that of the statement, which
  is \<open>SQLITE_DONE\<close> and not \<open>SQLITE_OK\<close>; the caller ignores it.
\<close>

datatype code = SQLITE_OK | SQLITE_ERROR | SQLITE_DONE | SQLITE_EMPTY | SQLITE_NOMEM | SQLITE_CONSTRAINT

definition clear_bytes :: "meta_column \<Rightarrow> u8 list option \<Rightarrow> meta_column \<times> code" where
  "clear_bytes col d = (case d of None \<Rightarrow> (col, SQLITE_ERROR) | Some d \<Rightarrow> (col\<lparr>m_data := d\<rparr>, SQLITE_OK))"

definition vec0Update_Delete_ClearMetadata :: "metadata_kind \<Rightarrow> meta_column \<Rightarrow> i64 \<Rightarrow> nat \<Rightarrow> meta_column \<times> code" where
  "vec0Update_Delete_ClearMetadata kind col rowid off = (case kind of
       KIND_BOOLEAN \<Rightarrow> clear_bytes col (write_bit (m_data col) off False)
     | KIND_INTEGER \<Rightarrow> clear_bytes col (blob_write (m_data col) (i64_bytes 0) (off * 8))
     | KIND_FLOAT \<Rightarrow> clear_bytes col (blob_write (m_data col) (i64_bytes 0) (off * 8))
     | KIND_TEXT \<Rightarrow>
         (case do { prev \<leftarrow> blob_read (m_data col) 4 (off * VIEW_BUFFER_LENGTH); ld32 prev 0 } of
            None \<Rightarrow> (col, SQLITE_ERROR)
          | Some n \<Rightarrow>
              (case blob_write (m_data col) (replicate VIEW_BUFFER_LENGTH 0) (off * VIEW_BUFFER_LENGTH) of
                 None \<Rightarrow> (col, SQLITE_ERROR)
               | Some d \<Rightarrow>
                   if sint n > int VIEW_DATA_LENGTH
                   then (col\<lparr>m_data := d, m_long := (m_long col)(rowid := None)\<rparr>, SQLITE_DONE)
                   else (col\<lparr>m_data := d\<rparr>, SQLITE_OK))))"

definition vec0_result_metadata_value_for_rowid :: "metadata_kind \<Rightarrow> meta_column \<Rightarrow> i64 \<Rightarrow> nat \<Rightarrow> datum outcome" where
  "vec0_result_metadata_value_for_rowid kind col rowid off = (case kind of
       KIND_BOOLEAN \<Rightarrow> or_fail (blob_read (m_data col) 1 (off div 8)) (\<lambda>block.
         Done (DInt (if bit (hd block) (off mod 8) then 1 else 0)))
     | KIND_INTEGER \<Rightarrow> or_fail (blob_read (m_data col) 8 (off * 8)) (\<lambda>b. or_fail (u64_at b 0) (\<lambda>v. Done (DInt v)))
     | KIND_FLOAT \<Rightarrow> or_fail (blob_read (m_data col) 8 (off * 8)) (\<lambda>b. or_fail (u64_at b 0) (\<lambda>v. Done (DFloat v)))
     | KIND_TEXT \<Rightarrow>
         or_fail (blob_read (m_data col) VIEW_BUFFER_LENGTH (off * VIEW_BUFFER_LENGTH)) (\<lambda>view.
         or_fail (ld32 view 0) (\<lambda>n.
           if sint n < 0 then Done (DText (takeWhile (\<lambda>b. b \<noteq> 0) (drop 4 view)))
           else if sint n \<le> int VIEW_DATA_LENGTH then Done (DText (take (nat (sint n)) (drop 4 view)))
           else or_fail (m_long col rowid) (\<lambda>s. Done (DText s)))))"


section \<open>Slots\<close>

text \<open>The blob of a column is an array of slots of the same width.\<close>

definition slot :: "nat \<Rightarrow> nat \<Rightarrow> u8 list \<Rightarrow> u8 list" where
  "slot n i d = take n (drop (i * n) d)"

lemma slot_fits: "(i::nat) < sz \<Longrightarrow> length d = sz * n \<Longrightarrow> i * n + n \<le> length d"
  using mult_le_mono1 [of "Suc i" sz n] by simp

lemma blob_read_slot: "i * n + n \<le> length d \<Longrightarrow> blob_read d n (i * n) = Some (slot n i d)"
  by (simp add: blob_read_def slot_def)

lemma blob_write_slot: "i * n + n \<le> length d \<Longrightarrow> length bs = n \<Longrightarrow> blob_write d bs (i * n) = Some (put_bytes d (i * n) bs)"
  by (simp add: blob_write_def)

lemma slot_put_same [simp]: "i * n + n \<le> length d \<Longrightarrow> length bs = n \<Longrightarrow> slot n i (put_bytes d (i * n) bs) = bs"
  by (simp add: slot_def put_bytes_def)

lemma slot_put_other:
  assumes "i * n + n \<le> length d" "length bs = n" "j * n + n \<le> length d" "i \<noteq> j"
  shows "slot n j (put_bytes d (i * n) bs) = slot n j d"
proof (rule nth_equalityI)
  show "length (slot n j (put_bytes d (i * n) bs)) = length (slot n j d)" using assms by (simp add: slot_def)
  fix k assume "k < length (slot n j (put_bytes d (i * n) bs))"
  then have k: "k < n" "j * n + k < length d" using assms by (auto simp: slot_def)
  have "j * n + k < i * n \<or> i * n + n \<le> j * n + k"
    using \<open>i \<noteq> j\<close> k(1) mult_le_mono1 [of "Suc j" i n] mult_le_mono1 [of "Suc i" j n] by (cases "j < i") auto
  then show "slot n j (put_bytes d (i * n) bs) ! k = slot n j d ! k"
    using assms k by (auto simp: slot_def nth_put_bytes)
qed

lemma write_bit_eq_bitmap_set:
  "i < 8 * length d \<Longrightarrow> write_bit d i v = bitmap_set d i (if v then 1 else 0)"
  by (auto simp: write_bit_def bitmap_set_def blob_read_def blob_write_def put_bytes_def take_Suc hd_drop_conv_nth
      upd_conv_take_nth_drop)

section \<open>Words in slots\<close>

lemma length_bytes [simp]: "length (f32_bytes x) = 4" "length (i64_bytes v) = 8" "length (int_bytes n) = 4"
  by (simp_all add: f32_bytes_def i64_bytes_def int_bytes_def)

lemma length_text_view [simp]: "length (text_view s) = VIEW_BUFFER_LENGTH"
  by (auto simp: text_view_def VIEW_DATA_LENGTH_def VIEW_BUFFER_LENGTH_def)

lemma ld32_f32_bytes [simp]: "ld32 (f32_bytes x @ bs) 0 = Some x"
  by (simp add: f32_bytes_def word_of_bytes_byte_of_word del: One_nat_def)

lemma u64_at_i64_bytes [simp]: "u64_at (i64_bytes v) 0 = Some v"
proof -
  have "ld32 (i64_bytes v) 0 = Some (ucast v)" by (simp add: i64_bytes_def)
  moreover have "ld32 (i64_bytes v) 4 = Some (ucast (drop_bit 32 v))"
    by (simp add: i64_bytes_def f32_bytes_def word_of_bytes_byte_of_word ld32_def del: One_nat_def)
  moreover have "ucast (ucast v :: u32) OR push_bit 32 (ucast (ucast (drop_bit 32 v) :: u32)) = v"
    by (rule bit_word_eqI) (auto simp: bit_simps)
  ultimately show ?thesis by (simp add: u64_at_def)
qed

lemma ld32_text_view: "ld32 (text_view s) 0 = Some (word_of_nat (length s))"
  by (simp add: text_view_def int_bytes_def)

lemma sint_text_length: "length s < 2147483648 \<Longrightarrow> sint (word_of_nat (length s) :: u32) = int (length s)"
  by (simp add: signed_of_nat signed_take_bit_int_eq_self)


section \<open>A value is read as it was written\<close>

fun fits_kind :: "metadata_kind \<Rightarrow> datum \<Rightarrow> bool" where
  "fits_kind KIND_BOOLEAN (DInt x) = (x = 0 \<or> x = 1)"
| "fits_kind KIND_INTEGER (DInt x) = True"
| "fits_kind KIND_FLOAT (DFloat x) = True"
| "fits_kind KIND_TEXT (DText s) = (length s < 2147483648)"
| "fits_kind _ _ = False"

fun_cases fits_kindE: "fits_kind KIND_BOOLEAN v" "fits_kind KIND_INTEGER v" "fits_kind KIND_FLOAT v" "fits_kind KIND_TEXT v"

text \<open>The blob of a chunk holds a slot for every row of it.\<close>

definition sized_column :: "metadata_kind \<Rightarrow> nat \<Rightarrow> meta_column \<Rightarrow> bool" where
  "sized_column kind n col \<longleftrightarrow> n mod 8 = 0 \<and> length (m_data col) = vec0_metadata_chunk_size kind n"

text \<open>
  The row has a long text in the data table exactly if it is updated and its slot says so.
\<close>

definition slot_ready :: "metadata_kind \<Rightarrow> meta_column \<Rightarrow> i64 \<Rightarrow> nat \<Rightarrow> bool \<Rightarrow> bool" where
  "slot_ready kind col rowid i isupdate \<longleftrightarrow> kind = KIND_TEXT \<longrightarrow>
     (m_long col rowid \<noteq> None \<longleftrightarrow>
       isupdate \<and> 12 < sint (the (ld32 (slot VIEW_BUFFER_LENGTH i (m_data col)) 0)))"

lemma sized_boolean: "sized_column KIND_BOOLEAN n col \<Longrightarrow> i < n \<Longrightarrow> i < 8 * length (m_data col)"
  by (auto simp: sized_column_def vec0_metadata_chunk_size_def)

lemma sized_word:
  "sized_column KIND_INTEGER n col \<Longrightarrow> i < n \<Longrightarrow> i * 8 + 8 \<le> length (m_data col)"
  "sized_column KIND_FLOAT n col \<Longrightarrow> i < n \<Longrightarrow> i * 8 + 8 \<le> length (m_data col)"
  by (auto simp: sized_column_def vec0_metadata_chunk_size_def)

lemma sized_text: "sized_column KIND_TEXT n col \<Longrightarrow> i < n \<Longrightarrow> i * VIEW_BUFFER_LENGTH + VIEW_BUFFER_LENGTH \<le> length (m_data col)"
  using slot_fits [of i n "m_data col" VIEW_BUFFER_LENGTH] by (auto simp: sized_column_def vec0_metadata_chunk_size_def)

lemma read_bit: "i < 8 * length d \<Longrightarrow> blob_read d 1 (i div 8) = Some [d ! (i div 8)]"
  by (simp add: blob_read_def take_Suc hd_drop_conv_nth)

lemma ld32_take4: "4 \<le> length xs \<Longrightarrow> ld32 (take 4 xs) 0 = ld32 xs 0"
  by (simp add: ld32_def)

lemma read_length:
  assumes "i * VIEW_BUFFER_LENGTH + VIEW_BUFFER_LENGTH \<le> length d"
  shows "blob_read d 4 (i * VIEW_BUFFER_LENGTH) = Some (take 4 (slot VIEW_BUFFER_LENGTH i d))"
    "ld32 (take 4 (slot VIEW_BUFFER_LENGTH i d)) 0 = Some (the (ld32 (slot VIEW_BUFFER_LENGTH i d) 0))"
  using assms by (auto simp: blob_read_def slot_def VIEW_BUFFER_LENGTH_def ld32_def)

lemma view_text:
  "length s \<le> VIEW_DATA_LENGTH \<Longrightarrow> take (length s) (drop 4 (text_view s)) = s"
  by (simp add: text_view_def VIEW_DATA_LENGTH_def)

text \<open>What the blob keeps of a row: its bit or its slot.\<close>

definition cell :: "metadata_kind \<Rightarrow> u8 list \<Rightarrow> nat \<Rightarrow> u8 list \<times> bool" where
  "cell kind d i = (case kind of
       KIND_BOOLEAN \<Rightarrow> ([], i \<in> bits_of d)
     | KIND_TEXT \<Rightarrow> (slot VIEW_BUFFER_LENGTH i d, False)
     | _ \<Rightarrow> (slot 8 i d, False))"

lemma read_eq:
  assumes "sized_column kind n col" "sized_column kind n col'" "j < n"
    "cell kind (m_data col') j = cell kind (m_data col) j" "m_long col' r = m_long col r"
  shows "vec0_result_metadata_value_for_rowid kind col' r j = vec0_result_metadata_value_for_rowid kind col r j"
proof (cases kind)
  case KIND_BOOLEAN
  have "j < 8 * length (m_data col)" "j < 8 * length (m_data col')" using sized_boolean assms(1-3) KIND_BOOLEAN by auto
  then show ?thesis using assms(4) KIND_BOOLEAN
    by (simp add: vec0_result_metadata_value_for_rowid_def read_bit bits_of_iff cell_def del: One_nat_def)
next
  case KIND_TEXT
  then have e: "slot VIEW_BUFFER_LENGTH j (m_data col') = slot VIEW_BUFFER_LENGTH j (m_data col)"
    using assms(4) by (simp add: cell_def)
  have "j * VIEW_BUFFER_LENGTH + VIEW_BUFFER_LENGTH \<le> length (m_data col)"
    "j * VIEW_BUFFER_LENGTH + VIEW_BUFFER_LENGTH \<le> length (m_data col')" using sized_text assms(1-3) KIND_TEXT by auto
  then show ?thesis unfolding vec0_result_metadata_value_for_rowid_def KIND_TEXT by (simp add: blob_read_slot e assms(5) cong: if_cong)
qed (use assms sized_word in \<open>simp_all add: vec0_result_metadata_value_for_rowid_def blob_read_slot cell_def\<close>)

text \<open>The value a row reads, with the prefix of a text in its slot.\<close>

definition stored_at :: "metadata_kind \<Rightarrow> meta_column \<Rightarrow> i64 \<Rightarrow> nat \<Rightarrow> datum \<Rightarrow> bool" where
  "stored_at kind col rowid i v \<longleftrightarrow> fits_kind kind v \<and>
     vec0_result_metadata_value_for_rowid kind col rowid i = Done v \<and>
     (\<forall>s. v = DText s \<longrightarrow> slot VIEW_BUFFER_LENGTH i (m_data col) = text_view s)"

text \<open>Only the cell of row \<open>i\<close> and the long text of \<open>rowid\<close> differ.\<close>

definition cell_frame :: "metadata_kind \<Rightarrow> nat \<Rightarrow> meta_column \<Rightarrow> meta_column \<Rightarrow> i64 \<Rightarrow> nat \<Rightarrow> bool" where
  "cell_frame kind n col col' rowid i \<longleftrightarrow> sized_column kind n col' \<and>
     (\<forall>j<n. j \<noteq> i \<longrightarrow> cell kind (m_data col') j = cell kind (m_data col) j) \<and>
     (\<forall>r. r \<noteq> rowid \<longrightarrow> m_long col' r = m_long col r)"

lemma frame_read:
  assumes "cell_frame kind n col col' rowid i" "sized_column kind n col" "r \<noteq> rowid" "j < n" "j \<noteq> i"
  shows "vec0_result_metadata_value_for_rowid kind col' r j = vec0_result_metadata_value_for_rowid kind col r j"
  by (rule read_eq [OF assms(2) _ assms(4)]) (use assms in \<open>simp_all add: cell_frame_def\<close>)

lemma cell_stored:
  assumes "sized_column kind n col" "sized_column kind n col'" "j < n"
    "cell kind (m_data col') j = cell kind (m_data col) j" "m_long col' r = m_long col r"
  shows "stored_at kind col' r j v = stored_at kind col r j v" "slot_ready kind col' r j u = slot_ready kind col r j u"
proof -
  have "kind = KIND_TEXT \<Longrightarrow> slot VIEW_BUFFER_LENGTH j (m_data col') = slot VIEW_BUFFER_LENGTH j (m_data col)"
    using assms(4) by (simp add: cell_def)
  moreover have "fits_kind kind (DText t) \<Longrightarrow> kind = KIND_TEXT" for t by (cases kind) simp_all
  ultimately show "stored_at kind col' r j v = stored_at kind col r j v" "slot_ready kind col' r j u = slot_ready kind col r j u"
    using read_eq [OF assms] assms(5) unfolding stored_at_def slot_ready_def by metis+
qed

lemma frame_stored:
  assumes "cell_frame kind n col col' rowid i" "sized_column kind n col" "r \<noteq> rowid" "j < n" "j \<noteq> i"
  shows "stored_at kind col' r j v = stored_at kind col r j v" "slot_ready kind col' r j u = slot_ready kind col r j u"
  by (rule cell_stored [OF assms(2) _ assms(4)]; use assms in \<open>simp add: cell_frame_def\<close>)+

text \<open>Writing a cell of eight bytes, a bit, and a text.\<close>

lemma put_word:
  assumes "kind = KIND_INTEGER \<or> kind = KIND_FLOAT" "sized_column kind n col" "i < n"
    and "col' = col\<lparr>m_data := put_bytes (m_data col) (i * 8) (i64_bytes x)\<rparr>"
  shows "blob_write (m_data col) (i64_bytes x) (i * 8) = Some (m_data col')" "cell_frame kind n col col' rowid i"
    "stored_at kind col' rowid i (if kind = KIND_INTEGER then DInt x else DFloat x)"
proof -
  have w: "j < n \<Longrightarrow> j * 8 + 8 \<le> length (m_data col)" for j using assms(1,2) sized_word by blast
  show "blob_write (m_data col) (i64_bytes x) (i * 8) = Some (m_data col')"
    using w [OF assms(3)] by (simp add: blob_write_slot assms(4))
  show "cell_frame kind n col col' rowid i"
    using assms w [OF assms(3)] slot_put_other [of i 8 "m_data col" "i64_bytes x"] w
    by (auto simp: cell_frame_def sized_column_def cell_def)
  show "stored_at kind col' rowid i (if kind = KIND_INTEGER then DInt x else DFloat x)"
    using assms(1,4) w [OF assms(3)]
    by (auto simp: stored_at_def vec0_result_metadata_value_for_rowid_def blob_read_slot)
qed

lemma put_boolean:
  assumes "sized_column KIND_BOOLEAN n col" "i < n"
  obtains d where "write_bit (m_data col) i b = Some d" "cell_frame KIND_BOOLEAN n col (col\<lparr>m_data := d\<rparr>) rowid i"
    "stored_at KIND_BOOLEAN (col\<lparr>m_data := d\<rparr>) rowid i (DInt (if b then 1 else 0))"
proof -
  have i: "i < 8 * length (m_data col)" by (rule sized_boolean [OF assms])
  obtain d where d: "bitmap_set (m_data col) i (if b then 1 else 0) = Some d" "length d = length (m_data col)"
    "bits_of d = (if (if b then 1 else 0 :: int) \<noteq> 0 then insert i (bits_of (m_data col)) else bits_of (m_data col) - {i})"
    using bitmap_set_spec [OF i, of "if b then 1 else 0"] .
  let ?col = "col\<lparr>m_data := d\<rparr>"
  have "cell_frame KIND_BOOLEAN n col ?col rowid i"
    using assms(1) d(2,3) by (auto simp: cell_frame_def sized_column_def cell_def)
  moreover have "bit (d ! (i div 8)) (i mod 8) \<longleftrightarrow> b" using d(3) i bits_of_iff [of i d] d(2) by (auto split: if_splits)
  then have "stored_at KIND_BOOLEAN ?col rowid i (DInt (if b then 1 else 0))"
    using i d(2) by (simp add: stored_at_def vec0_result_metadata_value_for_rowid_def read_bit del: One_nat_def)
  ultimately show ?thesis using that [of d] d(1) i by (simp add: write_bit_eq_bitmap_set)
qed

lemma put_view:
  assumes "sized_column KIND_TEXT n col" "i < n" "length view = VIEW_BUFFER_LENGTH" "\<And>r. r \<noteq> rowid \<Longrightarrow> long r = m_long col r"
    and "col' = col\<lparr>m_data := put_bytes (m_data col) (i * VIEW_BUFFER_LENGTH) view, m_long := long\<rparr>"
  shows "blob_write (m_data col) view (i * VIEW_BUFFER_LENGTH) = Some (m_data col')" "cell_frame KIND_TEXT n col col' rowid i"
    "slot VIEW_BUFFER_LENGTH i (m_data col') = view"
proof -
  have w: "j < n \<Longrightarrow> j * VIEW_BUFFER_LENGTH + VIEW_BUFFER_LENGTH \<le> length (m_data col)" for j
    by (rule sized_text [OF assms(1)])
  show "blob_write (m_data col) view (i * VIEW_BUFFER_LENGTH) = Some (m_data col')"
    using w [OF assms(2)] assms(3,5) by (simp add: blob_write_slot)
  show "slot VIEW_BUFFER_LENGTH i (m_data col') = view" using w [OF assms(2)] assms(3,5) by simp
  show "cell_frame KIND_TEXT n col col' rowid i"
    using assms w [OF assms(2)] slot_put_other [of i VIEW_BUFFER_LENGTH "m_data col" view] w
    by (auto simp: cell_frame_def sized_column_def cell_def)
qed

lemma faithful_values:
  assumes "faithful c"
  shows "value_int c (DInt 0) = 0" "value_int c (DInt 1) = 1" "value_int64 c (DInt x) = x"
    "value_double c (DFloat y) = y" "value_text c (DText s) = s" "value_int64 c DNull = 0" "value_text c DNull = []"
  using assms unfolding faithful_def by simp_all

lemma read_text_slot:
  assumes "sized_column KIND_TEXT n col" "i < n" "slot VIEW_BUFFER_LENGTH i (m_data col) = text_view s"
    "length s < 2147483648" "VIEW_DATA_LENGTH < length s \<Longrightarrow> m_long col rowid = Some s"
  shows "vec0_result_metadata_value_for_rowid KIND_TEXT col rowid i = Done (DText s)"
  using assms(5) view_text [of s] blob_read_slot [OF sized_text [OF assms(1,2)]]
  by (simp add: vec0_result_metadata_value_for_rowid_def assms(3) ld32_text_view sint_text_length [OF assms(4)] nat_int)

lemma write_text_correct:
  assumes "sized_column KIND_TEXT n col" "i < n" "slot_ready KIND_TEXT col rowid i isupdate" "length s < 2147483648"
  obtains col' where "write_text col rowid i s isupdate = Done col'" "cell_frame KIND_TEXT n col col' rowid i"
    "stored_at KIND_TEXT col' rowid i (DText s)" "slot_ready KIND_TEXT col' rowid i True"
proof -
  define long where "long = (if VIEW_DATA_LENGTH < length s then (m_long col)(rowid \<mapsto> s) else (m_long col)(rowid := None))"
  define col' where "col' = col\<lparr>m_data := put_bytes (m_data col) (i * VIEW_BUFFER_LENGTH) (text_view s), m_long := long\<rparr>"
  have long: "r \<noteq> rowid \<Longrightarrow> long r = m_long col r" for r by (simp add: long_def)
  note v = put_view [OF assms(1,2) length_text_view long col'_def]
  have o: "blob_overwrite (m_data col) (text_view s) (i * VIEW_BUFFER_LENGTH) = m_data col'"
    using v(1) by (simp add: blob_overwrite_def)
  have "sized_column KIND_TEXT n col'" using v(2) by (simp add: cell_frame_def)
  note sized = this
  have long_text: "VIEW_DATA_LENGTH < length s \<Longrightarrow> m_long col' rowid = Some s" by (simp add: col'_def long_def)
  have "vec0_result_metadata_value_for_rowid KIND_TEXT col' rowid i = Done (DText s)"
    by (rule read_text_slot [OF sized assms(2) v(3) assms(4) long_text])
  then have "stored_at KIND_TEXT col' rowid i (DText s)" using v(3) assms(4) by (simp add: stored_at_def)
  moreover have "slot_ready KIND_TEXT col' rowid i True"
    by (simp add: slot_ready_def v(3) ld32_text_view sint_text_length [OF assms(4)])
      (simp add: col'_def long_def VIEW_DATA_LENGTH_def)
  moreover have "write_text col rowid i s isupdate = Done col'"
    using assms(3)
    by (auto simp: write_text_def read_length [OF sized_text [OF assms(1,2)]] o Let_def col'_def long_def slot_ready_def
        VIEW_DATA_LENGTH_def fun_upd_idem)
  ultimately show ?thesis using that v(2) by blast
qed

lemma write_cell:
  assumes "faithful c" "sized_column kind n col" "i < n" "slot_ready kind col rowid i isupdate" "fits_kind kind v"
  obtains col' where "vec0_write_metadata_value c kind name col rowid i v isupdate = Done col'"
    "cell_frame kind n col col' rowid i" "stored_at kind col' rowid i v" "slot_ready kind col' rowid i True"
proof (cases kind)
  case KIND_BOOLEAN
  obtain x where v: "v = DInt x" "x = 0 \<or> x = 1" using assms(5) KIND_BOOLEAN fits_kindE(1) by blast
  define b where "b = (x = 1)"
  have x: "v = DInt (if b then 1 else 0)" using v by (auto simp: b_def)
  have e: "value_int c v = (if b then 1 else 0)" unfolding x using faithful_values(1,2) [OF assms(1)] by simp
  have t: "metadata_type_error c kind name v = None" using KIND_BOOLEAN e x by (simp add: metadata_type_error_def)
  obtain d where d: "write_bit (m_data col) i b = Some d" "cell_frame KIND_BOOLEAN n col (col\<lparr>m_data := d\<rparr>) rowid i"
    "stored_at KIND_BOOLEAN (col\<lparr>m_data := d\<rparr>) rowid i v"
    unfolding x by (rule put_boolean [of n col i b rowid]) (use assms(2,3) KIND_BOOLEAN in simp_all)
  have "(value_int c v \<noteq> 0) = b" using e by simp
  then have "vec0_write_metadata_value c kind name col rowid i v isupdate = Done (col\<lparr>m_data := d\<rparr>)"
    unfolding vec0_write_metadata_value_def t using d(1) KIND_BOOLEAN by simp
  then show ?thesis using that d(2,3) KIND_BOOLEAN by (simp add: slot_ready_def)
next
  case KIND_INTEGER
  obtain x where v: "v = DInt x" using assms(5) KIND_INTEGER fits_kindE(2) by blast
  have k: "kind = KIND_INTEGER \<or> kind = KIND_FLOAT" using KIND_INTEGER by simp
  note w = put_word [OF k assms(2,3) refl, of x]
  show ?thesis by (rule that [OF _ w(2)])
    (use w(1) w(3) [of rowid] assms(1) KIND_INTEGER v in \<open>simp_all add: vec0_write_metadata_value_def metadata_type_error_def
      faithful_values [OF assms(1)] blob_overwrite_def slot_ready_def\<close>)
next
  case KIND_FLOAT
  obtain x where v: "v = DFloat x" using assms(5) KIND_FLOAT fits_kindE(3) by blast
  have k: "kind = KIND_INTEGER \<or> kind = KIND_FLOAT" using KIND_FLOAT by simp
  note w = put_word [OF k assms(2,3) refl, of x]
  show ?thesis by (rule that [OF _ w(2)])
    (use w(1) w(3) [of rowid] assms(1) KIND_FLOAT v in \<open>simp_all add: vec0_write_metadata_value_def metadata_type_error_def
      faithful_values [OF assms(1)] blob_overwrite_def slot_ready_def\<close>)
next
  case KIND_TEXT
  obtain s where v: "v = DText s" "length s < 2147483648" using assms(5) KIND_TEXT fits_kindE(4) by blast
  obtain col' where "write_text col rowid i s isupdate = Done col'" "cell_frame KIND_TEXT n col col' rowid i"
    "stored_at KIND_TEXT col' rowid i (DText s)" "slot_ready KIND_TEXT col' rowid i True"
    using write_text_correct [of n col i rowid isupdate s] assms(2-4) KIND_TEXT v(2) by metis
  then show ?thesis using that [of col'] assms(1) KIND_TEXT v
    by (simp add: vec0_write_metadata_value_def metadata_type_error_def faithful_values [OF assms(1)])
qed

definition metadata_read_back :: "metadata_kind \<Rightarrow> nat \<Rightarrow> meta_column \<Rightarrow> meta_column \<Rightarrow> i64 \<Rightarrow> nat \<Rightarrow> datum \<Rightarrow> bool" where
  "metadata_read_back kind n col col' rowid i v \<longleftrightarrow>
     sized_column kind n col' \<and>
     vec0_result_metadata_value_for_rowid kind col' rowid i = Done v \<and>
     (\<forall>r j. r \<noteq> rowid \<longrightarrow> j < n \<longrightarrow> j \<noteq> i \<longrightarrow>
        vec0_result_metadata_value_for_rowid kind col' r j = vec0_result_metadata_value_for_rowid kind col r j)"

text \<open>
  C26: A value of the type of a metadata column that is written to a row of a chunk is the value the
  row reads afterwards, whether the text is kept in the slot or in the data table, and every other
  row of the chunk reads what it did.
\<close>
theorem metadata_write_read:
  assumes "faithful c" "sized_column kind n col" "i < n" "slot_ready kind col rowid i isupdate" "fits_kind kind v"
  shows "\<exists>col'. vec0_write_metadata_value c kind name col rowid i v isupdate = Done col' \<and>
    metadata_read_back kind n col col' rowid i v"
proof -
  obtain col' where w: "vec0_write_metadata_value c kind name col rowid i v isupdate = Done col'"
    "cell_frame kind n col col' rowid i" "stored_at kind col' rowid i v" by (rule write_cell [OF assms])
  then show ?thesis using frame_read [OF w(2) assms(2)] by (auto simp: metadata_read_back_def stored_at_def cell_frame_def)
qed

text \<open>The conversions as SQLite makes them between numbers and texts that need no parsing.\<close>

definition plain_conversions :: conversions where
  "plain_conversions = \<lparr>value_int = (\<lambda>v. case v of DInt x \<Rightarrow> sint (ucast x :: u32) | _ \<Rightarrow> 0),
     value_int64 = (\<lambda>v. case v of DInt x \<Rightarrow> x | _ \<Rightarrow> 0),
     value_double = (\<lambda>v. case v of DFloat x \<Rightarrow> x | DInt x \<Rightarrow> f64_of_int (sint x) | _ \<Rightarrow> 0),
     value_text = (\<lambda>v. case v of DText s \<Rightarrow> s | DBlob s \<Rightarrow> s | _ \<Rightarrow> [])\<rparr>"

lemma faithful_plain: "faithful plain_conversions"
  by (simp add: faithful_def plain_conversions_def)

text \<open>The column of a new chunk: zeros.\<close>

definition blank_column :: "metadata_kind \<Rightarrow> nat \<Rightarrow> meta_column" where
  "blank_column kind n = \<lparr>m_data = replicate (vec0_metadata_chunk_size kind n) 0, m_long = Map.empty\<rparr>"

lemma sized_blank: "n mod 8 = 0 \<Longrightarrow> sized_column kind n (blank_column kind n)"
  by (simp add: sized_column_def blank_column_def)

lemma ld32_zeros: "4 \<le> k \<Longrightarrow> ld32 (replicate k 0) 0 = Some 0"
  by (simp add: ld32_def word_of_bytes_def)

lemma ready_blank: "i < n \<Longrightarrow> slot_ready kind (blank_column kind n) rowid i isupdate"
  using slot_fits [of i n "m_data (blank_column KIND_TEXT n)" VIEW_BUFFER_LENGTH]
  by (simp add: slot_ready_def blank_column_def slot_def ld32_zeros VIEW_BUFFER_LENGTH_def vec0_metadata_chunk_size_def min_def word_of_bytes_def)

theorem metadata_write_read_witness:
  "\<exists>col'. vec0_write_metadata_value plain_conversions KIND_TEXT ''t'' (blank_column KIND_TEXT 8) 7 3
      (DText (lit ''thirteen byte'')) False = Done col' \<and>
    metadata_read_back KIND_TEXT 8 (blank_column KIND_TEXT 8) col' 7 3 (DText (lit ''thirteen byte''))"
  by (rule metadata_write_read) (simp_all add: faithful_plain sized_blank ready_blank)

lemma clear_cell:
  assumes "sized_column kind n col" "i < n" "slot_ready kind col rowid i True"
  obtains col' where "vec0Update_Delete_ClearMetadata kind col rowid i =
      (col', if kind = KIND_TEXT \<and> m_long col rowid \<noteq> None then SQLITE_DONE else SQLITE_OK)"
    "cell_frame kind n col col' rowid i"
    "kind = KIND_TEXT \<longrightarrow> m_long col' rowid = None \<and> cell KIND_TEXT (m_data col') i = (replicate VIEW_BUFFER_LENGTH 0, False)"
proof (cases kind)
  case KIND_BOOLEAN
  obtain d where "write_bit (m_data col) i False = Some d" "cell_frame KIND_BOOLEAN n col (col\<lparr>m_data := d\<rparr>) rowid i"
    by (rule put_boolean [of n col i False rowid]) (use assms KIND_BOOLEAN in simp_all)
  then show ?thesis using that KIND_BOOLEAN by (simp add: vec0Update_Delete_ClearMetadata_def clear_bytes_def)
next
  case KIND_INTEGER
  then have k: "kind = KIND_INTEGER \<or> kind = KIND_FLOAT" by simp
  note w = put_word [OF k assms(1,2) refl, of 0]
  show ?thesis by (rule that [OF _ w(2)]) (use w(1) KIND_INTEGER in \<open>simp_all add: vec0Update_Delete_ClearMetadata_def clear_bytes_def\<close>)
next
  case KIND_FLOAT
  then have k: "kind = KIND_INTEGER \<or> kind = KIND_FLOAT" by simp
  note w = put_word [OF k assms(1,2) refl, of 0]
  show ?thesis by (rule that [OF _ w(2)]) (use w(1) KIND_FLOAT in \<open>simp_all add: vec0Update_Delete_ClearMetadata_def clear_bytes_def\<close>)
next
  case KIND_TEXT
  define w where "w = the (ld32 (slot VIEW_BUFFER_LENGTH i (m_data col)) 0)"
  define long where "long \<longleftrightarrow> int VIEW_DATA_LENGTH < sint w"
  have long: "m_long col rowid \<noteq> None \<longleftrightarrow> long"
    using assms(3) KIND_TEXT by (simp add: slot_ready_def long_def w_def VIEW_DATA_LENGTH_def)
  define col' where "col' = col\<lparr>m_data := put_bytes (m_data col) (i * VIEW_BUFFER_LENGTH) (replicate VIEW_BUFFER_LENGTH 0),
    m_long := (m_long col)(rowid := None)\<rparr>"
  have "\<And>r. r \<noteq> rowid \<Longrightarrow> ((m_long col)(rowid := None)) r = m_long col r" by simp
  note v = put_view [OF assms(1)[unfolded KIND_TEXT] assms(2) length_replicate this col'_def]
  have "vec0Update_Delete_ClearMetadata kind col rowid i = (col', if long then SQLITE_DONE else SQLITE_OK)"
    using v(1) long read_length [OF sized_text [OF assms(1)[unfolded KIND_TEXT] assms(2)]]
    by (auto simp: vec0Update_Delete_ClearMetadata_def KIND_TEXT col'_def fun_upd_idem simp flip: w_def long_def)
  then show ?thesis using that v(2) long KIND_TEXT sized_text [OF assms(1)[unfolded KIND_TEXT] assms(2)] by (simp add: col'_def cell_def)
qed



end
