(* ===== verification/VecFilter.thy ===== *)
theory VecFilter
  imports VecMeta MuslString
begin

text \<open>
  The metadata filters of a nearest neighbour query in \<^verbatim>\<open>extensions/sqlite-vec/cc/sqlite-vec.c\<close>
  (\<^verbatim>\<open>vec0_metadata_filter_text\<close>, \<^verbatim>\<open>vec0_set_metadata_filter_bitmap\<close>): the bitmap of the rows of a
  chunk whose value satisfies a constraint. \<open>None\<close> is a read out of bounds, \<open>Done (Fail \<dots>)\<close> an error
  code.
\<close>

section \<open>Comparing texts\<close>

datatype metadata_operator = OP_EQ | OP_GT | OP_LE | OP_LT | OP_GE | OP_NE | OP_IN

text \<open>\<open>strncmp\<close> on the bytes that follow its two pointers.\<close>

fun strncmp_bytes :: "u8 list \<Rightarrow> u8 list \<Rightarrow> nat \<Rightarrow> int option" where
  "strncmp_bytes l r 0 = Some 0"
| "strncmp_bytes (a # l) (b # r) (Suc n) =
     (if a \<noteq> 0 \<and> b \<noteq> 0 \<and> n \<noteq> 0 \<and> a = b then strncmp_bytes l r n else Some (uint a - uint b))"
| "strncmp_bytes l r (Suc n) = None"

text \<open>The conversion of an \<open>int\<close> to a \<open>size_t\<close>.\<close>

definition size_of_int :: "int \<Rightarrow> nat" where
  "size_of_int x = nat (x mod 4294967296)"

definition vec0_get_metadata_text_long_value :: "(i64 \<rightharpoonup> u8 list) \<Rightarrow> i64 \<Rightarrow> u8 list outcome" where
  "vec0_get_metadata_text_long_value long rowid = or_fail (long rowid) Done"

text \<open>The rows of a chunk as the text filter sees them: the views, the row ids, the long texts.\<close>

record text_rows =
  tr_buffer :: "u8 list"
  tr_rowids :: "i64 list"
  tr_long :: "i64 \<rightharpoonup> u8 list"

definition view_at :: "text_rows \<Rightarrow> nat \<Rightarrow> (int \<times> u8 list) option" where
  "view_at t i = do {
     n \<leftarrow> ld32 (tr_buffer t) (i * VIEW_BUFFER_LENGTH);
     Some (sint n, drop (i * VIEW_BUFFER_LENGTH + 4) (tr_buffer t)) }"

text \<open>The comparison of the whole of a long text, and the value of the bit it gives.\<close>

definition long_compare :: "text_rows \<Rightarrow> nat \<Rightarrow> int \<Rightarrow> u8 list \<Rightarrow> (int \<Rightarrow> bool) \<Rightarrow> bool outcome option" where
  "long_compare t i nPrefix sTarget verdict = do {
     rowid \<leftarrow> rd (tr_rowids t) i;
     (case vec0_get_metadata_text_long_value (tr_long t) rowid of
        Fail e \<Rightarrow> Some (Fail e)
      | Done s \<Rightarrow>
          if nPrefix \<noteq> int (length s) then Some (Fail None)
          else do { c \<leftarrow> strncmp_bytes (s @ [0]) sTarget (length s); Some (Done (verdict c)) }) }"

text \<open>The target is what \<open>sqlite3_value_text\<close> points to and its number of bytes.\<close>

type_synonym text_target = "u8 list \<times> int"

definition text_eq :: "text_rows \<Rightarrow> text_target \<Rightarrow> nat \<Rightarrow> bool outcome option" where
  "text_eq t target i = (case target of (sTarget, nTarget) \<Rightarrow> do {
     (nPrefix, sPrefix) \<leftarrow> view_at t i;
     if nPrefix \<noteq> nTarget then Some (Done False)
     else do {
       cmpPrefix \<leftarrow> strncmp_bytes sPrefix sTarget (size_of_int (min nPrefix (int VIEW_DATA_LENGTH)));
       if nPrefix \<le> int VIEW_DATA_LENGTH then Some (Done (cmpPrefix = 0))
       else if cmpPrefix \<noteq> 0 then Some (Done False)
       else long_compare t i nPrefix sTarget (\<lambda>c. c = 0) } })"

definition text_ne :: "text_rows \<Rightarrow> text_target \<Rightarrow> nat \<Rightarrow> bool outcome option" where
  "text_ne t target i = (case target of (sTarget, nTarget) \<Rightarrow> do {
     (nPrefix, sPrefix) \<leftarrow> view_at t i;
     if nPrefix \<noteq> nTarget then Some (Done True)
     else do {
       cmpPrefix \<leftarrow> strncmp_bytes sPrefix sTarget (size_of_int (min nPrefix (int VIEW_DATA_LENGTH)));
       if nPrefix \<le> int VIEW_DATA_LENGTH then Some (Done (cmpPrefix \<noteq> 0))
       else if cmpPrefix \<noteq> 0 then Some (Done True)
       else long_compare t i nPrefix sTarget (\<lambda>c. c \<noteq> 0) } })"

text \<open>The four ordered operators differ in the relation they test.\<close>

definition text_ordered :: "(int \<Rightarrow> int \<Rightarrow> bool) \<Rightarrow> text_rows \<Rightarrow> text_target \<Rightarrow> nat \<Rightarrow> bool outcome option" where
  "text_ordered R t target i = (case target of (sTarget, nTarget) \<Rightarrow> do {
     (nPrefix, sPrefix) \<leftarrow> view_at t i;
     cmpPrefix \<leftarrow> strncmp_bytes sPrefix sTarget (size_of_int (min (min nPrefix (int VIEW_DATA_LENGTH)) nTarget));
     if nPrefix < int VIEW_DATA_LENGTH then
       Some (Done (if cmpPrefix = 0 then R nPrefix nTarget else R cmpPrefix 0))
     else long_compare t i nPrefix sTarget (\<lambda>c. R c 0) })"

definition text_gt :: "text_rows \<Rightarrow> text_target \<Rightarrow> nat \<Rightarrow> bool outcome option" where "text_gt = text_ordered (>)"
definition text_ge :: "text_rows \<Rightarrow> text_target \<Rightarrow> nat \<Rightarrow> bool outcome option" where "text_ge = text_ordered (\<ge>)"
definition text_le :: "text_rows \<Rightarrow> text_target \<Rightarrow> nat \<Rightarrow> bool outcome option" where "text_le = text_ordered (\<le>)"
definition text_lt :: "text_rows \<Rightarrow> text_target \<Rightarrow> nat \<Rightarrow> bool outcome option" where "text_lt = text_ordered (<)"

text \<open>The search of a row's text among the entries of \<open>in (\<dots>)\<close>, each a string and its length.\<close>

fun text_in_entries :: "text_rows \<Rightarrow> nat \<Rightarrow> int \<Rightarrow> u8 list \<Rightarrow> (int \<times> u8 list) list \<Rightarrow> bool outcome option" where
  "text_in_entries t i nPrefix sPrefix [] = Some (Done False)"
| "text_in_entries t i nPrefix sPrefix ((n, zString) # entries) =
     (if n \<noteq> nPrefix then text_in_entries t i nPrefix sPrefix entries
      else do {
        cmpPrefix \<leftarrow> strncmp_bytes sPrefix zString (size_of_int (min nPrefix (int VIEW_DATA_LENGTH)));
        if nPrefix \<le> int VIEW_DATA_LENGTH then
          (if cmpPrefix = 0 then Some (Done True) else text_in_entries t i nPrefix sPrefix entries)
        else if cmpPrefix \<noteq> 0 then text_in_entries t i nPrefix sPrefix entries
        else do {
          r \<leftarrow> long_compare t i nPrefix zString (\<lambda>c. c = 0);
          (case r of
             Fail e \<Rightarrow> Some (Fail e)
           | Done True \<Rightarrow> Some (Done True)
           | Done False \<Rightarrow> text_in_entries t i nPrefix sPrefix entries) } })"

definition text_in :: "text_rows \<Rightarrow> (int \<times> u8 list) list \<Rightarrow> nat \<Rightarrow> bool outcome option" where
  "text_in t entries i = do { (nPrefix, sPrefix) \<leftarrow> view_at t i; text_in_entries t i nPrefix sPrefix entries }"

section \<open>Bitmaps of rows\<close>

text \<open>A loop over the rows of a chunk that ends at the first error.\<close>

function for_rows :: "(nat \<Rightarrow> u8 list \<Rightarrow> u8 list outcome option) \<Rightarrow> nat \<Rightarrow> nat \<Rightarrow> u8 list \<Rightarrow> u8 list outcome option" where
  "for_rows f i n b =
     (if i < n then do {
        r \<leftarrow> f i b;
        (case r of Fail e \<Rightarrow> Some (Fail e) | Done b \<Rightarrow> for_rows f (i + 1) n b) }
      else Some (Done b))"
  by pat_completeness auto
termination by (relation "measure (\<lambda>(f, i, n, b). n - i)") auto

declare for_rows.simps [simp del]

text \<open>The bit is set to the result of the test, or only when the test succeeds.\<close>

definition assign_bit :: "(nat \<Rightarrow> bool outcome option) \<Rightarrow> nat \<Rightarrow> u8 list \<Rightarrow> u8 list outcome option" where
  "assign_bit test i b = do {
     r \<leftarrow> test i;
     (case r of Fail e \<Rightarrow> Some (Fail e) | Done v \<Rightarrow> map_option Done (bitmap_set b i (if v then 1 else 0))) }"

definition raise_bit :: "(nat \<Rightarrow> bool outcome option) \<Rightarrow> nat \<Rightarrow> u8 list \<Rightarrow> u8 list outcome option" where
  "raise_bit test i b = do {
     r \<leftarrow> test i;
     (case r of Fail e \<Rightarrow> Some (Fail e) | Done v \<Rightarrow> if v then map_option Done (bitmap_set b i 1) else Some (Done b)) }"

text \<open>The values of the \<open>in (\<dots>)\<close> constraints of a query.\<close>

datatype in_array = In_Ints "i64 list" | In_Texts "(int \<times> u8 list) list"

record metadata_in =
  mi_argv_idx :: nat
  mi_metadata_idx :: nat
  mi_array :: in_array

definition in_constraint :: "metadata_in list \<Rightarrow> nat \<Rightarrow> in_array option" where
  "in_constraint ins argv_idx = map_option mi_array (find (\<lambda>m. mi_argv_idx m = argv_idx) ins)"


section \<open>The filters\<close>

definition vec0_metadata_filter_text ::
  "text_rows \<Rightarrow> nat \<Rightarrow> metadata_operator \<Rightarrow> text_target \<Rightarrow> metadata_in list \<Rightarrow> nat \<Rightarrow> u8 list \<Rightarrow> u8 list outcome option" where
  "vec0_metadata_filter_text t n p target ins argv_idx b = (case p of
       OP_EQ \<Rightarrow> for_rows (assign_bit (text_eq t target)) 0 n b
     | OP_NE \<Rightarrow> for_rows (assign_bit (text_ne t target)) 0 n b
     | OP_GT \<Rightarrow> for_rows (assign_bit (text_gt t target)) 0 n b
     | OP_GE \<Rightarrow> for_rows (assign_bit (text_ge t target)) 0 n b
     | OP_LE \<Rightarrow> for_rows (assign_bit (text_le t target)) 0 n b
     | OP_LT \<Rightarrow> for_rows (assign_bit (text_lt t target)) 0 n b
     | OP_IN \<Rightarrow> (case in_constraint ins argv_idx of
           Some (In_Texts entries) \<Rightarrow> for_rows (raise_bit (text_in t entries)) 0 n b
         | _ \<Rightarrow> None))"

definition boolean_test :: "metadata_operator \<Rightarrow> int \<Rightarrow> u8 list \<Rightarrow> nat \<Rightarrow> bool outcome option" where
  "boolean_test p target buffer i = map_option (\<lambda>v. Done
     (if (target \<noteq> 0 \<and> p = OP_EQ) \<or> (target = 0 \<and> p = OP_NE) then v \<noteq> 0 else v = 0)) (bitmap_get buffer i)"

definition integer_test :: "metadata_operator \<Rightarrow> i64 \<Rightarrow> u8 list \<Rightarrow> nat \<Rightarrow> bool outcome option" where
  "integer_test p target buffer i = map_option (\<lambda>x. Done (case p of
       OP_EQ \<Rightarrow> x = target | OP_GT \<Rightarrow> target <s x | OP_LE \<Rightarrow> x \<le>s target | OP_LT \<Rightarrow> x <s target
     | OP_GE \<Rightarrow> target \<le>s x | OP_NE \<Rightarrow> x \<noteq> target | OP_IN \<Rightarrow> False)) (u64_at buffer i)"

definition integer_in :: "i64 list \<Rightarrow> u8 list \<Rightarrow> nat \<Rightarrow> bool outcome option" where
  "integer_in values buffer i = map_option (\<lambda>x. Done (x \<in> set values)) (u64_at buffer i)"

definition f64_le :: "f64 \<Rightarrow> f64 \<Rightarrow> bool" where
  "f64_le x y \<longleftrightarrow> f64_less x y \<or> f64_eq x y"

definition float_test :: "metadata_operator \<Rightarrow> f64 \<Rightarrow> u8 list \<Rightarrow> nat \<Rightarrow> bool outcome option" where
  "float_test p target buffer i = map_option (\<lambda>x. Done (case p of
       OP_EQ \<Rightarrow> f64_eq x target | OP_GT \<Rightarrow> f64_less target x | OP_LE \<Rightarrow> f64_le x target | OP_LT \<Rightarrow> f64_less x target
     | OP_GE \<Rightarrow> f64_le target x | OP_NE \<Rightarrow> \<not> f64_eq x target | OP_IN \<Rightarrow> False)) (u64_at buffer i)"

text \<open>\<open>sqlite3_value_text\<close> returns a null pointer for \<open>NULL\<close>, and a terminated string otherwise.\<close>

definition text_target :: "conversions \<Rightarrow> datum \<Rightarrow> text_target" where
  "text_target c v = (if v = DNull then ([], 0) else (value_text c v @ [0], int (length (value_text c v))))"

definition vec0_set_metadata_filter_bitmap ::
  "conversions \<Rightarrow> metadata_kind \<Rightarrow> meta_column \<Rightarrow> i64 list \<Rightarrow> metadata_operator \<Rightarrow> datum \<Rightarrow> u8 list \<Rightarrow> nat \<Rightarrow>
     metadata_in list \<Rightarrow> nat \<Rightarrow> u8 list outcome option" where
  "vec0_set_metadata_filter_bitmap c kind col rowids p v b n ins argv_idx =
     (if length (m_data col) \<noteq> vec0_metadata_chunk_size kind n then Some (Fail None)
      else (case kind of
         KIND_BOOLEAN \<Rightarrow> for_rows (assign_bit (boolean_test p (value_int c v) (m_data col))) 0 n b
       | KIND_INTEGER \<Rightarrow> (case p of
             OP_IN \<Rightarrow> (case in_constraint ins argv_idx of
                 None \<Rightarrow> Some (Fail None)
               | Some (In_Ints values) \<Rightarrow> for_rows (raise_bit (integer_in values (m_data col))) 0 n b
               | Some (In_Texts _) \<Rightarrow> None)
           | _ \<Rightarrow> for_rows (assign_bit (integer_test p (value_int64 c v) (m_data col))) 0 n b)
       | KIND_FLOAT \<Rightarrow> (case p of
             OP_IN \<Rightarrow> Some (Done b)
           | _ \<Rightarrow> for_rows (assign_bit (float_test p (value_double c v) (m_data col))) 0 n b)
       | KIND_TEXT \<Rightarrow>
           vec0_metadata_filter_text \<lparr>tr_buffer = m_data col, tr_rowids = rowids, tr_long = m_long col\<rparr> n p
             (text_target c v) ins argv_idx b))"

section \<open>Comparing texts: correctness\<close>

text \<open>On the same memory the function is that of the C library.\<close>

lemma strncmp_loop_bytes: "strncmp_loop m l r n = strncmp_bytes (drop l m) (drop r m) (Suc n)"
proof (induction m l r n rule: strncmp_loop.induct)
  case (1 m l r n)
  note u = strncmp_loop.simps [of m l r n]
  show ?case
  proof (cases "l < length m \<and> r < length m")
    case True
    then have d: "drop l m = m ! l # drop (l + 1) m" "drop r m = m ! r # drop (r + 1) m"
      by (simp_all add: Cons_nth_drop_Suc)
    show ?thesis
    proof (cases n)
      case 0
      then show ?thesis using True d u by simp
    next
      case (Suc k)
      then show ?thesis unfolding u d using 1 True by simp
    qed
  next
    case False
    then show ?thesis unfolding u by (cases "drop l m"; cases "drop r m") (auto simp: ld8_def)
  qed
qed

lemma strncmp_eq_bytes: "strncmp m l r n = strncmp_bytes (drop l m) (drop r m) n"
  by (cases n) (simp_all add: strncmp_def strncmp_loop_bytes)

lemma strncmp_bytes_spec:
  assumes "0 \<notin> set a" "0 \<notin> set b" "n \<le> length a"
  shows "\<exists>d. strncmp_bytes (a @ x) (b @ 0 # y) n = Some d \<and>
    (d = 0 \<longleftrightarrow> take n a = take n b) \<and> (d < 0 \<longleftrightarrow> take n a < take n b)"
  using assms
proof (induction n arbitrary: a b)
  case (Suc n)
  then obtain h a' where a: "a = h # a'" "h \<noteq> 0" by (cases a) auto
  show ?case
  proof (cases b)
    case Nil
    have "0 < uint h" using a(2) by (simp add: word_neq_0_conv word_less_def)
    then show ?thesis unfolding a Nil by auto
  next
    case (Cons k b')
    then have k: "k \<noteq> 0" using Suc.prems(2) by auto
    show ?thesis
    proof (cases "h = k")
      case True
      then show ?thesis using Suc.IH [of a' b'] Suc.prems a(1) Cons k by (cases "n = 0") (auto)
    next
      case False
      then show ?thesis unfolding a(1) Cons using k a(2)
        by (auto simp: word_less_def word_uint_eq_iff)
    qed
  qed
qed simp


section \<open>What a row holds\<close>

lemma stored_text:
  assumes "sized_column KIND_TEXT n col" "i < n" "stored_at KIND_TEXT col rowid i (DText s)"
  shows "length s < 2147483648" "slot VIEW_BUFFER_LENGTH i (m_data col) = text_view s"
    "VIEW_DATA_LENGTH < length s \<Longrightarrow> m_long col rowid = Some s"
proof -
  show s: "length s < 2147483648" and v: "slot VIEW_BUFFER_LENGTH i (m_data col) = text_view s"
    using assms(3) by (simp_all add: stored_at_def)
  show "m_long col rowid = Some s" if "VIEW_DATA_LENGTH < length s"
    using assms(3) blob_read_slot [OF sized_text [OF assms(1,2)]] that
    by (cases "m_long col rowid") (simp_all add: stored_at_def v vec0_result_metadata_value_for_rowid_def ld32_text_view sint_text_length [OF s])
qed

lemma stored_word:
  assumes "sized_column kind n col" "i < n" "stored_at kind col rowid i v" "kind = KIND_INTEGER \<or> kind = KIND_FLOAT"
  obtains x where "v = (if kind = KIND_INTEGER then DInt x else DFloat x)" "u64_at (m_data col) i = Some x"
proof -
  have w: "i * 8 + 8 \<le> length (m_data col)" using sized_word assms by blast
  have u: "u64_at (slot 8 i (m_data col)) 0 = u64_at (m_data col) i"
    using w by (simp add: u64_at_def slot_def ld32_def add.commute mult.commute)
  then show ?thesis using assms(3,4) w that
    by (auto simp: stored_at_def vec0_result_metadata_value_for_rowid_def blob_read_slot or_fail_def split: option.splits)
qed

lemma stored_boolean:
  assumes "sized_column KIND_BOOLEAN n col" "i < n" "stored_at KIND_BOOLEAN col rowid i v"
  shows "v = DInt (if i \<in> bits_of (m_data col) then 1 else 0)" "i < 8 * length (m_data col)"
proof -
  show i: "i < 8 * length (m_data col)" by (rule sized_boolean [OF assms(1,2)])
  show "v = DInt (if i \<in> bits_of (m_data col) then 1 else 0)"
    using assms(3) i by (auto simp: stored_at_def vec0_result_metadata_value_for_rowid_def read_bit bits_of_iff simp del: One_nat_def split: if_splits)
qed

section \<open>Filters: correctness\<close>

text \<open>The relation a constraint states between the value of a row and the target.\<close>

fun relates :: "metadata_operator \<Rightarrow> datum \<Rightarrow> datum \<Rightarrow> bool" where
  "relates p (DInt x) (DInt y) = (case p of
       OP_EQ \<Rightarrow> sint x = sint y | OP_NE \<Rightarrow> sint x \<noteq> sint y | OP_GT \<Rightarrow> sint x > sint y | OP_GE \<Rightarrow> sint x \<ge> sint y
     | OP_LT \<Rightarrow> sint x < sint y | OP_LE \<Rightarrow> sint x \<le> sint y | OP_IN \<Rightarrow> False)"
| "relates p (DFloat x) (DFloat y) = (case p of
       OP_EQ \<Rightarrow> f64_eq x y | OP_NE \<Rightarrow> \<not> f64_eq x y | OP_GT \<Rightarrow> f64_less y x | OP_GE \<Rightarrow> f64_less y x \<or> f64_eq y x
     | OP_LT \<Rightarrow> f64_less x y | OP_LE \<Rightarrow> f64_less x y \<or> f64_eq x y | OP_IN \<Rightarrow> False)"
| "relates p (DText s) (DText t) = (case p of
       OP_EQ \<Rightarrow> s = t | OP_NE \<Rightarrow> s \<noteq> t | OP_GT \<Rightarrow> s > t | OP_GE \<Rightarrow> s \<ge> t | OP_LT \<Rightarrow> s < t | OP_LE \<Rightarrow> s \<le> t | OP_IN \<Rightarrow> False)"
| "relates p _ _ = False"

text \<open>
  The pairs of texts the ordered filters decide: they look up a text of exactly twelve bytes in the
  data table, where it is not, and take a long text to be equal to every longer one it is a prefix
  of.
\<close>

fun decided :: "metadata_operator \<Rightarrow> datum \<Rightarrow> datum \<Rightarrow> bool" where
  "decided p (DText s) (DText t) \<longleftrightarrow> 0 \<notin> set s \<and> 0 \<notin> set t \<and>
     (p \<in> {OP_EQ, OP_NE} \<or> length s < 12 \<or> (length s \<noteq> 12 \<and> (p \<in> {OP_GT, OP_LE} \<or> take (length s) t \<noteq> s \<or> s = t)))"
| "decided p _ _ \<longleftrightarrow> True"

lemma for_rows_members:
  assumes "\<And>j b. i \<le> j \<Longrightarrow> j < n \<Longrightarrow> length b = k \<Longrightarrow> j \<notin> bits_of b \<Longrightarrow>
      \<exists>b'. f j b = Some (Done b') \<and> length b' = k \<and> bits_of b' = bits_of b \<union> {l. l = j \<and> P j}"
    and "length b = k" "bits_of b \<inter> {i..<n} = {}"
  shows "\<exists>b'. for_rows f i n b = Some (Done b') \<and> length b' = k \<and> bits_of b' = bits_of b \<union> {j. i \<le> j \<and> j < n \<and> P j}"
  using assms
proof (induction f i n b rule: for_rows.induct)
  case (1 f i n b)
  note u = for_rows.simps [of f i n b]
  show ?case
  proof (cases "i < n")
    case False
    then show ?thesis unfolding u using 1(3) by auto
  next
    case True
    have "i \<notin> bits_of b" using 1(4) True by auto
    then obtain b1 where b1: "f i b = Some (Done b1)" "length b1 = k" "bits_of b1 = bits_of b \<union> {l. l = i \<and> P i}"
      using 1(2) [of i b] 1(3) True by auto
    have "\<exists>b'. for_rows f (i + 1) n b1 = Some (Done b') \<and> length b' = k \<and>
        bits_of b' = bits_of b1 \<union> {j. i + 1 \<le> j \<and> j < n \<and> P j}"
      by (rule 1(1) [OF True b1(1) refl]) (use 1(2,4) b1 in auto)
    moreover have "{l. l = i \<and> P i} \<union> {j. i + 1 \<le> j \<and> j < n \<and> P j} = {j. i \<le> j \<and> j < n \<and> P j}"
      using True by (auto simp: Suc_le_eq le_less)
    ultimately show ?thesis unfolding u using True b1(1,3) by (auto simp: Un_assoc)
  qed
qed

text \<open>Both ways of setting bits, on a bitmap without the bit.\<close>

lemma assign_bit_members:
  assumes "test j = Some (Done v)" "j < 8 * length b" "j \<notin> bits_of b"
  shows "\<exists>b'. assign_bit test j b = Some (Done b') \<and> length b' = length b \<and> bits_of b' = bits_of b \<union> {l. l = j \<and> v}"
  using bm.put_member [OF assms(2), of "if v then 1 else 0"] assms(1,3) by (auto simp: assign_bit_def)

lemma raise_bit_members:
  assumes "test j = Some (Done v)" "j < 8 * length b" "j \<notin> bits_of b"
  shows "\<exists>b'. raise_bit test j b = Some (Done b') \<and> length b' = length b \<and> bits_of b' = bits_of b \<union> {l. l = j \<and> v}"
  using bm.put_member [OF assms(2), of 1] assms(1,3) by (auto simp: raise_bit_def)

lemma filter_rows:
  assumes "\<And>i. i < n \<Longrightarrow> test i = Some (Done (P i))" "n \<le> 8 * length b" "bits_of b \<inter> {..<n} = {}"
    and "mode = assign_bit \<or> mode = raise_bit"
  shows "\<exists>b'. for_rows (mode test) 0 n b = Some (Done b') \<and> length b' = length b \<and>
    bits_of b' = bits_of b \<union> {i. i < n \<and> P i}"
proof -
  have "\<exists>b'. for_rows (mode test) 0 n b = Some (Done b') \<and> length b' = length b \<and>
      bits_of b' = bits_of b \<union> {i. 0 \<le> i \<and> i < n \<and> P i}"
  proof (rule for_rows_members)
    fix j and c :: "u8 list"
    assume "j < n" "length c = length b" "j \<notin> bits_of c"
    then show "\<exists>c'. mode test j c = Some (Done c') \<and> length c' = length b \<and> bits_of c' = bits_of c \<union> {l. l = j \<and> P j}"
      using assign_bit_members [of test j "P j" c] raise_bit_members [of test j "P j" c] assms(1,2,4) by auto
  qed (use assms(3) in auto)
  then show ?thesis by simp
qed


text \<open>Lexicographic order from the bytes both texts have.\<close>

lemma lex_take:
  fixes s t :: "'a :: linorder list"
  shows "m \<le> length s \<Longrightarrow> take m s \<noteq> take m t \<Longrightarrow> s < t \<longleftrightarrow> take m s < take m t"
proof (induction m arbitrary: s t)
  case (Suc m)
  then obtain a s' where s: "s = a # s'" "m \<le> length s'" by (cases s) auto
  show ?case
  proof (cases t)
    case Nil
    then show ?thesis by (simp add: s(1))
  next
    case (Cons b t')
    have "a = b \<Longrightarrow> s' < t' \<longleftrightarrow> take m s' < take m t'"
      using Suc.IH [OF s(2), of t'] Suc.prems(2) unfolding s(1) Cons by simp
    then show ?thesis unfolding s(1) Cons by auto
  qed
qed simp

lemma lex_prefix:
  fixes s t :: "'a :: linorder list"
  shows "take (length s) t = s \<Longrightarrow> s \<le> t"
proof (induction s arbitrary: t)
  case (Cons a s)
  then show ?case by (cases t) auto
qed simp

lemma lex_min:
  fixes s t :: "'a :: linorder list"
  assumes "m = min (length s) (length t)" "take m s = take m t"
  shows "s < t \<longleftrightarrow> length s < length t" "s = t \<longleftrightarrow> length s = length t"
proof -
  have "s < t \<and> s \<noteq> t" if "length s < length t" using lex_prefix [of s t] assms that by (auto simp: order_less_le)
  moreover have "t < s \<and> s \<noteq> t" if "length t < length s" using lex_prefix [of t s] assms that by (auto simp: order_less_le)
  moreover have "s = t" if "length s = length t" using assms that by simp
  ultimately show "s < t \<longleftrightarrow> length s < length t" "s = t \<longleftrightarrow> length s = length t"
    by (cases "length s" "length t" rule: linorder_cases; auto)+
qed

text \<open>The view of a row of text.\<close>

lemma view_stored:
  assumes "i * VIEW_BUFFER_LENGTH + VIEW_BUFFER_LENGTH \<le> length d"
    "slot VIEW_BUFFER_LENGTH i d = text_view s" "length s < 2147483648"
  obtains rest where "view_at \<lparr>tr_buffer = d, tr_rowids = rowids, tr_long = long\<rparr> i = Some (int (length s), take VIEW_DATA_LENGTH s @ rest)"
proof -
  define q where "q = i * VIEW_BUFFER_LENGTH"
  have f: "q + VIEW_BUFFER_LENGTH \<le> length d" using assms(1) by (simp add: q_def)
  have sl: "take VIEW_BUFFER_LENGTH (drop q d) = text_view s" using assms(2) by (simp add: slot_def q_def)
  have "ld32 d q = ld32 (take VIEW_BUFFER_LENGTH (drop q d)) 0"
    using f by (simp add: ld32_def VIEW_BUFFER_LENGTH_def)
  then have n: "ld32 d q = Some (word_of_nat (length s))" by (simp add: sl ld32_text_view)
  have "drop q d = text_view s @ drop VIEW_BUFFER_LENGTH (drop q d)"
    using append_take_drop_id [of VIEW_BUFFER_LENGTH "drop q d"] unfolding sl by simp
  then have "drop (q + 4) d = drop 4 (text_view s @ drop VIEW_BUFFER_LENGTH (drop q d))"
    by (metis add.commute drop_drop)
  also have "\<dots> = drop 4 (text_view s) @ drop VIEW_BUFFER_LENGTH (drop q d)"
    by (simp add: VIEW_BUFFER_LENGTH_def)
  finally have "drop (q + 4) d = take VIEW_DATA_LENGTH s @ (replicate (VIEW_DATA_LENGTH - length s) 0 @ drop VIEW_BUFFER_LENGTH (drop q d))"
    by (simp add: text_view_def)
  then show ?thesis using that n by (simp add: view_at_def q_def sint_text_length [OF assms(3)])
qed

lemma size_of_int_small: "n < 4294967296 \<Longrightarrow> size_of_int (int n) = n"
  by (simp add: size_of_int_def nat_int)

lemma prefix_compare:
  assumes "0 \<notin> set s" "0 \<notin> set t" "n \<le> length s" "n \<le> VIEW_DATA_LENGTH"
  shows "\<exists>d. strncmp_bytes (take VIEW_DATA_LENGTH s @ rest) (t @ [0]) (size_of_int (int n)) = Some d \<and>
    (d = 0 \<longleftrightarrow> take n s = take n t) \<and> (d < 0 \<longleftrightarrow> take n s < take n t)"
proof -
  have "n < 4294967296" using assms(4) by (simp add: VIEW_DATA_LENGTH_def)
  then show ?thesis
    using strncmp_bytes_spec [of "take VIEW_DATA_LENGTH s" t n rest "[]"] assms in_set_takeD [of 0 VIEW_DATA_LENGTH s]
    by (auto simp: size_of_int_small min_absorb1)
qed

text \<open>The whole of a long text.\<close>

lemma long_compare_correct:
  assumes "0 \<notin> set s" "0 \<notin> set t" "i < length rowids" "long (rowids ! i) = Some s"
  shows "\<exists>d. long_compare \<lparr>tr_buffer = b, tr_rowids = rowids, tr_long = long\<rparr> i (int (length s)) (t @ [0]) verdict =
      Some (Done (verdict d)) \<and> (d = 0 \<longleftrightarrow> s = take (length s) t) \<and> (d < 0 \<longleftrightarrow> s < take (length s) t)"
  using strncmp_bytes_spec [OF assms(1,2) order_refl, of "[0]" "[]"] assms(3,4)
  by (auto simp: long_compare_def vec0_get_metadata_text_long_value_def)

text \<open>A row of the chunk, its text, and the target.\<close>

lemma text_ordered_correct:
  assumes "sized_column KIND_TEXT n col" "i < n" "stored_at KIND_TEXT col (rowids ! i) i (DText s)" "length rowids = n"
    and "0 \<notin> set s" "0 \<notin> set t" "length s \<noteq> 12" "length t < 2147483648" "\<And>x y. R x y \<longleftrightarrow> R (x - y) 0"
  shows "\<exists>d. text_ordered R \<lparr>tr_buffer = m_data col, tr_rowids = rowids, tr_long = m_long col\<rparr> (t @ [0], int (length t)) i =
      Some (Done (R d 0)) \<and> (d < 0 \<longrightarrow> s < t) \<and> (0 < d \<longrightarrow> t < s) \<and> (d = 0 \<longrightarrow> take (length s) t = s \<and> (length s < 12 \<longrightarrow> s = t))"
proof -
  note s = stored_text [OF assms(1-3)]
  obtain rest where v: "view_at \<lparr>tr_buffer = m_data col, tr_rowids = rowids, tr_long = m_long col\<rparr> i =
      Some (int (length s), take VIEW_DATA_LENGTH s @ rest)"
    using view_stored [OF sized_text [OF assms(1,2)] s(2,1)] .
  define n where "n = min (min (length s) VIEW_DATA_LENGTH) (length t)"
  have n: "min (min (int (length s)) (int VIEW_DATA_LENGTH)) (int (length t)) = int n" by (simp add: n_def)
  obtain d where d: "strncmp_bytes (take VIEW_DATA_LENGTH s @ rest) (t @ [0]) (size_of_int (int n)) = Some d"
    "d = 0 \<longleftrightarrow> take n s = take n t" "d < 0 \<longleftrightarrow> take n s < take n t"
  proof -
    have "n \<le> length s" "n \<le> VIEW_DATA_LENGTH" by (simp_all add: n_def)
    from prefix_compare [OF assms(5,6) this, of rest] show ?thesis using that by blast
  qed
  have eq: "text_ordered R \<lparr>tr_buffer = m_data col, tr_rowids = rowids, tr_long = m_long col\<rparr> (t @ [0], int (length t)) i =
      (if length s < VIEW_DATA_LENGTH then Some (Done (if d = 0 then R (int (length s)) (int (length t)) else R d 0))
       else long_compare \<lparr>tr_buffer = m_data col, tr_rowids = rowids, tr_long = m_long col\<rparr> i (int (length s)) (t @ [0]) (\<lambda>c. R c 0))"
    unfolding text_ordered_def v prod.case Option.bind.simps(2) n d(1) of_nat_less_iff ..
  show ?thesis
  proof (cases "length s < VIEW_DATA_LENGTH")
    case True
    then have m: "n = min (length s) (length t)" by (simp add: n_def)
    define e where "e = (if d = 0 then int (length s) - int (length t) else d)"
    have "text_ordered R \<lparr>tr_buffer = m_data col, tr_rowids = rowids, tr_long = m_long col\<rparr> (t @ [0], int (length t)) i =
        Some (Done (R e 0))"
      unfolding eq using True assms(9) [of "int (length s)" "int (length t)"] by (simp add: e_def)
    moreover have "(e < 0 \<longrightarrow> s < t) \<and> (0 < e \<longrightarrow> t < s) \<and> (e = 0 \<longrightarrow> s = t)"
    proof (cases "d = 0")
      case True
      then have "take n s = take n t" using d(2) by simp
      from lex_min [OF m this] lex_min [of n t s] m this True show ?thesis by (auto simp: e_def)
    next
      case False
      then have "take n s \<noteq> take n t" using d(2) by simp
      moreover have "n \<le> length s" by (simp add: n_def)
      ultimately have "s < t \<longleftrightarrow> d < 0" using lex_take [of n s t] d(3) by simp
      moreover have "s \<noteq> t" using \<open>take n s \<noteq> take n t\<close> by auto
      ultimately show ?thesis using False by (auto simp: e_def)
    qed
    ultimately show ?thesis by (intro exI [of _ e]) auto
  next
    case False
    then have l: "VIEW_DATA_LENGTH < length s" using assms(7) by (simp add: VIEW_DATA_LENGTH_def)
    have "i < length rowids" using assms(2,4) by simp
    then obtain e where e: "long_compare \<lparr>tr_buffer = m_data col, tr_rowids = rowids, tr_long = m_long col\<rparr> i (int (length s)) (t @ [0])
        (\<lambda>c. R c 0) = Some (Done (R e 0))" "e = 0 \<longleftrightarrow> s = take (length s) t" "e < 0 \<longleftrightarrow> s < take (length s) t"
      using long_compare_correct [where verdict = "\<lambda>c. R c 0" and long = "m_long col", OF assms(5,6) _ s(3) [OF l]] by blast
    have "s < t \<longleftrightarrow> e < 0" "s \<noteq> t" if "e \<noteq> 0" using lex_take [of "length s" s t] e(2,3) that by auto
    moreover have "text_ordered R \<lparr>tr_buffer = m_data col, tr_rowids = rowids, tr_long = m_long col\<rparr> (t @ [0], int (length t)) i =
        Some (Done (R e 0))"
      unfolding eq using l e(1) by simp
    ultimately show ?thesis using e(2) l by (intro exI [of _ e]) (auto simp: VIEW_DATA_LENGTH_def)
  qed
qed


text \<open>Equality of texts of the same length.\<close>

lemma equal_compare:
  assumes "0 \<notin> set s" "0 \<notin> set t" "length s = length t"
  obtains d where "strncmp_bytes (take VIEW_DATA_LENGTH s @ rest) (t @ [0]) (size_of_int (min (int (length s)) (int VIEW_DATA_LENGTH))) = Some d"
    "length s \<le> VIEW_DATA_LENGTH \<Longrightarrow> d = 0 \<longleftrightarrow> s = t" "d \<noteq> 0 \<Longrightarrow> s \<noteq> t"
proof -
  define n where "n = min (length s) VIEW_DATA_LENGTH"
  have n: "min (int (length s)) (int VIEW_DATA_LENGTH) = int n" "n \<le> length s" "n \<le> VIEW_DATA_LENGTH" by (simp_all add: n_def)
  obtain d where d: "strncmp_bytes (take VIEW_DATA_LENGTH s @ rest) (t @ [0]) (size_of_int (int n)) = Some d"
    "d = 0 \<longleftrightarrow> take n s = take n t" using prefix_compare [OF assms(1,2) n(2,3), of rest] by blast
  have "length s \<le> VIEW_DATA_LENGTH \<Longrightarrow> n = length s" by (simp add: n_def)
  then show ?thesis using that [of d] d assms(3) unfolding n(1) by auto
qed

text \<open>The rows of a chunk as the filter is given them.\<close>

definition rows_of :: "meta_column \<Rightarrow> i64 list \<Rightarrow> text_rows" where
  "rows_of col rowids = \<lparr>tr_buffer = m_data col, tr_rowids = rowids, tr_long = m_long col\<rparr>"

lemma view_row:
  assumes "sized_column KIND_TEXT n col" "i < n" "stored_at KIND_TEXT col (rowids ! i) i (DText s)"
  obtains rest where "view_at (rows_of col rowids) i = Some (int (length s), take VIEW_DATA_LENGTH s @ rest)"
  unfolding rows_of_def
  by (rule view_stored [OF sized_text [OF assms(1,2)] stored_text(2) [OF assms] stored_text(1) [OF assms]])

lemma long_equal:
  assumes "sized_column KIND_TEXT n col" "i < n" "stored_at KIND_TEXT col (rowids ! i) i (DText s)" "length rowids = n"
    and "0 \<notin> set s" "0 \<notin> set t" "length s = length t" "VIEW_DATA_LENGTH < length s"
  shows "long_compare (rows_of col rowids) i (int (length s)) (t @ [0]) (\<lambda>c. v (c = 0)) = Some (Done (v (s = t)))"
proof -
  have "i < length rowids" using assms(2,4) by simp
  then show ?thesis
    using long_compare_correct [where verdict = "\<lambda>c. v (c = 0)" and long = "m_long col" and b = "m_data col",
        OF assms(5,6) _ stored_text(3) [OF assms(1-3,8)]] assms(7)
    by (auto simp: rows_of_def)
qed

lemma text_eq_correct:
  assumes "sized_column KIND_TEXT n col" "i < n" "stored_at KIND_TEXT col (rowids ! i) i (DText s)" "length rowids = n"
    and "0 \<notin> set s" "0 \<notin> set t"
  shows "text_eq (rows_of col rowids) (t @ [0], int (length t)) i = Some (Done (s = t))"
    "text_ne (rows_of col rowids) (t @ [0], int (length t)) i = Some (Done (s \<noteq> t))"
proof -
  obtain rest where v: "view_at (rows_of col rowids) i = Some (int (length s), take VIEW_DATA_LENGTH s @ rest)"
    by (rule view_row [OF assms(1-3)])
  show "text_eq (rows_of col rowids) (t @ [0], int (length t)) i = Some (Done (s = t))"
    "text_ne (rows_of col rowids) (t @ [0], int (length t)) i = Some (Done (s \<noteq> t))"
  proof (atomize (full), cases "length s = length t")
    case True
    obtain d where d: "strncmp_bytes (take VIEW_DATA_LENGTH s @ rest) (t @ [0]) (size_of_int (min (int (length s)) (int VIEW_DATA_LENGTH))) = Some d"
      "length s \<le> VIEW_DATA_LENGTH \<Longrightarrow> d = 0 \<longleftrightarrow> s = t" "d \<noteq> 0 \<Longrightarrow> s \<noteq> t" using equal_compare [OF assms(5,6) True] by metis
    note l = long_equal [OF assms True]
    show "text_eq (rows_of col rowids) (t @ [0], int (length t)) i = Some (Done (s = t)) \<and>
        text_ne (rows_of col rowids) (t @ [0], int (length t)) i = Some (Done (s \<noteq> t))"
      unfolding text_eq_def text_ne_def prod.case v Option.bind.simps d(1)
      using True d(2,3) l [of "\<lambda>x. x"] l [of Not] by (auto simp: not_le)
  next
    case False
    then have "s \<noteq> t" by auto
    then show "text_eq (rows_of col rowids) (t @ [0], int (length t)) i = Some (Done (s = t)) \<and>
        text_ne (rows_of col rowids) (t @ [0], int (length t)) i = Some (Done (s \<noteq> t))"
      using False by (simp add: text_eq_def text_ne_def v)
  qed
qed

text \<open>The entries of \<open>in (\<dots>)\<close> for a list of texts.\<close>

definition text_entries :: "u8 list list \<Rightarrow> (int \<times> u8 list) list" where
  "text_entries = map (\<lambda>x. (int (length x), x @ [0]))"

lemma text_in_correct:
  assumes "sized_column KIND_TEXT n col" "i < n" "stored_at KIND_TEXT col (rowids ! i) i (DText s)" "length rowids = n"
    and "0 \<notin> set s" "\<forall>x\<in>set xs. 0 \<notin> set x"
  shows "text_in (rows_of col rowids) (text_entries xs) i = Some (Done (s \<in> set xs))"
proof -
  obtain rest where v: "view_at (rows_of col rowids) i = Some (int (length s), take VIEW_DATA_LENGTH s @ rest)"
    by (rule view_row [OF assms(1-3)])
  have "text_in_entries (rows_of col rowids) i (int (length s)) (take VIEW_DATA_LENGTH s @ rest) (text_entries xs) =
      Some (Done (s \<in> set xs))"
    using assms(6)
  proof (induction xs)
    case (Cons x xs)
    then have x: "0 \<notin> set x" and IH: "text_in_entries (rows_of col rowids) i (int (length s)) (take VIEW_DATA_LENGTH s @ rest)
        (text_entries xs) = Some (Done (s \<in> set xs))" by auto
    have e: "text_entries (x # xs) = (int (length x), x @ [0]) # text_entries xs" by (simp add: text_entries_def)
    show ?case
    proof (cases "length s = length x")
      case True
      obtain d where d: "strncmp_bytes (take VIEW_DATA_LENGTH s @ rest) (x @ [0]) (size_of_int (min (int (length s)) (int VIEW_DATA_LENGTH))) = Some d"
        "length s \<le> VIEW_DATA_LENGTH \<Longrightarrow> d = 0 \<longleftrightarrow> s = x" "d \<noteq> 0 \<Longrightarrow> s \<noteq> x" using equal_compare [OF assms(5) x True] by metis
      note l = long_equal [OF assms(1-5) x True, of "\<lambda>x. x"]
      show ?thesis unfolding e text_in_entries.simps d(1) Option.bind.simps IH
        using True d(2,3) l by (cases "s = x") (auto simp: not_le)
    next
      case False
      then show ?thesis unfolding e using IH by auto
    qed
  qed (simp add: text_entries_def)
  then show ?thesis by (simp add: text_in_def v)
qed


lemma text_ordered_holds:
  assumes "sized_column KIND_TEXT n col" "i < n" "stored_at KIND_TEXT col (rowids ! i) i (DText s)" "length rowids = n"
    and "decided p (DText s) (DText t)" "length t < 2147483648"
  shows "p = OP_GT \<Longrightarrow> text_gt (rows_of col rowids) (t @ [0], int (length t)) i = Some (Done (s > t))"
    "p = OP_GE \<Longrightarrow> text_ge (rows_of col rowids) (t @ [0], int (length t)) i = Some (Done (s \<ge> t))"
    "p = OP_LE \<Longrightarrow> text_le (rows_of col rowids) (t @ [0], int (length t)) i = Some (Done (s \<le> t))"
    "p = OP_LT \<Longrightarrow> text_lt (rows_of col rowids) (t @ [0], int (length t)) i = Some (Done (s < t))"
proof -
  have z: "0 \<notin> set s" "0 \<notin> set t" using assms(5) by auto
  have main: "\<exists>d. text_ordered R (rows_of col rowids) (t @ [0], int (length t)) i = Some (Done (R d 0)) \<and>
      (d < 0 \<longrightarrow> s < t) \<and> (0 < d \<longrightarrow> t < s) \<and> (d = 0 \<longrightarrow> s \<le> t) \<and> (d = 0 \<longrightarrow> p \<in> {OP_GE, OP_LT} \<longrightarrow> s = t)"
    if "p \<notin> {OP_EQ, OP_NE}" "\<And>x y. R x y \<longleftrightarrow> R (x - y) 0" for R
  proof -
    note R = that
    have l: "length s \<noteq> 12" using assms(5) that(1) by auto
    obtain d where d: "text_ordered R (rows_of col rowids) (t @ [0], int (length t)) i = Some (Done (R d 0))"
      "d < 0 \<longrightarrow> s < t" "0 < d \<longrightarrow> t < s" "d = 0 \<longrightarrow> take (length s) t = s \<and> (length s < 12 \<longrightarrow> s = t)"
      using text_ordered_correct [where R = R, OF assms(1-4) z l assms(6) R(2)] unfolding rows_of_def by blast
    have "s \<le> t" if "d = 0" using d(4) that lex_prefix [of s t] by auto
    moreover have "s = t" if "d = 0" "p \<in> {OP_GE, OP_LT}" using d(4) that assms(5) l by auto
    ultimately show ?thesis using d(1-3) by blast
  qed
  show "text_gt (rows_of col rowids) (t @ [0], int (length t)) i = Some (Done (s > t))" if p: "p = OP_GT"
  proof -
    have "p \<notin> {OP_EQ, OP_NE}" "\<And>x y :: int. x > y \<longleftrightarrow> x - y > 0" using p by auto
    from main [where R = "(>)", OF this] obtain d :: int where "text_ordered (>) (rows_of col rowids) (t @ [0], int (length t)) i = Some (Done (d > 0))" "(d < 0 \<longrightarrow> s < t) \<and> (0 < d \<longrightarrow> t < s) \<and>
        (d = 0 \<longrightarrow> s \<le> t) \<and> (d = 0 \<longrightarrow> p \<in> {OP_GE, OP_LT} \<longrightarrow> s = t)"  by blast
    then show ?thesis using p by (cases d "0 :: int" rule: linorder_cases) (auto simp: text_gt_def)
  qed
  show "text_ge (rows_of col rowids) (t @ [0], int (length t)) i = Some (Done (s \<ge> t))" if p: "p = OP_GE"
  proof -
    have "p \<notin> {OP_EQ, OP_NE}" "\<And>x y :: int. x \<ge> y \<longleftrightarrow> x - y \<ge> 0" using p by auto
    from main [where R = "(\<ge>)", OF this] obtain d :: int where "text_ordered (\<ge>) (rows_of col rowids) (t @ [0], int (length t)) i = Some (Done (d \<ge> 0))" "(d < 0 \<longrightarrow> s < t) \<and> (0 < d \<longrightarrow> t < s) \<and>
        (d = 0 \<longrightarrow> s \<le> t) \<and> (d = 0 \<longrightarrow> p \<in> {OP_GE, OP_LT} \<longrightarrow> s = t)"  by blast
    then show ?thesis using p by (cases d "0 :: int" rule: linorder_cases) (auto simp: text_ge_def)
  qed
  show "text_le (rows_of col rowids) (t @ [0], int (length t)) i = Some (Done (s \<le> t))" if p: "p = OP_LE"
  proof -
    have "p \<notin> {OP_EQ, OP_NE}" "\<And>x y :: int. x \<le> y \<longleftrightarrow> x - y \<le> 0" using p by auto
    from main [where R = "(\<le>)", OF this] obtain d :: int where "text_ordered (\<le>) (rows_of col rowids) (t @ [0], int (length t)) i = Some (Done (d \<le> 0))" "(d < 0 \<longrightarrow> s < t) \<and> (0 < d \<longrightarrow> t < s) \<and>
        (d = 0 \<longrightarrow> s \<le> t) \<and> (d = 0 \<longrightarrow> p \<in> {OP_GE, OP_LT} \<longrightarrow> s = t)"  by blast
    then show ?thesis using p by (cases d "0 :: int" rule: linorder_cases) (auto simp: text_le_def)
  qed
  show "text_lt (rows_of col rowids) (t @ [0], int (length t)) i = Some (Done (s < t))" if p: "p = OP_LT"
  proof -
    have "p \<notin> {OP_EQ, OP_NE}" "\<And>x y :: int. x < y \<longleftrightarrow> x - y < 0" using p by auto
    from main [where R = "(<)", OF this] obtain d :: int where "text_ordered (<) (rows_of col rowids) (t @ [0], int (length t)) i = Some (Done (d < 0))" "(d < 0 \<longrightarrow> s < t) \<and> (0 < d \<longrightarrow> t < s) \<and>
        (d = 0 \<longrightarrow> s \<le> t) \<and> (d = 0 \<longrightarrow> p \<in> {OP_GE, OP_LT} \<longrightarrow> s = t)"  by blast
    then show ?thesis using p by (cases d "0 :: int" rule: linorder_cases) (auto simp: text_lt_def)
  qed
qed


text \<open>The test of each kind of column on a row that holds a value.\<close>

lemma integer_test_correct:
  "u64_at d i = Some x \<Longrightarrow> p \<noteq> OP_IN \<Longrightarrow> integer_test p y d i = Some (Done (relates p (DInt x) (DInt y)))"
  by (cases p) (auto simp: integer_test_def word_sless_alt word_sle_eq intro: signed_word_eqI)

lemma float_test_correct:
  "u64_at d i = Some x \<Longrightarrow> p \<noteq> OP_IN \<Longrightarrow> float_test p y d i = Some (Done (relates p (DFloat x) (DFloat y)))"
  by (cases p) (auto simp: float_test_def f64_le_def)

lemma boolean_test_correct:
  assumes "i < 8 * length d" "p = OP_EQ \<or> p = OP_NE" "y = 0 \<or> y = 1"
  shows "boolean_test p (sint y) d i = Some (Done (relates p (DInt (if i \<in> bits_of d then 1 else 0)) (DInt y)))"
  using assms(2,3) bm.get_member [OF assms(1)] by (auto simp: boolean_test_def)


text \<open>
  C29: The filter of \<open>in (\<dots>)\<close> on an integer or text column sets exactly the bits of the rows whose
  value is among the values of the list.
\<close>
theorem metadata_in_correct:
  assumes "faithful c" "sized_column kind n col" "length rowids = n"
    and "\<And>i. i < n \<Longrightarrow> stored_at kind col (rowids ! i) i (vals i)"
    and "in_constraint ins k = Some values" "n \<le> 8 * length b" "bits_of b \<inter> {..<n} = {}"
    and "kind = KIND_INTEGER \<and> values = In_Ints xs \<and> V = DInt ` set xs \<or>
      kind = KIND_TEXT \<and> values = In_Texts (text_entries ts) \<and> V = DText ` set ts \<and>
        (\<forall>t\<in>set ts. 0 \<notin> set t) \<and> (\<forall>i<n. \<forall>s. vals i = DText s \<longrightarrow> 0 \<notin> set s)"
  shows "\<exists>b'. vec0_set_metadata_filter_bitmap c kind col rowids OP_IN target b n ins k = Some (Done b') \<and>
    length b' = length b \<and> bits_of b' = bits_of b \<union> {i. i < n \<and> vals i \<in> V}"
proof -
  let ?P = "\<lambda>i. vals i \<in> V"
  have l: "length (m_data col) = vec0_metadata_chunk_size kind n" using assms(2) by (simp add: sized_column_def)
  have rows: "\<exists>b'. for_rows (raise_bit test) 0 n b = Some (Done b') \<and> length b' = length b \<and> bits_of b' = bits_of b \<union> {i. i < n \<and> ?P i}"
    if "\<And>i. i < n \<Longrightarrow> test i = Some (Done (?P i))" for test
    by (rule filter_rows [OF that assms(6,7)]) simp_all
  show ?thesis using assms(8)
  proof (elim disjE conjE)
    assume k: "kind = KIND_INTEGER" "values = In_Ints xs" "V = DInt ` set xs"
    have "integer_in xs (m_data col) i = Some (Done (?P i))" if i: "i < n" for i
    proof -
      obtain x where "vals i = DInt x" "u64_at (m_data col) i = Some x"
        using stored_word [OF assms(2) i assms(4)[OF i]] k(1) by auto
      then show ?thesis using k(3) by (auto simp: integer_in_def)
    qed
    from rows [OF this] show ?thesis using l k(1,2) assms(5) by (simp add: vec0_set_metadata_filter_bitmap_def)
  next
    assume k: "kind = KIND_TEXT" "values = In_Texts (text_entries ts)" "V = DText ` set ts"
      "\<forall>t\<in>set ts. 0 \<notin> set t" "\<forall>i<n. \<forall>s. vals i = DText s \<longrightarrow> 0 \<notin> set s"
    have "text_in (rows_of col rowids) (text_entries ts) i = Some (Done (?P i))" if i: "i < n" for i
    proof -
      obtain s where s: "vals i = DText s" using assms(4)[OF i] k(1) fits_kindE(4) unfolding stored_at_def by blast
      have z: "0 \<notin> set s" using k(5) i s by blast
      show ?thesis
        using text_in_correct [OF assms(2)[unfolded k(1)] i assms(4)[OF i, unfolded k(1) s] assms(3) z k(4)] unfolding s k(3) by auto
    qed
    from rows [OF this] show ?thesis using l k(1,2) assms(5)
      by (simp add: vec0_set_metadata_filter_bitmap_def vec0_metadata_filter_text_def flip: rows_of_def)
  qed
qed


section \<open>Examples\<close>

lemma slot_concat:
  "\<forall>x\<in>set xs. length (f x) = n \<Longrightarrow> i < length xs \<Longrightarrow> slot n i (concat (map f xs)) = f (xs ! i)"
proof (induction xs arbitrary: i)
  case (Cons x xs)
  have "slot n (Suc j) (f x @ ys) = slot n j ys" for j ys using Cons.prems(1) by (simp add: slot_def)
  then show ?case using Cons by (cases i) (simp_all add: slot_def)
qed simp

lemma length_concat_same: "\<forall>x\<in>set xs. length (f x) = n \<Longrightarrow> length (concat (map f xs)) = length xs * n"
  by (induction xs) auto

text \<open>The columns of lists of values.\<close>

definition integer_column :: "i64 list \<Rightarrow> meta_column" where
  "integer_column xs = \<lparr>m_data = concat (map i64_bytes xs), m_long = Map.empty\<rparr>"

definition text_column :: "(i64 \<rightharpoonup> u8 list) \<Rightarrow> u8 list list \<Rightarrow> meta_column" where
  "text_column long ss = \<lparr>m_data = concat (map text_view ss), m_long = long\<rparr>"

lemma sized_examples:
  "length xs = n \<Longrightarrow> n mod 8 = 0 \<Longrightarrow> sized_column KIND_INTEGER n (integer_column xs)"
  "length ss = n \<Longrightarrow> n mod 8 = 0 \<Longrightarrow> sized_column KIND_TEXT n (text_column long ss)"
  by (auto simp: sized_column_def integer_column_def text_column_def vec0_metadata_chunk_size_def
      length_concat_same [where n = 8] length_concat_same [where n = VIEW_BUFFER_LENGTH])

lemma stored_integer:
  assumes "i < length xs"
  shows "stored_at KIND_INTEGER (integer_column xs) r i (DInt (xs ! i))"
proof -
  have "i * 8 + 8 \<le> length (concat (map i64_bytes xs))"
    using assms slot_fits [of i "length xs" _ 8] by (simp add: length_concat_same [where n = 8])
  then show ?thesis using assms
    by (simp add: stored_at_def vec0_result_metadata_value_for_rowid_def integer_column_def blob_read_slot slot_concat)
qed

lemma stored_short_text:
  assumes "i < length ss" "length (ss ! i) \<le> VIEW_DATA_LENGTH"
  shows "stored_at KIND_TEXT (text_column long ss) r i (DText (ss ! i))"
proof -
  have l: "length (ss ! i) < 2147483648" using assms(2) by (simp add: VIEW_DATA_LENGTH_def)
  have "i * VIEW_BUFFER_LENGTH + VIEW_BUFFER_LENGTH \<le> length (concat (map text_view ss))"
    by (rule slot_fits [OF assms(1)]) (simp add: length_concat_same [where n = VIEW_BUFFER_LENGTH])
  then show ?thesis using assms l view_text [OF assms(2)]
    by (simp add: stored_at_def vec0_result_metadata_value_for_rowid_def text_column_def blob_read_slot slot_concat
        ld32_text_view sint_text_length nat_int)
qed

lemma bits_of_zero: "bits_of [0] = {}"
  by (auto simp: bits_of_def)


theorem metadata_in_correct_witness:
  "\<exists>b'. vec0_set_metadata_filter_bitmap plain_conversions KIND_INTEGER (integer_column [3, 1, 4, 1, 5, 9, 2, 6]) (replicate 8 1)
      OP_IN DNull [0] 8 [\<lparr>mi_argv_idx = 2, mi_metadata_idx = 0, mi_array = In_Ints [1, 9]\<rparr>] 2 = Some (Done b') \<and>
    bits_of b' = {i. i < 8 \<and> DInt ([3, 1, 4, 1, 5, 9, 2, 6] ! i) \<in> DInt ` {1, 9}}"
proof -
  let ?xs = "[3, 1, 4, 1, 5, 9, 2, 6] :: i64 list"
  have st: "stored_at KIND_INTEGER (integer_column ?xs) (replicate 8 1 ! i) i (DInt (?xs ! i))" if "i < 8" for i
    by (rule stored_integer) (use that in simp)
  have sized: "sized_column KIND_INTEGER 8 (integer_column ?xs)" using sized_examples(1) [of ?xs 8] by simp
  show ?thesis
    using metadata_in_correct [of plain_conversions KIND_INTEGER 8 "integer_column ?xs" "replicate 8 1" "\<lambda>i. DInt (?xs ! i)"
        "[\<lparr>mi_argv_idx = 2, mi_metadata_idx = 0, mi_array = In_Ints [1, 9]\<rparr>]" 2 "In_Ints [1, 9]" "[0]" "[1, 9]" "DInt ` {1, 9}",
        OF faithful_plain sized _ st] by (auto simp: bits_of_zero in_constraint_def)
qed

section \<open>The texts the ordered filters do not decide\<close>

text \<open>A row whose text has exactly twelve bytes makes an ordered constraint fail.\<close>

lemma twelve_bytes_fail:
  "text_le (rows_of (text_column Map.empty [lit ''twelve bytes'']) [7]) (lit ''a'' @ [0], 1) 0 = Some (Fail None)"
  by code_simp

text \<open>A long text that is a proper prefix of the target is not found to be smaller.\<close>

lemma long_prefix_not_less:
  "text_lt (rows_of (text_column [7 \<mapsto> lit ''thirteen byte''] [lit ''thirteen byte'']) [7]) (lit ''thirteen bytes'' @ [0], 14) 0 = Some (Done False)"
  "lit ''thirteen byte'' < lit ''thirteen bytes''"
  by code_simp+

text \<open>A constraint with \<open>NULL\<close>, which no value satisfies in SQL, compares with zero or the empty text.\<close>

lemma null_target_matches:
  assumes "faithful c"
  shows "integer_test OP_EQ (value_int64 c DNull) (i64_bytes 0) 0 = Some (Done True)"
    "text_eq (rows_of (text_column Map.empty [[]]) [7]) (text_target c DNull) 0 = Some (Done True)"
proof -
  show "integer_test OP_EQ (value_int64 c DNull) (i64_bytes 0) 0 = Some (Done True)"
    by (simp add: faithful_values(6) [OF assms] integer_test_def)
  show "text_eq (rows_of (text_column Map.empty [[]]) [7]) (text_target c DNull) 0 = Some (Done True)"
    unfolding text_target_def by (simp only: simp_thms if_True) code_simp
qed

end
