(* ===== verification/VecTable.thy ===== *)
theory VecTable
  imports VecFilter VecInit
begin

text \<open>
  The rows of a \<open>vec0\<close> table in \<^verbatim>\<open>extensions/sqlite-vec/cc/sqlite-vec.c\<close>: the shadow tables as a
  state, the functions that read a row, and \<^verbatim>\<open>vec0Update\<close> with its insertion, deletion and update.
  The shadow tables are used through SQL whose meaning is fixed: a key is unique, a statement finds
  the rows its condition selects, an \<open>AUTOINCREMENT\<close> key is larger than every key used before. A
  failing operation is rolled back by the statement that called it, so an error carries no state.
  Allocations and I/O do not fail here, except those of the vectors that are read.
\<close>

section \<open>The shadow tables\<close>

text \<open>
  A row of \<open>_chunks\<close> with the blobs that the vector and metadata tables hold under its number. Chunks
  are numbered from one in the order they are made and never removed.
\<close>

record chunk =
  c_validity :: "u8 list"
  c_rowids :: "i64 list"
  c_partition :: "datum list"
  c_vectors :: "u8 list list"
  c_metadata :: "u8 list list"

text \<open>A row of \<open>_rowids\<close>; a position that is not set reads as zero.\<close>

record rowids_entry =
  r_id :: datum
  r_chunk :: nat
  r_offset :: nat

text \<open>The last key of \<open>_rowids\<close> is kept by SQLite; \<open>s_long\<close> has the long texts of each metadata column.\<close>

record shadow =
  s_rows :: "(i64 \<times> rowids_entry) list"
  s_last :: i64
  s_chunks :: "chunk list"
  s_aux :: "(i64 \<times> datum list) list"
  s_long :: "(i64 \<rightharpoonup> u8 list) list"

type_synonym 'a result = "code + 'a"

definition on_ok :: "'a result \<Rightarrow> ('a \<Rightarrow> 'b result) \<Rightarrow> 'b result" where
  "on_ok x k = (case x of Inl e \<Rightarrow> Inl e | Inr v \<Rightarrow> k v)"

lemma on_ok_simps [simp]: "on_ok (Inl e) k = Inl e" "on_ok (Inr v) k = k v"
  by (simp_all add: on_ok_def)

lemma on_ok_Inr: "on_ok x k = Inr y \<longleftrightarrow> (\<exists>v. x = Inr v \<and> k v = Inr y)"
  by (cases x) simp_all

definition or_code :: "code \<Rightarrow> 'a option \<Rightarrow> 'a result" where
  "or_code e x = (case x of None \<Rightarrow> Inl e | Some v \<Rightarrow> Inr v)"

lemma or_code_simps [simp]: "or_code e None = Inl e" "or_code e (Some v) = Inr v"
  by (simp_all add: or_code_def)

lemma or_code_Inr: "or_code e x = Inr y \<longleftrightarrow> x = Some y"
  by (cases x) simp_all

definition of_outcome :: "'a outcome \<Rightarrow> 'a result" where
  "of_outcome x = (case x of Done v \<Rightarrow> Inr v | Fail _ \<Rightarrow> Inl SQLITE_ERROR)"

lemma of_outcome_simps [simp]: "of_outcome (Done v) = Inr v" "of_outcome (Fail e) = Inl SQLITE_ERROR"
  by (simp_all add: of_outcome_def)

text \<open>Equality in SQL: numbers by value, texts and blobs by their bytes, never with \<open>NULL\<close>.\<close>

fun numeric :: "datum \<Rightarrow> fp option" where
  "numeric (DInt x) = Some (fp_of_int (sint x))"
| "numeric (DFloat x) = Some (f64_decode x)"
| "numeric _ = None"

definition sql_eq :: "datum \<Rightarrow> datum \<Rightarrow> bool" where
  "sql_eq a b = (case (a, b) of
       (DText s, DText t) \<Rightarrow> s = t
     | (DBlob s, DBlob t) \<Rightarrow> s = t
     | (DInt x, DInt y) \<Rightarrow> x = y
     | _ \<Rightarrow> (case (numeric a, numeric b) of (Some x, Some y) \<Rightarrow> fp_eq x y | _ \<Rightarrow> False))"

text \<open>Access to the columns of the table definition.\<close>

definition vector_column_at :: "vec0_vtab \<Rightarrow> nat \<Rightarrow> vector_column" where
  "vector_column_at p i = the (vector_columns p ! i)"

definition metadata_kind_at :: "vec0_vtab \<Rightarrow> nat \<Rightarrow> metadata_kind" where
  "metadata_kind_at p i = ctype (the (metadata_columns p ! i))"

definition rows_per_chunk :: "vec0_vtab \<Rightarrow> nat" where
  "rows_per_chunk p = nat (chunk_size p)"

text \<open>The loops over the user columns of a kind: the column and its index among those of the kind.\<close>

definition kind_columns :: "column_kind \<Rightarrow> vec0_vtab \<Rightarrow> (nat \<times> nat) list" where
  "kind_columns kind p = map (\<lambda>i. (i, user_column_idxs p ! i))
     (filter (\<lambda>i. user_column_kinds p ! i = Some kind) [0..<vec0_num_defined_user_columns p])"

section \<open>Reading a row\<close>

definition chunk_at :: "shadow \<Rightarrow> nat \<Rightarrow> chunk option" where
  "chunk_at s chunk_id = (if chunk_id = 0 then None else rd (s_chunks s) (chunk_id - 1))"

definition vec0_get_chunk_position :: "shadow \<Rightarrow> i64 \<Rightarrow> (datum \<times> nat \<times> nat) result" where
  "vec0_get_chunk_position s rowid = (case map_of (s_rows s) rowid of
       None \<Rightarrow> Inl SQLITE_EMPTY
     | Some r \<Rightarrow> Inr (r_id r, r_chunk r, r_offset r))"

definition vec0_get_id_value_from_rowid :: "shadow \<Rightarrow> i64 \<Rightarrow> datum result" where
  "vec0_get_id_value_from_rowid s rowid = on_ok (vec0_get_chunk_position s rowid) (\<lambda>(i, _). Inr i)"

definition vec0_rowid_from_id :: "shadow \<Rightarrow> datum \<Rightarrow> i64 result" where
  "vec0_rowid_from_id s valueId = (case find (\<lambda>(_, r). sql_eq (r_id r) valueId) (s_rows s) of
       None \<Rightarrow> Inl SQLITE_EMPTY
     | Some (rowid, _) \<Rightarrow> Inr rowid)"

definition vec0_result_id :: "vec0_vtab \<Rightarrow> shadow \<Rightarrow> i64 \<Rightarrow> datum result" where
  "vec0_result_id p s rowid = (if \<not> pkIsText p then Inr (DInt rowid) else vec0_get_id_value_from_rowid s rowid)"

definition vec0_get_vector_data :: "vec0_vtab \<Rightarrow> shadow \<Rightarrow> i64 \<Rightarrow> nat \<Rightarrow> u8 list result" where
  "vec0_get_vector_data p s rowid idx =
     on_ok (vec0_get_chunk_position s rowid) (\<lambda>(_, chunk_id, chunk_offset).
     on_ok (or_code SQLITE_ERROR (do { c \<leftarrow> chunk_at s chunk_id; rd (c_vectors c) idx })) (\<lambda>blob.
     let n = vector_column_byte_size (vector_column_at p idx) in
     or_code SQLITE_ERROR (blob_read blob n (chunk_offset * n))))"

definition vec0_get_partition_value_for_rowid :: "shadow \<Rightarrow> i64 \<Rightarrow> nat \<Rightarrow> datum result" where
  "vec0_get_partition_value_for_rowid s rowid idx =
     on_ok (vec0_get_chunk_position s rowid) (\<lambda>(_, chunk_id, _).
     or_code SQLITE_ERROR (do { c \<leftarrow> chunk_at s chunk_id; rd (c_partition c) idx }))"

definition vec0_get_auxiliary_value_for_rowid :: "shadow \<Rightarrow> i64 \<Rightarrow> nat \<Rightarrow> datum result" where
  "vec0_get_auxiliary_value_for_rowid s rowid idx =
     or_code SQLITE_ERROR (do { values \<leftarrow> map_of (s_aux s) rowid; rd values idx })"

text \<open>A metadata column as one chunk sees it.\<close>

definition metadata_at :: "shadow \<Rightarrow> nat \<Rightarrow> nat \<Rightarrow> meta_column option" where
  "metadata_at s chunk_id idx = do {
     c \<leftarrow> chunk_at s chunk_id;
     d \<leftarrow> rd (c_metadata c) idx;
     l \<leftarrow> rd (s_long s) idx;
     Some \<lparr>m_data = d, m_long = l\<rparr> }"

definition result_metadata :: "vec0_vtab \<Rightarrow> shadow \<Rightarrow> i64 \<Rightarrow> nat \<Rightarrow> datum result" where
  "result_metadata p s rowid idx =
     on_ok (vec0_get_chunk_position s rowid) (\<lambda>(_, chunk_id, chunk_offset).
     on_ok (or_code SQLITE_ERROR (metadata_at s chunk_id idx)) (\<lambda>col.
     of_outcome (vec0_result_metadata_value_for_rowid (metadata_kind_at p idx) col rowid chunk_offset)))"

section \<open>Insertion\<close>

text \<open>An argument of \<open>xUpdate\<close>: the value, its subtype, and whether an update leaves it as it is.\<close>

record argument =
  a_value :: datum
  a_subtype :: nat
  a_nochange :: bool

definition sql_value_of :: "argument \<Rightarrow> sql_value" where
  "sql_value_of a = \<lparr>val_type = type_of (a_value a),
     val_bytes = (case a_value a of DText s \<Rightarrow> s | DBlob s \<Rightarrow> s | _ \<Rightarrow> []), val_subtype = a_subtype a\<rparr>"

definition user_arg :: "argument list \<Rightarrow> nat \<Rightarrow> argument option" where
  "user_arg args i = rd args (3 + i)"

definition vec0_get_latest_chunk_rowid :: "shadow \<Rightarrow> datum list \<Rightarrow> nat result" where
  "vec0_get_latest_chunk_rowid s keys =
     (case filter (\<lambda>i. list_all2 sql_eq (c_partition (s_chunks s ! i)) keys) [0..<length (s_chunks s)] of
        [] \<Rightarrow> Inl SQLITE_EMPTY
      | is \<Rightarrow> Inr (last is + 1))"

definition vec0_rowids_insert_rowid :: "shadow \<Rightarrow> i64 \<Rightarrow> shadow result" where
  "vec0_rowids_insert_rowid s rowid =
     (if map_of (s_rows s) rowid \<noteq> None then Inl SQLITE_ERROR
      else Inr (s\<lparr>s_rows := s_rows s @ [(rowid, \<lparr>r_id = DNull, r_chunk = 0, r_offset = 0\<rparr>)],
                  s_last := (if s_last s <s rowid then rowid else s_last s)\<rparr>))"

text \<open>The identifiers of a table with a text key are unique; after the last row id there is no next one.\<close>

definition vec0_rowids_insert_id :: "vec0_vtab \<Rightarrow> shadow \<Rightarrow> datum \<Rightarrow> (shadow \<times> i64) result" where
  "vec0_rowids_insert_id p s idValue =
     (if pkIsText p \<and> (idValue = DNull \<or> (\<exists>(_, r) \<in> set (s_rows s). sql_eq (r_id r) idValue)) then Inl SQLITE_ERROR
      else if s_last s = 0x7FFFFFFFFFFFFFFF then Inl SQLITE_ERROR
      else let rowid = s_last s + 1 in
        Inr (s\<lparr>s_rows := s_rows s @ [(rowid, \<lparr>r_id = idValue, r_chunk = 0, r_offset = 0\<rparr>)], s_last := rowid\<rparr>, rowid))"

definition vec0Update_InsertRowidStep :: "vec0_vtab \<Rightarrow> shadow \<Rightarrow> datum \<Rightarrow> (shadow \<times> i64) result" where
  "vec0Update_InsertRowidStep p s idValue =
     (if pkIsText p then
        (if type_of idValue \<noteq> SQLITE_TEXT then Inl SQLITE_ERROR else vec0_rowids_insert_id p s idValue)
      else case idValue of
        DInt suppliedRowid \<Rightarrow> on_ok (vec0_rowids_insert_rowid s suppliedRowid) (\<lambda>s. Inr (s, suppliedRowid))
      | DNull \<Rightarrow> vec0_rowids_insert_id p s DNull
      | _ \<Rightarrow> Inl SQLITE_ERROR)"

definition vec0_new_chunk :: "vec0_vtab \<Rightarrow> shadow \<Rightarrow> datum list \<Rightarrow> shadow \<times> nat" where
  "vec0_new_chunk p s keys = (let n = rows_per_chunk p in
     (s\<lparr>s_chunks := s_chunks s @ [\<lparr>c_validity = replicate (n div 8) 0, c_rowids = replicate n 0, c_partition = keys,
        c_vectors = map (\<lambda>i. replicate (n * vector_column_byte_size (vector_column_at p i)) 0) [0..<numVectorColumns p],
        c_metadata = map (\<lambda>i. replicate (vec0_metadata_chunk_size (metadata_kind_at p i) n) 0) [0..<numMetadataColumns p]\<rparr>]\<rparr>,
      length (s_chunks s) + 1))"

text \<open>The first position whose validity bit is not set.\<close>

fun next_available :: "u8 list \<Rightarrow> nat \<Rightarrow> nat option" where
  "next_available [] i = None"
| "next_available (b # bs) i =
     (if b = 255 then next_available bs (i + 1)
      else case find (\<lambda>j. \<not> bit b j) [0..<8] of
        Some j \<Rightarrow> Some (i * 8 + j)
      | None \<Rightarrow> next_available bs (i + 1))"

text \<open>The chunk, the position and the validity bitmap as it was read.\<close>

definition vec0Update_InsertNextAvailableStep :: "vec0_vtab \<Rightarrow> shadow \<Rightarrow> datum list \<Rightarrow> (shadow \<times> nat \<times> nat \<times> u8 list) result" where
  "vec0Update_InsertNextAvailableStep p s keys =
     (let fresh = (let (s, chunk_id) = vec0_new_chunk p s keys in
        on_ok (or_code SQLITE_ERROR (chunk_at s chunk_id)) (\<lambda>c. Inr (s, chunk_id, 0, c_validity c))) in
      case vec0_get_latest_chunk_rowid s keys of
        Inl SQLITE_EMPTY \<Rightarrow> fresh
      | Inl e \<Rightarrow> Inl e
      | Inr chunk_id \<Rightarrow>
          on_ok (or_code SQLITE_ERROR (chunk_at s chunk_id)) (\<lambda>c.
            if length (c_validity c) \<noteq> rows_per_chunk p div 8 then Inl SQLITE_ERROR
            else case next_available (c_validity c) 0 of
              None \<Rightarrow> fresh
            | Some offset \<Rightarrow> Inr (s, chunk_id, offset, c_validity c)))"

definition vec0_write_vector_to_vector_blob :: "u8 list \<Rightarrow> nat \<Rightarrow> u8 list \<Rightarrow> nat \<Rightarrow> element_type \<Rightarrow> u8 list option" where
  "vec0_write_vector_to_vector_blob blob chunk_offset bVector dims ty = (case ty of
       FLOAT32 \<Rightarrow> blob_write blob (take (dims * 4) bVector) (chunk_offset * dims * 4)
     | INT8 \<Rightarrow> blob_write blob (take dims bVector) (chunk_offset * dims)
     | BIT \<Rightarrow> blob_write blob (take (dims div 8) bVector) (chunk_offset * dims div 8))"

fun write_vectors :: "vec0_vtab \<Rightarrow> nat \<Rightarrow> nat \<Rightarrow> u8 list list \<Rightarrow> u8 list list \<Rightarrow> u8 list list result" where
  "write_vectors p chunk_offset i [] blobs = Inr blobs"
| "write_vectors p chunk_offset i (v # vs) [] = Inl SQLITE_ERROR"
| "write_vectors p chunk_offset i (v # vs) (blob # blobs) =
     (let c = vector_column_at p i in
      if length blob \<noteq> rows_per_chunk p * vector_column_byte_size c then Inl SQLITE_ERROR
      else on_ok (or_code SQLITE_ERROR (vec0_write_vector_to_vector_blob blob chunk_offset v (dimensions c) (element_type c))) (\<lambda>blob'.
        on_ok (write_vectors p chunk_offset (i + 1) vs blobs) (\<lambda>blobs'. Inr (blob' # blobs'))))"

definition vec0_rowids_update_position :: "shadow \<Rightarrow> i64 \<Rightarrow> nat \<Rightarrow> nat \<Rightarrow> shadow" where
  "vec0_rowids_update_position s rowid chunk_rowid chunk_offset =
     s\<lparr>s_rows := map (\<lambda>(k, r). (k, if k = rowid then r\<lparr>r_chunk := chunk_rowid, r_offset := chunk_offset\<rparr> else r)) (s_rows s)\<rparr>"

definition vec0Update_InsertWriteFinalStep ::
  "vec0_vtab \<Rightarrow> shadow \<Rightarrow> nat \<Rightarrow> nat \<Rightarrow> i64 \<Rightarrow> u8 list list \<Rightarrow> u8 list \<Rightarrow> shadow result" where
  "vec0Update_InsertWriteFinalStep p s chunk_rowid chunk_offset rowid vectorDatas bufferChunksValidity =
     on_ok (or_code SQLITE_ERROR (chunk_at s chunk_rowid)) (\<lambda>c.
     on_ok (or_code SQLITE_ERROR (rd bufferChunksValidity (chunk_offset div 8))) (\<lambda>bx.
     on_ok (or_code SQLITE_ERROR (blob_write (c_validity c) [bx OR push_bit (chunk_offset mod 8) 1] (chunk_offset div 8))) (\<lambda>validity.
     on_ok (write_vectors p chunk_offset 0 vectorDatas (c_vectors c)) (\<lambda>vectors.
     if length (c_rowids c) \<noteq> rows_per_chunk p then Inl SQLITE_ERROR
     else on_ok (or_code SQLITE_ERROR (wr (c_rowids c) chunk_offset rowid)) (\<lambda>rowids.
       Inr (vec0_rowids_update_position
         (s\<lparr>s_chunks := (s_chunks s)[chunk_rowid - 1 := c\<lparr>c_validity := validity, c_vectors := vectors, c_rowids := rowids\<rparr>]\<rparr>)
         rowid chunk_rowid chunk_offset))))))"

text \<open>The partition keys: each \<open>NULL\<close> or of the type of its column.\<close>

fun sql_type :: "column_type \<Rightarrow> value_type" where
  "sql_type TEXT = SQLITE_TEXT"
| "sql_type INTEGER = SQLITE_INTEGER"
| "sql_type FLOAT = SQLITE_FLOAT"
| "sql_type BLOB = SQLITE_BLOB"

fun read_keys :: "vec0_vtab \<Rightarrow> argument list \<Rightarrow> (nat \<times> nat) list \<Rightarrow> datum list \<Rightarrow> datum list result" where
  "read_keys p args [] keys = Inr keys"
| "read_keys p args ((i, idx) # cols) keys =
     on_ok (or_code SQLITE_ERROR (user_arg args i)) (\<lambda>a.
       if type_of (a_value a) \<noteq> SQLITE_NULL \<and>
          type_of (a_value a) \<noteq> sql_type (ctype (the (paritition_columns p ! idx))) then Inl SQLITE_ERROR
       else read_keys p args cols (keys[idx := a_value a]))"

text \<open>
  The vectors, each checked against its column. The result comes with the vectors read so far, which
  the caller releases.
\<close>

fun read_vectors ::
  "strtod_fn \<Rightarrow> vec0_vtab \<Rightarrow> argument list \<Rightarrow> (nat \<times> nat) list \<Rightarrow> vec list \<Rightarrow> heap \<Rightarrow> (code option \<times> vec list \<times> heap) option" where
  "read_vectors strtod p args [] vs h = Some (None, vs, h)"
| "read_vectors strtod p args ((i, idx) # cols) vs h = do {
     a \<leftarrow> user_arg args i;
     (r, h) \<leftarrow> vector_from_value strtod (sql_value_of a) h;
     (case r of
        Fail _ \<Rightarrow> Some (Some SQLITE_ERROR, vs, h)
      | Done (v, ty) \<Rightarrow>
          (let c = vector_column_at p idx; vs = vs @ [v] in
           if ty \<noteq> element_type c then Some (Some SQLITE_ERROR, vs, h)
           else if v_dims v \<noteq> dimensions c then Some (Some SQLITE_ERROR, vs, h)
           else read_vectors strtod p args cols vs h)) }"

fun cleanup_all :: "vec list \<Rightarrow> heap \<Rightarrow> heap option" where
  "cleanup_all [] h = Some h"
| "cleanup_all (v # vs) h = do { h \<leftarrow> cleanup v h; cleanup_all vs h }"

text \<open>The row of auxiliary values, each \<open>NULL\<close> or of the type of its column; the key is unique.\<close>

fun read_aux :: "vec0_vtab \<Rightarrow> argument list \<Rightarrow> (nat \<times> nat) list \<Rightarrow> datum list \<Rightarrow> datum list result" where
  "read_aux p args [] values = Inr values"
| "read_aux p args ((i, idx) # cols) values =
     on_ok (or_code SQLITE_ERROR (user_arg args i)) (\<lambda>a.
       if type_of (a_value a) \<noteq> SQLITE_NULL \<and>
          type_of (a_value a) \<noteq> sql_type (ctype (the (auxiliary_columns p ! idx))) then Inl SQLITE_CONSTRAINT
       else read_aux p args cols (values[idx := a_value a]))"

definition insert_aux :: "vec0_vtab \<Rightarrow> argument list \<Rightarrow> i64 \<Rightarrow> shadow \<Rightarrow> shadow result" where
  "insert_aux p args rowid s =
     (if numAuxiliaryColumns p = 0 then Inr s
      else on_ok (read_aux p args (kind_columns AUXILIARY p) (replicate (numAuxiliaryColumns p) DNull)) (\<lambda>values.
        if map_of (s_aux s) rowid \<noteq> None then Inl SQLITE_ERROR
        else Inr (s\<lparr>s_aux := s_aux s @ [(rowid, values)]\<rparr>)))"

text \<open>A metadata value in place, with the column's name in the message left out.\<close>

definition put_metadata :: "shadow \<Rightarrow> nat \<Rightarrow> nat \<Rightarrow> meta_column \<Rightarrow> shadow" where
  "put_metadata s chunk_id idx col = (let c = s_chunks s ! (chunk_id - 1) in
     s\<lparr>s_chunks := (s_chunks s)[chunk_id - 1 := c\<lparr>c_metadata := (c_metadata c)[idx := m_data col]\<rparr>],
       s_long := (s_long s)[idx := m_long col]\<rparr>)"

definition write_metadata ::
  "conversions \<Rightarrow> vec0_vtab \<Rightarrow> shadow \<Rightarrow> nat \<Rightarrow> i64 \<Rightarrow> nat \<Rightarrow> nat \<Rightarrow> datum \<Rightarrow> bool \<Rightarrow> shadow result" where
  "write_metadata c p s idx rowid chunk_id chunk_offset v isupdate =
     on_ok (or_code SQLITE_ERROR (metadata_at s chunk_id idx)) (\<lambda>col.
     on_ok (of_outcome (vec0_write_metadata_value c (metadata_kind_at p idx) '''' col rowid chunk_offset v isupdate)) (\<lambda>col.
       Inr (put_metadata s chunk_id idx col)))"

fun insert_metadata ::
  "conversions \<Rightarrow> vec0_vtab \<Rightarrow> argument list \<Rightarrow> i64 \<Rightarrow> nat \<Rightarrow> nat \<Rightarrow> (nat \<times> nat) list \<Rightarrow> shadow \<Rightarrow> shadow result" where
  "insert_metadata c p args rowid chunk_id chunk_offset [] s = Inr s"
| "insert_metadata c p args rowid chunk_id chunk_offset ((i, idx) # cols) s =
     on_ok (or_code SQLITE_ERROR (user_arg args i)) (\<lambda>a.
     on_ok (write_metadata c p s idx rowid chunk_id chunk_offset (a_value a) False) (\<lambda>s.
       insert_metadata c p args rowid chunk_id chunk_offset cols s))"

text \<open>What the insertion does to the shadow tables once the vectors are read.\<close>

definition insert_row ::
  "conversions \<Rightarrow> vec0_vtab \<Rightarrow> argument list \<Rightarrow> datum list \<Rightarrow> u8 list list \<Rightarrow> shadow \<Rightarrow> (shadow \<times> i64) result" where
  "insert_row c p args keys vectorDatas s =
     on_ok (or_code SQLITE_ERROR (rd args 2)) (\<lambda>idArg.
     on_ok (vec0Update_InsertRowidStep p s (a_value idArg)) (\<lambda>(s, rowid).
     on_ok (vec0Update_InsertNextAvailableStep p s keys) (\<lambda>(s, chunk_rowid, chunk_offset, validity).
     on_ok (vec0Update_InsertWriteFinalStep p s chunk_rowid chunk_offset rowid vectorDatas validity) (\<lambda>s.
     on_ok (insert_aux p args rowid s) (\<lambda>s.
     on_ok (insert_metadata c p args rowid chunk_rowid chunk_offset (kind_columns METADATA p) s) (\<lambda>s.
       Inr (s, rowid)))))))"

definition hidden_set :: "vec0_vtab \<Rightarrow> argument list \<Rightarrow> bool option" where
  "hidden_set p args = do {
     distance \<leftarrow> rd args (nat (2 + vec0_column_distance_idx p));
     k \<leftarrow> rd args (nat (2 + vec0_column_k_idx p));
     Some (type_of (a_value distance) \<noteq> SQLITE_NULL \<or> type_of (a_value k) \<noteq> SQLITE_NULL) }"

definition vec0Update_Insert ::
  "strtod_fn \<Rightarrow> conversions \<Rightarrow> vec0_vtab \<Rightarrow> argument list \<Rightarrow> shadow \<Rightarrow> heap \<Rightarrow> ((shadow \<times> i64) result \<times> heap) option" where
  "vec0Update_Insert strtod c p args s h =
     (case read_keys p args (kind_columns PARTITION p) (replicate (numPartitionColumns p) DNull) of
        Inl e \<Rightarrow> Some (Inl e, h)
      | Inr keys \<Rightarrow> do {
          (e, vs, h) \<leftarrow> read_vectors strtod p args (kind_columns VECTOR p) [] h;
          hidden \<leftarrow> hidden_set p args;
          let r = (case e of Some e \<Rightarrow> Inl e
                   | None \<Rightarrow> if hidden then Inl SQLITE_ERROR else insert_row c p args keys (map v_data vs) s);
          h \<leftarrow> cleanup_all vs h;
          Some (r, h) })"

section \<open>Deletion\<close>

text \<open>
  The test of the validity bit shifts without a mask: it is the test that this bit or a higher one
  of the byte is set.
\<close>

definition vec0Update_Delete_ClearValidity :: "shadow \<Rightarrow> nat \<Rightarrow> nat \<Rightarrow> shadow result" where
  "vec0Update_Delete_ClearValidity s chunk_id chunk_offset =
     on_ok (or_code SQLITE_ERROR (chunk_at s chunk_id)) (\<lambda>c.
     on_ok (or_code SQLITE_ERROR (blob_read (c_validity c) 1 (chunk_offset div 8))) (\<lambda>block.
     let bx = hd block in
     if drop_bit (chunk_offset mod 8) bx = 0 then Inl SQLITE_ERROR
     else on_ok (or_code SQLITE_ERROR (blob_write (c_validity c) [bx AND NOT (push_bit (chunk_offset mod 8) 1)] (chunk_offset div 8)))
       (\<lambda>validity. Inr (s\<lparr>s_chunks := (s_chunks s)[chunk_id - 1 := c\<lparr>c_validity := validity\<rparr>]\<rparr>))))"

definition vec0Update_Delete_DeleteRowids :: "shadow \<Rightarrow> i64 \<Rightarrow> shadow" where
  "vec0Update_Delete_DeleteRowids s rowid = s\<lparr>s_rows := filter (\<lambda>(k, _). k \<noteq> rowid) (s_rows s)\<rparr>"

definition vec0Update_Delete_DeleteAux :: "shadow \<Rightarrow> i64 \<Rightarrow> shadow" where
  "vec0Update_Delete_DeleteAux s rowid = s\<lparr>s_aux := filter (\<lambda>(k, _). k \<noteq> rowid) (s_aux s)\<rparr>"

text \<open>The codes of the metadata columns are ignored.\<close>

fun clear_metadata :: "vec0_vtab \<Rightarrow> i64 \<Rightarrow> nat \<Rightarrow> nat \<Rightarrow> nat list \<Rightarrow> shadow \<Rightarrow> shadow" where
  "clear_metadata p rowid chunk_id chunk_offset [] s = s"
| "clear_metadata p rowid chunk_id chunk_offset (idx # idxs) s =
     (case metadata_at s chunk_id idx of
        None \<Rightarrow> clear_metadata p rowid chunk_id chunk_offset idxs s
      | Some col \<Rightarrow>
          clear_metadata p rowid chunk_id chunk_offset idxs (put_metadata s chunk_id idx
            (fst (vec0Update_Delete_ClearMetadata (metadata_kind_at p idx) col rowid chunk_offset))))"

definition vec0Update_Delete :: "conversions \<Rightarrow> vec0_vtab \<Rightarrow> datum \<Rightarrow> shadow \<Rightarrow> shadow result" where
  "vec0Update_Delete c p idValue s =
     on_ok (if pkIsText p then vec0_rowid_from_id s idValue else Inr (value_int64 c idValue)) (\<lambda>rowid.
     on_ok (vec0_get_chunk_position s rowid) (\<lambda>(_, chunk_id, chunk_offset).
     on_ok (vec0Update_Delete_ClearValidity s chunk_id chunk_offset) (\<lambda>s.
     let s = vec0Update_Delete_DeleteRowids s rowid;
         s = (if numAuxiliaryColumns p > 0 then vec0Update_Delete_DeleteAux s rowid else s)
     in Inr (clear_metadata p rowid chunk_id chunk_offset [0..<numMetadataColumns p] s))))"

section \<open>Update\<close>

definition vec0Update_UpdateAuxColumn :: "shadow \<Rightarrow> nat \<Rightarrow> datum \<Rightarrow> i64 \<Rightarrow> shadow" where
  "vec0Update_UpdateAuxColumn s idx v rowid =
     s\<lparr>s_aux := map (\<lambda>(k, values). (k, if k = rowid then values[idx := v] else values)) (s_aux s)\<rparr>"

definition vec0Update_UpdateVectorColumn ::
  "strtod_fn \<Rightarrow> vec0_vtab \<Rightarrow> nat \<Rightarrow> nat \<Rightarrow> nat \<Rightarrow> argument \<Rightarrow> shadow \<Rightarrow> heap \<Rightarrow> (shadow result \<times> heap) option" where
  "vec0Update_UpdateVectorColumn strtod p chunk_id chunk_offset i a s h = do {
     (r, h) \<leftarrow> vector_from_value strtod (sql_value_of a) h;
     (case r of
        Fail _ \<Rightarrow> Some (Inl SQLITE_ERROR, h)
      | Done (v, ty) \<Rightarrow> do {
          h \<leftarrow> cleanup v h;
          let col = vector_column_at p i;
          Some (if ty \<noteq> element_type col \<or> v_dims v \<noteq> dimensions col then Inl SQLITE_ERROR
            else on_ok (or_code SQLITE_ERROR (do { c \<leftarrow> chunk_at s chunk_id; blob \<leftarrow> rd (c_vectors c) i; Some (c, blob) })) (\<lambda>(c, blob).
              on_ok (or_code SQLITE_ERROR (vec0_write_vector_to_vector_blob blob chunk_offset (v_data v) (dimensions col) (element_type col))) (\<lambda>blob.
                Inr (s\<lparr>s_chunks := (s_chunks s)[chunk_id - 1 := c\<lparr>c_vectors := (c_vectors c)[i := blob]\<rparr>]\<rparr>))), h) }) }"

fun update_aux :: "argument list \<Rightarrow> i64 \<Rightarrow> (nat \<times> nat) list \<Rightarrow> shadow \<Rightarrow> shadow result" where
  "update_aux args rowid [] s = Inr s"
| "update_aux args rowid ((i, idx) # cols) s =
     on_ok (or_code SQLITE_ERROR (user_arg args i)) (\<lambda>a.
       update_aux args rowid cols (if a_nochange a then s else vec0Update_UpdateAuxColumn s idx (a_value a) rowid))"

fun update_metadata ::
  "conversions \<Rightarrow> vec0_vtab \<Rightarrow> argument list \<Rightarrow> i64 \<Rightarrow> nat \<Rightarrow> nat \<Rightarrow> (nat \<times> nat) list \<Rightarrow> shadow \<Rightarrow> shadow result" where
  "update_metadata c p args rowid chunk_id chunk_offset [] s = Inr s"
| "update_metadata c p args rowid chunk_id chunk_offset ((i, idx) # cols) s =
     on_ok (or_code SQLITE_ERROR (user_arg args i)) (\<lambda>a.
     on_ok (if a_nochange a then Inr s else write_metadata c p s idx rowid chunk_id chunk_offset (a_value a) True) (\<lambda>s.
       update_metadata c p args rowid chunk_id chunk_offset cols s))"

text \<open>A vector column whose new value is \<open>NULL\<close> is left as it is.\<close>

fun update_vectors ::
  "strtod_fn \<Rightarrow> vec0_vtab \<Rightarrow> argument list \<Rightarrow> nat \<Rightarrow> nat \<Rightarrow> (nat \<times> nat) list \<Rightarrow> shadow \<Rightarrow> heap \<Rightarrow> (shadow result \<times> heap) option" where
  "update_vectors strtod p args chunk_id chunk_offset [] s h = Some (Inr s, h)"
| "update_vectors strtod p args chunk_id chunk_offset ((i, idx) # cols) s h = do {
     a \<leftarrow> user_arg args i;
     if type_of (a_value a) = SQLITE_NULL then update_vectors strtod p args chunk_id chunk_offset cols s h
     else do {
       (r, h) \<leftarrow> vec0Update_UpdateVectorColumn strtod p chunk_id chunk_offset idx a s h;
       (case r of Inl _ \<Rightarrow> Some (Inl SQLITE_ERROR, h) | Inr s \<Rightarrow> update_vectors strtod p args chunk_id chunk_offset cols s h) } }"

text \<open>The row id of an update; a text key may not change.\<close>

definition update_rowid :: "conversions \<Rightarrow> vec0_vtab \<Rightarrow> shadow \<Rightarrow> datum \<Rightarrow> datum \<Rightarrow> i64 result" where
  "update_rowid c p s old new =
     (if pkIsText p then
        (let a = value_text c old; b = value_text c new in
         if length a \<noteq> length b \<or> strncmp_bytes (a @ [0]) (b @ [0]) (length a) \<noteq> Some 0 then Inl SQLITE_ERROR
         else vec0_rowid_from_id s old)
      else Inr (value_int64 c old))"

definition vec0Update_Update ::
  "strtod_fn \<Rightarrow> conversions \<Rightarrow> vec0_vtab \<Rightarrow> argument list \<Rightarrow> shadow \<Rightarrow> heap \<Rightarrow> (shadow result \<times> heap) option" where
  "vec0Update_Update strtod c p args s h = do {
     old \<leftarrow> rd args 0;
     new \<leftarrow> rd args 1;
     (case on_ok (update_rowid c p s (a_value old) (a_value new)) (\<lambda>rowid.
        on_ok (vec0_get_chunk_position s rowid) (\<lambda>(_, chunk_id, chunk_offset).
        if \<exists>(i, _) \<in> set (kind_columns PARTITION p). (case user_arg args i of None \<Rightarrow> False | Some a \<Rightarrow> \<not> a_nochange a) then Inl SQLITE_ERROR
        else on_ok (update_aux args rowid (kind_columns AUXILIARY p) s) (\<lambda>s.
          on_ok (update_metadata c p args rowid chunk_id chunk_offset (kind_columns METADATA p) s) (\<lambda>s.
            Inr (s, chunk_id, chunk_offset))))) of
        Inl e \<Rightarrow> Some (Inl e, h)
      | Inr (s, chunk_id, chunk_offset) \<Rightarrow> update_vectors strtod p args chunk_id chunk_offset (kind_columns VECTOR p) s h) }"

section \<open>The operation of xUpdate\<close>

definition vec0Update ::
  "strtod_fn \<Rightarrow> conversions \<Rightarrow> vec0_vtab \<Rightarrow> argument list \<Rightarrow> shadow \<Rightarrow> heap \<Rightarrow> (shadow result \<times> heap) option" where
  "vec0Update strtod c p args s h = do {
     a \<leftarrow> rd args 0;
     if length args = 1 \<and> type_of (a_value a) \<noteq> SQLITE_NULL then Some (vec0Update_Delete c p (a_value a) s, h)
     else if 1 < length args \<and> type_of (a_value a) = SQLITE_NULL then
       map_option (\<lambda>(r, h). (on_ok r (\<lambda>(s, _). Inr s), h)) (vec0Update_Insert strtod c p args s h)
     else if 1 < length args then vec0Update_Update strtod c p args s h
     else Some (Inl SQLITE_ERROR, h) }"

definition empty_shadow :: "vec0_vtab \<Rightarrow> shadow" where
  "empty_shadow p = \<lparr>s_rows = [], s_last = 0, s_chunks = [], s_aux = [], s_long = replicate (numMetadataColumns p) Map.empty\<rparr>"

end
