(* ===== verification/VecFrame.thy ===== *)
theory VecFrame
  imports VecTable
begin

text \<open>
  Frames of the shadow tables: an operation on the row \<open>r\<close> at one position of one chunk leaves every
  other row, every other position and every other chunk as they were. Frames compose, so a whole
  insertion, deletion or update has one.
\<close>

section \<open>Sizes\<close>

text \<open>The index of the columns of a kind is their order among those of the kind.\<close>

definition in_order :: "vec0_vtab \<Rightarrow> bool" where
  "in_order p \<longleftrightarrow> (\<forall>kind. map snd (kind_columns kind p) = [0..<column_count kind p])"

definition table_ok :: "vec0_vtab \<Rightarrow> bool" where
  "table_ok p \<longleftrightarrow> vtab_ok p \<and> 0 < numVectorColumns p \<and> chunk_ok (chunk_size p)"

text \<open>Every table the constructor accepts is of this form, with its columns in order.\<close>

lemma table_ok_init: "vec0_init oom tok m argv = Some (Inr p) \<Longrightarrow> table_ok p"
  using init_well_formed by (simp add: table_ok_def)

lemma table_in_order:
  assumes "table_ok p"
  shows "in_order p"
proof -
  let ?n = "vec0_num_defined_user_columns p"
  have l: "length (user_column_kinds p) = 52" "length (user_column_idxs p) = 52" "?n \<le> 52"
    and order: "map snd (filter (\<lambda>c. fst c = Some k) (user_columns p ?n)) = [0..<column_count k p]" for k
    using assms user_columns_bound [of p] by (auto simp: table_ok_def vtab_ok_def listed_def)
  have "user_columns p ?n = map (\<lambda>i. (user_column_kinds p ! i, user_column_idxs p ! i)) [0..<?n]"
    using l by (intro nth_equalityI) (simp_all add: user_columns_def)
  then show ?thesis using order by (simp add: in_order_def kind_columns_def filter_map comp_def)
qed

definition vector_size :: "vec0_vtab \<Rightarrow> nat \<Rightarrow> nat" where
  "vector_size p x = vector_column_byte_size (vector_column_at p x)"

definition sized_chunk :: "vec0_vtab \<Rightarrow> chunk \<Rightarrow> bool" where
  "sized_chunk p c \<longleftrightarrow>
     8 * length (c_validity c) = rows_per_chunk p \<and> length (c_rowids c) = rows_per_chunk p \<and>
     length (c_partition c) = numPartitionColumns p \<and>
     length (c_vectors c) = numVectorColumns p \<and>
     (\<forall>x<numVectorColumns p. length (c_vectors c ! x) = rows_per_chunk p * vector_size p x) \<and>
     length (c_metadata c) = numMetadataColumns p \<and>
     (\<forall>x<numMetadataColumns p. length (c_metadata c ! x) = vec0_metadata_chunk_size (metadata_kind_at p x) (rows_per_chunk p))"

definition sized_table :: "vec0_vtab \<Rightarrow> shadow \<Rightarrow> bool" where
  "sized_table p s \<longleftrightarrow> (\<forall>c\<in>set (s_chunks s). sized_chunk p c) \<and> length (s_long s) = numMetadataColumns p"

lemma rows_per_chunk: "table_ok p \<Longrightarrow> 0 < rows_per_chunk p \<and> rows_per_chunk p mod 8 = 0 \<and> rows_per_chunk p \<le> 4096"
  unfolding table_ok_def chunk_ok_def rows_per_chunk_def using nat_mod_distrib [of "chunk_size p" 8] by (simp add: nat_le_iff)

lemma chunk_at_Some: "chunk_at s k = Some c \<longleftrightarrow> 0 < k \<and> k \<le> length (s_chunks s) \<and> c = s_chunks s ! (k - 1)"
  by (auto simp: chunk_at_def rd_def)

lemma chunk_at_None: "chunk_at s k = None \<longleftrightarrow> k = 0 \<or> length (s_chunks s) < k"
  by (auto simp: chunk_at_def rd_def)

lemma chunk_at_sized: "sized_table p s \<Longrightarrow> chunk_at s k = Some c \<Longrightarrow> sized_chunk p c"
  by (auto simp: sized_table_def chunk_at_Some)

lemma chunk_at_put:
  assumes "chunk_at s k = Some c"
  shows "chunk_at (s\<lparr>s_chunks := (s_chunks s)[k - 1 := c']\<rparr>) k' = (if k' = k then Some c' else chunk_at s k')"
  using assms by (auto simp: chunk_at_def rd_def nth_list_update split: if_splits)

section \<open>Frames\<close>

text \<open>Position \<open>j\<close> is the same in two chunks.\<close>

definition same_at :: "vec0_vtab \<Rightarrow> chunk \<Rightarrow> chunk \<Rightarrow> nat \<Rightarrow> bool" where
  "same_at p c c' j \<longleftrightarrow> (j \<in> bits_of (c_validity c') \<longleftrightarrow> j \<in> bits_of (c_validity c)) \<and> c_rowids c' ! j = c_rowids c ! j \<and>
     (\<forall>x<numVectorColumns p. slot (vector_size p x) j (c_vectors c' ! x) = slot (vector_size p x) j (c_vectors c ! x)) \<and>
     (\<forall>x<numMetadataColumns p. cell (metadata_kind_at p x) (c_metadata c' ! x) j = cell (metadata_kind_at p x) (c_metadata c ! x) j)"

definition same_chunk :: "vec0_vtab \<Rightarrow> chunk \<Rightarrow> chunk \<Rightarrow> (nat \<Rightarrow> bool) \<Rightarrow> bool" where
  "same_chunk p c c' P \<longleftrightarrow> c_partition c' = c_partition c \<and> (\<forall>j<rows_per_chunk p. P j \<longrightarrow> same_at p c c' j)"

text \<open>A position no row has: its validity bit is not set, and its texts are empty.\<close>

definition blank_at :: "vec0_vtab \<Rightarrow> chunk \<Rightarrow> nat \<Rightarrow> bool" where
  "blank_at p c j \<longleftrightarrow> j \<notin> bits_of (c_validity c) \<and>
     (\<forall>x<numMetadataColumns p. metadata_kind_at p x = KIND_TEXT \<longrightarrow> cell KIND_TEXT (c_metadata c ! x) j = (replicate VIEW_BUFFER_LENGTH 0, False))"

text \<open>
  Every chunk stays, with every position other than \<open>i\<close> of chunk \<open>k\<close>; a new chunk is blank but for
  that position; rows, auxiliary values and long texts of other row ids stay.
\<close>

definition frame :: "vec0_vtab \<Rightarrow> i64 \<Rightarrow> nat \<Rightarrow> nat \<Rightarrow> shadow \<Rightarrow> shadow \<Rightarrow> bool" where
  "frame p r k i s s' \<longleftrightarrow>
     (\<forall>k' c. chunk_at s k' = Some c \<longrightarrow> (\<exists>c'. chunk_at s' k' = Some c' \<and> same_chunk p c c' (\<lambda>j. (k', j) \<noteq> (k, i)))) \<and>
     (\<forall>k' c' j. chunk_at s k' = None \<longrightarrow> chunk_at s' k' = Some c' \<longrightarrow> j < rows_per_chunk p \<longrightarrow> (k', j) \<noteq> (k, i) \<longrightarrow> blank_at p c' j) \<and>
     (\<forall>r'. r' \<noteq> r \<longrightarrow> map_of (s_rows s') r' = map_of (s_rows s) r') \<and>
     (\<forall>r'. r' \<noteq> r \<longrightarrow> map_of (s_aux s') r' = map_of (s_aux s) r') \<and>
     length (s_long s') = length (s_long s) \<and>
     (\<forall>x<length (s_long s). \<forall>r'. r' \<noteq> r \<longrightarrow> (s_long s' ! x) r' = (s_long s ! x) r')"

lemma same_at_refl [simp]: "same_at p c c j"
  by (simp add: same_at_def)

lemma same_at_blank: "same_at p c c' j \<Longrightarrow> blank_at p c' j \<longleftrightarrow> blank_at p c j"
  by (auto simp: same_at_def blank_at_def)

lemma same_at_trans: "same_at p c c' j \<Longrightarrow> same_at p c' c'' j \<Longrightarrow> same_at p c c'' j"
  by (simp add: same_at_def)

lemma same_chunk_trans: "same_chunk p c c' P \<Longrightarrow> same_chunk p c' c'' P \<Longrightarrow> same_chunk p c c'' P"
  unfolding same_chunk_def using same_at_trans by metis

lemma frame_chunk:
  assumes "frame p r k i s s'" "chunk_at s k' = Some c"
  obtains c' where "chunk_at s' k' = Some c'" "same_chunk p c c' (\<lambda>j. (k', j) \<noteq> (k, i))"
  using assms unfolding frame_def by blast

lemma frame_refl [simp]: "frame p r k i s s"
  by (auto simp: frame_def same_chunk_def)

text \<open>New chunks stay sized, so that their bits are positions.\<close>

lemma frame_trans:
  assumes 1: "frame p r k i s s'" and 2: "frame p r k i s' s''" and sized: "sized_table p s''"
  shows "frame p r k i s s''"
proof -
  have "\<exists>c''. chunk_at s'' k' = Some c'' \<and> same_chunk p c c'' (\<lambda>j. (k', j) \<noteq> (k, i))" if c: "chunk_at s k' = Some c" for k' c
  proof -
    obtain c' where c': "chunk_at s' k' = Some c'" "same_chunk p c c' (\<lambda>j. (k', j) \<noteq> (k, i))" by (rule frame_chunk [OF 1 c])
    obtain c'' where "chunk_at s'' k' = Some c''" "same_chunk p c' c'' (\<lambda>j. (k', j) \<noteq> (k, i))" by (rule frame_chunk [OF 2 c'(1)])
    then show ?thesis using same_chunk_trans [OF c'(2)] by blast
  qed
  moreover have "blank_at p c'' j"
    if new: "chunk_at s k' = None" "chunk_at s'' k' = Some c''" "j < rows_per_chunk p" "(k', j) \<noteq> (k, i)" for k' c'' j
  proof (cases "chunk_at s' k'")
    case None
    then show ?thesis using 2 new(2-4) unfolding frame_def by blast
  next
    case (Some c')
    obtain d where d: "chunk_at s'' k' = Some d" "same_chunk p c' d (\<lambda>j. (k', j) \<noteq> (k, i))" by (rule frame_chunk [OF 2 Some])
    have "blank_at p c' j" using 1 new(1,3,4) Some unfolding frame_def by blast
    then show ?thesis using same_at_blank [of p c' d j] d new(2-4) by (simp add: same_chunk_def)
  qed
  moreover have "\<forall>r'. r' \<noteq> r \<longrightarrow> map_of (s_rows s'') r' = map_of (s_rows s) r'"
    "\<forall>r'. r' \<noteq> r \<longrightarrow> map_of (s_aux s'') r' = map_of (s_aux s) r'" "length (s_long s'') = length (s_long s)"
    "\<forall>x<length (s_long s). \<forall>r'. r' \<noteq> r \<longrightarrow> (s_long s'' ! x) r' = (s_long s ! x) r'"
    using 1 2 unfolding frame_def by simp_all
  ultimately show ?thesis unfolding frame_def by blast
qed

text \<open>A change of one chunk, of the rows, and of the long texts of a column.\<close>

lemma frame_put_chunk:
  assumes "chunk_at s k = Some c" "same_chunk p c c' (\<lambda>j. j \<noteq> i)"
  shows "frame p r k i s (s\<lparr>s_chunks := (s_chunks s)[k - 1 := c']\<rparr>)"
proof -
  have "same_chunk p c c (\<lambda>j. P j)" for c P by (simp add: same_chunk_def)
  then show ?thesis using assms unfolding frame_def chunk_at_put [OF assms(1)] by (auto simp: same_chunk_def)
qed

lemma frame_rows:
  assumes "\<And>r'. r' \<noteq> r \<Longrightarrow> map_of rows r' = map_of (s_rows s) r'"
  shows "frame p r k i s (s\<lparr>s_rows := rows\<rparr>)" "frame p r k i s (s\<lparr>s_rows := rows, s_last := l\<rparr>)"
  using assms by (auto simp: frame_def same_chunk_def chunk_at_def)

lemma frame_aux:
  "(\<And>r'. r' \<noteq> r \<Longrightarrow> map_of aux r' = map_of (s_aux s) r') \<Longrightarrow> frame p r k i s (s\<lparr>s_aux := aux\<rparr>)"
  by (auto simp: frame_def same_chunk_def chunk_at_def)

lemma frame_new_chunk:
  assumes "\<forall>j<rows_per_chunk p. blank_at p c j"
  shows "frame p r k i s (s\<lparr>s_chunks := s_chunks s @ [c]\<rparr>)"
  using assms by (auto simp: frame_def same_chunk_def chunk_at_def rd_def nth_append split: if_splits)

section \<open>What a frame keeps of a row\<close>

text \<open>All a reader sees of a row.\<close>

definition reads :: "vec0_vtab \<Rightarrow> shadow \<Rightarrow> i64 \<Rightarrow>
    datum result \<times> u8 list result list \<times> datum result list \<times> datum result list \<times> datum result list" where
  "reads p s r = (vec0_result_id p s r,
     map (vec0_get_vector_data p s r) [0..<numVectorColumns p],
     map (vec0_get_partition_value_for_rowid s r) [0..<numPartitionColumns p],
     map (vec0_get_auxiliary_value_for_rowid s r) [0..<numAuxiliaryColumns p],
     map (result_metadata p s r) [0..<numMetadataColumns p])"

definition placed :: "vec0_vtab \<Rightarrow> shadow \<Rightarrow> i64 \<Rightarrow> rowids_entry \<Rightarrow> bool" where
  "placed p s r e \<longleftrightarrow> r_offset e < rows_per_chunk p \<and>
     (\<exists>c. chunk_at s (r_chunk e) = Some c \<and> r_offset e \<in> bits_of (c_validity c) \<and> c_rowids c ! r_offset e = r)"

lemma metadata_at_sized:
  assumes "sized_table p s" "table_ok p" "chunk_at s k = Some c" "x < numMetadataColumns p"
  shows "metadata_at s k x = Some \<lparr>m_data = c_metadata c ! x, m_long = s_long s ! x\<rparr>"
    "sized_column (metadata_kind_at p x) (rows_per_chunk p) \<lparr>m_data = c_metadata c ! x, m_long = s_long s ! x\<rparr>"
  using assms chunk_at_sized [OF assms(1,3)] rows_per_chunk [OF assms(2)]
  by (simp_all add: metadata_at_def sized_table_def sized_chunk_def sized_column_def)

lemma vector_at_sized:
  assumes "sized_table p s" "chunk_at s k = Some c" "x < numVectorColumns p" "j < rows_per_chunk p"
  shows "rd (c_vectors c) x = Some (c_vectors c ! x)"
    "blob_read (c_vectors c ! x) (vector_size p x) (j * vector_size p x) = Some (slot (vector_size p x) j (c_vectors c ! x))"
    "j * vector_size p x + vector_size p x \<le> length (c_vectors c ! x)"
proof -
  have l: "length (c_vectors c) = numVectorColumns p" "length (c_vectors c ! x) = rows_per_chunk p * vector_size p x"
    using chunk_at_sized [OF assms(1,2)] assms(3) by (simp_all add: sized_chunk_def)
  show f: "j * vector_size p x + vector_size p x \<le> length (c_vectors c ! x)" by (rule slot_fits [OF assms(4) l(2)])
  show "rd (c_vectors c) x = Some (c_vectors c ! x)" using assms(3) l by simp
  show "blob_read (c_vectors c ! x) (vector_size p x) (j * vector_size p x) = Some (slot (vector_size p x) j (c_vectors c ! x))"
    by (rule blob_read_slot [OF f])
qed

lemma reads_same:
  assumes "table_ok p" "sized_table p s" "sized_table p s'" "placed p s r e"
    and rows: "map_of (s_rows s) r = Some e" "map_of (s_rows s') r = Some e"
    and aux: "map_of (s_aux s') r = map_of (s_aux s) r"
    and long: "\<And>x. x < numMetadataColumns p \<Longrightarrow> (s_long s' ! x) r = (s_long s ! x) r"
    and chunks: "chunk_at s (r_chunk e) = Some c" "chunk_at s' (r_chunk e) = Some c'" "c_partition c' = c_partition c"
      "same_at p c c' (r_offset e)"
  shows "reads p s' r = reads p s r"
proof -
  have i: "r_offset e < rows_per_chunk p" using assms(4) by (simp add: placed_def)
  have pos: "vec0_get_chunk_position s r = Inr (r_id e, r_chunk e, r_offset e)"
    "vec0_get_chunk_position s' r = Inr (r_id e, r_chunk e, r_offset e)" by (simp_all add: vec0_get_chunk_position_def rows)
  have "vec0_get_vector_data p s' r x = vec0_get_vector_data p s r x" if "x < numVectorColumns p" for x
    using vector_at_sized [OF assms(2) chunks(1) that i] vector_at_sized [OF assms(3) chunks(2) that i] chunks that
    by (simp add: vec0_get_vector_data_def pos same_at_def flip: vector_size_def)
  moreover have "result_metadata p s' r x = result_metadata p s r x" if "x < numMetadataColumns p" for x
    using metadata_at_sized [OF assms(2,1) chunks(1) that] metadata_at_sized [OF assms(3,1) chunks(2) that] chunks(4) that long
      read_eq [of "metadata_kind_at p x" "rows_per_chunk p" "\<lparr>m_data = c_metadata c ! x, m_long = s_long s ! x\<rparr>"
        "\<lparr>m_data = c_metadata c' ! x, m_long = s_long s' ! x\<rparr>" "r_offset e" r] i
    by (simp add: result_metadata_def pos same_at_def)
  ultimately show ?thesis
    by (simp add: reads_def vec0_result_id_def vec0_get_id_value_from_rowid_def pos vec0_get_partition_value_for_rowid_def
        chunks vec0_get_auxiliary_value_for_rowid_def aux)
qed

end
