(* ===== verification/VecRows.thy ===== *)
theory VecRows
  imports VecFrame
begin

text \<open>
  The invariant of the shadow tables and what insertion, deletion and update do to the rows: each
  keeps the invariant, changes the row it names and leaves what is read of every other row.
\<close>

section \<open>The invariant\<close>

definition meta_view :: "shadow \<Rightarrow> nat \<Rightarrow> nat \<Rightarrow> meta_column" where
  "meta_view s k x = \<lparr>m_data = c_metadata (the (chunk_at s k)) ! x, m_long = s_long s ! x\<rparr>"

text \<open>Every metadata column holds a value of its kind for the row.\<close>

definition stored_row :: "vec0_vtab \<Rightarrow> shadow \<Rightarrow> i64 \<Rightarrow> rowids_entry \<Rightarrow> bool" where
  "stored_row p s r e \<longleftrightarrow> (\<forall>x<numMetadataColumns p.
     (\<exists>v. stored_at (metadata_kind_at p x) (meta_view s (r_chunk e) x) r (r_offset e) v) \<and>
     slot_ready (metadata_kind_at p x) (meta_view s (r_chunk e) x) r (r_offset e) True)"

definition aux_ok :: "vec0_vtab \<Rightarrow> shadow \<Rightarrow> bool" where
  "aux_ok p s \<longleftrightarrow> (\<forall>r. map_of (s_aux s) r \<noteq> None \<longleftrightarrow> 0 < numAuxiliaryColumns p \<and> map_of (s_rows s) r \<noteq> None) \<and>
     (\<forall>r vs. map_of (s_aux s) r = Some vs \<longrightarrow> length vs = numAuxiliaryColumns p)"

text \<open>
  Every row has a row id and a position of its own with its validity bit set and its row id in the
  chunk, every such bit belongs to a row, the other positions are blank, and no value is kept for a
  row that is not there.
\<close>

definition consistent :: "vec0_vtab \<Rightarrow> shadow \<Rightarrow> bool" where
  "consistent p s \<longleftrightarrow> sized_table p s \<and>
     (\<forall>r e. map_of (s_rows s) r = Some e \<longrightarrow> placed p s r e \<and> stored_row p s r e \<and> sint r \<le> sint (s_last s)) \<and>
     (\<forall>k c j. chunk_at s k = Some c \<longrightarrow> j \<in> bits_of (c_validity c) \<longrightarrow>
        (\<exists>e. map_of (s_rows s) (c_rowids c ! j) = Some e \<and> r_chunk e = k \<and> r_offset e = j)) \<and>
     aux_ok p s \<and> distinct (map fst (s_rows s)) \<and>
     (\<forall>k c j. chunk_at s k = Some c \<longrightarrow> j < rows_per_chunk p \<longrightarrow> j \<notin> bits_of (c_validity c) \<longrightarrow> blank_at p c j) \<and>
     (\<forall>r x. map_of (s_rows s) r = None \<longrightarrow> x < numMetadataColumns p \<longrightarrow> metadata_kind_at p x = KIND_TEXT \<longrightarrow> (s_long s ! x) r = None)"

lemma consistentD:
  assumes "consistent p s"
  shows "sized_table p s" "map_of (s_rows s) r = Some e \<Longrightarrow> placed p s r e" "map_of (s_rows s) r = Some e \<Longrightarrow> stored_row p s r e"
    "map_of (s_rows s) r = Some e \<Longrightarrow> sint r \<le> sint (s_last s)"
    "chunk_at s k = Some c \<Longrightarrow> j \<in> bits_of (c_validity c) \<Longrightarrow>
       \<exists>e. map_of (s_rows s) (c_rowids c ! j) = Some e \<and> r_chunk e = k \<and> r_offset e = j"
    "aux_ok p s" "map_of (s_rows s) r = None \<Longrightarrow> x < numMetadataColumns p \<Longrightarrow> metadata_kind_at p x = KIND_TEXT \<Longrightarrow> (s_long s ! x) r = None"
    "distinct (map fst (s_rows s))"
    "chunk_at s k = Some c \<Longrightarrow> j < rows_per_chunk p \<Longrightarrow> j \<notin> bits_of (c_validity c) \<Longrightarrow> blank_at p c j"
  using assms unfolding consistent_def by blast+

text \<open>Two rows never share a position.\<close>

lemma position_unique:
  assumes "placed p s r e" "placed p s r' e'" "r_chunk e = r_chunk e'" "r_offset e = r_offset e'"
  shows "r = r'"
  using assms by (auto simp: placed_def)

section \<open>The other rows\<close>

lemma meta_view_same:
  assumes "table_ok p" "sized_table p s" "sized_table p s'" "chunk_at s k = Some c" "chunk_at s' k = Some c'" "same_at p c c' j"
    "j < rows_per_chunk p" "x < numMetadataColumns p" "(s_long s' ! x) r = (s_long s ! x) r"
  shows "stored_at (metadata_kind_at p x) (meta_view s' k x) r j v = stored_at (metadata_kind_at p x) (meta_view s k x) r j v"
    "slot_ready (metadata_kind_at p x) (meta_view s' k x) r j u = slot_ready (metadata_kind_at p x) (meta_view s k x) r j u"
proof -
  have v: "meta_view s k x = \<lparr>m_data = c_metadata c ! x, m_long = s_long s ! x\<rparr>"
    "meta_view s' k x = \<lparr>m_data = c_metadata c' ! x, m_long = s_long s' ! x\<rparr>" by (simp_all add: meta_view_def assms(4,5))
  note z = metadata_at_sized(2) [OF assms(2,1,4,8)] metadata_at_sized(2) [OF assms(3,1,5,8)]
  show "stored_at (metadata_kind_at p x) (meta_view s' k x) r j v = stored_at (metadata_kind_at p x) (meta_view s k x) r j v"
    "slot_ready (metadata_kind_at p x) (meta_view s' k x) r j u = slot_ready (metadata_kind_at p x) (meta_view s k x) r j u"
    unfolding v using cell_stored [OF z assms(7)] assms(6,8,9) by (auto simp: same_at_def)
qed

lemma others_kept:
  assumes ok: "table_ok p" and con: "consistent p s" and frame: "frame p r k i s s'" and sized: "sized_table p s'"
    and free: "\<And>r' e. map_of (s_rows s) r' = Some e \<Longrightarrow> r' \<noteq> r \<Longrightarrow> (r_chunk e, r_offset e) \<noteq> (k, i)"
    and row: "map_of (s_rows s) r' = Some e" "r' \<noteq> r"
  shows "map_of (s_rows s') r' = Some e" "placed p s' r' e" "stored_row p s' r' e" "reads p s' r' = reads p s r'"
proof -
  note pl = consistentD(2) [OF con row(1)]
  then obtain c where c: "chunk_at s (r_chunk e) = Some c" "r_offset e \<in> bits_of (c_validity c)" "c_rowids c ! r_offset e = r'"
    and i: "r_offset e < rows_per_chunk p" unfolding placed_def by blast
  obtain c' where c': "chunk_at s' (r_chunk e) = Some c'" "same_chunk p c c' (\<lambda>j. (r_chunk e, j) \<noteq> (k, i))"
    by (rule frame_chunk [OF frame c(1)])
  have same: "same_at p c c' (r_offset e)" "c_partition c' = c_partition c"
    using c'(2) i free [OF row] by (auto simp: same_chunk_def)
  show rows': "map_of (s_rows s') r' = Some e" using frame row unfolding frame_def by simp
  have nlong: "length (s_long s) = numMetadataColumns p" using consistentD(1) [OF con] by (simp add: sized_table_def)
  have long: "(s_long s' ! x) r' = (s_long s ! x) r'" if "x < numMetadataColumns p" for x
    using frame row(2) that nlong unfolding frame_def by simp
  have aux: "map_of (s_aux s') r' = map_of (s_aux s) r'" using frame row(2) unfolding frame_def by simp
  show "placed p s' r' e" unfolding placed_def using i c' c same(1) by (auto simp: same_at_def)
  show "stored_row p s' r' e"
    unfolding stored_row_def
  proof (intro allI impI)
    fix x assume x: "x < numMetadataColumns p"
    note m = meta_view_same [OF ok consistentD(1) [OF con] sized c(1) c'(1) same(1) i x long [OF x]]
    show "(\<exists>v. stored_at (metadata_kind_at p x) (meta_view s' (r_chunk e) x) r' (r_offset e) v) \<and>
      slot_ready (metadata_kind_at p x) (meta_view s' (r_chunk e) x) r' (r_offset e) True"
      unfolding m using consistentD(3) [OF con row(1)] x unfolding stored_row_def by blast
  qed
  show "reads p s' r' = reads p s r'"
    by (rule reads_same [OF ok consistentD(1) [OF con] sized pl row(1) rows' aux long c(1) c'(1) same(2,1)])
qed

lemma bits_kept:
  assumes con: "consistent p s" and frame: "frame p r k i s s'" and sized: "sized_table p s'"
    and here: "\<And>e. map_of (s_rows s) r = Some e \<Longrightarrow> r_chunk e = k \<and> r_offset e = i"
    and bit: "chunk_at s' k' = Some c'" "j \<in> bits_of (c_validity c')" "(k', j) \<noteq> (k, i)"
  shows "\<exists>e. map_of (s_rows s') (c_rowids c' ! j) = Some e \<and> r_chunk e = k' \<and> r_offset e = j"
proof -
  have j: "j < rows_per_chunk p" using chunk_at_sized [OF sized bit(1)] bits_of_bound [OF bit(2)] by (simp add: sized_chunk_def)
  have "blank_at p c' j" if "chunk_at s k' = None" using frame that bit(1,3) j unfolding frame_def by blast
  then obtain c where c: "chunk_at s k' = Some c" using bit(2) unfolding blank_at_def by blast
  obtain d where "chunk_at s' k' = Some d" "same_chunk p c d (\<lambda>j. (k', j) \<noteq> (k, i))" by (rule frame_chunk [OF frame c])
  then have same: "same_at p c c' j" using bit(1,3) j by (auto simp: same_chunk_def)
  then obtain e where e: "map_of (s_rows s) (c_rowids c ! j) = Some e" "r_chunk e = k'" "r_offset e = j"
    using consistentD(5) [OF con c, of j] bit(2) by (auto simp: same_at_def)
  have "c_rowids c ! j \<noteq> r" using here e bit(3) by auto
  then have "map_of (s_rows s') (c_rowids c ! j) = Some e" using frame e(1) unfolding frame_def by simp
  then show ?thesis using e same by (auto simp: same_at_def)
qed

text \<open>The invariant after an operation on one row, from what holds of that row.\<close>

lemma consistent_step:
  assumes ok: "table_ok p" and con: "consistent p s" and frame: "frame p r k i s s'" and sized: "sized_table p s'"
    and free: "\<And>r' e. map_of (s_rows s) r' = Some e \<Longrightarrow> r' \<noteq> r \<Longrightarrow> (r_chunk e, r_offset e) \<noteq> (k, i)"
    and here: "\<And>e. map_of (s_rows s) r = Some e \<Longrightarrow> r_chunk e = k \<and> r_offset e = i"
    and row: "\<And>e. map_of (s_rows s') r = Some e \<Longrightarrow> placed p s' r e \<and> stored_row p s' r e \<and> sint r \<le> sint (s_last s')"
    and last: "sint (s_last s) \<le> sint (s_last s')"
    and bit: "\<And>c. chunk_at s' k = Some c \<Longrightarrow> i \<in> bits_of (c_validity c) \<Longrightarrow>
      \<exists>e. map_of (s_rows s') (c_rowids c ! i) = Some e \<and> r_chunk e = k \<and> r_offset e = i"
    and aux: "map_of (s_aux s') r \<noteq> None \<longleftrightarrow> 0 < numAuxiliaryColumns p \<and> map_of (s_rows s') r \<noteq> None"
      "\<And>vs. map_of (s_aux s') r = Some vs \<Longrightarrow> length vs = numAuxiliaryColumns p"
    and keys: "distinct (map fst (s_rows s'))"
    and blank: "\<And>c. chunk_at s' k = Some c \<Longrightarrow> i \<in> bits_of (c_validity c) \<or> blank_at p c i"
    and gone: "\<And>x. map_of (s_rows s') r = None \<Longrightarrow> x < numMetadataColumns p \<Longrightarrow> metadata_kind_at p x = KIND_TEXT \<Longrightarrow> (s_long s' ! x) r = None"
  shows "consistent p s'"
  unfolding consistent_def
proof (intro conjI allI impI)
  have rows: "r' \<noteq> r \<Longrightarrow> map_of (s_rows s') r' = map_of (s_rows s) r'" for r' using frame unfolding frame_def by simp
  have auxs: "r' \<noteq> r \<Longrightarrow> map_of (s_aux s') r' = map_of (s_aux s) r'" for r' using frame unfolding frame_def by simp
  have nlong: "length (s_long s) = numMetadataColumns p" using consistentD(1) [OF con] by (simp add: sized_table_def)
  show "sized_table p s'" by (rule sized)
  fix r' e assume e: "map_of (s_rows s') r' = Some e"
  have "placed p s' r' e \<and> stored_row p s' r' e \<and> sint r' \<le> sint (s_last s')"
  proof (cases "r' = r")
    case False
    then have e': "map_of (s_rows s) r' = Some e" using e rows by simp
    show ?thesis using others_kept(2,3) [OF ok con frame sized free e' False] consistentD(4) [OF con e'] last by auto
  qed (use row e in simp)
  then show "placed p s' r' e" "stored_row p s' r' e" "sint r' \<le> sint (s_last s')" by blast+
next
  fix k' c j assume b: "chunk_at s' k' = Some c" "j \<in> bits_of (c_validity c)"
  show "\<exists>e. map_of (s_rows s') (c_rowids c ! j) = Some e \<and> r_chunk e = k' \<and> r_offset e = j"
    by (cases "(k', j) = (k, i)") (use bit b bits_kept [OF con frame sized here b] in auto)
next
  have rows: "r' \<noteq> r \<Longrightarrow> map_of (s_rows s') r' = map_of (s_rows s) r'" for r' using frame unfolding frame_def by simp
  have auxs: "r' \<noteq> r \<Longrightarrow> map_of (s_aux s') r' = map_of (s_aux s) r'" for r' using frame unfolding frame_def by simp
  show "aux_ok p s'"
    unfolding aux_ok_def
  proof (intro conjI allI impI)
    fix r'
    show "map_of (s_aux s') r' \<noteq> None \<longleftrightarrow> 0 < numAuxiliaryColumns p \<and> map_of (s_rows s') r' \<noteq> None"
      by (cases "r' = r") (use aux(1) rows auxs consistentD(6) [OF con] in \<open>simp_all add: aux_ok_def\<close>)
    fix vs assume "map_of (s_aux s') r' = Some vs"
    then show "length vs = numAuxiliaryColumns p"
      by (cases "r' = r") (use aux(2) auxs consistentD(6) [OF con] in \<open>auto simp: aux_ok_def\<close>)
  qed
  show "distinct (map fst (s_rows s'))" by (rule keys)
  fix k' c' j assume b: "chunk_at s' k' = Some c'" "j < rows_per_chunk p" "j \<notin> bits_of (c_validity c')"
  show "blank_at p c' j"
  proof (cases "(k', j) = (k, i)")
    case other: False
    show ?thesis
    proof (cases "chunk_at s k'")
      case None
      then show ?thesis using frame b(1,2) other unfolding frame_def by blast
    next
      case (Some c)
      obtain d where "chunk_at s' k' = Some d" "same_chunk p c d (\<lambda>j. (k', j) \<noteq> (k, i))" by (rule frame_chunk [OF frame Some])
      then have same: "same_at p c c' j" using b(1,2) other by (simp add: same_chunk_def)
      then have "j \<notin> bits_of (c_validity c)" using b(3) by (simp add: same_at_def)
      then show ?thesis using consistentD(9) [OF con Some b(2)] same_at_blank [OF same] by simp
    qed
  qed (use blank b in auto)
next
  have rows: "r' \<noteq> r \<Longrightarrow> map_of (s_rows s') r' = map_of (s_rows s) r'" for r' using frame unfolding frame_def by simp
  fix r' x assume x: "map_of (s_rows s') r' = None" "x < numMetadataColumns p" "metadata_kind_at p x = KIND_TEXT"
  show "(s_long s' ! x) r' = None"
  proof (cases "r' = r")
    case False
    have "length (s_long s) = numMetadataColumns p" using consistentD(1) [OF con] by (simp add: sized_table_def)
    then have "(s_long s' ! x) r' = (s_long s ! x) r'" using frame False x(2) unfolding frame_def by simp
    then show ?thesis using consistentD(7) [OF con, of r' x] x rows [OF False] by simp
  qed (use gone x in simp)
qed

end
