(* ===== verification/VecInsert.thy ===== *)
theory VecInsert
  imports VecRows VecScalarSpec
begin

text \<open>
  Insertion into a \<^verbatim>\<open>vec0\<close> table step by step: the row id, the position in a chunk, the vectors, the
  auxiliary and the metadata values. Together they keep the invariant, store what was given and
  leave what is read of every other row.
\<close>

section \<open>The row id\<close>

text \<open>The row id of an insertion is fresh, and becomes the last key if it is the largest.\<close>

lemma insert_rowid:
  assumes "vec0Update_InsertRowidStep p s v = Inr (s1, r)" and last: "\<And>k e. map_of (s_rows s) k = Some e \<Longrightarrow> sint k \<le> sint (s_last s)"
  obtains l where "s1 = s\<lparr>s_rows := s_rows s @ [(r, \<lparr>r_id = (if pkIsText p then v else DNull), r_chunk = 0, r_offset = 0\<rparr>)], s_last := l\<rparr>"
    "map_of (s_rows s) r = None" "sint r \<le> sint l" "sint (s_last s) \<le> sint l"
proof -
  have next_id: "map_of (s_rows s) (s_last s + 1) = None \<and> sint (s_last s) \<le> sint (s_last s + 1)"
    if "s_last s \<noteq> 0x7FFFFFFFFFFFFFFF"
  proof -
    have "sint (0x7FFFFFFFFFFFFFFF :: i64) = 2 ^ 63 - 1" by simp
    then have "sint (s_last s) \<noteq> 2 ^ 63 - 1" using that signed_word_eqI by metis
    moreover have "sint (s_last s) < 2 ^ 63" using sint_lt [of "s_last s"] by simp
    ultimately have "sint (s_last s) + 1 < 2 ^ 63" by simp
    moreover have "- (2 ^ 63) \<le> sint (s_last s)" using sint_ge [of "s_last s"] by simp
    ultimately have "sint (s_last s + 1) = sint (s_last s) + 1"
      by (simp add: sint_word_ariths signed_take_bit_int_eq_self)
    moreover have "map_of (s_rows s) (s_last s + 1) = None"
      using last [of "s_last s + 1"] calculation by (cases "map_of (s_rows s) (s_last s + 1)") auto
    ultimately show ?thesis by simp
  qed
  have by_id: "s_last s \<noteq> 0x7FFFFFFFFFFFFFFF \<and> r = s_last s + 1 \<and>
      s1 = s\<lparr>s_rows := s_rows s @ [(r, \<lparr>r_id = w, r_chunk = 0, r_offset = 0\<rparr>)], s_last := r\<rparr>"
    if "vec0_rowids_insert_id p s w = Inr (s1, r)" for w
    using that unfolding vec0_rowids_insert_id_def Let_def by (simp split: if_splits) auto
  consider (id) w where "w = (if pkIsText p then v else DNull)" "vec0_rowids_insert_id p s w = Inr (s1, r)"
    | (given) "\<not> pkIsText p" "vec0_rowids_insert_rowid s r = Inr s1"
    using assms(1) by (cases v) (auto simp: vec0Update_InsertRowidStep_def on_ok_Inr split: if_splits)
  then show ?thesis
  proof cases
    case id
    note f = by_id [OF id(2)]
    then show ?thesis using that [of r] next_id id(1) by simp
  next
    case given
    have "\<not> s_last s <s r \<Longrightarrow> sint r \<le> sint (s_last s)" by (simp add: word_sless_alt)
    then show ?thesis using that [of "if s_last s <s r then r else s_last s"] given
      by (simp add: vec0_rowids_insert_rowid_def word_sless_alt split: if_splits)
  qed
qed

section \<open>The position\<close>

lemma next_available_free:
  "next_available bs i = Some n \<Longrightarrow> 8 * i \<le> n \<and> n - 8 * i < 8 * length bs \<and> n - 8 * i \<notin> bits_of bs"
proof (induction bs i rule: next_available.induct)
  case (2 b bs i)
  have later: "8 * i \<le> n \<and> n - 8 * i < 8 * length (b # bs) \<and> n - 8 * i \<notin> bits_of (b # bs)"
    if "8 * (i + 1) \<le> n \<and> n - 8 * (i + 1) < 8 * length bs \<and> n - 8 * (i + 1) \<notin> bits_of bs"
  proof -
    define k where "k = n - (8 * i + 8)"
    have "n = 8 * i + 8 + k" using that by (simp add: k_def)
    then show ?thesis using that by (auto simp: bits_of_def)
  qed
  show ?case
  proof (cases "b = 255 \<or> find (\<lambda>j. \<not> bit b j) [0..<8] = None")
    case True
    then show ?thesis using 2 later by (auto split: if_splits)
  next
    case False
    then obtain j where j: "find (\<lambda>j. \<not> bit b j) [0..<8] = Some j" "n = i * 8 + j" using "2.prems" by auto
    then have "\<not> bit b j" "j < 8" by (auto simp: find_Some_iff)
    then show ?thesis using j(2) by (auto simp: bits_of_def)
  qed
qed simp

lemma new_chunk:
  assumes "table_ok p" "sized_table p s" "length keys = numPartitionColumns p"
  obtains c where "vec0_new_chunk p s keys = (s\<lparr>s_chunks := s_chunks s @ [c]\<rparr>, length (s_chunks s) + 1)"
    "sized_chunk p c" "bits_of (c_validity c) = {}" "c_partition c = keys" "sized_table p (s\<lparr>s_chunks := s_chunks s @ [c]\<rparr>)"
    "\<forall>j<rows_per_chunk p. blank_at p c j"
proof -
  define c where "c = \<lparr>c_validity = replicate (rows_per_chunk p div 8) 0, c_rowids = replicate (rows_per_chunk p) 0, c_partition = keys,
    c_vectors = map (\<lambda>i. replicate (rows_per_chunk p * vector_column_byte_size (vector_column_at p i)) 0) [0..<numVectorColumns p],
    c_metadata = map (\<lambda>i. replicate (vec0_metadata_chunk_size (metadata_kind_at p i) (rows_per_chunk p)) 0) [0..<numMetadataColumns p]\<rparr>"
  have "sized_chunk p c" using rows_per_chunk [OF assms(1)] assms(3) by (auto simp: sized_chunk_def c_def vector_size_def)
  moreover have "bits_of (c_validity c) = {}" using bits_of_replicate [of "rows_per_chunk p div 8" 0 "[]"] by (simp add: c_def bits_of_def)
  moreover have "slot VIEW_BUFFER_LENGTH j (replicate (vec0_metadata_chunk_size KIND_TEXT (rows_per_chunk p)) 0) = replicate VIEW_BUFFER_LENGTH 0"
    if "j < rows_per_chunk p" for j
    using slot_fits [OF that, of "replicate (rows_per_chunk p * VIEW_BUFFER_LENGTH) 0" VIEW_BUFFER_LENGTH]
    by (simp add: slot_def vec0_metadata_chunk_size_def min_def)
  then have "\<forall>j<rows_per_chunk p. blank_at p c j" using calculation(2) by (simp add: blank_at_def cell_def) (simp add: c_def)
  moreover have "vec0_new_chunk p s keys = (s\<lparr>s_chunks := s_chunks s @ [c]\<rparr>, length (s_chunks s) + 1)"
    by (simp add: vec0_new_chunk_def Let_def c_def)
  ultimately show ?thesis using that assms(2) by (auto simp: sized_table_def c_def)
qed

text \<open>What the search for a position returns: a free one in a chunk with the keys of the row.\<close>

lemma next_position:
  assumes "table_ok p" "sized_table p s" "length keys = numPartitionColumns p"
    and "vec0Update_InsertNextAvailableStep p s keys = Inr (s', k, i, validity)"
  obtains c where "chunk_at s' k = Some c" "validity = c_validity c" "i < rows_per_chunk p" "i \<notin> bits_of validity"
    "c_partition c = keys \<or> list_all2 sql_eq (c_partition c) keys" "sized_table p s'" "\<forall>r. frame p r k i s s'"
    "s' = s\<lparr>s_chunks := s_chunks s'\<rparr>" "\<forall>c. chunk_at s k = Some c \<longrightarrow> i \<notin> bits_of (c_validity c)"
proof -
  obtain n where n: "vec0_new_chunk p s keys = (s\<lparr>s_chunks := s_chunks s @ [n]\<rparr>, length (s_chunks s) + 1)"
    "sized_chunk p n" "bits_of (c_validity n) = {}" "c_partition n = keys" "sized_table p (s\<lparr>s_chunks := s_chunks s @ [n]\<rparr>)"
    "\<forall>j<rows_per_chunk p. blank_at p n j"
    by (rule new_chunk [OF assms(1-3)])
  note pos = rows_per_chunk [OF assms(1)]
  consider (fresh) "s' = s\<lparr>s_chunks := s_chunks s @ [n]\<rparr>" "k = length (s_chunks s) + 1" "i = 0" "validity = c_validity n"
    | (old) c where "s' = s" "vec0_get_latest_chunk_rowid s keys = Inr k" "chunk_at s k = Some c" "validity = c_validity c"
        "next_available (c_validity c) 0 = Some i"
    using assms(4) unfolding vec0Update_InsertNextAvailableStep_def Let_def n(1)
    by (auto simp: on_ok_Inr or_code_Inr chunk_at_Some nth_append split: sum.splits code.splits if_splits option.splits)
  then show ?thesis
  proof cases
    case fresh
    have "chunk_at s k = None" using fresh(2) by (simp add: chunk_at_None)
    moreover have "chunk_at s' k = Some n" using fresh(1,2) by (simp add: chunk_at_Some nth_append)
    ultimately show ?thesis using that [of n] fresh n(3-5) pos frame_new_chunk [OF n(6)] by simp
  next
    case old
    have "8 * length (c_validity c) = rows_per_chunk p" using chunk_at_sized [OF assms(2) old(3)] by (simp add: sized_chunk_def)
    then have i: "i < rows_per_chunk p" "i \<notin> bits_of validity" using next_available_free [OF old(5)] old(4) by simp_all
    have "list_all2 sql_eq (c_partition c) keys"
    proof -
      define js where "js = filter (\<lambda>i. list_all2 sql_eq (c_partition (s_chunks s ! i)) keys) [0..<length (s_chunks s)]"
      have "js \<noteq> []" "k = last js + 1" using old(2)
        by (auto simp: vec0_get_latest_chunk_rowid_def js_def split: list.splits)
      then have "list_all2 sql_eq (c_partition (s_chunks s ! (k - 1))) keys" using last_in_set [of js] by (auto simp: js_def)
      then show ?thesis using old(3) by (simp add: chunk_at_Some)
    qed
    then show ?thesis using that [of c] old(1,3,4) i assms(2) by auto
  qed
qed

section \<open>The vectors and the row\<close>

text \<open>A vector of the size of its column; those of bits fill whole bytes.\<close>

definition vector_fits :: "vec0_vtab \<Rightarrow> nat \<Rightarrow> u8 list \<Rightarrow> bool" where
  "vector_fits p x v \<longleftrightarrow> length v = vector_size p x \<and>
     (element_type (vector_column_at p x) = BIT \<longrightarrow> dimensions (vector_column_at p x) mod 8 = 0)"

definition vectors_fit :: "vec0_vtab \<Rightarrow> u8 list list \<Rightarrow> bool" where
  "vectors_fit p vs \<longleftrightarrow> length vs = numVectorColumns p \<and> (\<forall>x<numVectorColumns p. vector_fits p x (vs ! x))"

lemma write_vector:
  assumes "vector_fits p x v" "length blob = rows_per_chunk p * vector_size p x" "j < rows_per_chunk p"
  shows "vec0_write_vector_to_vector_blob blob j v (dimensions (vector_column_at p x)) (element_type (vector_column_at p x)) =
    Some (put_bytes blob (j * vector_size p x) v)"
proof -
  have f: "j * vector_size p x + vector_size p x \<le> length blob" by (rule slot_fits [OF assms(3,2)])
  have l: "length v = vector_size p x" using assms(1) by (simp add: vector_fits_def)
  note w = blob_write_slot [OF f l]
  show ?thesis
  proof (cases "element_type (vector_column_at p x)")
    case BIT
    then have "dimensions (vector_column_at p x) mod 8 = 0" using assms(1) by (simp add: vector_fits_def)
    then have "j * dimensions (vector_column_at p x) div 8 = j * vector_size p x"
      using BIT by (auto simp: vector_size_def vector_column_byte_size_def vector_byte_size_def elim!: dvdE)
    then show ?thesis using BIT w l
      by (simp add: vec0_write_vector_to_vector_blob_def vector_size_def vector_column_byte_size_def vector_byte_size_def)
  qed (use w l in \<open>simp_all add: vec0_write_vector_to_vector_blob_def vector_size_def vector_column_byte_size_def vector_byte_size_def mult.assoc\<close>)
qed

text \<open>The blob of vectors with the vector of position \<open>j\<close> replaced.\<close>

definition vector_put :: "vec0_vtab \<Rightarrow> nat \<Rightarrow> nat \<Rightarrow> u8 list \<Rightarrow> u8 list \<Rightarrow> u8 list \<Rightarrow> bool" where
  "vector_put p x j v blob blob' \<longleftrightarrow> length blob' = length blob \<and> slot (vector_size p x) j blob' = v \<and>
     (\<forall>i<rows_per_chunk p. i \<noteq> j \<longrightarrow> slot (vector_size p x) i blob' = slot (vector_size p x) i blob)"

lemma vector_put:
  assumes "vector_fits p x v" "length blob = rows_per_chunk p * vector_size p x" "j < rows_per_chunk p"
  shows "vector_put p x j v blob (put_bytes blob (j * vector_size p x) v)"
  using slot_fits [OF _ assms(2)] assms slot_put_other [of j "vector_size p x" blob v]
  by (simp add: vector_put_def vector_fits_def)

lemma write_vectors:
  "write_vectors p j y vs blobs = Inr blobs' \<Longrightarrow> j < rows_per_chunk p \<Longrightarrow> length vs = length blobs \<Longrightarrow>
    (\<And>x. x < length vs \<Longrightarrow> vector_fits p (y + x) (vs ! x)) \<Longrightarrow>
    length blobs' = length blobs \<and> (\<forall>x<length vs. vector_put p (y + x) j (vs ! x) (blobs ! x) (blobs' ! x))"
proof (induction p j y vs blobs arbitrary: blobs' rule: write_vectors.induct)
  case (3 p j y v vs blob blobs)
  have f: "vector_fits p y v" using "3.prems"(4) [of 0] by simp
  have len: "length blob = rows_per_chunk p * vector_size p y"
    using "3.prems"(1) by (simp add: Let_def vector_size_def split: if_splits)
  define b where "b = put_bytes blob (j * vector_size p y) v"
  have w: "vec0_write_vector_to_vector_blob blob j v (dimensions (vector_column_at p y)) (element_type (vector_column_at p y)) = Some b"
    unfolding b_def by (rule write_vector [OF f len "3.prems"(2)])
  obtain bs where bs: "write_vectors p j (y + 1) vs blobs = Inr bs" "blobs' = b # bs"
    using "3.prems"(1) w by (auto simp: Let_def on_ok_Inr split: if_splits)
  have "\<And>x. x < length vs \<Longrightarrow> vector_fits p (y + 1 + x) (vs ! x)"
    using "3.prems"(4) [of "Suc x" for x] by simp
  moreover have "\<not> length blob \<noteq> rows_per_chunk p * vector_column_byte_size (vector_column_at p y)" using len by (simp add: vector_size_def)
  ultimately have "length bs = length blobs \<and> (\<forall>x<length vs. vector_put p (y + 1 + x) j (vs ! x) (blobs ! x) (bs ! x))"
    using "3.IH" [OF refl _ bs(1) "3.prems"(2)] "3.prems"(3) by simp
  moreover have "vector_put p y j v blob b" unfolding b_def by (rule vector_put [OF f len "3.prems"(2)])
  ultimately show ?case using bs(2) by (auto simp: less_Suc_eq_0_disj)
qed simp_all

lemma blob_write_one: "blob_write d [x] j = wr d j x"
  by (simp add: blob_write_def wr_def put_bytes_def upd_conv_take_nth_drop)

lemma map_of_map_key: "map_of (map (\<lambda>(a, b). (a, f a b)) xs) k = map_option (f k) (map_of xs k)"
  by (induction xs) auto

lemma sized_put_chunk:
  "sized_table p s \<Longrightarrow> sized_chunk p c \<Longrightarrow> sized_table p (s\<lparr>s_chunks := (s_chunks s)[k := c]\<rparr>)"
  using set_update_subset_insert [of "s_chunks s" k c] by (auto simp: sized_table_def)

lemma write_final:
  assumes ok: "table_ok p" and sized: "sized_table p s" and fit: "vectors_fit p vs"
    and c: "chunk_at s k = Some c" and i: "i < rows_per_chunk p" and e: "map_of (s_rows s) r = Some e"
    and w: "vec0Update_InsertWriteFinalStep p s k i r vs (c_validity c) = Inr s'"
  obtains c' where "chunk_at s' k = Some c'" "i \<in> bits_of (c_validity c')" "c_rowids c' ! i = r"
    "\<forall>x<numVectorColumns p. slot (vector_size p x) i (c_vectors c' ! x) = vs ! x"
    "c_partition c' = c_partition c" "map_of (s_rows s') r = Some (e\<lparr>r_chunk := k, r_offset := i\<rparr>)"
    "sized_table p s'" "frame p r k i s s'" "s_aux s' = s_aux s" "s_long s' = s_long s" "s_last s' = s_last s"
    "map fst (s_rows s') = map fst (s_rows s)"
proof -
  have sc: "sized_chunk p c" by (rule chunk_at_sized [OF sized c])
  then have l: "8 * length (c_validity c) = rows_per_chunk p" "length (c_rowids c) = rows_per_chunk p"
    "length (c_vectors c) = numVectorColumns p" by (simp_all add: sized_chunk_def)
  obtain b where b: "bitmap_set (c_validity c) i 1 = Some b" "length b = length (c_validity c)" "bits_of b = insert i (bits_of (c_validity c))"
    using bitmap_set_spec [of i "c_validity c" 1] i l(1) by auto
  obtain blobs where blobs: "write_vectors p i 0 vs (c_vectors c) = Inr blobs"
    and s': "s' = vec0_rowids_update_position (s\<lparr>s_chunks := (s_chunks s)[k - 1 :=
        c\<lparr>c_validity := b, c_vectors := blobs, c_rowids := (c_rowids c)[i := r]\<rparr>]\<rparr>) r k i"
    using w b(1) i l byte_index [of i "length (c_validity c)"]
    by (auto simp: vec0Update_InsertWriteFinalStep_def on_ok_Inr or_code_Inr blob_write_one c bitmap_set_def)
  define c' where "c' = c\<lparr>c_validity := b, c_vectors := blobs, c_rowids := (c_rowids c)[i := r]\<rparr>"
  define t where "t = s\<lparr>s_chunks := (s_chunks s)[k - 1 := c']\<rparr>"
  have put: "vector_put p x i (vs ! x) (c_vectors c ! x) (blobs ! x)" if "x < numVectorColumns p" for x
    using write_vectors [OF blobs i] fit l(3) that by (simp add: vectors_fit_def)
  have "length blobs = numVectorColumns p" using write_vectors [OF blobs i] fit l(3) by (simp add: vectors_fit_def)
  then have sc': "sized_chunk p c'" using sc put b(2) by (simp add: sized_chunk_def c'_def vector_put_def)
  have "same_chunk p c c' (\<lambda>j. j \<noteq> i)"
    using put b(3) l by (auto simp: same_chunk_def same_at_def c'_def vector_put_def)
  then have f: "frame p r k i s t" unfolding t_def by (rule frame_put_chunk [OF c])
  have tsized: "sized_table p t" unfolding t_def by (rule sized_put_chunk [OF sized sc'])
  have s't: "s' = t\<lparr>s_rows := map (\<lambda>(x, e). (x, if x = r then e\<lparr>r_chunk := k, r_offset := i\<rparr> else e)) (s_rows t)\<rparr>"
    unfolding s' t_def c'_def vec0_rowids_update_position_def by simp
  have rows: "map_of (s_rows s') x = map_option (\<lambda>e. if x = r then e\<lparr>r_chunk := k, r_offset := i\<rparr> else e) (map_of (s_rows s) x)" for x
    unfolding s't by (simp add: map_of_map_key t_def)
  have sized': "sized_table p s'" using tsized by (simp add: s't sized_table_def)
  have "frame p r k i t s'" unfolding s't by (rule frame_rows) (simp add: map_of_map_key, metis option.map_ident)
  then have fr: "frame p r k i s s'" by (rule frame_trans [OF f _ sized'])
  have "chunk_at s' k = chunk_at t k" by (simp add: s't chunk_at_def)
  then have "chunk_at s' k = Some c'" unfolding t_def chunk_at_put [OF c] by simp
  then show ?thesis
  proof (rule that)
    show "map_of (s_rows s') r = Some (e\<lparr>r_chunk := k, r_offset := i\<rparr>)" using rows e by simp
    show "\<forall>x<numVectorColumns p. slot (vector_size p x) i (c_vectors c' ! x) = vs ! x"
      using put by (simp add: c'_def vector_put_def)
    show "map fst (s_rows s') = map fst (s_rows s)" by (simp add: s't t_def split_beta)
  qed (use sized' fr b(3) l(2) i in \<open>simp_all add: c'_def s't t_def\<close>)
qed

section \<open>Metadata values\<close>

text \<open>What a column keeps of a value: of a boolean its truth as an \<open>int\<close>.\<close>

definition kept :: "conversions \<Rightarrow> metadata_kind \<Rightarrow> datum \<Rightarrow> datum" where
  "kept c kind v = (if kind = KIND_BOOLEAN then DInt (if value_int c v \<noteq> 0 then 1 else 0) else v)"

text \<open>SQLite bounds the length of a text by that of a signed \<open>int\<close>.\<close>

definition short :: "datum \<Rightarrow> bool" where
  "short v \<longleftrightarrow> (\<forall>t. v = DText t \<longrightarrow> length t < 2147483648)"

lemma write_success:
  assumes c: "faithful c" "sized_column kind n col" "i < n" "slot_ready kind col r i u" and s: "short v"
    and w: "vec0_write_metadata_value c kind name col r i v u = Done col'"
  shows "cell_frame kind n col col' r i" "stored_at kind col' r i (kept c kind v)" "slot_ready kind col' r i True"
proof -
  have e: "metadata_type_error c kind name v = None" using w by (simp add: vec0_write_metadata_value_def split: option.splits)
  have fits: "fits_kind kind (kept c kind v)"
    using e s by (cases kind; cases v) (auto simp: kept_def metadata_type_error_def short_def split: if_splits)
  have "vec0_write_metadata_value c kind name col r i v u = vec0_write_metadata_value c kind name col r i (kept c kind v) u"
  proof (cases "kind = KIND_BOOLEAN")
    case True
    then have "value_int c v = 0 \<or> value_int c v = 1" using e by (auto simp: metadata_type_error_def split: if_splits)
    then have "value_int c (kept c kind v) = value_int c v" using True faithful_values(1,2) [OF c(1)] by (auto simp: kept_def)
    moreover have "metadata_type_error c kind name (kept c kind v) = None"
      using True calculation \<open>value_int c v = 0 \<or> value_int c v = 1\<close> by (auto simp: metadata_type_error_def kept_def)
    ultimately show ?thesis using True e by (simp add: vec0_write_metadata_value_def)
  qed (simp add: kept_def)
  then show "cell_frame kind n col col' r i" "stored_at kind col' r i (kept c kind v)" "slot_ready kind col' r i True"
    using write_cell [OF c fits, of name] w by fastforce+
qed

text \<open>The tables but for the metadata values.\<close>

definition except_metadata :: "shadow \<Rightarrow> shadow" where
  "except_metadata s = s\<lparr>s_chunks := map (\<lambda>c. c\<lparr>c_metadata := []\<rparr>) (s_chunks s), s_long := []\<rparr>"

lemma except_metadata_chunk:
  assumes "except_metadata s' = except_metadata s" "chunk_at s k = Some c"
  obtains c' where "chunk_at s' k = Some c'" "c_validity c' = c_validity c" "c_rowids c' = c_rowids c"
    "c_partition c' = c_partition c" "c_vectors c' = c_vectors c"
proof -
  have m: "map (\<lambda>c. c\<lparr>c_metadata := []\<rparr>) (s_chunks s') = map (\<lambda>c. c\<lparr>c_metadata := []\<rparr>) (s_chunks s)"
    using arg_cong [OF assms(1), of s_chunks] by (simp add: except_metadata_def)
  then have l: "length (s_chunks s') = length (s_chunks s)" using map_eq_imp_length_eq by blast
  have "(s_chunks s' ! (k - 1))\<lparr>c_metadata := []\<rparr> = c\<lparr>c_metadata := []\<rparr>"
    using assms(2) m l by (auto simp: chunk_at_Some list_eq_iff_nth_eq)
  then show ?thesis using that [of "s_chunks s' ! (k - 1)"] assms(2) l
    by (cases c; cases "s_chunks s' ! (k - 1)") (simp add: chunk_at_Some)
qed

lemma except_metadata_fields:
  assumes "except_metadata s' = except_metadata s"
  shows "s_rows s' = s_rows s" "s_aux s' = s_aux s" "s_last s' = s_last s"
  using assms by (cases s; cases s'; simp add: except_metadata_def)+

lemma put_metadata_frame:
  assumes ok: "table_ok p" and sized: "sized_table p s" and c: "chunk_at s k = Some c" and x: "x < numMetadataColumns p"
    and f: "cell_frame (metadata_kind_at p x) (rows_per_chunk p) (meta_view s k x) col r i" and s': "s' = put_metadata s k x col"
  shows "sized_table p s'" "frame p r k i s s'" "except_metadata s' = except_metadata s" "meta_view s' k x = col"
    "y \<noteq> x \<Longrightarrow> meta_view s' k y = meta_view s k y"
proof -
  define c' where "c' = c\<lparr>c_metadata := (c_metadata c)[x := m_data col]\<rparr>"
  define t where "t = s\<lparr>s_chunks := (s_chunks s)[k - 1 := c']\<rparr>"
  have sc: "sized_chunk p c" by (rule chunk_at_sized [OF sized c])
  have l: "length (s_long s) = numMetadataColumns p" "length (c_metadata c) = numMetadataColumns p"
    using sized sc by (simp_all add: sized_table_def sized_chunk_def)
  have k: "s_chunks s ! (k - 1) = c" using c by (simp add: chunk_at_Some)
  have s't: "s' = t\<lparr>s_long := (s_long t)[x := m_long col]\<rparr>" by (simp add: s' put_metadata_def Let_def k t_def c'_def del: One_nat_def)
  have col: "length (m_data col) = vec0_metadata_chunk_size (metadata_kind_at p x) (rows_per_chunk p)"
    "\<And>j. j < rows_per_chunk p \<Longrightarrow> j \<noteq> i \<Longrightarrow>
      cell (metadata_kind_at p x) (m_data col) j = cell (metadata_kind_at p x) (c_metadata c ! x) j"
    "\<And>r'. r' \<noteq> r \<Longrightarrow> m_long col r' = (s_long s ! x) r'"
    using f by (simp_all add: cell_frame_def sized_column_def meta_view_def c)
  have "length ((c_metadata c)[x := m_data col] ! y) = vec0_metadata_chunk_size (metadata_kind_at p y) (rows_per_chunk p)"
    if "y < numMetadataColumns p" for y using sc col(1) that x l(2) by (cases "y = x") (simp_all add: sized_chunk_def)
  then have sc': "sized_chunk p c'" using sc by (simp add: sized_chunk_def c'_def)
  have tsized: "sized_table p t" unfolding t_def by (rule sized_put_chunk [OF sized sc'])
  then show sized': "sized_table p s'" by (simp add: s't sized_table_def)
  have "same_chunk p c c' (\<lambda>j. j \<noteq> i)" using col(2) x l by (auto simp: same_chunk_def same_at_def c'_def nth_list_update)
  then have ft: "frame p r k i s t" unfolding t_def by (rule frame_put_chunk [OF c])
  have "frame p r k i t s'" using col(3) x l by (auto simp: s't t_def frame_def same_chunk_def chunk_at_def nth_list_update)
  then show "frame p r k i s s'" by (rule frame_trans [OF ft _ sized'])
  have "chunk_at s' k = chunk_at t k" by (simp add: s't chunk_at_def)
  then have "chunk_at s' k = Some c'" unfolding t_def chunk_at_put [OF c] by simp
  then show "meta_view s' k x = col" "y \<noteq> x \<Longrightarrow> meta_view s' k y = meta_view s k y"
    using c x l by (simp_all add: meta_view_def c'_def s't t_def)
  have "c'\<lparr>c_metadata := []\<rparr> = c\<lparr>c_metadata := []\<rparr>" by (simp add: c'_def)
  then have "map (\<lambda>c. c\<lparr>c_metadata := []\<rparr>) ((s_chunks s)[k - 1 := c']) = map (\<lambda>c. c\<lparr>c_metadata := []\<rparr>) (s_chunks s)"
    using k by (simp add: map_update) (metis list_update_id map_update)
  then show "except_metadata s' = except_metadata s" by (simp add: except_metadata_def s't t_def)
qed

text \<open>The columns of \<open>X\<close> hold the values \<open>val\<close> for the row, everything else is as it was.\<close>

definition wrote :: "vec0_vtab \<Rightarrow> i64 \<Rightarrow> nat \<Rightarrow> nat \<Rightarrow> (nat \<Rightarrow> datum) \<Rightarrow> nat set \<Rightarrow> shadow \<Rightarrow> shadow \<Rightarrow> bool" where
  "wrote p r k i val X s s' \<longleftrightarrow> sized_table p s' \<and> frame p r k i s s' \<and> except_metadata s' = except_metadata s \<and>
     (\<forall>x<numMetadataColumns p. if x \<in> X
        then stored_at (metadata_kind_at p x) (meta_view s' k x) r i (val x) \<and> slot_ready (metadata_kind_at p x) (meta_view s' k x) r i True
        else meta_view s' k x = meta_view s k x)"

definition metadata_value :: "conversions \<Rightarrow> vec0_vtab \<Rightarrow> argument list \<Rightarrow> (nat \<Rightarrow> datum) \<Rightarrow> nat \<times> nat \<Rightarrow> bool" where
  "metadata_value c p args val = (\<lambda>(j, x). \<forall>a. user_arg args j = Some a \<longrightarrow>
     short (a_value a) \<and> val x = kept c (metadata_kind_at p x) (a_value a))"

lemma wrote_refl: "sized_table p s \<Longrightarrow> wrote p r k i val {} s s"
  by (simp add: wrote_def)

lemma wrote_chunk:
  assumes "wrote p r k i val X s s'" "chunk_at s k = Some c"
  obtains c' where "chunk_at s' k = Some c'" "c_validity c' = c_validity c" "c_rowids c' = c_rowids c"
    "c_partition c' = c_partition c" "c_vectors c' = c_vectors c"
  using except_metadata_chunk [of s' s k c] assms unfolding wrote_def by blast

lemma wrote_step:
  assumes c: "faithful c" and ok: "table_ok p" and con: "wrote p r k i val X s s'" and k: "chunk_at s k \<noteq> None" and i: "i < rows_per_chunk p"
    and x: "x < numMetadataColumns p" "x \<notin> X" "slot_ready (metadata_kind_at p x) (meta_view s k x) r i u"
    and v: "short v" "val x = kept c (metadata_kind_at p x) v"
    and w: "write_metadata c p s' x r k i v u = Inr s''"
  shows "wrote p r k i val (insert x X) s s''"
proof -
  obtain d0 where d0: "chunk_at s k = Some d0" using k by blast
  obtain d where d: "chunk_at s' k = Some d" by (rule wrote_chunk [OF con d0])
  have sized: "sized_table p s'" using con by (simp add: wrote_def)
  note z = metadata_at_sized [OF sized ok d x(1)]
  have view: "meta_view s' k x = \<lparr>m_data = c_metadata d ! x, m_long = s_long s' ! x\<rparr>" by (simp add: meta_view_def d)
  obtain col where col: "vec0_write_metadata_value c (metadata_kind_at p x) '''' (meta_view s' k x) r i v u = Done col"
    "s'' = put_metadata s' k x col"
    using w z(1) by (auto simp: write_metadata_def view on_ok_Inr of_outcome_def split: outcome.splits)
  have "slot_ready (metadata_kind_at p x) (meta_view s' k x) r i u" using con x unfolding wrote_def by simp
  note f = write_success [OF c z(2)[folded view] i this v(1) col(1)]
  note g = put_metadata_frame [OF ok sized d x(1) f(1) col(2)]
  have fr: "frame p r k i s s''" using con g(2) frame_trans [OF _ _ g(1)] unfolding wrote_def by blast
  have old: "if y \<in> X then stored_at (metadata_kind_at p y) (meta_view s' k y) r i (val y) \<and> slot_ready (metadata_kind_at p y) (meta_view s' k y) r i True
      else meta_view s' k y = meta_view s k y" if "y < numMetadataColumns p" for y
    using con that unfolding wrote_def by simp
  have "if y \<in> insert x X then stored_at (metadata_kind_at p y) (meta_view s'' k y) r i (val y) \<and> slot_ready (metadata_kind_at p y) (meta_view s'' k y) r i True
      else meta_view s'' k y = meta_view s k y" if y: "y < numMetadataColumns p" for y
    by (cases "y = x") (use f(2,3) g(4,5) v(2) old [OF y] in simp_all)
  then show ?thesis using con g(1,3) fr unfolding wrote_def by simp
qed

lemma insert_metadata_wrote:
  assumes "faithful c" "table_ok p" "chunk_at s k \<noteq> None" "i < rows_per_chunk p"
    and ready: "\<And>x. x < numMetadataColumns p \<Longrightarrow> slot_ready (metadata_kind_at p x) (meta_view s k x) r i False"
  shows "wrote p r k i val X s s' \<Longrightarrow> insert_metadata c p args r k i cols s' = Inr s'' \<Longrightarrow>
    distinct (map snd cols) \<Longrightarrow> X \<inter> snd ` set cols = {} \<Longrightarrow> snd ` set cols \<subseteq> {..<numMetadataColumns p} \<Longrightarrow>
    (\<And>jx. jx \<in> set cols \<Longrightarrow> metadata_value c p args val jx) \<Longrightarrow> wrote p r k i val (X \<union> snd ` set cols) s s''"
proof (induction cols arbitrary: X s')
  case (Cons jx cols)
  obtain j x where jx: "jx = (j, x)" by force
  obtain a t where a: "user_arg args j = Some a" "write_metadata c p s' x r k i (a_value a) False = Inr t"
    "insert_metadata c p args r k i cols t = Inr s''"
    using Cons.prems(2) jx by (auto simp: on_ok_Inr or_code_Inr)
  have x: "x < numMetadataColumns p" "x \<notin> X" using Cons.prems(4,5) jx by auto
  have v: "short (a_value a)" "val x = kept c (metadata_kind_at p x) (a_value a)"
    using Cons.prems(6) [of jx] jx a(1) by (simp_all add: metadata_value_def)
  note w = wrote_step [OF assms(1,2) Cons.prems(1) assms(3,4) x ready [OF x(1)] v a(2)]
  have "wrote p r k i val (insert x X \<union> snd ` set cols) s s''"
    by (rule Cons.IH [OF w a(3)]) (use Cons.prems(3-6) jx in auto)
  then show ?case using jx by simp
qed simp

lemma update_metadata_wrote:
  assumes "faithful c" "table_ok p" "chunk_at s k \<noteq> None" "i < rows_per_chunk p"
    and ready: "\<And>x. x < numMetadataColumns p \<Longrightarrow> slot_ready (metadata_kind_at p x) (meta_view s k x) r i True"
  shows "wrote p r k i val X s s' \<Longrightarrow> update_metadata c p args r k i cols s' = Inr s'' \<Longrightarrow>
    distinct (map snd cols) \<Longrightarrow> X \<inter> snd ` set cols = {} \<Longrightarrow> snd ` set cols \<subseteq> {..<numMetadataColumns p} \<Longrightarrow>
    (\<And>jx. jx \<in> set cols \<Longrightarrow> metadata_value c p args val jx) \<Longrightarrow>
    wrote p r k i val (X \<union> {x. \<exists>j a. (j, x) \<in> set cols \<and> user_arg args j = Some a \<and> \<not> a_nochange a}) s s''"
proof (induction cols arbitrary: X s')
  case (Cons jx cols)
  obtain j x where jx: "jx = (j, x)" by force
  obtain a t where a: "user_arg args j = Some a"
    "(if a_nochange a then Inr s' else write_metadata c p s' x r k i (a_value a) True) = Inr t" "update_metadata c p args r k i cols t = Inr s''"
    using Cons.prems(2) jx by (auto simp: on_ok_Inr or_code_Inr simp del: split_paired_Ex)
  have x: "x < numMetadataColumns p" "x \<notin> X" using Cons.prems(4,5) jx by auto
  have v: "short (a_value a)" "val x = kept c (metadata_kind_at p x) (a_value a)"
    using Cons.prems(6) [of jx] jx a(1) by (simp_all add: metadata_value_def)
  define X' where "X' = (if a_nochange a then X else insert x X)"
  have w: "wrote p r k i val X' s t"
    using a(2) Cons.prems(1) wrote_step [OF assms(1,2) Cons.prems(1) assms(3,4) x ready [OF x(1)] v] by (auto simp: X'_def split: if_splits)
  have "wrote p r k i val (X' \<union> {x. \<exists>j a. (j, x) \<in> set cols \<and> user_arg args j = Some a \<and> \<not> a_nochange a}) s s''"
    by (rule Cons.IH [OF w a(3)]) (use Cons.prems(3-6) jx in \<open>auto simp: X'_def\<close>)
  moreover have "X \<union> {x. \<exists>j a. (j, x) \<in> set (jx # cols) \<and> user_arg args j = Some a \<and> \<not> a_nochange a} =
      X' \<union> {x. \<exists>j a. (j, x) \<in> set cols \<and> user_arg args j = Some a \<and> \<not> a_nochange a}" using jx a(1) by (auto simp: X'_def)
  ultimately show ?case by simp
qed simp

section \<open>The arguments of the columns\<close>

text \<open>The value given for column \<open>x\<close> of a kind.\<close>

definition arg_of :: "column_kind \<Rightarrow> vec0_vtab \<Rightarrow> argument list \<Rightarrow> nat \<Rightarrow> datum" where
  "arg_of kind p args x = a_value (the (user_arg args (fst (kind_columns kind p ! x))))"

lemma kind_columns_in_order:
  assumes "in_order p"
  shows "distinct (map snd (kind_columns kind p))" "snd ` set (kind_columns kind p) = {..<column_count kind p}"
    "(j, x) \<in> set (kind_columns kind p) \<longleftrightarrow> x < column_count kind p \<and> kind_columns kind p ! x = (j, x)"
proof -
  have m: "map snd (kind_columns kind p) = [0..<column_count kind p]" using assms by (simp add: in_order_def)
  then show "distinct (map snd (kind_columns kind p))" by simp
  show "snd ` set (kind_columns kind p) = {..<column_count kind p}" using arg_cong [OF m, of set] by (simp add: atLeast0LessThan)
  have l: "length (kind_columns kind p) = column_count kind p" using arg_cong [OF m, of length] by simp
  have "snd (kind_columns kind p ! y) = y" if "y < column_count kind p" for y
    using arg_cong [OF m, of "\<lambda>xs. xs ! y"] l that by simp
  then show "(j, x) \<in> set (kind_columns kind p) \<longleftrightarrow> x < column_count kind p \<and> kind_columns kind p ! x = (j, x)"
    using l unfolding in_set_conv_nth by (metis snd_conv)
qed

lemma fold_update:
  assumes "distinct (map snd cols)"
  shows "length (fold (\<lambda>(j, x) vs. vs[x := f j]) cols ws) = length ws"
    "x \<notin> snd ` set cols \<Longrightarrow> fold (\<lambda>(j, x) vs. vs[x := f j]) cols ws ! x = ws ! x"
    "(j, x) \<in> set cols \<Longrightarrow> x < length ws \<Longrightarrow> fold (\<lambda>(j, x) vs. vs[x := f j]) cols ws ! x = f j"
  using assms by (induction cols arbitrary: ws) (auto simp: nth_list_update image_iff)

lemma fold_in_order:
  assumes "in_order p" "length ws = column_count kind p"
  shows "fold (\<lambda>(j, x) vs. vs[x := a_value (the (user_arg args j))]) (kind_columns kind p) ws =
    map (arg_of kind p args) [0..<column_count kind p]"
proof (rule nth_equalityI)
  note k = kind_columns_in_order [OF assms(1), where kind = kind]
  show "length (fold (\<lambda>(j, x) vs. vs[x := a_value (the (user_arg args j))]) (kind_columns kind p) ws) =
      length (map (arg_of kind p args) [0..<column_count kind p])" by (simp add: fold_update(1) [OF k(1)] assms(2))
  fix x assume "x < length (fold (\<lambda>(j, x) vs. vs[x := a_value (the (user_arg args j))]) (kind_columns kind p) ws)"
  then have x: "x < column_count kind p" by (simp add: fold_update(1) [OF k(1)] assms(2))
  then have "x \<in> snd ` set (kind_columns kind p)" using k(2) by simp
  then obtain j where j: "(j, x) \<in> set (kind_columns kind p)" by auto
  then have "kind_columns kind p ! x = (j, x)" using k(3) by blast
  then show "fold (\<lambda>(j, x) vs. vs[x := a_value (the (user_arg args j))]) (kind_columns kind p) ws ! x =
      map (arg_of kind p args) [0..<column_count kind p] ! x"
    using fold_update(3) [OF k(1) j, of ws "\<lambda>j. a_value (the (user_arg args j))"] x assms(2) by (simp add: arg_of_def)
qed

lemma read_columns_fold:
  "read_aux p args cols ws = Inr vs \<Longrightarrow> vs = fold (\<lambda>(j, x) vs. vs[x := a_value (the (user_arg args j))]) cols ws"
  "read_keys p args cols ws = Inr vs \<Longrightarrow> vs = fold (\<lambda>(j, x) vs. vs[x := a_value (the (user_arg args j))]) cols ws"
  by (induction cols arbitrary: ws) (auto simp: on_ok_Inr or_code_Inr split: if_splits)

lemma read_keys_values:
  assumes "in_order p" "read_keys p args (kind_columns PARTITION p) (replicate (numPartitionColumns p) DNull) = Inr keys"
  shows "keys = map (arg_of PARTITION p args) [0..<numPartitionColumns p]"
  using fold_in_order [OF assms(1), of _ PARTITION] read_columns_fold(2) [OF assms(2)] by simp

lemma insert_aux_frame:
  assumes "in_order p" "insert_aux p args r s = Inr s'"
  obtains aux where "s' = s\<lparr>s_aux := aux\<rparr>" "\<forall>r'. r' \<noteq> r \<longrightarrow> map_of aux r' = map_of (s_aux s) r'"
    "numAuxiliaryColumns p = 0 \<longrightarrow> s' = s"
    "0 < numAuxiliaryColumns p \<longrightarrow> map_of aux r = Some (map (arg_of AUXILIARY p args) [0..<numAuxiliaryColumns p])"
proof (cases "numAuxiliaryColumns p = 0")
  case True
  then show ?thesis using that [of "s_aux s"] assms(2) by (simp add: insert_aux_def)
next
  case False
  then obtain ws where v: "read_aux p args (kind_columns AUXILIARY p) (replicate (numAuxiliaryColumns p) DNull) = Inr ws"
    "map_of (s_aux s) r = None" "s' = s\<lparr>s_aux := s_aux s @ [(r, ws)]\<rparr>"
    using assms(2) by (auto simp: insert_aux_def on_ok_Inr split: if_splits)
  have "ws = map (arg_of AUXILIARY p args) [0..<numAuxiliaryColumns p]"
    using fold_in_order [OF assms(1), of _ AUXILIARY] read_columns_fold(1) [OF v(1)] by simp
  then show ?thesis using that [of "s_aux s @ [(r, ws)]"] v False by (auto simp: map_add_def split: option.splits)
qed

section \<open>A row is inserted\<close>

text \<open>A row as a reader sees it, and the table as the rows that are there.\<close>

definition row_of :: "datum \<Rightarrow> u8 list list \<Rightarrow> datum list \<Rightarrow> datum list \<Rightarrow> datum list \<Rightarrow>
    datum result \<times> u8 list result list \<times> datum result list \<times> datum result list \<times> datum result list" where
  "row_of v vs ks as ms = (Inr v, map Inr vs, map Inr ks, map Inr as, map Inr ms)"

definition contents :: "vec0_vtab \<Rightarrow> shadow \<Rightarrow> i64 \<rightharpoonup>
    datum result \<times> u8 list result list \<times> datum result list \<times> datum result list \<times> datum result list" where
  "contents p s r = (if map_of (s_rows s) r = None then None else Some (reads p s r))"

lemma reads_row:
  assumes ok: "table_ok p" and sized: "sized_table p s" and e: "map_of (s_rows s) r = Some e"
    and c: "chunk_at s (r_chunk e) = Some c" "r_offset e < rows_per_chunk p"
    and vs: "length vs = numVectorColumns p" "\<And>x. x < numVectorColumns p \<Longrightarrow> slot (vector_size p x) (r_offset e) (c_vectors c ! x) = vs ! x"
    and aux: "numAuxiliaryColumns p = 0 \<or> map_of (s_aux s) r = Some as" "length as = numAuxiliaryColumns p"
    and ms: "length ms = numMetadataColumns p"
      "\<And>x. x < numMetadataColumns p \<Longrightarrow> stored_at (metadata_kind_at p x) (meta_view s (r_chunk e) x) r (r_offset e) (ms ! x)"
  shows "reads p s r = row_of (if pkIsText p then r_id e else DInt r) vs (c_partition c) as ms"
proof -
  have pos: "vec0_get_chunk_position s r = Inr (r_id e, r_chunk e, r_offset e)" by (simp add: vec0_get_chunk_position_def e)
  have "vec0_get_vector_data p s r x = Inr (vs ! x)" if "x < numVectorColumns p" for x
    using vector_at_sized [OF sized c(1) that c(2)] c(1) vs(2) [OF that]
    by (simp add: vec0_get_vector_data_def pos flip: vector_size_def)
  then have "map (vec0_get_vector_data p s r) [0..<numVectorColumns p] = map Inr vs"
    using vs(1) by (auto intro: nth_equalityI)
  moreover have "result_metadata p s r x = Inr (ms ! x)" if "x < numMetadataColumns p" for x
    using metadata_at_sized(1) [OF sized ok c(1) that] ms(2) [OF that]
    by (simp add: result_metadata_def pos meta_view_def c(1) stored_at_def)
  then have "map (result_metadata p s r) [0..<numMetadataColumns p] = map Inr ms"
    using ms(1) by (auto intro: nth_equalityI)
  moreover have "length (c_partition c) = numPartitionColumns p" using chunk_at_sized [OF sized c(1)] by (simp add: sized_chunk_def)
  then have "map (vec0_get_partition_value_for_rowid s r) [0..<numPartitionColumns p] = map Inr (c_partition c)"
    by (intro nth_equalityI) (simp_all add: vec0_get_partition_value_for_rowid_def pos c(1))
  moreover have "map (vec0_get_auxiliary_value_for_rowid s r) [0..<numAuxiliaryColumns p] = map Inr as"
    using aux by (intro nth_equalityI) (auto simp: vec0_get_auxiliary_value_for_rowid_def)
  ultimately show ?thesis
    by (simp add: reads_def row_of_def vec0_result_id_def vec0_get_id_value_from_rowid_def pos)
qed

text \<open>The texts that are given.\<close>

definition short_args :: "argument list \<Rightarrow> bool" where
  "short_args args \<longleftrightarrow> (\<forall>a\<in>set args. short (a_value a))"

lemma short_user_arg: "short_args args \<Longrightarrow> user_arg args j = Some a \<Longrightarrow> short (a_value a)"
  by (auto simp: short_args_def user_arg_def rd_def split: if_splits)

lemma metadata_args:
  assumes "in_order p" "short_args args" "jx \<in> set (kind_columns METADATA p)"
  shows "metadata_value c p args (\<lambda>x. kept c (metadata_kind_at p x) (arg_of METADATA p args x)) jx"
  using kind_columns_in_order(3) [OF assms(1), of "fst jx" "snd jx" METADATA] assms(3) short_user_arg [OF assms(2)]
  by (auto simp: metadata_value_def arg_of_def)

text \<open>
  The row that is inserted, in terms of the arguments; the partition values are those of the chunk,
  equal to the keys.
\<close>

definition inserted_row where
  "inserted_row c p args vs ks r = row_of (if pkIsText p then a_value (args ! 2) else DInt r) vs ks
     (map (arg_of AUXILIARY p args) [0..<numAuxiliaryColumns p])
     (map (\<lambda>x. kept c (metadata_kind_at p x) (arg_of METADATA p args x)) [0..<numMetadataColumns p])"

definition same_keys :: "datum list \<Rightarrow> datum list \<Rightarrow> bool" where
  "same_keys ks keys \<longleftrightarrow> ks = keys \<or> list_all2 sql_eq ks keys"

lemma insert_row_steps:
  assumes ok: "table_ok p" and c: "faithful c" and con: "consistent p s" and keys: "length keys = numPartitionColumns p"
    and fit: "vectors_fit p vs" and short: "short_args args" and ins: "insert_row c p args keys vs s = Inr (s', r)"
  obtains k i ch e where "frame p r k i s s'" "sized_table p s'" "map_of (s_rows s) r = None"
    "\<forall>ch. chunk_at s k = Some ch \<longrightarrow> i \<notin> bits_of (c_validity ch)" "sint r \<le> sint (s_last s')" "sint (s_last s) \<le> sint (s_last s')"
    "chunk_at s' k = Some ch" "i \<in> bits_of (c_validity ch)" "c_rowids ch ! i = r" "i < rows_per_chunk p"
    "\<forall>x<numVectorColumns p. slot (vector_size p x) i (c_vectors ch ! x) = vs ! x" "same_keys (c_partition ch) keys"
    "map_of (s_rows s') r = Some e" "r_chunk e = k" "r_offset e = i" "pkIsText p \<longrightarrow> r_id e = a_value (args ! 2)"
    "numAuxiliaryColumns p = 0 \<longrightarrow> s_aux s' = s_aux s"
    "0 < numAuxiliaryColumns p \<longrightarrow> map_of (s_aux s') r = Some (map (arg_of AUXILIARY p args) [0..<numAuxiliaryColumns p])"
    "\<forall>x<numMetadataColumns p. stored_at (metadata_kind_at p x) (meta_view s' k x) r i (kept c (metadata_kind_at p x) (arg_of METADATA p args x))"
    "\<forall>x<numMetadataColumns p. slot_ready (metadata_kind_at p x) (meta_view s' k x) r i True" "distinct (map fst (s_rows s'))"
proof -
  have ord: "in_order p" by (rule table_in_order [OF ok])
  note sized = consistentD(1) [OF con]
  obtain a s1 s2 k i validity s3 s4 where st: "rd args 2 = Some a" "vec0Update_InsertRowidStep p s (a_value a) = Inr (s1, r)"
    "vec0Update_InsertNextAvailableStep p s1 keys = Inr (s2, k, i, validity)"
    "vec0Update_InsertWriteFinalStep p s2 k i r vs validity = Inr s3" "insert_aux p args r s3 = Inr s4"
    "insert_metadata c p args r k i (kind_columns METADATA p) s4 = Inr s'"
    using ins by (auto simp: insert_row_def on_ok_Inr or_code_Inr)
  obtain l where s1: "s1 = s\<lparr>s_rows := s_rows s @ [(r, \<lparr>r_id = (if pkIsText p then a_value a else DNull), r_chunk = 0, r_offset = 0\<rparr>)], s_last := l\<rparr>"
    and r: "map_of (s_rows s) r = None" "sint r \<le> sint l" "sint (s_last s) \<le> sint l"
    by (rule insert_rowid [OF st(2) consistentD(4) [OF con]])
  have f1: "frame p r k i s s1" unfolding s1 by (rule frame_rows) (auto simp: map_add_def split: option.splits)
  have z1: "sized_table p s1" using sized by (simp add: s1 sized_table_def)
  obtain c2 where c2: "chunk_at s2 k = Some c2" "validity = c_validity c2" "i < rows_per_chunk p" "i \<notin> bits_of validity"
    "c_partition c2 = keys \<or> list_all2 sql_eq (c_partition c2) keys" "sized_table p s2" "\<forall>r. frame p r k i s1 s2"
    "s2 = s1\<lparr>s_chunks := s_chunks s2\<rparr>" "\<forall>c. chunk_at s1 k = Some c \<longrightarrow> i \<notin> bits_of (c_validity c)"
    using next_position [OF ok z1 keys st(3)] .
  have rows2: "map_of (s_rows s2) r = Some \<lparr>r_id = (if pkIsText p then a_value a else DNull), r_chunk = 0, r_offset = 0\<rparr>"
    using r(1) by (simp add: arg_cong [OF c2(8), of s_rows] s1 map_add_def)
  obtain c3 where c3: "chunk_at s3 k = Some c3" "i \<in> bits_of (c_validity c3)" "c_rowids c3 ! i = r"
    "\<forall>x<numVectorColumns p. slot (vector_size p x) i (c_vectors c3 ! x) = vs ! x"
    "c_partition c3 = c_partition c2" "map_of (s_rows s3) r = Some (\<lparr>r_id = (if pkIsText p then a_value a else DNull), r_chunk = 0, r_offset = 0\<rparr>\<lparr>r_chunk := k, r_offset := i\<rparr>)"
    "sized_table p s3" "frame p r k i s2 s3" "s_aux s3 = s_aux s2" "s_long s3 = s_long s2" "s_last s3 = s_last s2"
    "map fst (s_rows s3) = map fst (s_rows s2)"
    using write_final [OF ok c2(6) fit c2(1,3) rows2 st(4)[unfolded c2(2)]] .
  obtain aux where s4: "s4 = s3\<lparr>s_aux := aux\<rparr>" "\<forall>r'. r' \<noteq> r \<longrightarrow> map_of aux r' = map_of (s_aux s3) r'"
    "numAuxiliaryColumns p = 0 \<longrightarrow> s4 = s3"
    "0 < numAuxiliaryColumns p \<longrightarrow> map_of aux r = Some (map (arg_of AUXILIARY p args) [0..<numAuxiliaryColumns p])"
    using insert_aux_frame [OF ord st(5)] .
  have f4: "frame p r k i s3 s4" unfolding s4(1) by (rule frame_aux) (use s4(2) in blast)
  have z4: "sized_table p s4" using c3(7) by (simp add: s4(1) sized_table_def)
  have k4: "chunk_at s4 k = Some c3" using c3(1) by (simp add: s4(1) chunk_at_def split: if_splits)
  have long: "s_long s4 = s_long s" using c3(10) arg_cong [OF c2(8), of s_long] by (simp add: s4(1) s1)
  have ready: "slot_ready (metadata_kind_at p x) (meta_view s4 k x) r i False" if "x < numMetadataColumns p" for x
    using consistentD(7) [OF con r(1) that] by (auto simp: slot_ready_def meta_view_def long)
  note cols = kind_columns_in_order [OF ord, where kind = METADATA]
  define val where "val = (\<lambda>x. kept c (metadata_kind_at p x) (arg_of METADATA p args x))"
  have "wrote p r k i val ({} \<union> snd ` set (kind_columns METADATA p)) s4 s'"
    by (rule insert_metadata_wrote [OF c ok _ c2(3) ready wrote_refl [OF z4] st(6) cols(1)])
      (use k4 cols(2) metadata_args [OF ord short, of _ c] in \<open>simp_all add: val_def\<close>)
  then have w: "wrote p r k i val {..<numMetadataColumns p} s4 s'" using cols(2) by simp
  obtain ch where ch: "chunk_at s' k = Some ch" "c_validity ch = c_validity c3" "c_rowids ch = c_rowids c3"
    "c_partition ch = c_partition c3" "c_vectors ch = c_vectors c3" by (rule wrote_chunk [OF w k4])
  have keep: "s_rows s' = s_rows s4" "s_aux s' = s_aux s4" "s_last s' = s_last s4"
    using w except_metadata_fields unfolding wrote_def by blast+
  have z': "sized_table p s'" using w by (simp add: wrote_def)
  have "map fst (s_rows s') = map fst (s_rows s) @ [r]"
    using c3(12) arg_cong [OF c2(8), of s_rows] by (simp add: keep s4(1) s1)
  then have dist: "distinct (map fst (s_rows s'))" using consistentD(8) [OF con] r(1) by (simp add: map_of_eq_None_iff)
  have f: "frame p r k i s s'"
    using f1 c2(6,7) c3(7,8) f4 z1 z4 w z' frame_trans unfolding wrote_def by meson
  show ?thesis
  proof (rule that [of k i ch "\<lparr>r_id = (if pkIsText p then a_value a else DNull), r_chunk = k, r_offset = i\<rparr>", OF f z' r(1)])
    show "\<forall>ch. chunk_at s k = Some ch \<longrightarrow> i \<notin> bits_of (c_validity ch)" using c2(9) by (simp add: s1 chunk_at_def)
    show "sint r \<le> sint (s_last s')" "sint (s_last s) \<le> sint (s_last s')"
      using r keep(3) c3(11) arg_cong [OF c2(8), of s_last] by (simp_all add: s4(1) s1)
    show "pkIsText p \<longrightarrow> r_id \<lparr>r_id = (if pkIsText p then a_value a else DNull), r_chunk = k, r_offset = i\<rparr> = a_value (args ! 2)"
      using st(1) by (simp add: rd_def split: if_splits)
    show "numAuxiliaryColumns p = 0 \<longrightarrow> s_aux s' = s_aux s"
      using keep(2) s4(3) c3(9) arg_cong [OF c2(8), of s_aux] by (simp add: s1)
    show "0 < numAuxiliaryColumns p \<longrightarrow> map_of (s_aux s') r = Some (map (arg_of AUXILIARY p args) [0..<numAuxiliaryColumns p])"
      using s4(1,4) keep(2) by simp
  qed (use ch c3 c2(3,5) keep(1) w dist in \<open>simp_all add: same_keys_def s4(1) wrote_def val_def\<close>)
qed

lemma insert_row_consistent:
  assumes ok: "table_ok p" and c: "faithful c" and con: "consistent p s" and keys: "length keys = numPartitionColumns p"
    and fit: "vectors_fit p vs" and short: "short_args args" and ins: "insert_row c p args keys vs s = Inr (s', r)"
  shows "consistent p s'" "\<exists>ks. same_keys ks keys \<and> contents p s' = (contents p s)(r \<mapsto> inserted_row c p args vs ks r)"
    "contents p s r = None"
proof -
  obtain k i ch e where st: "frame p r k i s s'" "sized_table p s'" "map_of (s_rows s) r = None"
    "\<forall>ch. chunk_at s k = Some ch \<longrightarrow> i \<notin> bits_of (c_validity ch)" "sint r \<le> sint (s_last s')" "sint (s_last s) \<le> sint (s_last s')"
    and ch: "chunk_at s' k = Some ch" "i \<in> bits_of (c_validity ch)" "c_rowids ch ! i = r" "i < rows_per_chunk p"
    "\<forall>x<numVectorColumns p. slot (vector_size p x) i (c_vectors ch ! x) = vs ! x" "same_keys (c_partition ch) keys"
    and e: "map_of (s_rows s') r = Some e" "r_chunk e = k" "r_offset e = i" "pkIsText p \<longrightarrow> r_id e = a_value (args ! 2)"
    and aux: "numAuxiliaryColumns p = 0 \<longrightarrow> s_aux s' = s_aux s"
    "0 < numAuxiliaryColumns p \<longrightarrow> map_of (s_aux s') r = Some (map (arg_of AUXILIARY p args) [0..<numAuxiliaryColumns p])"
    and ms: "\<forall>x<numMetadataColumns p. stored_at (metadata_kind_at p x) (meta_view s' k x) r i (kept c (metadata_kind_at p x) (arg_of METADATA p args x))"
    "\<forall>x<numMetadataColumns p. slot_ready (metadata_kind_at p x) (meta_view s' k x) r i True"
    and dist: "distinct (map fst (s_rows s'))"
    using insert_row_steps [OF assms] .
  have free: "(r_chunk e', r_offset e') \<noteq> (k, i)" if "map_of (s_rows s) r' = Some e'" "r' \<noteq> r" for r' e'
    using consistentD(2) [OF con that(1)] st(4) by (auto simp: placed_def)
  have none: "map_of (s_aux s) r = None" using consistentD(6) [OF con] st(3) unfolding aux_ok_def by blast
  show "consistent p s'"
    by (rule consistent_step [OF ok con st(1,2) free])
      (use st(3,5,6) ch(1-4) e aux ms none dist in \<open>auto simp: placed_def stored_row_def\<close>)
  have a: "numAuxiliaryColumns p = 0 \<or> map_of (s_aux s') r = Some (map (arg_of AUXILIARY p args) [0..<numAuxiliaryColumns p])"
    using aux(2) by auto
  have "reads p s' r = row_of (if pkIsText p then r_id e else DInt r) vs (c_partition ch)
      (map (arg_of AUXILIARY p args) [0..<numAuxiliaryColumns p])
      (map (\<lambda>x. kept c (metadata_kind_at p x) (arg_of METADATA p args x)) [0..<numMetadataColumns p])"
    by (rule reads_row [OF ok st(2) e(1) _ _ _ _ a]) (use ch e ms(1) fit in \<open>simp_all add: vectors_fit_def\<close>)
  then have mine: "reads p s' r = inserted_row c p args vs (c_partition ch) r"
    using e(4) by (cases "pkIsText p") (simp_all add: inserted_row_def)
  have "contents p s' r' = contents p s r'" if "r' \<noteq> r" for r'
  proof (cases "map_of (s_rows s) r'")
    case None
    then show ?thesis using st(1) that by (simp add: contents_def frame_def)
  next
    case (Some e')
    then show ?thesis using others_kept(1,4) [OF ok con st(1,2) free Some that] by (simp add: contents_def)
  qed
  then have "contents p s' = (contents p s)(r \<mapsto> inserted_row c p args vs (c_partition ch) r)"
    using mine e(1) by (auto simp: contents_def)
  then show "\<exists>ks. same_keys ks keys \<and> contents p s' = (contents p s)(r \<mapsto> inserted_row c p args vs ks r)" using ch(6) by blast
  show "contents p s r = None" using st(3) by (simp add: contents_def)
qed

section \<open>The insertion from its arguments\<close>

text \<open>A vector that passes the checks of its column has its size.\<close>

lemma read_vectors_fit:
  "read_vectors strtod p args cols vs h = Some (None, vs', h') \<Longrightarrow>
    \<exists>ws. vs' = vs @ ws \<and> length ws = length cols \<and> (\<forall>n<length cols. vector_fits p (snd (cols ! n)) (v_data (ws ! n)))"
proof (induction strtod p args cols vs h rule: read_vectors.induct)
  case (2 strtod p args i idx cols vs h)
  obtain a out h1 where a: "user_arg args i = Some a" "vector_from_value strtod (sql_value_of a) h = Some (out, h1)"
    using "2.prems" by (auto simp: bind_eq_Some_conv)
  obtain v ty where out: "out = Done (v, ty)" using "2.prems" a by (cases out) auto
  have t: "ty = element_type (vector_column_at p idx)" "v_dims v = dimensions (vector_column_at p idx)"
    "read_vectors strtod p args cols (vs @ [v]) h1 = Some (None, vs', h')"
    using "2.prems" a unfolding out by (simp_all add: Let_def split: if_splits)
  have sz: "sized ty v" using vector_from_value_sized [OF a(2)[unfolded out]] by simp
  have col: "element_type (vector_column_at p idx) = ty" "dimensions (vector_column_at p idx) = v_dims v" using t(1,2) by simp_all
  have "v_dims v mod 8 = 0" if "ty = BIT" using sz that by (metis mod_mult_self1_is_0 sized.simps(3))
  then have f: "vector_fits p idx (v_data v)" using sz
    by (cases ty) (auto simp: vector_fits_def vector_size_def vector_column_byte_size_def vector_byte_size_def col)
  have "\<exists>ws. vs' = (vs @ [v]) @ ws \<and> length ws = length cols \<and> (\<forall>n<length cols. vector_fits p (snd (cols ! n)) (v_data (ws ! n)))"
    using "2.IH" [OF a(1,2) refl out refl refl refl] a t unfolding out by simp
  then obtain ws where "vs' = vs @ v # ws" "length ws = length cols" "\<forall>n<length cols. vector_fits p (snd (cols ! n)) (v_data (ws ! n))"
    by auto
  then show ?case using f by (intro exI [of _ "v # ws"]) (auto simp: less_Suc_eq_0_disj)
qed simp

lemma read_vectors_all:
  assumes "in_order p" "read_vectors strtod p args (kind_columns VECTOR p) [] h = Some (None, vs, h')"
  shows "vectors_fit p (map v_data vs)"
proof -
  have m: "map snd (kind_columns VECTOR p) = [0..<numVectorColumns p]" using assms(1) by (simp add: in_order_def)
  have l: "length (kind_columns VECTOR p) = numVectorColumns p" using arg_cong [OF m, of length] by simp
  have "snd (kind_columns VECTOR p ! x) = x" if "x < numVectorColumns p" for x using arg_cong [OF m, of "\<lambda>xs. xs ! x"] l that by simp
  then show ?thesis using read_vectors_fit [OF assms(2)] l by (auto simp: vectors_fit_def)
qed

lemma insert_correct:
  assumes ok: "table_ok p" and c: "faithful c" and con: "consistent p s" and short: "short_args args"
    and ins: "vec0Update_Insert strtod c p args s h = Some (Inr (s', r), h')"
  shows "consistent p s'" "contents p s r = None"
    "\<exists>ks vs h1. read_vectors strtod p args (kind_columns VECTOR p) [] h = Some (None, vs, h1) \<and>
      same_keys ks (map (arg_of PARTITION p args) [0..<numPartitionColumns p]) \<and>
      contents p s' = (contents p s)(r \<mapsto> inserted_row c p args (map v_data vs) ks r)"
proof -
  have ord: "in_order p" by (rule table_in_order [OF ok])
  obtain keys where keys: "read_keys p args (kind_columns PARTITION p) (replicate (numPartitionColumns p) DNull) = Inr keys"
    using ins by (auto simp: vec0Update_Insert_def split: sum.splits)
  obtain e vs h1 hidden h2 where v: "read_vectors strtod p args (kind_columns VECTOR p) [] h = Some (e, vs, h1)"
    "hidden_set p args = Some hidden" "cleanup_all vs h1 = Some h2"
    "(case e of Some e \<Rightarrow> Inl e | None \<Rightarrow> if hidden then Inl SQLITE_ERROR else insert_row c p args keys (map v_data vs) s) = Inr (s', r)"
    using ins keys by (auto simp: vec0Update_Insert_def Let_def bind_eq_Some_conv)
  then have e: "e = None" "insert_row c p args keys (map v_data vs) s = Inr (s', r)" by (auto split: option.splits if_splits)
  have k: "keys = map (arg_of PARTITION p args) [0..<numPartitionColumns p]" by (rule read_keys_values [OF ord keys])
  then have l: "length keys = numPartitionColumns p" by simp
  note i = insert_row_consistent [OF ok c con l read_vectors_all [OF ord v(1)[unfolded e(1)]] short e(2)]
  show "consistent p s'" "contents p s r = None" by (rule i(1), rule i(3))
  show "\<exists>ks vs h1. read_vectors strtod p args (kind_columns VECTOR p) [] h = Some (None, vs, h1) \<and>
      same_keys ks (map (arg_of PARTITION p args) [0..<numPartitionColumns p]) \<and>
      contents p s' = (contents p s)(r \<mapsto> inserted_row c p args (map v_data vs) ks r)"
    using i(2) v(1) e(1) k by blast
qed

end
