(* ===== verification/VecUpdate.thy ===== *)
theory VecUpdate
  imports VecInsert
begin

text \<open>
  Deletion and update of a row of a \<^verbatim>\<open>vec0\<close> table, and the states a table can be in: every
  successful \<^verbatim>\<open>vec0Update\<close> keeps the invariant and changes the contents as its arguments say.
\<close>

section \<open>Deletion\<close>

lemma clear_validity:
  assumes ok: "table_ok p" and sized: "sized_table p s" and c: "chunk_at s k = Some c" and i: "i \<in> bits_of (c_validity c)"
  obtains s' c' where "vec0Update_Delete_ClearValidity s k i = Inr s'" "chunk_at s' k = Some c'" "i \<notin> bits_of (c_validity c')"
    "c_rowids c' = c_rowids c" "c_metadata c' = c_metadata c" "sized_table p s'" "\<forall>r. frame p r k i s s'"
    "s' = s\<lparr>s_chunks := s_chunks s'\<rparr>"
proof -
  have i8: "i < 8 * length (c_validity c)" by (rule bits_of_bound [OF i])
  obtain b where b: "bitmap_set (c_validity c) i 0 = Some b" "length b = length (c_validity c)" "bits_of b = bits_of (c_validity c) - {i}"
    using bitmap_set_spec [OF i8, of 0] by auto
  define c' where "c' = c\<lparr>c_validity := b\<rparr>"
  define s' where "s' = s\<lparr>s_chunks := (s_chunks s)[k - 1 := c']\<rparr>"
  have "bit (c_validity c ! (i div 8)) (i mod 8)" using i i8 by (simp add: bits_of_iff)
  then have "drop_bit (i mod 8) (c_validity c ! (i div 8)) \<noteq> 0" by (auto simp: bit_iff_odd_drop_bit)
  then have "vec0Update_Delete_ClearValidity s k i = Inr s'"
    using b(1) byte_index [OF i8] read_bit [OF i8]
    by (simp add: vec0Update_Delete_ClearValidity_def c Let_def blob_write_one bitmap_set_def s'_def c'_def del: One_nat_def)
  moreover have "sized_chunk p c'" using chunk_at_sized [OF sized c] b(2) by (simp add: sized_chunk_def c'_def)
  then have "sized_table p s'" unfolding s'_def by (rule sized_put_chunk [OF sized])
  moreover have "same_chunk p c c' (\<lambda>j. j \<noteq> i)" using b(3) by (auto simp: same_chunk_def same_at_def c'_def)
  then have "\<forall>r. frame p r k i s s'" unfolding s'_def using frame_put_chunk [OF c] by blast
  moreover have "chunk_at s' k = Some c'" unfolding s'_def chunk_at_put [OF c] by simp
  ultimately show ?thesis using that [of s' c'] b(3) by (simp add: c'_def s'_def)
qed

text \<open>The long texts of the row are gone from the columns of \<open>X\<close>.\<close>

definition cleared :: "vec0_vtab \<Rightarrow> i64 \<Rightarrow> nat \<Rightarrow> nat \<Rightarrow> nat set \<Rightarrow> shadow \<Rightarrow> shadow \<Rightarrow> bool" where
  "cleared p r k i X s s' \<longleftrightarrow> sized_table p s' \<and> frame p r k i s s' \<and> except_metadata s' = except_metadata s \<and>
     (\<forall>x<numMetadataColumns p. if x \<in> X then metadata_kind_at p x = KIND_TEXT \<longrightarrow>
          (s_long s' ! x) r = None \<and> cell KIND_TEXT (m_data (meta_view s' k x)) i = (replicate VIEW_BUFFER_LENGTH 0, False)
        else meta_view s' k x = meta_view s k x)"

lemma clear_metadata_cleared:
  assumes ok: "table_ok p" and k: "chunk_at s k = Some d0" and i: "i < rows_per_chunk p"
    and ready: "\<And>x. x < numMetadataColumns p \<Longrightarrow> slot_ready (metadata_kind_at p x) (meta_view s k x) r i True"
  shows "cleared p r k i X s s' \<Longrightarrow> distinct xs \<Longrightarrow> X \<inter> set xs = {} \<Longrightarrow> set xs \<subseteq> {..<numMetadataColumns p} \<Longrightarrow>
    cleared p r k i (X \<union> set xs) s (clear_metadata p r k i xs s')"
proof (induction xs arbitrary: X s')
  case (Cons x xs)
  note con = Cons.prems(1)
  have x: "x < numMetadataColumns p" "x \<notin> X" using Cons.prems(3,4) by auto
  have sized: "sized_table p s'" and same: "except_metadata s' = except_metadata s" using con by (simp_all add: cleared_def)
  obtain d where d: "chunk_at s' k = Some d" using except_metadata_chunk [OF same k] by blast
  note z = metadata_at_sized [OF sized ok d x(1)]
  have view: "meta_view s' k x = \<lparr>m_data = c_metadata d ! x, m_long = s_long s' ! x\<rparr>" by (simp add: meta_view_def d)
  have "slot_ready (metadata_kind_at p x) (meta_view s' k x) r i True" using con x ready unfolding cleared_def by simp
  then obtain col rc where col: "vec0Update_Delete_ClearMetadata (metadata_kind_at p x) (meta_view s' k x) r i = (col, rc)"
    "cell_frame (metadata_kind_at p x) (rows_per_chunk p) (meta_view s' k x) col r i"
    "metadata_kind_at p x = KIND_TEXT \<longrightarrow> m_long col r = None \<and> cell KIND_TEXT (m_data col) i = (replicate VIEW_BUFFER_LENGTH 0, False)"
    using clear_cell [OF z(2)[folded view] i] by metis
  define t where "t = put_metadata s' k x col"
  note g = put_metadata_frame [OF ok sized d x(1) col(2) t_def]
  have fr: "frame p r k i s t" using con g(2) frame_trans [OF _ _ g(1)] unfolding cleared_def by blast
  have long: "s_long t ! y = m_long (meta_view t k y)" "s_long s' ! y = m_long (meta_view s' k y)" for y by (simp_all add: meta_view_def)
  have "cleared p r k i (insert x X) s t"
    unfolding cleared_def
  proof (intro conjI allI impI)
    fix y assume y: "y < numMetadataColumns p"
    show "if y \<in> insert x X then metadata_kind_at p y = KIND_TEXT \<longrightarrow>
        (s_long t ! y) r = None \<and> cell KIND_TEXT (m_data (meta_view t k y)) i = (replicate VIEW_BUFFER_LENGTH 0, False)
      else meta_view t k y = meta_view s k y"
      by (cases "y = x") (use col(3) g(4,5) con y in \<open>auto simp: long cleared_def\<close>)
  qed (use g(1,3) fr same in simp_all)
  then have "cleared p r k i (insert x X \<union> set xs) s (clear_metadata p r k i xs t)"
    by (rule Cons.IH) (use Cons.prems(2-4) x in auto)
  then show ?case using z(1) col(1) by (simp add: t_def view)
qed simp

lemma frame_long_gone:
  assumes "sized_table p s" "frame p r k i s s'" "x < numMetadataColumns p" "r' \<noteq> r"
  shows "(s_long s' ! x) r' = (s_long s ! x) r'"
  using assms by (simp add: frame_def sized_table_def)

text \<open>The contents after an operation on row \<open>r\<close> at its own position.\<close>

lemma contents_frame:
  assumes ok: "table_ok p" and con: "consistent p s" and frame: "frame p r k i s s'" and sized: "sized_table p s'"
    and free: "\<And>r' e. map_of (s_rows s) r' = Some e \<Longrightarrow> r' \<noteq> r \<Longrightarrow> (r_chunk e, r_offset e) \<noteq> (k, i)"
  shows "contents p s' = (contents p s)(r := contents p s' r)"
proof
  fix r'
  show "contents p s' r' = ((contents p s)(r := contents p s' r)) r'"
  proof (cases "r' = r \<or> map_of (s_rows s) r' = None")
    case True
    then show ?thesis using frame by (auto simp: contents_def frame_def)
  next
    case False
    then obtain e where e: "map_of (s_rows s) r' = Some e" "r' \<noteq> r" by auto
    show ?thesis using others_kept(1,4) [OF ok con frame sized free e] e by (simp add: contents_def)
  qed
qed

lemma own_position:
  assumes "consistent p s" "map_of (s_rows s) r = Some e" "map_of (s_rows s) r' = Some e'" "r' \<noteq> r"
  shows "(r_chunk e', r_offset e') \<noteq> (r_chunk e, r_offset e)"
  using position_unique [OF consistentD(2) [OF assms(1,3)] consistentD(2) [OF assms(1,2)]] assms(4) by auto

lemma map_of_filter_key: "map_of (filter (\<lambda>(k, _). k \<noteq> r) xs) r' = (if r' = r then None else map_of xs r')"
  by (induction xs) auto

lemma delete_row:
  assumes ok: "table_ok p" and con: "consistent p s" and e: "map_of (s_rows s) r = Some e"
    and id: "(if pkIsText p then vec0_rowid_from_id s v else Inr (value_int64 c v)) = Inr r"
  obtains s' where "vec0Update_Delete c p v s = Inr s'" "consistent p s'" "contents p s' = (contents p s)(r := None)"
proof -
  define k i where "k = r_chunk e" and "i = r_offset e"
  note sized = consistentD(1) [OF con]
  obtain d where d: "chunk_at s k = Some d" "i \<in> bits_of (c_validity d)" and i: "i < rows_per_chunk p"
    using consistentD(2) [OF con e] by (auto simp: placed_def k_def i_def)
  obtain s1 d1 where s1: "vec0Update_Delete_ClearValidity s k i = Inr s1" "chunk_at s1 k = Some d1" "i \<notin> bits_of (c_validity d1)"
    "c_rowids d1 = c_rowids d" "c_metadata d1 = c_metadata d" "sized_table p s1" "\<forall>r. frame p r k i s s1" "s1 = s\<lparr>s_chunks := s_chunks s1\<rparr>"
    using clear_validity [OF ok sized d] .
  note s1_fields = arg_cong [OF s1(8), of s_rows] arg_cong [OF s1(8), of s_aux] arg_cong [OF s1(8), of s_long] arg_cong [OF s1(8), of s_last]
  define s2 where "s2 = vec0Update_Delete_DeleteRowids s1 r"
  define s3 where "s3 = (if numAuxiliaryColumns p > 0 then vec0Update_Delete_DeleteAux s2 r else s2)"
  define s' where "s' = clear_metadata p r k i [0..<numMetadataColumns p] s3"
  have run: "vec0Update_Delete c p v s = Inr s'"
    unfolding vec0Update_Delete_def id
    by (simp add: vec0_get_chunk_position_def e s1(1) s'_def s3_def s2_def Let_def flip: k_def i_def)
  have rows: "map_of (s_rows s2) r' = (if r' = r then None else map_of (s_rows s) r')" for r'
    by (simp add: s2_def vec0Update_Delete_DeleteRowids_def map_of_filter_key s1_fields)
  have f2: "frame p r k i s1 s2" unfolding s2_def vec0Update_Delete_DeleteRowids_def by (rule frame_rows) (simp add: map_of_filter_key)
  have aux: "map_of (s_aux s3) r' = (if r' = r \<and> 0 < numAuxiliaryColumns p then None else map_of (s_aux s) r')" for r'
    by (simp add: s3_def s2_def vec0Update_Delete_DeleteAux_def vec0Update_Delete_DeleteRowids_def map_of_filter_key s1_fields)
  have f3: "frame p r k i s2 s3" unfolding s3_def vec0Update_Delete_DeleteAux_def by (auto simp: map_of_filter_key intro!: frame_aux)
  have parts: "s_chunks s3 = s_chunks s1" "s_long s3 = s_long s" "s_last s3 = s_last s" "s_rows s3 = s_rows s2"
    by (simp_all add: s3_def s2_def vec0Update_Delete_DeleteAux_def vec0Update_Delete_DeleteRowids_def s1_fields)
  have z: "sized_table p s2" "sized_table p s3" using s1(6) parts s1_fields by (simp_all add: sized_table_def s2_def vec0Update_Delete_DeleteRowids_def)
  have k3: "chunk_at s3 k = Some d1" using s1(2) by (simp add: chunk_at_def parts split: if_splits)
  have ready: "slot_ready (metadata_kind_at p x) (meta_view s3 k x) r i True" if "x < numMetadataColumns p" for x
  proof -
    have "meta_view s3 k x = meta_view s k x" by (simp add: meta_view_def k3 d(1) s1(5) parts)
    then show ?thesis using consistentD(3) [OF con e] that by (simp add: stored_row_def k_def i_def)
  qed
  have "cleared p r k i ({} \<union> set [0..<numMetadataColumns p]) s3 s'" unfolding s'_def
    by (rule clear_metadata_cleared [OF ok k3 i ready]) (use z(2) in \<open>auto simp: cleared_def\<close>)
  then have cl: "cleared p r k i {..<numMetadataColumns p} s3 s'" by (simp add: atLeast0LessThan)
  have z': "sized_table p s'" and same: "except_metadata s' = except_metadata s3" using cl by (simp_all add: cleared_def)
  have f: "frame p r k i s s'" using s1(6,7) f2 f3 z cl z' frame_trans unfolding cleared_def by meson
  obtain d' where d': "chunk_at s' k = Some d'" "c_validity d' = c_validity d1" by (rule except_metadata_chunk [OF same k3])
  note keep = except_metadata_fields [OF same]
  have none: "map_of (s_rows s') r = None" using rows [of r] by (simp add: keep parts)
  have auxr: "map_of (s_aux s') r = None"
    using aux [of r] consistentD(6) [OF con] e by (cases "numAuxiliaryColumns p = 0") (auto simp: keep aux_ok_def)
  note free = own_position [OF con e, folded k_def i_def]
  have keys: "distinct (map fst (s_rows s'))" using consistentD(8) [OF con]
    by (simp add: keep parts s2_def vec0Update_Delete_DeleteRowids_def s1_fields distinct_map_filter)
  have "blank_at p d' i"
    unfolding blank_at_def
  proof (intro conjI allI impI)
    show "i \<notin> bits_of (c_validity d')" using d'(2) s1(3) by simp
    fix x assume "x < numMetadataColumns p" "metadata_kind_at p x = KIND_TEXT"
    then show "cell KIND_TEXT (c_metadata d' ! x) i = (replicate VIEW_BUFFER_LENGTH 0, False)"
      using cl d'(1) by (simp add: cleared_def meta_view_def)
  qed
  then have "consistent p s'"
    by (intro consistent_step [OF ok con f z' free])
      (use e none auxr d' s1(3) cl parts keep keys in \<open>auto simp: k_def i_def cleared_def\<close>)
  moreover have "contents p s' = (contents p s)(r := None)"
    using contents_frame [OF ok con f z' free] none by (simp add: contents_def)
  ultimately show ?thesis using that run by blast
qed

section \<open>Update\<close>

text \<open>Whether the update gives column \<open>x\<close> of a kind a new value.\<close>

definition given_arg :: "column_kind \<Rightarrow> vec0_vtab \<Rightarrow> argument list \<Rightarrow> nat \<Rightarrow> argument" where
  "given_arg kind p args x = the (user_arg args (fst (kind_columns kind p ! x)))"

lemma arg_of_given: "arg_of kind p args x = a_value (given_arg kind p args x)"
  by (simp add: arg_of_def given_arg_def)

text \<open>The auxiliary values after an update.\<close>

definition updated_aux :: "vec0_vtab \<Rightarrow> argument list \<Rightarrow> datum list \<Rightarrow> datum list" where
  "updated_aux p args vs = map (\<lambda>x. if a_nochange (given_arg AUXILIARY p args x) then vs ! x else arg_of AUXILIARY p args x) [0..<length vs]"

lemma update_aux_fold:
  "update_aux args r cols s = Inr s' \<Longrightarrow> \<exists>aux. s' = s\<lparr>s_aux := aux\<rparr> \<and> (\<forall>r'. r' \<noteq> r \<longrightarrow> map_of aux r' = map_of (s_aux s) r') \<and>
    map_of aux r = map_option (fold (\<lambda>(j, x) vs. if a_nochange (the (user_arg args j)) then vs else vs[x := a_value (the (user_arg args j))]) cols)
      (map_of (s_aux s) r)"
proof (induction cols arbitrary: s)
  case Nil
  then show ?case by (intro exI [of _ "s_aux s"]) (simp add: option.map_ident)
next
  case (Cons jx cols)
  obtain j x where jx: "jx = (j, x)" by force
  obtain a where a: "user_arg args j = Some a"
    "update_aux args r cols (if a_nochange a then s else vec0Update_UpdateAuxColumn s x (a_value a) r) = Inr s'"
    using Cons.prems jx by (auto simp: on_ok_Inr or_code_Inr)
  show ?case using Cons.IH [OF a(2)] a(1)
    by (auto simp: jx vec0Update_UpdateAuxColumn_def map_of_map_key option.map_comp comp_def option.map_ident)
qed

lemma fold_update_some:
  assumes "distinct (map snd cols)"
  shows "length (fold (\<lambda>(j, x) vs. if q j then vs else vs[x := f j]) cols ws) = length ws"
    "x \<notin> snd ` set cols \<Longrightarrow> fold (\<lambda>(j, x) vs. if q j then vs else vs[x := f j]) cols ws ! x = ws ! x"
    "(j, x) \<in> set cols \<Longrightarrow> x < length ws \<Longrightarrow>
      fold (\<lambda>(j, x) vs. if q j then vs else vs[x := f j]) cols ws ! x = (if q j then ws ! x else f j)"
  using assms by (induction cols arbitrary: ws) (auto simp: nth_list_update image_iff)

lemma update_aux_frame:
  assumes ord: "in_order p" and u: "update_aux args r (kind_columns AUXILIARY p) s = Inr s'"
    and l: "\<And>vs. map_of (s_aux s) r = Some vs \<Longrightarrow> length vs = numAuxiliaryColumns p"
  obtains aux where "s' = s\<lparr>s_aux := aux\<rparr>" "\<forall>r'. r' \<noteq> r \<longrightarrow> map_of aux r' = map_of (s_aux s) r'"
    "map_of aux r = map_option (updated_aux p args) (map_of (s_aux s) r)"
proof -
  define F where "F = fold (\<lambda>(j, x) vs. if a_nochange (the (user_arg args j)) then vs else vs[x := a_value (the (user_arg args j))]) (kind_columns AUXILIARY p)"
  obtain aux where aux: "s' = s\<lparr>s_aux := aux\<rparr>" "\<forall>r'. r' \<noteq> r \<longrightarrow> map_of aux r' = map_of (s_aux s) r'"
    "map_of aux r = map_option F (map_of (s_aux s) r)"
    using update_aux_fold [OF u] unfolding F_def by blast
  note k = kind_columns_in_order [OF ord, where kind = AUXILIARY]
  have "F vs = updated_aux p args vs" if vs: "length vs = numAuxiliaryColumns p" for vs
  proof (rule nth_equalityI)
    show "length (F vs) = length (updated_aux p args vs)" by (simp add: F_def fold_update_some(1) [OF k(1)] updated_aux_def)
    fix x assume "x < length (F vs)"
    then have x: "x < length vs" by (simp add: F_def fold_update_some(1) [OF k(1)])
    then have "x \<in> snd ` set (kind_columns AUXILIARY p)" using k(2) vs by simp
    then obtain j where j: "(j, x) \<in> set (kind_columns AUXILIARY p)" by auto
    then have "kind_columns AUXILIARY p ! x = (j, x)" using k(3) by blast
    then show "F vs ! x = updated_aux p args vs ! x"
      using fold_update_some(3) [OF k(1) j x, of "\<lambda>j. a_nochange (the (user_arg args j))" "\<lambda>j. a_value (the (user_arg args j))"] x
      by (simp add: F_def updated_aux_def given_arg_def arg_of_def)
  qed
  then have "map_option F (map_of (s_aux s) r) = map_option (updated_aux p args) (map_of (s_aux s) r)"
    using l by (cases "map_of (s_aux s) r") simp_all
  then show ?thesis using that aux by simp
qed

text \<open>The vector columns of \<open>X\<close> hold the vectors \<open>val\<close>, everything else is as it was.\<close>

definition revectored :: "vec0_vtab \<Rightarrow> i64 \<Rightarrow> nat \<Rightarrow> nat \<Rightarrow> (nat \<Rightarrow> u8 list) \<Rightarrow> nat set \<Rightarrow> shadow \<Rightarrow> shadow \<Rightarrow> bool" where
  "revectored p r k i val X s s' \<longleftrightarrow> sized_table p s' \<and> frame p r k i s s' \<and> s' = s\<lparr>s_chunks := s_chunks s'\<rparr> \<and>
     (\<forall>c. chunk_at s k = Some c \<longrightarrow> (\<exists>c'. chunk_at s' k = Some c' \<and> c' = c\<lparr>c_vectors := c_vectors c'\<rparr> \<and>
       (\<forall>x<numVectorColumns p. slot (vector_size p x) i (c_vectors c' ! x) =
          (if x \<in> X then val x else slot (vector_size p x) i (c_vectors c ! x)))))"

lemma revectored_put:
  assumes ok: "table_ok p" and rv: "revectored p r k i val X s s'" and k: "chunk_at s k = Some c0" and i: "i < rows_per_chunk p"
    and x: "x < numVectorColumns p" "vector_fits p x v" and c: "chunk_at s' k = Some c"
  shows "revectored p r k i (val(x := v)) (insert x X) s
    (s'\<lparr>s_chunks := (s_chunks s')[k - 1 := c\<lparr>c_vectors := (c_vectors c)[x := put_bytes (c_vectors c ! x) (i * vector_size p x) v]\<rparr>]\<rparr>)"
proof -
  have sized: "sized_table p s'" using rv by (simp add: revectored_def)
  note sc = chunk_at_sized [OF sized c]
  then have l: "length (c_vectors c) = numVectorColumns p" "length (c_vectors c ! x) = rows_per_chunk p * vector_size p x"
    using x(1) by (simp_all add: sized_chunk_def)
  define b where "b = put_bytes (c_vectors c ! x) (i * vector_size p x) v"
  define c' where "c' = c\<lparr>c_vectors := (c_vectors c)[x := b]\<rparr>"
  define t where "t = s'\<lparr>s_chunks := (s_chunks s')[k - 1 := c']\<rparr>"
  have put: "vector_put p x i v (c_vectors c ! x) b" unfolding b_def by (rule vector_put [OF x(2) l(2) i])
  have nth: "(c_vectors c)[x := b] ! y = (if y = x then b else c_vectors c ! y)" for y using x(1) l(1) by (simp add: nth_list_update)
  have "sized_chunk p c'" using sc put by (auto simp: sized_chunk_def c'_def nth vector_put_def)
  then have z: "sized_table p t" unfolding t_def by (rule sized_put_chunk [OF sized])
  have "same_chunk p c c' (\<lambda>j. j \<noteq> i)" using put by (auto simp: same_chunk_def same_at_def c'_def nth vector_put_def)
  then have "frame p r k i s' t" unfolding t_def by (rule frame_put_chunk [OF c])
  then have f: "frame p r k i s t" using rv frame_trans [OF _ _ z] by (auto simp: revectored_def)
  obtain c1 where c1: "chunk_at s' k = Some c1" "c1 = c0\<lparr>c_vectors := c_vectors c1\<rparr>"
    "\<And>x. x < numVectorColumns p \<Longrightarrow> slot (vector_size p x) i (c_vectors c1 ! x) = (if x \<in> X then val x else slot (vector_size p x) i (c_vectors c0 ! x))"
    using rv k unfolding revectored_def by blast
  have [simp]: "c1 = c" using c1(1) c by simp
  have t: "chunk_at t k = Some c'" unfolding t_def chunk_at_put [OF c] by simp
  have "c' = c0\<lparr>c_vectors := c_vectors c'\<rparr>" using c1(2) by (metis c'_def \<open>c1 = c\<close> chunk.surjective chunk.update_convs(4))
  moreover have "slot (vector_size p y) i (c_vectors c' ! y) =
      (if y \<in> insert x X then (val(x := v)) y else slot (vector_size p y) i (c_vectors c0 ! y))" if "y < numVectorColumns p" for y
    using c1(3) [OF that] put by (auto simp: c'_def nth vector_put_def)
  moreover have "t = s\<lparr>s_chunks := s_chunks t\<rparr>" using rv unfolding revectored_def t_def by (metis shadow.surjective shadow.update_convs(3))
  ultimately have "revectored p r k i (val(x := v)) (insert x X) s t" using z f t k by (simp add: revectored_def)
  then show ?thesis by (simp add: t_def c'_def b_def)
qed

text \<open>The bytes of the vector that an argument stands for, of the type and dimensions of its column.\<close>

definition vector_arg :: "strtod_fn \<Rightarrow> vec0_vtab \<Rightarrow> nat \<Rightarrow> argument \<Rightarrow> u8 list \<Rightarrow> bool" where
  "vector_arg strtod p x a v \<longleftrightarrow> (\<exists>h h' w. vector_from_value strtod (sql_value_of a) h = Some (Done (w, element_type (vector_column_at p x)), h') \<and>
     v_dims w = dimensions (vector_column_at p x) \<and> v = v_data w)"

lemma vector_arg_fits: "vector_arg strtod p x a v \<Longrightarrow> vector_fits p x v"
proof -
  assume "vector_arg strtod p x a v"
  then obtain h h' w where w: "vector_from_value strtod (sql_value_of a) h = Some (Done (w, element_type (vector_column_at p x)), h')"
    "v_dims w = dimensions (vector_column_at p x)" "v = v_data w" by (auto simp: vector_arg_def)
  have "sized (element_type (vector_column_at p x)) w" using vector_from_value_sized [OF w(1)] by simp
  moreover have "v_dims w mod 8 = 0" if "sized BIT w" using that by (metis mod_mult_self1_is_0 sized.simps(3))
  ultimately show ?thesis
    by (cases "element_type (vector_column_at p x)")
      (auto simp: vector_fits_def vector_size_def vector_column_byte_size_def vector_byte_size_def w(3) simp flip: w(2))
qed

lemma update_vector_column:
  assumes ok: "table_ok p" and rv: "revectored p r k i val X s s'" and k: "chunk_at s k = Some c0" and i: "i < rows_per_chunk p"
    and x: "x < numVectorColumns p"
    and u: "vec0Update_UpdateVectorColumn strtod p k i x a s' h = Some (Inr s'', h')"
  obtains v where "vector_arg strtod p x a v" "revectored p r k i (val(x := v)) (insert x X) s s''"
proof -
  obtain c where c: "chunk_at s' k = Some c" using rv k unfolding revectored_def by blast
  have sized: "sized_table p s'" using rv by (simp add: revectored_def)
  have l: "length (c_vectors c) = numVectorColumns p" "length (c_vectors c ! x) = rows_per_chunk p * vector_size p x"
    using chunk_at_sized [OF sized c] x by (simp_all add: sized_chunk_def)
  obtain out h1 where out: "vector_from_value strtod (sql_value_of a) h = Some (out, h1)"
    using u by (auto simp: vec0Update_UpdateVectorColumn_def bind_eq_Some_conv)
  obtain w ty where w: "out = Done (w, ty)" using u out by (cases out) (auto simp: vec0Update_UpdateVectorColumn_def)
  have t: "ty = element_type (vector_column_at p x)" "v_dims w = dimensions (vector_column_at p x)"
    using u out unfolding w by (auto simp: vec0Update_UpdateVectorColumn_def Let_def bind_eq_Some_conv split: if_splits)
  have va: "vector_arg strtod p x a (v_data w)" using out t unfolding vector_arg_def w by blast
  note fit = vector_arg_fits [OF va]
  note wv = write_vector [OF fit l(2) i]
  have "s'' = s'\<lparr>s_chunks := (s_chunks s')[k - 1 := c\<lparr>c_vectors := (c_vectors c)[x := put_bytes (c_vectors c ! x) (i * vector_size p x) (v_data w)]\<rparr>]\<rparr>"
    using u out t wv c x l(1) unfolding w
    by (auto simp: vec0Update_UpdateVectorColumn_def Let_def bind_eq_Some_conv)
  then show ?thesis using that [OF va] revectored_put [OF ok rv k i x fit c] by simp
qed

definition new_vectors :: "strtod_fn \<Rightarrow> vec0_vtab \<Rightarrow> argument list \<Rightarrow> (nat \<times> nat) list \<Rightarrow> (nat \<Rightarrow> u8 list) \<Rightarrow> bool" where
  "new_vectors strtod p args cols val \<longleftrightarrow> (\<forall>(j, x)\<in>set cols. \<forall>a. user_arg args j = Some a \<longrightarrow>
     type_of (a_value a) \<noteq> SQLITE_NULL \<longrightarrow> vector_arg strtod p x a (val x))"

lemma update_vectors_revectored:
  assumes ok: "table_ok p" and k: "chunk_at s k = Some c0" and i: "i < rows_per_chunk p"
  shows "revectored p r k i val X s s' \<Longrightarrow> update_vectors strtod p args k i cols s' h = Some (Inr s'', h') \<Longrightarrow>
    distinct (map snd cols) \<Longrightarrow> X \<inter> snd ` set cols = {} \<Longrightarrow> snd ` set cols \<subseteq> {..<numVectorColumns p} \<Longrightarrow>
    \<exists>val'. (\<forall>x. x \<notin> snd ` set cols \<longrightarrow> val' x = val x) \<and> new_vectors strtod p args cols val' \<and>
      revectored p r k i val' (X \<union> {x. \<exists>j a. (j, x) \<in> set cols \<and> user_arg args j = Some a \<and> type_of (a_value a) \<noteq> SQLITE_NULL}) s s''"
proof (induction cols arbitrary: X s' val h)
  case Nil
  then show ?case by (auto simp: new_vectors_def)
next
  case (Cons jx cols)
  obtain j x where jx: "jx = (j, x)" by force
  have x: "x < numVectorColumns p" "x \<notin> X" "x \<notin> snd ` set cols" using Cons.prems(3-5) jx by auto
  obtain a where a: "user_arg args j = Some a" using Cons.prems(2) jx by (auto simp: bind_eq_Some_conv)
  have d: "distinct (map snd cols)" "X \<inter> snd ` set cols = {}" "insert x X \<inter> snd ` set cols = {}" "snd ` set cols \<subseteq> {..<numVectorColumns p}"
    using Cons.prems(3-5) jx by auto
  define Y where "Y = {x. \<exists>j a. (j, x) \<in> set cols \<and> user_arg args j = Some a \<and> type_of (a_value a) \<noteq> SQLITE_NULL}"
  show ?case
  proof (cases "type_of (a_value a) = SQLITE_NULL")
    case True
    then have "update_vectors strtod p args k i cols s' h = Some (Inr s'', h')" using Cons.prems(2) jx a by simp
    then obtain val' where "\<forall>x. x \<notin> snd ` set cols \<longrightarrow> val' x = val x" "new_vectors strtod p args cols val'"
      "revectored p r k i val' (X \<union> Y) s s''"
      using Cons.IH [OF Cons.prems(1) _ d(1,2,4)] unfolding Y_def by blast
    moreover have "{x. \<exists>j a. (j, x) \<in> set (jx # cols) \<and> user_arg args j = Some a \<and> type_of (a_value a) \<noteq> SQLITE_NULL} = Y"
      using a True jx by (auto simp: Y_def)
    ultimately show ?thesis using a True jx by (intro exI [of _ val']) (auto simp: new_vectors_def)
  next
    case False
    then obtain out h1 where out: "vec0Update_UpdateVectorColumn strtod p k i x a s' h = Some (out, h1)"
      "(case out of Inl _ \<Rightarrow> Some (Inl SQLITE_ERROR, h1) | Inr s \<Rightarrow> update_vectors strtod p args k i cols s h1) = Some (Inr s'', h')"
      using Cons.prems(2) jx a by (auto simp: bind_eq_Some_conv)
    then obtain s1 where s1: "vec0Update_UpdateVectorColumn strtod p k i x a s' h = Some (Inr s1, h1)"
      "update_vectors strtod p args k i cols s1 h1 = Some (Inr s'', h')" by (cases out) simp_all
    obtain v where v: "vector_arg strtod p x a v" "revectored p r k i (val(x := v)) (insert x X) s s1"
      by (rule update_vector_column [OF ok Cons.prems(1) k i x(1) s1(1)])
    obtain val' where val': "\<forall>y. y \<notin> snd ` set cols \<longrightarrow> val' y = (val(x := v)) y" "new_vectors strtod p args cols val'"
      "revectored p r k i val' (insert x X \<union> Y) s s''"
      using Cons.IH [OF v(2) s1(2) d(1,3,4)] unfolding Y_def by blast
    have "{x. \<exists>j a. (j, x) \<in> set (jx # cols) \<and> user_arg args j = Some a \<and> type_of (a_value a) \<noteq> SQLITE_NULL} = insert x Y"
      using a False jx by (auto simp: Y_def)
    then show ?thesis using val' a jx v(1) x(3) by (intro exI [of _ val']) (auto simp: new_vectors_def)
  qed
qed

text \<open>The row after an update, from the row before it and the vectors \<open>val\<close> that were read.\<close>

definition updated_row where
  "updated_row c p args val = (\<lambda>(v, vs, ks, as, ms).
     (v, map (\<lambda>x. if type_of (arg_of VECTOR p args x) = SQLITE_NULL then vs ! x else Inr (val x)) [0..<numVectorColumns p], ks,
      map (\<lambda>x. if a_nochange (given_arg AUXILIARY p args x) then as ! x else Inr (arg_of AUXILIARY p args x)) [0..<numAuxiliaryColumns p],
      map (\<lambda>x. if a_nochange (given_arg METADATA p args x) then ms ! x
        else Inr (kept c (metadata_kind_at p x) (arg_of METADATA p args x))) [0..<numMetadataColumns p]))"

lemma update_metadata_args:
  "update_metadata c p args r k i cols s = Inr s' \<Longrightarrow> (j, x) \<in> set cols \<Longrightarrow> user_arg args j \<noteq> None"
  by (induction cols arbitrary: s) (auto simp: on_ok_Inr or_code_Inr)

lemma update_vectors_args:
  "update_vectors strtod p args k i cols s h = Some (Inr s', h') \<Longrightarrow> (j, x) \<in> set cols \<Longrightarrow> user_arg args j \<noteq> None"
proof (induction cols arbitrary: s h)
  case (Cons jx cols)
  obtain j' x' where jx: "jx = (j', x')" by force
  obtain a where a: "user_arg args j' = Some a" using Cons.prems(1) jx by (auto simp: bind_eq_Some_conv)
  have "\<exists>t h1. update_vectors strtod p args k i cols t h1 = Some (Inr s', h')"
  proof (cases "type_of (a_value a) = SQLITE_NULL")
    case True
    then show ?thesis using Cons.prems(1) jx a by auto
  next
    case False
    then obtain out h1 where "vec0Update_UpdateVectorColumn strtod p k i x' a s h = Some (out, h1)" "(case out of Inl _ \<Rightarrow> Some (Inl SQLITE_ERROR, h1) | Inr s \<Rightarrow> update_vectors strtod p args k i cols s h1) = Some (Inr s', h')"
      using Cons.prems(1) jx a by (auto simp: bind_eq_Some_conv)
    then show ?thesis by (cases out) auto
  qed
  then show ?case using Cons.IH Cons.prems(2) jx a by auto
qed simp

text \<open>The columns that are given a value, by their index.\<close>

lemma given_columns:
  assumes "in_order p" "\<And>j x. (j, x) \<in> set (kind_columns kind p) \<Longrightarrow> user_arg args j \<noteq> None"
  shows "{x. \<exists>j a. (j, x) \<in> set (kind_columns kind p) \<and> user_arg args j = Some a \<and> Q a} =
    {x. x < column_count kind p \<and> Q (given_arg kind p args x)}" (is "?L = ?R")
proof -
  have "x \<in> ?L \<longleftrightarrow> x \<in> ?R" for x
  proof
    assume "x \<in> ?L"
    then obtain j a where "(j, x) \<in> set (kind_columns kind p)" "user_arg args j = Some a" "Q a" by blast
    then show "x \<in> ?R" using kind_columns_in_order(3) [OF assms(1)] by (auto simp: given_arg_def)
  next
    assume x: "x \<in> ?R"
    then have "x \<in> snd ` set (kind_columns kind p)" using kind_columns_in_order(2) [OF assms(1)] by simp
    then obtain j where j: "(j, x) \<in> set (kind_columns kind p)" by auto
    then obtain a where "user_arg args j = Some a" using assms(2) by blast
    moreover have "given_arg kind p args x = the (user_arg args j)"
      using j kind_columns_in_order(3) [OF assms(1)] by (simp add: given_arg_def)
    ultimately show "x \<in> ?L" using j x by auto
  qed
  then show ?thesis by blast
qed

lemma update_steps:
  assumes ok: "table_ok p" and c: "faithful c" and con: "consistent p s" and short: "short_args args"
    and u: "vec0Update_Update strtod c p args s h = Some (Inr s', h')"
  obtains r e s1 aux s2 val vec where "update_rowid c p s (a_value (args ! 0)) (a_value (args ! 1)) = Inr r" "map_of (s_rows s) r = Some e"
    "s1 = s\<lparr>s_aux := aux\<rparr>" "\<forall>r'. r' \<noteq> r \<longrightarrow> map_of aux r' = map_of (s_aux s) r'"
    "map_of aux r = map_option (updated_aux p args) (map_of (s_aux s) r)"
    "wrote p r (r_chunk e) (r_offset e) (\<lambda>x. kept c (metadata_kind_at p x) (arg_of METADATA p args x))
      {x. x < numMetadataColumns p \<and> \<not> a_nochange (given_arg METADATA p args x)} s1 s2"
    "new_vectors strtod p args (kind_columns VECTOR p) vec"
    "revectored p r (r_chunk e) (r_offset e) vec
      {x. x < numVectorColumns p \<and> type_of (a_value (given_arg VECTOR p args x)) \<noteq> SQLITE_NULL} s2 s'"
proof -
  have ord: "in_order p" by (rule table_in_order [OF ok])
  obtain old new where on: "rd args 0 = Some old" "rd args 1 = Some new"
    using u unfolding vec0Update_Update_def by (auto simp: bind_eq_Some_conv)
  obtain r e s1 s2 where st: "update_rowid c p s (a_value old) (a_value new) = Inr r" "map_of (s_rows s) r = Some e"
    "update_aux args r (kind_columns AUXILIARY p) s = Inr s1"
    "update_metadata c p args r (r_chunk e) (r_offset e) (kind_columns METADATA p) s1 = Inr s2"
    "update_vectors strtod p args (r_chunk e) (r_offset e) (kind_columns VECTOR p) s2 h = Some (Inr s', h')"
    using u unfolding vec0Update_Update_def on
    by (auto simp: on_ok_Inr vec0_get_chunk_position_def split: sum.splits if_splits option.splits)
  have la: "length vs = numAuxiliaryColumns p" if "map_of (s_aux s) r = Some vs" for vs
    using consistentD(6) [OF con] that by (auto simp: aux_ok_def)
  obtain aux where aux: "s1 = s\<lparr>s_aux := aux\<rparr>" "\<forall>r'. r' \<noteq> r \<longrightarrow> map_of aux r' = map_of (s_aux s) r'"
    "map_of aux r = map_option (updated_aux p args) (map_of (s_aux s) r)"
    using update_aux_frame [OF ord st(3) la] .
  obtain d where d: "chunk_at s (r_chunk e) = Some d" and i: "r_offset e < rows_per_chunk p"
    using consistentD(2) [OF con st(2)] by (auto simp: placed_def)
  have d1: "chunk_at s1 (r_chunk e) = Some d" using d by (simp add: aux(1) chunk_at_def split: if_splits)
  have z1: "sized_table p s1" using consistentD(1) [OF con] by (simp add: aux(1) sized_table_def)
  have ready: "slot_ready (metadata_kind_at p x) (meta_view s1 (r_chunk e) x) r (r_offset e) True" if "x < numMetadataColumns p" for x
  proof -
    have "meta_view s1 (r_chunk e) x = meta_view s (r_chunk e) x" by (simp add: meta_view_def d d1) (simp add: aux(1))
    then show ?thesis using consistentD(3) [OF con st(2)] that by (simp add: stored_row_def)
  qed
  note cm = kind_columns_in_order [OF ord, where kind = METADATA]
  note cv = kind_columns_in_order [OF ord, where kind = VECTOR]
  have k1: "chunk_at s1 (r_chunk e) \<noteq> None" using d1 by simp
  have "wrote p r (r_chunk e) (r_offset e) (\<lambda>x. kept c (metadata_kind_at p x) (arg_of METADATA p args x)) ({} \<union> {x. \<exists>j a. (j, x) \<in> set (kind_columns METADATA p) \<and> user_arg args j = Some a \<and> \<not> a_nochange a}) s1 s2"
    by (rule update_metadata_wrote [OF c ok k1 i ready wrote_refl [OF z1] st(4) cm(1)])
      (use cm(2) metadata_args [OF ord short, of _ c] in simp_all)
  then have w: "wrote p r (r_chunk e) (r_offset e) (\<lambda>x. kept c (metadata_kind_at p x) (arg_of METADATA p args x))
      {x. x < numMetadataColumns p \<and> \<not> a_nochange (given_arg METADATA p args x)} s1 s2"
    using given_columns [OF ord update_metadata_args [OF st(4)], where Q = "\<lambda>a. \<not> a_nochange a"] by simp
  obtain d2 where d2: "chunk_at s2 (r_chunk e) = Some d2" by (rule wrote_chunk [OF w d1])
  have rv: "revectored p r (r_chunk e) (r_offset e) undefined {} s2 s2" using w d2 by (auto simp: revectored_def wrote_def)
  obtain vec where "new_vectors strtod p args (kind_columns VECTOR p) vec"
    "revectored p r (r_chunk e) (r_offset e) vec ({} \<union> {x. \<exists>j a. (j, x) \<in> set (kind_columns VECTOR p) \<and> user_arg args j = Some a \<and> type_of (a_value a) \<noteq> SQLITE_NULL}) s2 s'"
    using update_vectors_revectored [OF ok d2 i rv st(5) cv(1)] cv(2) by auto
  then show ?thesis
    using that [OF _ st(2) aux w] st(1) on given_columns [OF ord update_vectors_args [OF st(5)], where Q = "\<lambda>a. type_of (a_value a) \<noteq> SQLITE_NULL"]
    by (simp add: rd_def split: if_splits)
qed

lemma update_correct:
  assumes ok: "table_ok p" and c: "faithful c" and con: "consistent p s" and short: "short_args args"
    and u: "vec0Update_Update strtod c p args s h = Some (Inr s', h')"
  obtains r val row where "update_rowid c p s (a_value (args ! 0)) (a_value (args ! 1)) = Inr r" "consistent p s'"
    "new_vectors strtod p args (kind_columns VECTOR p) val" "contents p s r = Some row"
    "contents p s' = (contents p s)(r \<mapsto> updated_row c p args val row)"
proof -
  obtain r e s1 aux s2 vec where id: "update_rowid c p s (a_value (args ! 0)) (a_value (args ! 1)) = Inr r" and e: "map_of (s_rows s) r = Some e"
    and aux: "s1 = s\<lparr>s_aux := aux\<rparr>" "\<forall>r'. r' \<noteq> r \<longrightarrow> map_of aux r' = map_of (s_aux s) r'"
    "map_of aux r = map_option (updated_aux p args) (map_of (s_aux s) r)"
    and w: "wrote p r (r_chunk e) (r_offset e) (\<lambda>x. kept c (metadata_kind_at p x) (arg_of METADATA p args x))
      {x. x < numMetadataColumns p \<and> \<not> a_nochange (given_arg METADATA p args x)} s1 s2"
    and nv: "new_vectors strtod p args (kind_columns VECTOR p) vec"
    and rv: "revectored p r (r_chunk e) (r_offset e) vec
      {x. x < numVectorColumns p \<and> type_of (a_value (given_arg VECTOR p args x)) \<noteq> SQLITE_NULL} s2 s'"
    by (rule update_steps [OF assms])
  define k i where "k = r_chunk e" and "i = r_offset e"
  note w = w [folded k_def i_def] and rv = rv [folded k_def i_def]
  note sized = consistentD(1) [OF con]
  obtain d where d: "chunk_at s k = Some d" "i \<in> bits_of (c_validity d)" "c_rowids d ! i = r" and i: "i < rows_per_chunk p"
    using consistentD(2) [OF con e] by (auto simp: placed_def k_def i_def)
  have d1: "chunk_at s1 k = Some d" using d(1) by (simp add: aux(1) chunk_at_def split: if_splits)
  have z1: "sized_table p s1" using sized by (simp add: aux(1) sized_table_def)
  have f1: "frame p r k i s s1" unfolding aux(1) by (rule frame_aux) (use aux(2) in blast)
  obtain d2 where d2: "chunk_at s2 k = Some d2" "c_validity d2 = c_validity d" "c_rowids d2 = c_rowids d"
    "c_partition d2 = c_partition d" "c_vectors d2 = c_vectors d" by (rule wrote_chunk [OF w d1])
  have "except_metadata s2 = except_metadata s1" using w by (simp add: wrote_def)
  note keep2 = except_metadata_fields [OF this]
  obtain d' where d': "chunk_at s' k = Some d'" "d' = d2\<lparr>c_vectors := c_vectors d'\<rparr>"
    "\<And>x. x < numVectorColumns p \<Longrightarrow> slot (vector_size p x) i (c_vectors d' ! x) =
       (if x \<in> {x. x < numVectorColumns p \<and> type_of (a_value (given_arg VECTOR p args x)) \<noteq> SQLITE_NULL} then vec x
        else slot (vector_size p x) i (c_vectors d2 ! x))"
    using rv d2(1) unfolding revectored_def by blast
  note d'_fields = arg_cong [OF d'(2), of c_validity] arg_cong [OF d'(2), of c_rowids] arg_cong [OF d'(2), of c_partition] arg_cong [OF d'(2), of c_metadata]
  have keep: "s' = s2\<lparr>s_chunks := s_chunks s'\<rparr>" and z': "sized_table p s'" using rv by (simp_all add: revectored_def)
  have fields: "s_rows s' = s_rows s" "s_aux s' = aux" "s_last s' = s_last s" "s_long s' = s_long s2"
    using arg_cong [OF keep, of s_rows] arg_cong [OF keep, of s_aux] arg_cong [OF keep, of s_last] arg_cong [OF keep, of s_long] keep2
    by (simp_all add: aux(1))
  have z2: "sized_table p s2" using w by (simp add: wrote_def)
  have f: "frame p r k i s s'" using f1 w rv z1 z2 z' frame_trans unfolding wrote_def revectored_def by meson
  have view1: "meta_view s1 k x = meta_view s k x" for x by (simp add: meta_view_def d(1) d1) (simp add: aux(1))
  have view': "meta_view s' k x = meta_view s2 k x" for x
    using d'_fields(4) by (simp add: meta_view_def d'(1) d2(1) fields)
  obtain ms where ms: "\<And>x. x < numMetadataColumns p \<Longrightarrow> stored_at (metadata_kind_at p x) (meta_view s k x) r i (ms x)"
    "\<And>x. x < numMetadataColumns p \<Longrightarrow> slot_ready (metadata_kind_at p x) (meta_view s k x) r i True"
    using consistentD(3) [OF con e] unfolding stored_row_def k_def i_def by metis
  define ms' where "ms' = (\<lambda>x. if a_nochange (given_arg METADATA p args x) then ms x else kept c (metadata_kind_at p x) (arg_of METADATA p args x))"
  have st': "stored_at (metadata_kind_at p x) (meta_view s' k x) r i (ms' x)"
    "slot_ready (metadata_kind_at p x) (meta_view s' k x) r i True" if "x < numMetadataColumns p" for x
    using w that ms(1,2) [OF that] view1 [of x] unfolding wrote_def view'
    by (cases "a_nochange (given_arg METADATA p args x)"; force simp: ms'_def)+
  have row': "placed p s' r e" "stored_row p s' r e"
    using i d' d2 d d'_fields st' by (auto simp: placed_def stored_row_def k_def i_def)
  note free = own_position [OF con e, folded k_def i_def]
  have ax: "map_of (s_aux s) r' \<noteq> None \<longleftrightarrow> 0 < numAuxiliaryColumns p \<and> map_of (s_rows s) r' \<noteq> None"
    "map_of (s_aux s) r' = Some vs \<Longrightarrow> length vs = numAuxiliaryColumns p" for r' vs
    using consistentD(6) [OF con] by (auto simp: aux_ok_def)
  have con': "consistent p s'"
  proof (rule consistent_step [OF ok con f z' free])
    show "map_of (s_aux s') r \<noteq> None \<longleftrightarrow> 0 < numAuxiliaryColumns p \<and> map_of (s_rows s') r \<noteq> None"
      using ax(1) [of r] by (simp add: fields aux(3))
    show "\<And>vs. map_of (s_aux s') r = Some vs \<Longrightarrow> length vs = numAuxiliaryColumns p"
      using ax(2) [of r] by (auto simp: fields aux(3) updated_aux_def)
    show "\<And>e. map_of (s_rows s) r = Some e \<Longrightarrow> r_chunk e = k \<and> r_offset e = i" using e by (simp add: k_def i_def)
    show "\<And>e. map_of (s_rows s') r = Some e \<Longrightarrow> placed p s' r e \<and> stored_row p s' r e \<and> sint r \<le> sint (s_last s')"
      using e row' consistentD(4) [OF con e] by (simp add: fields)
    show "\<exists>e. map_of (s_rows s') (c_rowids d ! i) = Some e \<and> r_chunk e = k \<and> r_offset e = i"
      if "chunk_at s' k = Some d" "i \<in> bits_of (c_validity d)" for d
    proof -
      have "c_rowids d ! i = r" using that(1) d'(1) d'_fields(2) d2(3) d(3) by simp
      then show ?thesis using e by (simp add: fields k_def i_def)
    qed
    show "i \<in> bits_of (c_validity d) \<or> blank_at p d i" if "chunk_at s' k = Some d" for d
      using that d'(1) d'_fields(1) d2(2) d(2) by simp
    show "distinct (map fst (s_rows s'))" using consistentD(8) [OF con] by (simp add: fields)
  qed (use e in \<open>simp_all add: fields\<close>)
  define as where "as = (if numAuxiliaryColumns p = 0 then [] else the (map_of (s_aux s) r))"
  have as: "numAuxiliaryColumns p = 0 \<or> map_of (s_aux s) r = Some as" "length as = numAuxiliaryColumns p"
    using ax(1) [of r] ax(2) [of r] e by (auto simp: as_def)
  then have as': "numAuxiliaryColumns p = 0 \<or> map_of (s_aux s') r = Some (updated_aux p args as)" by (auto simp: fields aux(3))
  define vs where "vs = (\<lambda>x. slot (vector_size p x) i (c_vectors d ! x))"
  define vs' where "vs' = (\<lambda>x. if type_of (arg_of VECTOR p args x) = SQLITE_NULL then vs x else vec x)"
  have old: "reads p s r = row_of (if pkIsText p then r_id e else DInt r) (map vs [0..<numVectorColumns p]) (c_partition d) as (map ms [0..<numMetadataColumns p])"
    by (rule reads_row [OF ok sized e _ _ _ _ as])
      (use d(1) i ms(1) in \<open>simp_all add: vs_def flip: k_def i_def\<close>)
  have new: "reads p s' r = row_of (if pkIsText p then r_id e else DInt r) (map vs' [0..<numVectorColumns p]) (c_partition d')
      (updated_aux p args as) (map ms' [0..<numMetadataColumns p])"
    by (rule reads_row [OF ok z' _ _ _ _ _ as'])
      (use e d'(1,3) d2(5) i st'(1) as(2) in \<open>simp_all add: vs_def vs'_def arg_of_given updated_aux_def fields flip: k_def i_def\<close>)
  have "reads p s' r = updated_row c p args vec (reads p s r)"
    using as(2) d'_fields(3) d2(4)
    by (simp add: old new row_of_def updated_row_def vs'_def ms'_def updated_aux_def cong: if_cong)
  then have "contents p s' = (contents p s)(r \<mapsto> updated_row c p args vec (reads p s r))"
    using contents_frame [OF ok con f z' free] e by (simp add: contents_def fields)
  then show ?thesis using that [OF id con' nv] e by (simp add: contents_def)
qed

section \<open>The states of a table\<close>

text \<open>
  A step of the table: an operation of \<open>xUpdate\<close> that succeeds, or one that fails and is rolled
  back.
\<close>

inductive table_step :: "strtod_fn \<Rightarrow> conversions \<Rightarrow> vec0_vtab \<Rightarrow> shadow \<Rightarrow> shadow \<Rightarrow> bool" for strtod c p where
  inserted: "short_args args \<Longrightarrow> vec0Update_Insert strtod c p args s h = Some (Inr (s', r), h') \<Longrightarrow> table_step strtod c p s s'"
| deleted: "vec0Update_Delete c p v s = Inr s' \<Longrightarrow> table_step strtod c p s s'"
| updated: "short_args args \<Longrightarrow> vec0Update_Update strtod c p args s h = Some (Inr s', h') \<Longrightarrow> table_step strtod c p s s'"
| failed: "vec0Update strtod c p args s h = Some (Inl e, h') \<Longrightarrow> table_step strtod c p s s"

inductive_cases table_stepE: "table_step strtod c p s s'"

definition reachable :: "strtod_fn \<Rightarrow> conversions \<Rightarrow> vec0_vtab \<Rightarrow> shadow \<Rightarrow> bool" where
  "reachable strtod c p = (table_step strtod c p)\<^sup>*\<^sup>* (empty_shadow p)"

text \<open>Every call of \<open>xUpdate\<close> is a step.\<close>

lemma vec0Update_step:
  assumes "vec0Update strtod c p args s h = Some (x, h')" "short_args args"
  shows "table_step strtod c p s (case x of Inl e \<Rightarrow> s | Inr s' \<Rightarrow> s')"
proof (cases x)
  case (Inl e)
  then show ?thesis using failed assms(1) by simp
next
  case (Inr s')
  obtain a where a: "rd args 0 = Some a" using assms(1) by (auto simp: vec0Update_def bind_eq_Some_conv)
  consider "vec0Update_Delete c p (a_value a) s = Inr s'"
    | r where "vec0Update_Insert strtod c p args s h = Some (Inr (s', r), h')"
    | "vec0Update_Update strtod c p args s h = Some (Inr s', h')"
    using assms(1) a unfolding Inr vec0Update_def by (auto simp: on_ok_Inr split: if_splits)
  then show ?thesis unfolding Inr using table_step.intros(1-3) assms(2) by cases (simp; blast)+
qed

lemma consistent_empty: "consistent p (empty_shadow p)"
  by (auto simp: consistent_def empty_shadow_def sized_table_def chunk_at_def rd_def aux_ok_def)

lemma delete_id:
  assumes "vec0Update_Delete c p v s = Inr s'"
  obtains r e where "(if pkIsText p then vec0_rowid_from_id s v else Inr (value_int64 c v)) = Inr r" "map_of (s_rows s) r = Some e"
  using assms by (auto simp: vec0Update_Delete_def on_ok_Inr vec0_get_chunk_position_def split: option.splits)

lemma step_consistent:
  assumes "table_ok p" "faithful c" "table_step strtod c p s s'" "consistent p s"
  shows "consistent p s'"
  using assms(3)
proof (rule table_stepE)
  fix args h r h'
  assume "short_args args" "vec0Update_Insert strtod c p args s h = Some (Inr (s', r), h')"
  then show ?thesis using insert_correct(1) assms by blast
next
  fix v assume d: "vec0Update_Delete c p v s = Inr s'"
  then obtain r e where "(if pkIsText p then vec0_rowid_from_id s v else Inr (value_int64 c v)) = Inr r" "map_of (s_rows s) r = Some e"
    by (rule delete_id)
  then show ?thesis using delete_row [OF assms(1,4)] d by (metis sum.inject(2))
next
  fix args h h'
  assume "short_args args" "vec0Update_Update strtod c p args s h = Some (Inr s', h')"
  then show ?thesis using update_correct assms by metis
qed (use assms in simp)

lemma reachable_consistent:
  assumes "table_ok p" "faithful c" "reachable strtod c p s"
  shows "consistent p s"
  using assms(3) unfolding reachable_def
  by (induction rule: rtranclp_induct) (use consistent_empty step_consistent [OF assms(1,2)] in blast)+

text \<open>The positions of the rows, and the positions whose validity bit is set.\<close>

definition position :: "shadow \<Rightarrow> i64 \<Rightarrow> nat \<times> nat" where
  "position s r = (let e = the (map_of (s_rows s) r) in (r_chunk e, r_offset e))"

definition occupied :: "shadow \<Rightarrow> (nat \<times> nat) set" where
  "occupied s = {(k, j) | k j c. chunk_at s k = Some c \<and> j \<in> bits_of (c_validity c)}"

text \<open>
  C2: Whatever sequence of insertions, deletions and updates a table has seen, its rows are in
  bijection with the validity bits that are set in its chunks, every position holds the row id of
  its row, and each row reads a value of the right kind from every metadata column.
\<close>
theorem reachable_positions:
  assumes "table_ok p" "faithful c" "reachable strtod c p s"
  shows "bij_betw (position s) (dom (map_of (s_rows s))) (occupied s) \<and>
    (\<forall>r k j d. position s r = (k, j) \<and> r \<in> dom (map_of (s_rows s)) \<and> chunk_at s k = Some d \<longrightarrow> c_rowids d ! j = r) \<and>
    (\<forall>r\<in>dom (map_of (s_rows s)). \<forall>x<numMetadataColumns p. \<exists>v. result_metadata p s r x = Inr v \<and> fits_kind (metadata_kind_at p x) v)"
proof (intro conjI)
  note con = reachable_consistent [OF assms]
  have pl: "placed p s r (the (map_of (s_rows s) r))" if "r \<in> dom (map_of (s_rows s))" for r
    using that consistentD(2) [OF con] by auto
  show "bij_betw (position s) (dom (map_of (s_rows s))) (occupied s)"
    unfolding bij_betw_def
  proof (intro conjI equalityI subsetI)
    show "inj_on (position s) (dom (map_of (s_rows s)))"
      using position_unique [OF pl pl] by (auto simp: inj_on_def position_def Let_def)
    show "\<And>x. x \<in> position s ` dom (map_of (s_rows s)) \<Longrightarrow> x \<in> occupied s"
      using pl by (fastforce simp: position_def occupied_def placed_def Let_def)
    show "x \<in> position s ` dom (map_of (s_rows s))" if here: "x \<in> occupied s" for x
    proof -
      obtain k j d where x: "x = (k, j)" "chunk_at s k = Some d" "j \<in> bits_of (c_validity d)" using here unfolding occupied_def by blast
      obtain e where "map_of (s_rows s) (c_rowids d ! j) = Some e" "r_chunk e = k" "r_offset e = j"
        using consistentD(5) [OF con x(2,3)] by blast
      then show ?thesis using x(1) by (auto simp: position_def Let_def intro!: image_eqI [of _ _ "c_rowids d ! j"])
    qed
  qed
  show "\<forall>r k j d. position s r = (k, j) \<and> r \<in> dom (map_of (s_rows s)) \<and> chunk_at s k = Some d \<longrightarrow> c_rowids d ! j = r"
    using pl by (fastforce simp: position_def placed_def Let_def)
  show "\<forall>r\<in>dom (map_of (s_rows s)). \<forall>x<numMetadataColumns p. \<exists>v. result_metadata p s r x = Inr v \<and> fits_kind (metadata_kind_at p x) v"
  proof (intro ballI allI impI)
    fix r x assume r: "r \<in> dom (map_of (s_rows s))" and x: "x < numMetadataColumns p"
    then obtain e where e: "map_of (s_rows s) r = Some e" by auto
    obtain d where d: "chunk_at s (r_chunk e) = Some d" using consistentD(2) [OF con e] by (auto simp: placed_def)
    obtain v where "stored_at (metadata_kind_at p x) (meta_view s (r_chunk e) x) r (r_offset e) v"
      using consistentD(3) [OF con e] x by (auto simp: stored_row_def)
    then show "\<exists>v. result_metadata p s r x = Inr v \<and> fits_kind (metadata_kind_at p x) v"
      using metadata_at_sized(1) [OF consistentD(1) [OF con] assms(1) d x]
      by (auto simp: result_metadata_def vec0_get_chunk_position_def e meta_view_def d stored_at_def)
  qed
qed

section \<open>The operations of xUpdate\<close>

text \<open>
  C3: A successful insertion into a table adds one row under a row id that was not there: the row
  reads the vectors, the auxiliary and the metadata values of the arguments, and the keys of its
  partition; what is read of every other row is as before.
\<close>
theorem insert_refines:
  assumes "table_ok p" "faithful c" "consistent p s" "short_args args"
    and "vec0Update_Insert strtod c p args s h = Some (Inr (s', r), h')"
  shows "consistent p s' \<and> contents p s r = None \<and>
    (\<exists>ks vs h1. read_vectors strtod p args (kind_columns VECTOR p) [] h = Some (None, vs, h1) \<and>
      same_keys ks (map (arg_of PARTITION p args) [0..<numPartitionColumns p]) \<and>
      contents p s' = (contents p s)(r \<mapsto> inserted_row c p args (map v_data vs) ks r))"
  using insert_correct [OF assms] by blast

text \<open>
  C4: A deletion removes the row it names and nothing else; it fails exactly when there is no such
  row, with the code of an empty result.
\<close>
theorem delete_refines:
  assumes "table_ok p" "consistent p s"
  shows "case if pkIsText p then vec0_rowid_from_id s v else Inr (value_int64 c v) of
      Inl e \<Rightarrow> vec0Update_Delete c p v s = Inl e
    | Inr r \<Rightarrow> if contents p s r = None then vec0Update_Delete c p v s = Inl SQLITE_EMPTY
        else \<exists>s'. vec0Update_Delete c p v s = Inr s' \<and> consistent p s' \<and> contents p s' = (contents p s)(r := None)"
proof (cases "if pkIsText p then vec0_rowid_from_id s v else Inr (value_int64 c v)")
  case (Inl e)
  then show ?thesis by (simp add: vec0Update_Delete_def)
next
  case (Inr r)
  show ?thesis
  proof (cases "map_of (s_rows s) r")
    case None
    then show ?thesis unfolding Inr by (simp add: vec0Update_Delete_def Inr vec0_get_chunk_position_def contents_def)
  next
    case (Some e)
    then show ?thesis using delete_row [OF assms Some Inr] unfolding Inr by (auto simp: contents_def)
  qed
qed

text \<open>
  C5: A successful update changes the row it names and no other: a vector that is not \<open>NULL\<close>
  replaces that of its column, an auxiliary or metadata value that is given replaces the old one,
  and the identifier, the partition keys and all other values stay.
\<close>
theorem update_refines:
  assumes "table_ok p" "faithful c" "consistent p s" "short_args args"
    and "vec0Update_Update strtod c p args s h = Some (Inr s', h')"
  shows "consistent p s' \<and> (\<exists>r val row. update_rowid c p s (a_value (args ! 0)) (a_value (args ! 1)) = Inr r \<and>
    new_vectors strtod p args (kind_columns VECTOR p) val \<and> contents p s r = Some row \<and>
    contents p s' = (contents p s)(r \<mapsto> updated_row c p args val row))"
  using update_correct [OF assms] by metis

section \<open>An example\<close>

text \<open>A table with a vector of two bytes, an auxiliary text and an integer of metadata.\<close>

definition example_table :: vec0_vtab where
  "example_table = empty_vtab\<lparr>numVectorColumns := 1, numAuxiliaryColumns := 1, numMetadataColumns := 1,
     user_column_kinds := [Some VECTOR, Some AUXILIARY, Some METADATA] @ replicate 49 None,
     vector_columns := Some \<lparr>vname = lit ''v'', vname_length = 1, dimensions = 2, element_type = INT8, distance_metric = L2\<rparr> # replicate 15 None,
     auxiliary_columns := Some \<lparr>cname = lit ''a'', cname_length = 1, ctype = TEXT\<rparr> # replicate 15 None,
     metadata_columns := Some \<lparr>cname = lit ''m'', cname_length = 1, ctype = KIND_INTEGER\<rparr> # replicate 15 None,
     chunk_size := 8\<rparr>"

lemma example_counts:
  "column_count k example_table = (case k of VECTOR \<Rightarrow> 1 | PARTITION \<Rightarrow> 0 | AUXILIARY \<Rightarrow> 1 | METADATA \<Rightarrow> 1)"
  by (cases k) (simp_all add: example_table_def empty_vtab_def)

lemma example_ok: "table_ok example_table"
proof -
  have u: "user_columns example_table 3 = [(Some VECTOR, 0), (Some AUXILIARY, 0), (Some METADATA, 0)]"
    by (simp add: user_columns_def example_table_def empty_vtab_def eval_nat_numeral)
  have n: "vec0_num_defined_user_columns example_table = 3"
    by (simp add: vec0_num_defined_user_columns_def example_table_def empty_vtab_def)
  have "map snd (filter (\<lambda>c. fst c = Some k) (user_columns example_table 3)) = [0..<column_count k example_table]" for k
    unfolding u example_counts by (cases k) simp_all
  moreover have "set (user_columns example_table 3) = {(Some k, i) | k i. i < column_count k example_table}"
    unfolding u example_counts by (auto split: column_kind.splits) (metis column_kind.exhaust)+
  ultimately have "listed example_table 3" using u n by (simp add: listed_def example_table_def empty_vtab_def)
  then show ?thesis
    by (simp add: table_ok_def vtab_ok_def n filled_def chunk_ok_def) (simp add: example_table_def empty_vtab_def vector_column_ok_def)
qed

definition given :: "datum \<Rightarrow> nat \<Rightarrow> argument" where
  "given v t = \<lparr>a_value = v, a_subtype = t, a_nochange = False\<rparr>"

definition no_strtod :: strtod_fn where "no_strtod m i = None"

definition fresh_heap :: heap where "fresh_heap = \<lparr>h_live = [], h_next = 0, h_fail = (\<lambda>i. False)\<rparr>"

definition insert_args :: "argument list" where
  "insert_args = [given DNull 0, given DNull 0, given (DInt 7) 0, given (DBlob [3, 250]) (subtype_of INT8), given (DText (lit ''text'')) 0,
     given (DInt 5) 0, given DNull 0, given DNull 0]"

definition update_example :: "argument list" where
  "update_example = [given (DInt 7) 0, given (DInt 7) 0, given DNull 0, given (DBlob [1, 2]) (subtype_of INT8),
     \<lparr>a_value = DNull, a_subtype = 0, a_nochange = True\<rparr>, given (DInt 6) 0, given DNull 0, given DNull 0]"

definition after_insert :: shadow where
  "after_insert = (case vec0Update_Insert no_strtod plain_conversions example_table insert_args (empty_shadow example_table) fresh_heap of
     Some (Inr (s, r), h) \<Rightarrow> s | _ \<Rightarrow> empty_shadow example_table)"

lemma example_runs:
  "case vec0Update_Insert no_strtod plain_conversions example_table insert_args (empty_shadow example_table) fresh_heap of
     Some (Inr (s, r), h) \<Rightarrow> r = 7 | _ \<Rightarrow> False"
  by code_simp

lemma example_updates:
  "case vec0Update_Update no_strtod plain_conversions example_table update_example after_insert fresh_heap of
     Some (Inr s, h) \<Rightarrow> True | _ \<Rightarrow> False"
  by code_simp

lemma example_inserted:
  obtains h where "vec0Update_Insert no_strtod plain_conversions example_table insert_args (empty_shadow example_table) fresh_heap =
    Some (Inr (after_insert, 7), h)"
  using example_runs unfolding after_insert_def by (auto split: option.splits sum.splits prod.splits)

lemma example_short: "short_args insert_args" "short_args update_example"
  by (simp_all add: short_args_def short_def insert_args_def update_example_def given_def)

theorem insert_refines_witness:
  "contents example_table after_insert 7 \<noteq> None \<and> contents example_table (empty_shadow example_table) 7 = None"
  using insert_refines [OF example_ok faithful_plain consistent_empty example_short(1)] example_inserted by (metis fun_upd_same option.distinct(1))

lemma after_insert: "consistent example_table after_insert" "map_of (s_rows after_insert) 7 \<noteq> None"
proof -
  obtain h where i: "vec0Update_Insert no_strtod plain_conversions example_table insert_args (empty_shadow example_table) fresh_heap =
    Some (Inr (after_insert, 7), h)" by (rule example_inserted)
  note ins = insert_correct [OF example_ok faithful_plain consistent_empty example_short(1) i]
  show "consistent example_table after_insert" by (rule ins(1))
  have "contents example_table after_insert 7 \<noteq> None" using ins(3) by (metis fun_upd_same option.distinct(1))
  then show "map_of (s_rows after_insert) 7 \<noteq> None" by (metis contents_def)
qed

theorem delete_refines_witness:
  "\<exists>s'. vec0Update_Delete plain_conversions example_table (DInt 7) after_insert = Inr s' \<and>
    contents example_table s' = (contents example_table after_insert)(7 := None)"
proof -
  have "\<not> pkIsText example_table" by (simp add: example_table_def empty_vtab_def)
  then show ?thesis
    using delete_refines [OF example_ok after_insert(1), where v = "DInt 7" and c = plain_conversions] after_insert(2)
    by (auto simp: plain_conversions_def contents_def)
qed

theorem update_refines_witness:
  "\<exists>s' row. contents example_table after_insert 7 \<noteq> None \<and> consistent example_table s' \<and>
    contents example_table s' = (contents example_table after_insert)(7 \<mapsto> row)"
proof -
  obtain s' h where u: "vec0Update_Update no_strtod plain_conversions example_table update_example after_insert fresh_heap = Some (Inr s', h)"
    using example_updates by (auto split: option.splits sum.splits prod.splits)
  have "update_rowid plain_conversions example_table after_insert (a_value (update_example ! 0)) (a_value (update_example ! 1)) = Inr 7"
    by (simp add: update_rowid_def example_table_def empty_vtab_def update_example_def given_def plain_conversions_def)
  then show ?thesis
    using update_refines [OF example_ok faithful_plain after_insert(1) example_short(2) u] by (metis option.distinct(1) sum.inject(2))
qed

theorem reachable_positions_witness:
  "bij_betw (position after_insert) (dom (map_of (s_rows after_insert))) (occupied after_insert) \<and> 7 \<in> dom (map_of (s_rows after_insert))"
proof -
  have "table_step no_strtod plain_conversions example_table (empty_shadow example_table) after_insert"
    using inserted [OF example_short(1)] example_inserted by metis
  then have "reachable no_strtod plain_conversions example_table after_insert" unfolding reachable_def by blast
  from reachable_positions [OF example_ok faithful_plain this] show ?thesis using after_insert(2) by auto
qed

end
