(* ===== verification/VecPlan.thy ===== *)
theory VecPlan
  imports VecUpdate
begin

text \<open>
  The planner of \<^verbatim>\<open>extensions/sqlite-vec/cc/sqlite-vec.c\<close>: \<open>vec0BestIndex\<close> turns the constraints of a
  query into the string \<open>idxStr\<close> that \<open>vec0Filter\<close> reads, and says which constraint becomes which
  argument. Whether a constraint is an \<open>in (\<dots>)\<close> that can be had at once is part of the constraint;
  allocations do not fail.
\<close>

section \<open>The constraints of a query\<close>

datatype index_op = SQLITE_INDEX_CONSTRAINT_EQ | SQLITE_INDEX_CONSTRAINT_GT | SQLITE_INDEX_CONSTRAINT_LE
  | SQLITE_INDEX_CONSTRAINT_LT | SQLITE_INDEX_CONSTRAINT_GE | SQLITE_INDEX_CONSTRAINT_NE
  | SQLITE_INDEX_CONSTRAINT_MATCH | SQLITE_INDEX_CONSTRAINT_LIMIT | SQLITE_INDEX_CONSTRAINT_OFFSET
  | OTHER_CONSTRAINT nat

record index_constraint =
  iColumn :: int
  con_op :: index_op
  usable :: bool
  vtabIn :: bool

record index_info =
  aConstraint :: "index_constraint list"
  aOrderBy :: "(int \<times> bool) list"
  colUsed :: int

text \<open>The argument index and the \<open>omit\<close> flag of every constraint; the \<open>in (\<dots>)\<close> that are had at once.\<close>

record plan =
  idxStr :: string
  idxNum :: int
  argvIndex :: "(nat \<times> bool) list"
  vtabIns :: "nat list"

definition VEC0_QUERY_PLAN_FULLSCAN :: char where "VEC0_QUERY_PLAN_FULLSCAN = CHR ''1''"
definition VEC0_QUERY_PLAN_POINT :: char where "VEC0_QUERY_PLAN_POINT = CHR ''2''"
definition VEC0_QUERY_PLAN_KNN :: char where "VEC0_QUERY_PLAN_KNN = CHR ''3''"

definition VEC0_IDXSTR_KIND_KNN_MATCH :: char where "VEC0_IDXSTR_KIND_KNN_MATCH = CHR 0x7B"
definition VEC0_IDXSTR_KIND_KNN_K :: char where "VEC0_IDXSTR_KIND_KNN_K = CHR 0x7D"
definition VEC0_IDXSTR_KIND_KNN_ROWID_IN :: char where "VEC0_IDXSTR_KIND_KNN_ROWID_IN = CHR ''[''"
definition VEC0_IDXSTR_KIND_KNN_PARTITON_CONSTRAINT :: char where "VEC0_IDXSTR_KIND_KNN_PARTITON_CONSTRAINT = CHR '']''"
definition VEC0_IDXSTR_KIND_POINT_ID :: char where "VEC0_IDXSTR_KIND_POINT_ID = CHR ''!''"
definition VEC0_IDXSTR_KIND_METADATA_CONSTRAINT :: char where "VEC0_IDXSTR_KIND_METADATA_CONSTRAINT = CHR ''&''"

lemmas idxstr_chars = VEC0_QUERY_PLAN_FULLSCAN_def VEC0_QUERY_PLAN_POINT_def VEC0_QUERY_PLAN_KNN_def
  VEC0_IDXSTR_KIND_KNN_MATCH_def VEC0_IDXSTR_KIND_KNN_K_def VEC0_IDXSTR_KIND_KNN_ROWID_IN_def
  VEC0_IDXSTR_KIND_KNN_PARTITON_CONSTRAINT_def VEC0_IDXSTR_KIND_POINT_ID_def VEC0_IDXSTR_KIND_METADATA_CONSTRAINT_def

text \<open>The characters of the operators; partition keys have the first six.\<close>

fun operator_char :: "metadata_operator \<Rightarrow> char" where
  "operator_char OP_EQ = CHR ''a''"
| "operator_char OP_GT = CHR ''b''"
| "operator_char OP_LE = CHR ''c''"
| "operator_char OP_LT = CHR ''d''"
| "operator_char OP_GE = CHR ''e''"
| "operator_char OP_NE = CHR ''f''"
| "operator_char OP_IN = CHR ''g''"

section \<open>The terms of the query\<close>

record terms =
  iMatchTerm :: "nat option"
  iMatchVectorTerm :: nat
  iLimitTerm :: "nat option"
  iRowidTerm :: "nat option"
  iKTerm :: "nat option"
  iRowidInTerm :: "nat option"
  hasAuxConstraint :: bool

definition VEC0_COLUMN_ID :: int where "VEC0_COLUMN_ID = 0"

text \<open>The body of the first loop for the usable constraint \<open>i\<close>.\<close>

definition scan_constraint :: "vec0_vtab \<Rightarrow> nat \<Rightarrow> index_constraint \<Rightarrow> terms \<Rightarrow> terms result option" where
  "scan_constraint p i c t = (
     let t = (if con_op c = SQLITE_INDEX_CONSTRAINT_LIMIT then t\<lparr>iLimitTerm := Some i\<rparr> else t) in do {
       match \<leftarrow> (if con_op c = SQLITE_INDEX_CONSTRAINT_MATCH then vec0_column_idx_is_vector p (iColumn c) else Some False);
       if match \<and> iMatchTerm t \<noteq> None then Some (Inl SQLITE_ERROR)
       else do {
         t \<leftarrow> (if match then do {
                 x \<leftarrow> vec0_column_idx_to_vector_idx p (iColumn c);
                 Some (t\<lparr>iMatchTerm := Some i, iMatchVectorTerm := x\<rparr>) }
               else Some t);
         let rowid = (con_op c = SQLITE_INDEX_CONSTRAINT_EQ \<and> iColumn c = VEC0_COLUMN_ID);
         if rowid \<and> vtabIn c \<and> iRowidInTerm t \<noteq> None then Some (Inl SQLITE_ERROR)
         else do {
           let t = (if rowid then if vtabIn c then t\<lparr>iRowidInTerm := Some i\<rparr> else t\<lparr>iRowidTerm := Some i\<rparr> else t);
           let t = (if con_op c = SQLITE_INDEX_CONSTRAINT_EQ \<and> iColumn c = vec0_column_k_idx p then t\<lparr>iKTerm := Some i\<rparr> else t);
           aux \<leftarrow> (if con_op c \<noteq> SQLITE_INDEX_CONSTRAINT_LIMIT \<and> con_op c \<noteq> SQLITE_INDEX_CONSTRAINT_OFFSET
                   then vec0_column_idx_is_auxiliary p (iColumn c) else Some False);
           Some (Inr (if aux then t\<lparr>hasAuxConstraint := True\<rparr> else t)) } } })"

fun scan_constraints :: "vec0_vtab \<Rightarrow> nat \<Rightarrow> index_constraint list \<Rightarrow> terms \<Rightarrow> terms result option" where
  "scan_constraints p i [] t = Some (Inr t)"
| "scan_constraints p i (c # cs) t =
     (if \<not> usable c then scan_constraints p (i + 1) cs t
      else do {
        r \<leftarrow> scan_constraint p i c t;
        (case r of Inl e \<Rightarrow> Some (Inl e) | Inr t \<Rightarrow> scan_constraints p (i + 1) cs t) })"

definition no_terms :: terms where
  "no_terms = \<lparr>iMatchTerm = None, iMatchVectorTerm = 0, iLimitTerm = None, iRowidTerm = None, iKTerm = None,
     iRowidInTerm = None, hasAuxConstraint = False\<rparr>"

section \<open>The entries of the plan\<close>

text \<open>The plan so far and the next argument index.\<close>

record builder =
  b_str :: string
  b_next :: nat
  b_usage :: "(nat \<times> bool) list"
  b_ins :: "nat list"

definition use_constraint :: "nat \<Rightarrow> string \<Rightarrow> builder \<Rightarrow> builder" where
  "use_constraint i entry b = b\<lparr>b_str := b_str b @ entry, b_next := b_next b + 1, b_usage := (b_usage b)[i := (b_next b, True)]\<rparr>"

text \<open>Limits and offsets, and constraints that are not usable, are no constraints on a column.\<close>

definition on_column :: "index_constraint \<Rightarrow> bool" where
  "on_column c \<longleftrightarrow> usable c \<and> con_op c \<noteq> SQLITE_INDEX_CONSTRAINT_LIMIT \<and> con_op c \<noteq> SQLITE_INDEX_CONSTRAINT_OFFSET"

fun comparison_of :: "index_op \<Rightarrow> metadata_operator option" where
  "comparison_of SQLITE_INDEX_CONSTRAINT_EQ = Some OP_EQ"
| "comparison_of SQLITE_INDEX_CONSTRAINT_GT = Some OP_GT"
| "comparison_of SQLITE_INDEX_CONSTRAINT_LE = Some OP_LE"
| "comparison_of SQLITE_INDEX_CONSTRAINT_LT = Some OP_LT"
| "comparison_of SQLITE_INDEX_CONSTRAINT_GE = Some OP_GE"
| "comparison_of SQLITE_INDEX_CONSTRAINT_NE = Some OP_NE"
| "comparison_of _ = None"

text \<open>A constraint on a partition key whose operator is none of these is left to SQLite.\<close>

fun partition_entries :: "vec0_vtab \<Rightarrow> nat \<Rightarrow> index_constraint list \<Rightarrow> builder \<Rightarrow> builder option" where
  "partition_entries p i [] b = Some b"
| "partition_entries p i (c # cs) b =
     (if \<not> on_column c then partition_entries p (i + 1) cs b
      else do {
        partition \<leftarrow> vec0_column_idx_is_partition p (iColumn c);
        if \<not> partition then partition_entries p (i + 1) cs b
        else do {
          x \<leftarrow> vec0_column_idx_to_partition_idx p (iColumn c);
          partition_entries p (i + 1) cs (case comparison_of (con_op c) of
              None \<Rightarrow> b
            | Some value \<Rightarrow> use_constraint i
                [VEC0_IDXSTR_KIND_KNN_PARTITON_CONSTRAINT, char_of (65 + x), operator_char value, CHR ''_''] b) } })"

text \<open>The operator of a constraint on a metadata column of the kind, or an error.\<close>

definition metadata_operator_of :: "metadata_kind \<Rightarrow> index_constraint \<Rightarrow> metadata_operator option" where
  "metadata_operator_of kind c =
     (let value = (if con_op c = SQLITE_INDEX_CONSTRAINT_EQ \<and> vtabIn c
        then if kind = KIND_FLOAT \<or> kind = KIND_BOOLEAN then None else Some OP_IN
        else comparison_of (con_op c)) in
      if kind = KIND_BOOLEAN \<and> value \<noteq> Some OP_EQ \<and> value \<noteq> Some OP_NE then None else value)"

fun metadata_entries :: "vec0_vtab \<Rightarrow> nat \<Rightarrow> index_constraint list \<Rightarrow> builder \<Rightarrow> builder result option" where
  "metadata_entries p i [] b = Some (Inr b)"
| "metadata_entries p i (c # cs) b =
     (if \<not> on_column c then metadata_entries p (i + 1) cs b
      else do {
        metadata \<leftarrow> vec0_column_idx_is_metadata p (iColumn c);
        if \<not> metadata then metadata_entries p (i + 1) cs b
        else do {
          x \<leftarrow> vec0_column_idx_to_metadata_idx p (iColumn c);
          (case metadata_operator_of (metadata_kind_at p x) c of
             None \<Rightarrow> Some (Inl SQLITE_ERROR)
           | Some value \<Rightarrow>
               let b = (if value = OP_IN then b\<lparr>b_ins := b_ins b @ [i]\<rparr> else b) in
               metadata_entries p (i + 1) cs (use_constraint i
                 [VEC0_IDXSTR_KIND_METADATA_CONSTRAINT, char_of (65 + x), operator_char value, CHR ''_''] b)) } })"

text \<open>The checks of a nearest neighbour query.\<close>

definition knn_terms_ok :: "vec0_vtab \<Rightarrow> index_info \<Rightarrow> terms \<Rightarrow> bool" where
  "knn_terms_ok p info t \<longleftrightarrow> (iLimitTerm t = None \<longleftrightarrow> iKTerm t \<noteq> None) \<and>
     (case aOrderBy info of [] \<Rightarrow> True | [(c, desc)] \<Rightarrow> c = vec0_column_distance_idx p \<and> \<not> desc | _ \<Rightarrow> False) \<and>
     \<not> hasAuxConstraint t"

definition knn_plan :: "vec0_vtab \<Rightarrow> index_info \<Rightarrow> terms \<Rightarrow> nat \<Rightarrow> plan result option" where
  "knn_plan p info t match = (
     if \<not> knn_terms_ok p info t then Some (Inl SQLITE_ERROR)
     else do {
       let b = \<lparr>b_str = [VEC0_QUERY_PLAN_KNN], b_next = 1, b_usage = replicate (length (aConstraint info)) (0, False), b_ins = []\<rparr>;
       let b = use_constraint match (VEC0_IDXSTR_KIND_KNN_MATCH # ''___'') b;
       let b = use_constraint (case iLimitTerm t of Some i \<Rightarrow> i | None \<Rightarrow> the (iKTerm t)) (VEC0_IDXSTR_KIND_KNN_K # ''___'') b;
       let b = (case iRowidInTerm t of None \<Rightarrow> b
          | Some i \<Rightarrow> use_constraint i (VEC0_IDXSTR_KIND_KNN_ROWID_IN # ''___'') (b\<lparr>b_ins := b_ins b @ [i]\<rparr>));
       b \<leftarrow> partition_entries p 0 (aConstraint info) b;
       r \<leftarrow> metadata_entries p 0 (aConstraint info) b;
       Some (on_ok r (\<lambda>b. Inr \<lparr>idxStr = b_str b, idxNum = int (iMatchVectorTerm t), argvIndex = b_usage b, vtabIns = b_ins b\<rparr>)) })"

definition vec0BestIndex :: "vec0_vtab \<Rightarrow> index_info \<Rightarrow> plan result option" where
  "vec0BestIndex p info = do {
     r \<leftarrow> scan_constraints p 0 (aConstraint info) no_terms;
     let unused = replicate (length (aConstraint info)) (0, False);
     (case r of
        Inl e \<Rightarrow> Some (Inl e)
      | Inr t \<Rightarrow> (case iMatchTerm t of
          Some match \<Rightarrow> knn_plan p info t match
        | None \<Rightarrow> (case iRowidTerm t of
            Some i \<Rightarrow> Some (Inr \<lparr>idxStr = [VEC0_QUERY_PLAN_POINT, VEC0_IDXSTR_KIND_POINT_ID] @ ''___'', idxNum = colUsed info,
              argvIndex = unused[i := (1, True)], vtabIns = []\<rparr>)
          | None \<Rightarrow> Some (Inr \<lparr>idxStr = [VEC0_QUERY_PLAN_FULLSCAN], idxNum = 0, argvIndex = unused, vtabIns = []\<rparr>)))) }"

section \<open>What the planner promises\<close>

text \<open>An entry of the plan, and how it is written.\<close>

datatype entry = Match nat | K | Rowid_In | Partition nat metadata_operator | Metadata nat metadata_operator | Point_Id

fun encode :: "entry \<Rightarrow> string" where
  "encode (Match x) = VEC0_IDXSTR_KIND_KNN_MATCH # ''___''"
| "encode K = VEC0_IDXSTR_KIND_KNN_K # ''___''"
| "encode Rowid_In = VEC0_IDXSTR_KIND_KNN_ROWID_IN # ''___''"
| "encode (Partition x v) = [VEC0_IDXSTR_KIND_KNN_PARTITON_CONSTRAINT, char_of (65 + x), operator_char v, CHR ''_'']"
| "encode (Metadata x v) = [VEC0_IDXSTR_KIND_METADATA_CONSTRAINT, char_of (65 + x), operator_char v, CHR ''_'']"
| "encode Point_Id = VEC0_IDXSTR_KIND_POINT_ID # ''___''"

lemma length_encode [simp]: "length (encode e) = 4"
  by (cases e) simp_all

text \<open>The entry a usable constraint has in a nearest neighbour query, or in a query by row id.\<close>

definition entry_of :: "vec0_vtab \<Rightarrow> index_constraint \<Rightarrow> entry option" where
  "entry_of p c = (let is = (\<lambda>k. column_idx_is k p (iColumn c) = Some True); x = user_column_idxs p ! nat (iColumn c - 1) in
     if con_op c = SQLITE_INDEX_CONSTRAINT_LIMIT then Some K
     else if con_op c = SQLITE_INDEX_CONSTRAINT_OFFSET then None
     else if is VECTOR then if con_op c = SQLITE_INDEX_CONSTRAINT_MATCH then Some (Match x) else None
     else if is PARTITION then map_option (Partition x) (comparison_of (con_op c))
     else if is METADATA then map_option (Metadata x) (metadata_operator_of (metadata_kind_at p x) c)
     else if con_op c = SQLITE_INDEX_CONSTRAINT_EQ \<and> iColumn c = vec0_column_k_idx p then Some K
     else if con_op c = SQLITE_INDEX_CONSTRAINT_EQ \<and> iColumn c = VEC0_COLUMN_ID then Some (if vtabIn c then Rowid_In else Point_Id)
     else None)"

definition entry_ok :: "vec0_vtab \<Rightarrow> index_constraint \<Rightarrow> entry \<Rightarrow> bool" where
  "entry_ok p c e \<longleftrightarrow> usable c \<and> entry_of p c = Some e"

fun is_in :: "entry \<Rightarrow> bool" where
  "is_in Rowid_In = True"
| "is_in (Metadata x v) = (v = OP_IN)"
| "is_in _ = False"

lemma column_idx_is_total:
  assumes "vtab_ok p"
  obtains b where "column_idx_is k p c = Some b"
  using column_idx_is_iff [OF assms, of c] that by (cases "1 \<le> c \<and> c \<le> int (vec0_num_defined_user_columns p)")
    (auto simp: column_idx_is_def VEC0_COLUMN_USERN_START_def)

lemma column_idx_is_True:
  assumes "vtab_ok p" "column_idx_is k p c = Some True"
  obtains x where "x < column_count k p" "rd (user_column_idxs p) (nat (c - 1)) = Some x" "\<forall>k'. column_idx_is k' p c = Some (k' = k)"
    "1 \<le> c" "c \<le> int (vec0_num_defined_user_columns p)"
proof -
  have c: "1 \<le> c" "c \<le> int (vec0_num_defined_user_columns p)"
    using assms(2) by (auto simp: column_idx_is_def VEC0_COLUMN_USERN_START_def split: if_splits)
  then show ?thesis using column_idx_is_iff [OF assms(1) c] assms(2) that by auto
qed

lemma entry_of_cases:
  assumes "vtab_ok p"
  shows "con_op c = SQLITE_INDEX_CONSTRAINT_MATCH \<Longrightarrow> column_idx_is VECTOR p (iColumn c) = Some True \<Longrightarrow>
      rd (user_column_idxs p) (nat (iColumn c - 1)) = Some x \<Longrightarrow> entry_of p c = Some (Match x)"
    "con_op c = SQLITE_INDEX_CONSTRAINT_LIMIT \<Longrightarrow> entry_of p c = Some K"
    "con_op c = SQLITE_INDEX_CONSTRAINT_EQ \<Longrightarrow> iColumn c = vec0_column_k_idx p \<Longrightarrow> entry_of p c = Some K"
    "con_op c = SQLITE_INDEX_CONSTRAINT_EQ \<Longrightarrow> iColumn c = VEC0_COLUMN_ID \<Longrightarrow> entry_of p c = Some (if vtabIn c then Rowid_In else Point_Id)"
    "on_column c \<Longrightarrow> column_idx_is PARTITION p (iColumn c) = Some True \<Longrightarrow> rd (user_column_idxs p) (nat (iColumn c - 1)) = Some x \<Longrightarrow>
      entry_of p c = map_option (Partition x) (comparison_of (con_op c))"
    "on_column c \<Longrightarrow> column_idx_is METADATA p (iColumn c) = Some True \<Longrightarrow> rd (user_column_idxs p) (nat (iColumn c - 1)) = Some x \<Longrightarrow>
      entry_of p c = map_option (Metadata x) (metadata_operator_of (metadata_kind_at p x) c)"
proof -
  have hidden: "column_idx_is k p (vec0_column_k_idx p) = Some False" "column_idx_is k p VEC0_COLUMN_ID = Some False" for k
    by (simp_all add: column_idx_is_def vec0_column_k_idx_def VEC0_COLUMN_ID_def VEC0_COLUMN_USERN_START_def)
  have other: "column_idx_is k' p (iColumn c) \<noteq> Some True" if col: "column_idx_is k p (iColumn c) = Some True" and ne: "k' \<noteq> k" for k k'
  proof -
    obtain x where "\<forall>k'. column_idx_is k' p (iColumn c) = Some (k' = k)" by (rule column_idx_is_True [OF assms col])
    then show ?thesis using ne by simp
  qed
  have distinct: "vec0_column_k_idx p \<noteq> VEC0_COLUMN_ID" by (simp add: vec0_column_k_idx_def VEC0_COLUMN_ID_def VEC0_COLUMN_USERN_START_def)
  note d = entry_of_def Let_def hidden rd_Some on_column_def
  show "con_op c = SQLITE_INDEX_CONSTRAINT_MATCH \<Longrightarrow> column_idx_is VECTOR p (iColumn c) = Some True \<Longrightarrow>
      rd (user_column_idxs p) (nat (iColumn c - 1)) = Some x \<Longrightarrow> entry_of p c = Some (Match x)" by (simp add: d)
  show "con_op c = SQLITE_INDEX_CONSTRAINT_LIMIT \<Longrightarrow> entry_of p c = Some K" by (simp add: d)
  show "con_op c = SQLITE_INDEX_CONSTRAINT_EQ \<Longrightarrow> iColumn c = vec0_column_k_idx p \<Longrightarrow> entry_of p c = Some K" by (simp add: d)
  show "con_op c = SQLITE_INDEX_CONSTRAINT_EQ \<Longrightarrow> iColumn c = VEC0_COLUMN_ID \<Longrightarrow> entry_of p c = Some (if vtabIn c then Rowid_In else Point_Id)"
    using distinct by (simp add: d)
  show "on_column c \<Longrightarrow> column_idx_is PARTITION p (iColumn c) = Some True \<Longrightarrow> rd (user_column_idxs p) (nat (iColumn c - 1)) = Some x \<Longrightarrow>
      entry_of p c = map_option (Partition x) (comparison_of (con_op c))" using other [of PARTITION VECTOR] by (simp add: d)
  show "on_column c \<Longrightarrow> column_idx_is METADATA p (iColumn c) = Some True \<Longrightarrow> rd (user_column_idxs p) (nat (iColumn c - 1)) = Some x \<Longrightarrow>
      entry_of p c = map_option (Metadata x) (metadata_operator_of (metadata_kind_at p x) c)"
    using other [of METADATA VECTOR] other [of METADATA PARTITION] by (simp add: d)
qed

text \<open>The plan so far is the list of entries \<open>es\<close>, each with the index of its constraint.\<close>

definition builder_ok :: "vec0_vtab \<Rightarrow> index_constraint list \<Rightarrow> char \<Rightarrow> (nat \<times> entry) list \<Rightarrow> builder \<Rightarrow> bool" where
  "builder_ok p cs kind es b \<longleftrightarrow> b_str b = kind # concat (map (encode \<circ> snd) es) \<and> b_next b = length es + 1 \<and>
     length (b_usage b) = length cs \<and> distinct (map fst es) \<and>
     (\<forall>(i, e)\<in>set es. i < length cs \<and> entry_ok p (cs ! i) e) \<and>
     (\<forall>j<length es. b_usage b ! fst (es ! j) = (j + 1, True)) \<and>
     (\<forall>i<length cs. i \<notin> fst ` set es \<longrightarrow> b_usage b ! i = (0, False)) \<and>
     b_ins b = map fst (filter (is_in \<circ> snd) es)"

lemma builder_start:
  "builder_ok p cs kind [] \<lparr>b_str = [kind], b_next = 1, b_usage = replicate (length cs) (0, False), b_ins = []\<rparr>"
  by (simp add: builder_ok_def)

lemma builder_use:
  assumes b: "builder_ok p cs kind es b" and i: "i < length cs" and new: "\<And>e. (i, e) \<notin> set es" and e: "entry_ok p (cs ! i) e"
  shows "builder_ok p cs kind (es @ [(i, e)]) (use_constraint i (encode e) (if is_in e then b\<lparr>b_ins := b_ins b @ [i]\<rparr> else b))"
proof -
  let ?B = "use_constraint i (encode e) (if is_in e then b\<lparr>b_ins := b_ins b @ [i]\<rparr> else b)"
  have n: "i \<notin> fst ` set es" using new by force
  have B: "b_str ?B = b_str b @ encode e" "b_next ?B = b_next b + 1" "b_usage ?B = (b_usage b)[i := (b_next b, True)]"
    "b_ins ?B = b_ins b @ (if is_in e then [i] else [])" by (simp_all add: use_constraint_def)
  have "(b_usage b)[i := (b_next b, True)] ! fst ((es @ [(i, e)]) ! j) = (j + 1, True)" if j: "j < length (es @ [(i, e)])" for j
  proof (cases "j = length es")
    case True
    then show ?thesis using b i by (simp add: builder_ok_def)
  next
    case False
    then have "j < length es" using j by simp
    moreover from this have "fst (es ! j) \<noteq> i" using n nth_mem by blast
    ultimately show ?thesis using b by (simp add: builder_ok_def nth_append)
  qed
  then have u: "\<forall>j<length (es @ [(i, e)]). b_usage ?B ! fst ((es @ [(i, e)]) ! j) = (j + 1, True)" unfolding B by blast
  have "\<forall>j<length cs. j \<notin> fst ` set (es @ [(i, e)]) \<longrightarrow> b_usage ?B ! j = (0, False)"
    using b by (auto simp: B builder_ok_def)
  with u show ?thesis using b i n e unfolding builder_ok_def B by (simp split: prod.splits)
qed

lemma entry_unique: "entry_ok p c e \<Longrightarrow> entry_ok p c e' \<Longrightarrow> e = e'"
  by (simp add: entry_ok_def)

text \<open>The entries that the loop over the partition keys adds, and those for the metadata columns.\<close>

fun new_entries :: "(entry \<Rightarrow> bool) \<Rightarrow> vec0_vtab \<Rightarrow> nat \<Rightarrow> index_constraint list \<Rightarrow> (nat \<times> entry) list" where
  "new_entries P p i [] = []"
| "new_entries P p i (c # cs) = (case entry_of p c of
       Some e \<Rightarrow> if usable c \<and> P e then (i, e) # new_entries P p (i + 1) cs else new_entries P p (i + 1) cs
     | None \<Rightarrow> new_entries P p (i + 1) cs)"

lemma set_new_entries: "(j, e) \<in> set (new_entries P p i cs) \<longleftrightarrow> i \<le> j \<and> j < i + length cs \<and> entry_ok p (cs ! (j - i)) e \<and> P e"
proof (induction cs arbitrary: i)
  case (Cons c cs)
  have s: "Suc i \<le> j \<Longrightarrow> (c # cs) ! (j - i) = cs ! (j - Suc i)" by (metis Suc_diff_Suc Suc_le_lessD nth_Cons_Suc)
  show ?case using Cons [of "i + 1"] s
    by (cases "entry_of p c"; cases "j = i"; auto simp: entry_ok_def)
qed simp

fun is_partition :: "entry \<Rightarrow> bool" where
  "is_partition (Partition x v) = True"
| "is_partition _ = False"

fun is_metadata :: "entry \<Rightarrow> bool" where
  "is_metadata (Metadata x v) = True"
| "is_metadata _ = False"

lemma not_column:
  assumes "vtab_ok p" "column_idx_is k p (iColumn c) \<noteq> Some True \<or> \<not> on_column c" "usable c"
  shows "k = PARTITION \<Longrightarrow> entry_of p c = Some e \<Longrightarrow> \<not> is_partition e" "k = METADATA \<Longrightarrow> entry_of p c = Some e \<Longrightarrow> \<not> is_metadata e"
  using assms(2,3) by (auto simp: entry_of_def Let_def on_column_def split: if_splits)

lemma partition_entries_ok:
  assumes p: "vtab_ok p"
  shows "builder_ok p cs kind es b \<Longrightarrow> drop n cs = ds \<Longrightarrow> (\<And>i e. (i, e) \<in> set es \<Longrightarrow> is_partition e \<Longrightarrow> i < n) \<Longrightarrow>
    \<exists>b'. partition_entries p n ds b = Some b' \<and> builder_ok p cs kind (es @ new_entries is_partition p n ds) b'"
proof (induction ds arbitrary: n es b)
  case (Cons c ds)
  have n: "n < length cs" "cs ! n = c" using Cons.prems(2) by (auto simp: nth_via_drop intro: ccontr)
  have d: "drop (n + 1) cs = ds" using Cons.prems(2) n by (simp add: Cons_nth_drop_Suc [symmetric])
  have rest: "\<exists>b'. partition_entries p (n + 1) ds b = Some b' \<and> builder_ok p cs kind (es @ new_entries is_partition p (n + 1) ds) b'"
    by (rule Cons.IH [OF Cons.prems(1) d]) (use Cons.prems(3) in fastforce)
  obtain part where part: "column_idx_is PARTITION p (iColumn c) = Some part" by (rule column_idx_is_total [OF p])
  show ?case
  proof (cases "on_column c \<and> part")
    case False
    have "new_entries is_partition p n (c # ds) = new_entries is_partition p (n + 1) ds"
      using not_column(1) [OF p, of PARTITION c] False part by (auto split: option.splits)
    then show ?thesis using rest False part by (auto simp: column_idx_defs)
  next
    case True
    then obtain x where x: "rd (user_column_idxs p) (nat (iColumn c - 1)) = Some x"
      using column_idx_is_True [OF p, of PARTITION "iColumn c"] part by auto
    then have r: "vec0_column_idx_to_partition_idx p (iColumn c) = Some x" by (simp add: column_idx_defs VEC0_COLUMN_USERN_START_def)
    have e: "entry_of p c = map_option (Partition x) (comparison_of (con_op c))"
      using entry_of_cases(5) [OF p _ _ x] True part by simp
    show ?thesis
    proof (cases "comparison_of (con_op c)")
      case None
      then show ?thesis using rest e True part r by (simp add: column_idx_defs)
    next
      case (Some v)
      have ok: "entry_ok p (cs ! n) (Partition x v)" using e Some n(2) True by (simp add: entry_ok_def on_column_def)
      have new: "(n, f) \<notin> set es" for f
      proof
        assume f: "(n, f) \<in> set es"
        then have "entry_ok p (cs ! n) f" using Cons.prems(1) by (auto simp: builder_ok_def)
        then have "f = Partition x v" using ok by (rule entry_unique)
        then show False using Cons.prems(3) [OF f] by simp
      qed
      define b' where "b' = use_constraint n (encode (Partition x v)) b"
      have "builder_ok p cs kind (es @ [(n, Partition x v)]) b'"
        using builder_use [OF Cons.prems(1) n(1) new ok] by (simp add: b'_def)
      then have "\<exists>b''. partition_entries p (n + 1) ds b' = Some b'' \<and>
          builder_ok p cs kind ((es @ [(n, Partition x v)]) @ new_entries is_partition p (n + 1) ds) b''"
        by (rule Cons.IH [OF _ d]) (use Cons.prems(3) in \<open>fastforce\<close>)
      then show ?thesis using e Some True part r by (auto simp: column_idx_defs b'_def on_column_def)
    qed
  qed
qed simp

lemma metadata_entries_ok:
  assumes p: "vtab_ok p"
  shows "builder_ok p cs kind es b \<Longrightarrow> drop n cs = ds \<Longrightarrow> (\<And>i e. (i, e) \<in> set es \<Longrightarrow> is_metadata e \<Longrightarrow> i < n) \<Longrightarrow>
    metadata_entries p n ds b = Some (Inl SQLITE_ERROR) \<or>
    (\<exists>b'. metadata_entries p n ds b = Some (Inr b') \<and> builder_ok p cs kind (es @ new_entries is_metadata p n ds) b')"
proof (induction ds arbitrary: n es b)
  case (Cons c ds)
  have n: "n < length cs" "cs ! n = c" using Cons.prems(2) by (auto simp: nth_via_drop intro: ccontr)
  have d: "drop (n + 1) cs = ds" using Cons.prems(2) n by (simp add: Cons_nth_drop_Suc [symmetric])
  have rest: "metadata_entries p (n + 1) ds b = Some (Inl SQLITE_ERROR) \<or>
      (\<exists>b'. metadata_entries p (n + 1) ds b = Some (Inr b') \<and> builder_ok p cs kind (es @ new_entries is_metadata p (n + 1) ds) b')"
    by (rule Cons.IH [OF Cons.prems(1) d]) (use Cons.prems(3) in fastforce)
  obtain part where part: "column_idx_is METADATA p (iColumn c) = Some part" by (rule column_idx_is_total [OF p])
  show ?case
  proof (cases "on_column c \<and> part")
    case False
    have "new_entries is_metadata p n (c # ds) = new_entries is_metadata p (n + 1) ds"
      using not_column(2) [OF p, of METADATA c] False part by (auto split: option.splits)
    then show ?thesis using rest False part by (auto simp: column_idx_defs)
  next
    case True
    then obtain x where x: "rd (user_column_idxs p) (nat (iColumn c - 1)) = Some x"
      using column_idx_is_True [OF p, of METADATA "iColumn c"] part by auto
    then have r: "vec0_column_idx_to_metadata_idx p (iColumn c) = Some x" by (simp add: column_idx_defs VEC0_COLUMN_USERN_START_def)
    have e: "entry_of p c = map_option (Metadata x) (metadata_operator_of (metadata_kind_at p x) c)"
      using entry_of_cases(6) [OF p _ _ x] True part by simp
    show ?thesis
    proof (cases "metadata_operator_of (metadata_kind_at p x) c")
      case None
      then show ?thesis using True part r by (simp add: column_idx_defs)
    next
      case (Some v)
      have ok: "entry_ok p (cs ! n) (Metadata x v)" using e Some n(2) True by (simp add: entry_ok_def on_column_def)
      have new: "(n, f) \<notin> set es" for f
      proof
        assume f: "(n, f) \<in> set es"
        then have "entry_ok p (cs ! n) f" using Cons.prems(1) by (auto simp: builder_ok_def)
        then have "f = Metadata x v" using ok by (rule entry_unique)
        then show False using Cons.prems(3) [OF f] by simp
      qed
      define b' where "b' = use_constraint n (encode (Metadata x v)) (if v = OP_IN then b\<lparr>b_ins := b_ins b @ [n]\<rparr> else b)"
      have "builder_ok p cs kind (es @ [(n, Metadata x v)]) b'"
        using builder_use [OF Cons.prems(1) n(1) new ok] by (simp add: b'_def)
      then have "metadata_entries p (n + 1) ds b' = Some (Inl SQLITE_ERROR) \<or> (\<exists>b''. metadata_entries p (n + 1) ds b' = Some (Inr b'') \<and>
          builder_ok p cs kind ((es @ [(n, Metadata x v)]) @ new_entries is_metadata p (n + 1) ds) b'')"
        by (rule Cons.IH [OF _ d]) (use Cons.prems(3) in \<open>fastforce\<close>)
      then show ?thesis using e Some True part r by (auto simp: column_idx_defs b'_def on_column_def)
    qed
  qed
qed simp

text \<open>The terms after the constraints before \<open>n\<close>: each is one of them, and none of the kinds that must be alone is missed.\<close>

definition found :: "vec0_vtab \<Rightarrow> index_constraint list \<Rightarrow> nat \<Rightarrow> entry \<Rightarrow> nat option \<Rightarrow> bool" where
  "found p cs n e x \<longleftrightarrow> (\<forall>i. x = Some i \<longrightarrow> i < n \<and> entry_ok p (cs ! i) e)"

definition only :: "index_constraint list \<Rightarrow> nat \<Rightarrow> (index_constraint \<Rightarrow> bool) \<Rightarrow> nat option \<Rightarrow> bool" where
  "only cs n P x \<longleftrightarrow> (\<forall>i<n. P (cs ! i) \<longrightarrow> x = Some i)"

definition noticed :: "index_constraint list \<Rightarrow> nat \<Rightarrow> (index_constraint \<Rightarrow> bool) \<Rightarrow> bool \<Rightarrow> bool" where
  "noticed cs n P h \<longleftrightarrow> (\<forall>i<n. P (cs ! i) \<longrightarrow> h)"

definition on_auxiliary :: "vec0_vtab \<Rightarrow> index_constraint \<Rightarrow> bool" where
  "on_auxiliary p c \<longleftrightarrow> on_column c \<and> column_idx_is AUXILIARY p (iColumn c) = Some True"

definition terms_ok :: "vec0_vtab \<Rightarrow> index_constraint list \<Rightarrow> nat \<Rightarrow> terms \<Rightarrow> bool" where
  "terms_ok p cs n t \<longleftrightarrow> found p cs n (Match (iMatchVectorTerm t)) (iMatchTerm t) \<and>
     only cs n (\<lambda>c. \<exists>x. entry_ok p c (Match x)) (iMatchTerm t) \<and>
     found p cs n K (iLimitTerm t) \<and> found p cs n K (iKTerm t) \<and> found p cs n Point_Id (iRowidTerm t) \<and>
     found p cs n Rowid_In (iRowidInTerm t) \<and> only cs n (\<lambda>c. entry_ok p c Rowid_In) (iRowidInTerm t) \<and>
     noticed cs n (\<lambda>c. entry_ok p c Point_Id) (iRowidTerm t \<noteq> None) \<and>
     noticed cs n (on_auxiliary p) (hasAuxConstraint t)"

lemma found_step: "found p cs n e x \<or> x = Some n \<and> entry_ok p (cs ! n) e \<Longrightarrow> found p cs (Suc n) e x"
  by (auto simp: found_def)

lemma only_step: "only cs n P x \<and> \<not> P (cs ! n) \<or> x = Some n \<and> only cs n P None \<Longrightarrow> only cs (Suc n) P x"
  by (auto simp: only_def less_Suc_eq)

lemma noticed_step: "noticed cs n P h \<and> \<not> P (cs ! n) \<or> h \<Longrightarrow> noticed cs (Suc n) P h"
  by (auto simp: noticed_def less_Suc_eq)

lemmas terms_steps = conjI found_step only_step noticed_step

lemma terms_ok_Suc:
  assumes "terms_ok p cs n t" "\<And>x. \<not> entry_ok p (cs ! n) (Match x)" "\<not> entry_ok p (cs ! n) Rowid_In"
    "entry_ok p (cs ! n) Point_Id \<longrightarrow> iRowidTerm t \<noteq> None" "on_auxiliary p (cs ! n) \<longrightarrow> hasAuxConstraint t"
  shows "terms_ok p cs (Suc n) t"
  unfolding terms_ok_def by (intro terms_steps) (use assms in \<open>simp_all add: terms_ok_def\<close>)

lemma terms_ok_usable:
  assumes t: "terms_ok p cs n t" and u: "usable (cs ! n)" and aux: "\<not> on_auxiliary p (cs ! n)"
  shows "entry_of p (cs ! n) = Some K \<Longrightarrow>
      terms_ok p cs (Suc n) (t\<lparr>iLimitTerm := Some n\<rparr>) \<and> terms_ok p cs (Suc n) (t\<lparr>iKTerm := Some n\<rparr>)"
    "entry_of p (cs ! n) = Some (Match x) \<Longrightarrow> iMatchTerm t = None \<Longrightarrow>
      terms_ok p cs (Suc n) (t\<lparr>iMatchTerm := Some n, iMatchVectorTerm := x\<rparr>)"
    "entry_of p (cs ! n) = Some Rowid_In \<Longrightarrow> iRowidInTerm t = None \<Longrightarrow> terms_ok p cs (Suc n) (t\<lparr>iRowidInTerm := Some n\<rparr>)"
    "entry_of p (cs ! n) = Some Point_Id \<Longrightarrow> terms_ok p cs (Suc n) (t\<lparr>iRowidTerm := Some n\<rparr>)"
  unfolding terms_ok_def terms.simps
  by (intro terms_steps; use t u aux in \<open>simp add: terms_ok_def entry_ok_def\<close>)+

lemma terms_ok_aux: "terms_ok p cs n t \<Longrightarrow> terms_ok p cs n (t\<lparr>hasAuxConstraint := True\<rparr>)"
  by (simp add: terms_ok_def noticed_def)

lemma scan_constraint_ok:
  assumes p: "vtab_ok p" and t: "terms_ok p cs n t" and u: "usable (cs ! n)"
  shows "scan_constraint p n (cs ! n) t = Some (Inl SQLITE_ERROR) \<or>
    (\<exists>t'. scan_constraint p n (cs ! n) t = Some (Inr t') \<and> terms_ok p cs (Suc n) t')"
proof -
  let ?c = "cs ! n"
  obtain v where v: "column_idx_is VECTOR p (iColumn ?c) = Some v" by (rule column_idx_is_total [OF p])
  obtain a where a: "column_idx_is AUXILIARY p (iColumn ?c) = Some a" by (rule column_idx_is_total [OF p])
  have hidden: "column_idx_is k p (vec0_column_k_idx p) = Some False" "column_idx_is k p VEC0_COLUMN_ID = Some False" for k
    by (simp_all add: column_idx_is_def vec0_column_k_idx_def VEC0_COLUMN_ID_def VEC0_COLUMN_USERN_START_def)
  have distinct: "VEC0_COLUMN_ID \<noteq> vec0_column_k_idx p" by (simp add: vec0_column_k_idx_def VEC0_COLUMN_ID_def VEC0_COLUMN_USERN_START_def)
  note d = scan_constraint_def column_idx_defs Let_def v a
  consider (limit) "con_op ?c = SQLITE_INDEX_CONSTRAINT_LIMIT"
    | (match) "con_op ?c = SQLITE_INDEX_CONSTRAINT_MATCH" "v"
    | (rowid) "con_op ?c = SQLITE_INDEX_CONSTRAINT_EQ" "iColumn ?c = VEC0_COLUMN_ID"
    | (k) "con_op ?c = SQLITE_INDEX_CONSTRAINT_EQ" "iColumn ?c = vec0_column_k_idx p"
    | (other) "con_op ?c \<noteq> SQLITE_INDEX_CONSTRAINT_LIMIT" "\<not> (con_op ?c = SQLITE_INDEX_CONSTRAINT_MATCH \<and> v)"
        "\<not> (con_op ?c = SQLITE_INDEX_CONSTRAINT_EQ \<and> iColumn ?c = VEC0_COLUMN_ID)"
        "\<not> (con_op ?c = SQLITE_INDEX_CONSTRAINT_EQ \<and> iColumn ?c = vec0_column_k_idx p)" by blast
  then show ?thesis
  proof cases
    case limit
    then show ?thesis using terms_ok_usable(1) [OF t u] entry_of_cases(2) [OF p, of ?c] by (simp add: d on_auxiliary_def on_column_def)
  next
    case match
    obtain x where x: "rd (user_column_idxs p) (nat (iColumn ?c - 1)) = Some x" "\<forall>k'. column_idx_is k' p (iColumn ?c) = Some (k' = VECTOR)"
      using column_idx_is_True [OF p, of VECTOR "iColumn ?c"] v match(2) by metis
    then have a0: "a = False" using a by simp
    then have aux: "\<not> on_auxiliary p ?c" using a by (simp add: on_auxiliary_def)
    have e: "entry_of p ?c = Some (Match x)" using entry_of_cases(1) [OF p match(1) _ x(1)] v match(2) by simp
    show ?thesis
    proof (cases "iMatchTerm t = None")
      case True
      have "scan_constraint p n ?c t = Some (Inr (t\<lparr>iMatchTerm := Some n, iMatchVectorTerm := x\<rparr>))"
        using match True x(1) a0 by (simp add: d VEC0_COLUMN_USERN_START_def)
      then show ?thesis using terms_ok_usable(2) [OF t u aux e True] by simp
    next
      case False
      then show ?thesis using match by (simp add: d)
    qed
  next
    case rowid
    have a0: "a = False" using a rowid hidden by simp
    have aux: "\<not> on_auxiliary p ?c" using a a0 by (simp add: on_auxiliary_def)
    have e: "entry_of p ?c = Some (if vtabIn ?c then Rowid_In else Point_Id)" using entry_of_cases(4) [OF p rowid] .
    show ?thesis
      using rowid e terms_ok_usable(3,4) [OF t u aux] distinct hidden
      by (cases "vtabIn ?c"; cases "iRowidInTerm t") (simp_all add: scan_constraint_def column_idx_defs)
  next
    case k
    have aux: "\<not> on_auxiliary p ?c" using k hidden by (simp add: on_auxiliary_def)
    show ?thesis using k terms_ok_usable(1) [OF t u aux entry_of_cases(3) [OF p k]] hidden distinct
      by (simp add: scan_constraint_def column_idx_defs)
  next
    case other
    have n: "entry_of p ?c \<noteq> Some (Match x)" "entry_of p ?c \<noteq> Some Rowid_In" "entry_of p ?c \<noteq> Some Point_Id" for x
      using other v by (auto simp: entry_of_def Let_def)
    define t' where "t' = (if on_column ?c \<and> a then t\<lparr>hasAuxConstraint := True\<rparr> else t)"
    have "scan_constraint p n ?c t = Some (Inr t')" using other u by (auto simp: d t'_def on_column_def)
    moreover have "terms_ok p cs n t'" using t terms_ok_aux by (simp add: t'_def)
    then have "terms_ok p cs (Suc n) t'" by (rule terms_ok_Suc) (use n a in \<open>auto simp: t'_def entry_ok_def on_auxiliary_def\<close>)
    ultimately show ?thesis by blast
  qed
qed

lemma scan_constraints_ok:
  assumes p: "vtab_ok p"
  shows "drop n cs = ds \<Longrightarrow> n \<le> length cs \<Longrightarrow> terms_ok p cs n t \<Longrightarrow> scan_constraints p n ds t = Some (Inl SQLITE_ERROR) \<or>
    (\<exists>t'. scan_constraints p n ds t = Some (Inr t') \<and> terms_ok p cs (length cs) t')"
proof (induction ds arbitrary: n t)
  case (Cons c ds)
  have n: "n < length cs" "cs ! n = c" using Cons.prems(1) by (auto simp: nth_via_drop intro: ccontr)
  have d: "drop (n + 1) cs = ds" using Cons.prems(1) n by (simp add: Cons_nth_drop_Suc [symmetric])
  show ?case
  proof (cases "usable c")
    case False
    then have "terms_ok p cs (n + 1) t" using terms_ok_Suc [OF Cons.prems(3)] n(2)
      by (simp add: on_column_def on_auxiliary_def entry_ok_def)
    then show ?thesis using Cons.IH [OF d] n(1) False by simp
  next
    case True
    have "scan_constraint p n c t = Some (Inl SQLITE_ERROR) \<or> (\<exists>t'. scan_constraint p n c t = Some (Inr t') \<and> terms_ok p cs (Suc n) t')"
      using scan_constraint_ok [OF p Cons.prems(3)] n(2) True by simp
    then show ?thesis
    proof (elim disjE exE conjE)
      fix t' assume "scan_constraint p n c t = Some (Inr t')" "terms_ok p cs (Suc n) t'"
      then show ?thesis using Cons.IH [OF d, of t'] n(1) True by simp
    qed (use True in simp)
  qed
qed simp

section \<open>The plan\<close>

definition planned :: "vec0_vtab \<Rightarrow> index_info \<Rightarrow> char \<Rightarrow> (nat \<times> entry) list \<Rightarrow> plan \<Rightarrow> bool" where
  "planned p info kind es pl \<longleftrightarrow> idxStr pl = kind # concat (map (encode \<circ> snd) es) \<and>
     length (argvIndex pl) = length (aConstraint info) \<and> distinct (map fst es) \<and>
     (\<forall>(i, e)\<in>set es. i < length (aConstraint info) \<and> entry_ok p (aConstraint info ! i) e) \<and>
     (\<forall>j<length es. argvIndex pl ! fst (es ! j) = (j + 1, True)) \<and>
     (\<forall>i<length (aConstraint info). i \<notin> fst ` set es \<longrightarrow> argvIndex pl ! i = (0, False)) \<and>
     vtabIns pl = map fst (filter (is_in \<circ> snd) es)"

definition knn_entries :: "vec0_vtab \<Rightarrow> index_info \<Rightarrow> nat \<Rightarrow> (nat \<times> entry) list \<Rightarrow> bool" where
  "knn_entries p info x es \<longleftrightarrow> (\<exists>m k ins. es = (m, Match x) # (k, K) # ins @
       new_entries is_partition p 0 (aConstraint info) @ new_entries is_metadata p 0 (aConstraint info) \<and>
     x < numVectorColumns p \<and> (ins = [] \<or> (\<exists>i. ins = [(i, Rowid_In)])) \<and>
     (\<forall>i<length (aConstraint info). \<not> on_auxiliary p (aConstraint info ! i)) \<and>
     (\<forall>i<length (aConstraint info). \<forall>e. entry_ok p (aConstraint info ! i) e \<and> e \<noteq> K \<and> e \<noteq> Point_Id \<longrightarrow> (i, e) \<in> set es))"

lemma planned_builder:
  "builder_ok p (aConstraint info) kind es b \<Longrightarrow>
    planned p info kind es \<lparr>idxStr = b_str b, idxNum = n, argvIndex = b_usage b, vtabIns = b_ins b\<rparr>"
  by (simp add: planned_def builder_ok_def)

lemma terms_start: "terms_ok p cs 0 no_terms"
  by (simp add: terms_ok_def no_terms_def found_def only_def noticed_def)


lemma knn_plan_ok:
  assumes p: "vtab_ok p" and t: "terms_ok p (aConstraint info) (length (aConstraint info)) t" and m: "iMatchTerm t = Some m"
  shows "knn_plan p info t m = Some (Inl SQLITE_ERROR) \<or> (\<exists>pl es. knn_plan p info t m = Some (Inr pl) \<and>
    planned p info VEC0_QUERY_PLAN_KNN es pl \<and> knn_entries p info (iMatchVectorTerm t) es \<and> idxNum pl = int (iMatchVectorTerm t))"
proof (cases "knn_terms_ok p info t")
  case ok: True
  let ?cs = "aConstraint info"
  let ?x = "iMatchVectorTerm t"
  define k where "k = (case iLimitTerm t of Some i \<Rightarrow> i | None \<Rightarrow> the (iKTerm t))"
  have fm: "m < length ?cs" "entry_ok p (?cs ! m) (Match ?x)" using t m by (simp_all add: terms_ok_def found_def)
  have fk: "k < length ?cs" "entry_ok p (?cs ! k) K"
    using t ok by (auto simp: terms_ok_def found_def knn_terms_ok_def k_def split: option.splits)
  have mk: "(k, e) \<notin> set [(m, Match ?x)]" for e using fm(2) fk(2) entry_unique by fastforce
  define b0 where "b0 = \<lparr>b_str = [VEC0_QUERY_PLAN_KNN], b_next = 1, b_usage = replicate (length ?cs) (0 :: nat, False), b_ins = []\<rparr>"
  define b1 where "b1 = use_constraint m (VEC0_IDXSTR_KIND_KNN_MATCH # ''___'') b0"
  define b2 where "b2 = use_constraint k (VEC0_IDXSTR_KIND_KNN_K # ''___'') b1"
  define ins where "ins = (case iRowidInTerm t of None \<Rightarrow> [] | Some i \<Rightarrow> [(i, Rowid_In)])"
  define b3 where "b3 = (case iRowidInTerm t of None \<Rightarrow> b2
     | Some i \<Rightarrow> use_constraint i (VEC0_IDXSTR_KIND_KNN_ROWID_IN # ''___'') (b2\<lparr>b_ins := b_ins b2 @ [i]\<rparr>))"
  have B0: "builder_ok p ?cs VEC0_QUERY_PLAN_KNN [] b0" unfolding b0_def by (rule builder_start)
  have B1: "builder_ok p ?cs VEC0_QUERY_PLAN_KNN [(m, Match ?x)] b1" using builder_use [OF B0 fm(1) _ fm(2)] by (simp add: b1_def)
  have B2: "builder_ok p ?cs VEC0_QUERY_PLAN_KNN [(m, Match ?x), (k, K)] b2" using builder_use [OF B1 fk(1) mk fk(2)] by (simp add: b2_def)
  have B3: "builder_ok p ?cs VEC0_QUERY_PLAN_KNN ([(m, Match ?x), (k, K)] @ ins) b3"
  proof (cases "iRowidInTerm t")
    case (Some i)
    have fi: "i < length ?cs" "entry_ok p (?cs ! i) Rowid_In" using t Some by (simp_all add: terms_ok_def found_def)
    have "(i, e) \<notin> set [(m, Match ?x), (k, K)]" for e using fm(2) fk(2) fi(2) entry_unique by fastforce
    from builder_use [OF B2 fi(1) this fi(2)] show ?thesis by (simp add: b3_def ins_def Some)
  qed (use B2 in \<open>simp add: b3_def ins_def\<close>)
  have none3: "(i, e) \<in> set ([(m, Match ?x), (k, K)] @ ins) \<Longrightarrow> is_partition e \<Longrightarrow> i < 0" for i e
    by (auto simp: ins_def split: option.splits)
  have "\<exists>b'. partition_entries p 0 ?cs b3 = Some b' \<and>
      builder_ok p ?cs VEC0_QUERY_PLAN_KNN (([(m, Match ?x), (k, K)] @ ins) @ new_entries is_partition p 0 ?cs) b'"
    by (rule partition_entries_ok [OF p B3 drop_0]) (rule none3)
  then obtain b4 where b4: "partition_entries p 0 ?cs b3 = Some b4"
    "builder_ok p ?cs VEC0_QUERY_PLAN_KNN (([(m, Match ?x), (k, K)] @ ins) @ new_entries is_partition p 0 ?cs) b4"
    by blast
  let ?es = "(([(m, Match ?x), (k, K)] @ ins) @ new_entries is_partition p 0 ?cs) @ new_entries is_metadata p 0 ?cs"
  have none: "is_metadata e \<Longrightarrow> \<not> is_partition e" for e by (cases e) simp_all
  define close where "close = (\<lambda>b :: builder. \<lparr>idxStr = b_str b, idxNum = int ?x, argvIndex = b_usage b, vtabIns = b_ins b\<rparr>)"
  have "knn_plan p info t m = do { b \<leftarrow> partition_entries p 0 ?cs b3; r \<leftarrow> metadata_entries p 0 ?cs b; Some (on_ok r (\<lambda>b :: builder. Inr (close b))) }"
    unfolding knn_plan_def Let_def b3_def b2_def b1_def b0_def k_def close_def using ok by simp
  then have run: "knn_plan p info t m = map_option (\<lambda>r. on_ok r (\<lambda>b :: builder. Inr (close b))) (metadata_entries p 0 ?cs b4)"
    using b4(1) by (cases "metadata_entries p 0 ?cs b4") simp_all
  have none4: "(i, e) \<in> set (([(m, Match ?x), (k, K)] @ ins) @ new_entries is_partition p 0 ?cs) \<Longrightarrow> is_metadata e \<Longrightarrow> i < 0" for i e
    using none by (auto simp: ins_def set_new_entries split: option.splits)
  have "metadata_entries p 0 ?cs b4 = Some (Inl SQLITE_ERROR) \<or>
      (\<exists>b'. metadata_entries p 0 ?cs b4 = Some (Inr b') \<and> builder_ok p ?cs VEC0_QUERY_PLAN_KNN ?es b')"
    by (rule metadata_entries_ok [OF p b4(2) drop_0]) (rule none4)
  then consider "metadata_entries p 0 ?cs b4 = Some (Inl SQLITE_ERROR)"
    | b5 where "metadata_entries p 0 ?cs b4 = Some (Inr b5)" "builder_ok p ?cs VEC0_QUERY_PLAN_KNN ?es b5"
    by blast
  then show ?thesis
  proof cases
    case 1
    then show ?thesis using run by simp
  next
    case (2 b5)
    have x: "?x < numVectorColumns p"
    proof -
      have v: "column_idx_is VECTOR p (iColumn (?cs ! m)) = Some True" "?x = user_column_idxs p ! nat (iColumn (?cs ! m) - 1)"
        using fm(2) by (auto simp: entry_ok_def entry_of_def Let_def split: if_splits)
      then show ?thesis using column_idx_is_True [OF p v(1)] by (auto simp: rd_Some)
    qed
    have "\<forall>i<length ?cs. \<forall>e. entry_ok p (?cs ! i) e \<and> e \<noteq> K \<and> e \<noteq> Point_Id \<longrightarrow> (i, e) \<in> set ?es"
    proof (intro allI impI)
      fix i e assume i: "i < length ?cs" and e: "entry_ok p (?cs ! i) e \<and> e \<noteq> K \<and> e \<noteq> Point_Id"
      show "(i, e) \<in> set ?es"
      proof (cases e)
        case (Match y)
        then have "iMatchTerm t = Some i" using t i e by (auto simp: terms_ok_def only_def)
        then show ?thesis using m e fm(2) entry_unique by fastforce
      next
        case Rowid_In
        then have "iRowidInTerm t = Some i" using t i e by (auto simp: terms_ok_def only_def)
        then show ?thesis using Rowid_In by (simp add: ins_def)
      qed (use i e in \<open>auto simp: set_new_entries\<close>)
    qed
    moreover have "\<forall>i<length ?cs. \<not> on_auxiliary p (?cs ! i)" using t ok by (auto simp: terms_ok_def knn_terms_ok_def noticed_def)
    moreover have "ins = [] \<or> (\<exists>i. ins = [(i, Rowid_In)])" by (auto simp: ins_def split: option.splits)
    ultimately have "knn_entries p info ?x ?es" using x unfolding knn_entries_def
      by (intro exI [of _ m] exI [of _ k] exI [of _ ins]) simp
    then show ?thesis using run 2 planned_builder [OF 2(2)] by (auto simp: close_def intro!: exI [of _ ?es])
  qed
qed (simp add: knn_plan_def)

definition no_match :: "vec0_vtab \<Rightarrow> index_info \<Rightarrow> bool" where
  "no_match p info \<longleftrightarrow> (\<forall>c\<in>set (aConstraint info). \<forall>x. \<not> entry_ok p c (Match x))"


text \<open>The constraints of \<open>where v match ? and k = ? and m > ?\<close> and of \<open>where rowid = ?\<close>.\<close>

definition knn_query :: index_info where
  "knn_query = \<lparr>aConstraint = map (\<lambda>(c, op'). \<lparr>iColumn = c, con_op = op', usable = True, vtabIn = False\<rparr>)
     [(1, SQLITE_INDEX_CONSTRAINT_MATCH), (3, SQLITE_INDEX_CONSTRAINT_GT), (5, SQLITE_INDEX_CONSTRAINT_EQ)],
     aOrderBy = [(4, False)], colUsed = 1\<rparr>"

definition knn_query_plan :: plan where
  "knn_query_plan = \<lparr>idxStr = ''3'' @ [CHR 0x7B] @ ''___'' @ [CHR 0x7D] @ ''___&Ab_'', idxNum = 0,
     argvIndex = [(1, True), (3, True), (2, True)], vtabIns = []\<rparr>"

lemma knn_query_planned: "vec0BestIndex example_table knn_query = Some (Inr knn_query_plan)"
  by code_simp


end
