(* ===== verification/VecKnn.thy ===== *)
theory VecKnn
  imports VecPlan
begin

text \<open>
  The nearest neighbour query of \<^verbatim>\<open>extensions/sqlite-vec/cc/sqlite-vec.c\<close>: the chunks the constraints on
  the partition keys select, and the best rows of them by distance, among those the constraints on
  the row id and on the metadata columns admit (\<^verbatim>\<open>vec0_chunks_iter\<close>,
  \<^verbatim>\<open>vec0Filter_knn_chunks_iter\<close>). The buffers are lists of the size they are allocated with;
  \<open>None\<close> is an access outside of them. Allocations do not fail.
\<close>

section \<open>The chunks of a query\<close>

text \<open>An argument of \<open>xFilter\<close>: its value and subtype, and the values of an \<open>in (\<dots>)\<close> had at once.\<close>

record filter_arg =
  f_value :: datum
  f_subtype :: nat
  f_items :: "datum list"

text \<open>
  The order of SQL between values of columns without a type: numbers before texts before blobs,
  numbers by value, texts and blobs by their bytes, nothing with \<open>NULL\<close>.
\<close>

fun storage_rank :: "datum \<Rightarrow> nat" where
  "storage_rank (DText s) = 1"
| "storage_rank (DBlob s) = 2"
| "storage_rank _ = 0"

definition sql_less :: "datum \<Rightarrow> datum \<Rightarrow> bool" where
  "sql_less a b \<longleftrightarrow> a \<noteq> DNull \<and> b \<noteq> DNull \<and> (storage_rank a < storage_rank b \<or> storage_rank a = storage_rank b \<and>
     (case (a, b) of
        (DText s, DText t) \<Rightarrow> s < t
      | (DBlob s, DBlob t) \<Rightarrow> s < t
      | (DInt x, DInt y) \<Rightarrow> x <s y
      | _ \<Rightarrow> (case (numeric a, numeric b) of (Some x, Some y) \<Rightarrow> fp_less x y | _ \<Rightarrow> False)))"

definition sql_compare :: "metadata_operator \<Rightarrow> datum \<Rightarrow> datum \<Rightarrow> bool" where
  "sql_compare v a b = (case v of
       OP_EQ \<Rightarrow> sql_eq a b
     | OP_GT \<Rightarrow> sql_less b a
     | OP_LE \<Rightarrow> sql_less a b \<or> sql_eq a b
     | OP_LT \<Rightarrow> sql_less a b
     | OP_GE \<Rightarrow> sql_less b a \<or> sql_eq a b
     | OP_NE \<Rightarrow> a \<noteq> DNull \<and> b \<noteq> DNull \<and> \<not> sql_eq a b
     | OP_IN \<Rightarrow> False)"

text \<open>The four characters of the entry of argument \<open>i\<close>.\<close>

definition entry_char :: "string \<Rightarrow> nat \<Rightarrow> nat \<Rightarrow> char option" where
  "entry_char idx_str i j = rd idx_str (1 + i * 4 + j)"

definition operator_of :: "char \<Rightarrow> metadata_operator option" where
  "operator_of c = find (\<lambda>v. operator_char v = c) [OP_EQ, OP_GT, OP_LE, OP_LT, OP_GE, OP_NE, OP_IN]"

text \<open>The conditions of the statement: the partition key, the operator and the value bound to it.\<close>

fun chunk_conditions :: "vec0_vtab \<Rightarrow> string \<Rightarrow> nat \<Rightarrow> filter_arg list \<Rightarrow> (nat \<times> metadata_operator \<times> datum) list result option" where
  "chunk_conditions p idx_str i [] = Some (Inr [])"
| "chunk_conditions p idx_str i (a # args) = do {
     kind \<leftarrow> entry_char idx_str i 0;
     if kind \<noteq> VEC0_IDXSTR_KIND_KNN_PARTITON_CONSTRAINT then chunk_conditions p idx_str (i + 1) args
     else do {
       partition_char \<leftarrow> entry_char idx_str i 1;
       operator \<leftarrow> entry_char idx_str i 2;
       (case operator_of operator of
          None \<Rightarrow> Some (Inl SQLITE_ERROR)
        | Some OP_IN \<Rightarrow> Some (Inl SQLITE_ERROR)
        | Some v \<Rightarrow> (let partition_idx = of_char partition_char - 65 in
            if numPartitionColumns p \<le> partition_idx then Some (Inl SQLITE_ERROR)
            else do {
              r \<leftarrow> chunk_conditions p idx_str (i + 1) args;
              Some (on_ok r (\<lambda>cs. Inr ((partition_idx, v, f_value a) # cs))) })) } }"

definition meets :: "(nat \<times> metadata_operator \<times> datum) list \<Rightarrow> datum list \<Rightarrow> bool" where
  "meets conditions keys \<longleftrightarrow> (\<forall>(x, v, value) \<in> set conditions. sql_compare v (keys ! x) value)"

text \<open>The chunks that meet all of them, with their numbers, in the order of the table.\<close>

definition vec0_chunks_iter :: "vec0_vtab \<Rightarrow> shadow \<Rightarrow> string \<Rightarrow> filter_arg list \<Rightarrow> (nat \<times> chunk) list result option" where
  "vec0_chunks_iter p s idx_str argv = do {
     r \<leftarrow> chunk_conditions p idx_str 0 argv;
     Some (on_ok r (\<lambda>conditions. Inr (filter (\<lambda>(_, c). meets conditions (c_partition c)) (enumerate 1 (s_chunks s))))) }"

section \<open>The rows of a chunk\<close>

text \<open>The comparison of row ids: the difference, as an \<open>int\<close>.\<close>

definition cmp_rowids :: "i64 \<Rightarrow> i64 \<Rightarrow> int" where
  "cmp_rowids a b = sint (ucast (a - b) :: 32 word)"

text \<open>The search for a row id in the sorted array of eight-byte elements at address zero.\<close>

definition rowid_listed :: "i64 list \<Rightarrow> i64 \<Rightarrow> bool" where
  "rowid_listed rowids rowid \<longleftrightarrow> bsearch (\<lambda>a. cmp_rowids rowid (rowids ! (a div 8))) 0 (length rowids) 8 \<noteq> None"

text \<open>The bitmap of the rows whose id is in the array.\<close>

definition rowids_bitmap :: "u8 list \<Rightarrow> i64 list \<Rightarrow> i64 list \<Rightarrow> nat \<Rightarrow> u8 list \<Rightarrow> u8 list option" where
  "rowids_bitmap validity chunkRowids arrayRowidsIn n bmRowids =
     for_loop (\<lambda>i bm. do {
       valid \<leftarrow> bitmap_get validity i;
       if valid = 0 then Some bm
       else do {
         rowid \<leftarrow> rd chunkRowids i;
         bitmap_set bm i (if rowid_listed arrayRowidsIn rowid then 1 else 0) } }) 0 n bmRowids"

text \<open>The loop over the metadata constraints; the second bitmap is the buffer of the filters.\<close>

fun metadata_bitmaps ::
  "conversions \<Rightarrow> vec0_vtab \<Rightarrow> shadow \<Rightarrow> nat \<Rightarrow> chunk \<Rightarrow> string \<Rightarrow> metadata_in list \<Rightarrow> nat \<Rightarrow> filter_arg list \<Rightarrow>
     u8 list \<Rightarrow> u8 list \<Rightarrow> (u8 list \<times> u8 list) result option" where
  "metadata_bitmaps c p s chunk_id ch idx_str ins i [] b bmMetadata = Some (Inr (b, bmMetadata))"
| "metadata_bitmaps c p s chunk_id ch idx_str ins i (a # args) b bmMetadata = do {
     kind \<leftarrow> entry_char idx_str i 0;
     if kind \<noteq> VEC0_IDXSTR_KIND_METADATA_CONSTRAINT then metadata_bitmaps c p s chunk_id ch idx_str ins (i + 1) args b bmMetadata
     else do {
       metadata_char \<leftarrow> entry_char idx_str i 1;
       operator \<leftarrow> entry_char idx_str i 2;
       v \<leftarrow> operator_of operator;
       let metadata_idx = of_char metadata_char - 65;
       (case metadata_at s chunk_id metadata_idx of
          None \<Rightarrow> Some (Inl SQLITE_ERROR)
        | Some col \<Rightarrow> do {
            bmMetadata \<leftarrow> bitmap_clear bmMetadata (rows_per_chunk p);
            r \<leftarrow> vec0_set_metadata_filter_bitmap c (metadata_kind_at p metadata_idx) col (c_rowids ch) v (f_value a)
                   bmMetadata (rows_per_chunk p) ins i;
            (case r of
               Fail _ \<Rightarrow> Some (Inl SQLITE_ERROR)
             | Done bmMetadata \<Rightarrow> do {
                 b \<leftarrow> bitmap_and_inplace b bmMetadata (rows_per_chunk p);
                 metadata_bitmaps c p s chunk_id ch idx_str ins (i + 1) args b bmMetadata }) }) } }"

text \<open>The distance of two vectors of a column, as a \<open>float\<close>.\<close>

definition vector_distance :: "vector_column \<Rightarrow> u8 list \<Rightarrow> u8 list \<Rightarrow> f32 option" where
  "vector_distance col base query = (let n = dimensions col in case element_type col of
       FLOAT32 \<Rightarrow> (case distance_metric col of
           L2 \<Rightarrow> distance_l2_sqr_float base query n
         | L1 \<Rightarrow> map_option f32_of_f64 (distance_l1_f32 base query n)
         | COSINE \<Rightarrow> distance_cosine_float base query n)
     | INT8 \<Rightarrow> (case distance_metric col of
           L2 \<Rightarrow> distance_l2_sqr_int8 base query n
         | L1 \<Rightarrow> map_option f32_of_int (distance_l1_int8 base query n)
         | COSINE \<Rightarrow> distance_cosine_int8 base query n)
     | BIT \<Rightarrow> distance_hamming base query n)"

text \<open>The distances of the candidates, at their positions; the vector of row \<open>i\<close> is the slot \<open>i\<close> of the blob.\<close>

definition chunk_distances :: "vector_column \<Rightarrow> u8 list \<Rightarrow> u8 list \<Rightarrow> u8 list \<Rightarrow> nat \<Rightarrow> f32 list \<Rightarrow> f32 list option" where
  "chunk_distances col baseVectors query b n distances =
     for_loop (\<lambda>i ds. do {
       candidate \<leftarrow> bitmap_get b i;
       if candidate = 0 then Some ds
       else do {
         result \<leftarrow> vector_distance col (slot (vector_column_byte_size col) i baseVectors) query;
         wr ds i result } }) 0 n distances"

text \<open>The buffers that live through all chunks.\<close>

record topk =
  topk_rowids :: "i64 list"
  topk_distances :: "f32 list"
  tmp_topk_rowids :: "i64 list"
  tmp_topk_distances :: "f32 list"
  k_used :: nat
  bTaken :: "u8 list"
  bmRows :: "u8 list"
  bmMeta :: "u8 list"

text \<open>What stays the same: the query vector and its column, \<open>k\<close>, the row ids and the values of \<open>in (\<dots>)\<close>, the constraints.\<close>

record knn_query =
  q_column :: nat
  q_vector :: "u8 list"
  q_k :: nat
  q_rowids :: "i64 list option"
  q_ins :: "metadata_in list"
  q_idxStr :: string
  q_argv :: "filter_arg list"

text \<open>The body of the loop over the chunks: the sizes, the candidates, their distances, the merge.\<close>

definition chunk_candidates ::
  "conversions \<Rightarrow> vec0_vtab \<Rightarrow> shadow \<Rightarrow> knn_query \<Rightarrow> nat \<Rightarrow> chunk \<Rightarrow> topk \<Rightarrow> (u8 list \<times> topk) result option" where
  "chunk_candidates c p s q chunk_id ch t = do {
     b \<leftarrow> bitmap_copy (replicate (rows_per_chunk p div 8) 0) (c_validity ch) (rows_per_chunk p);
     (b, bm) \<leftarrow> (case q_rowids q of
         None \<Rightarrow> Some (b, bmRows t)
       | Some rowids \<Rightarrow> do {
           bm \<leftarrow> bitmap_clear (bmRows t) (rows_per_chunk p);
           bm \<leftarrow> rowids_bitmap (c_validity ch) (c_rowids ch) rowids (rows_per_chunk p) bm;
           b \<leftarrow> bitmap_and_inplace b bm (rows_per_chunk p);
           Some (b, bm) });
     r \<leftarrow> metadata_bitmaps c p s chunk_id ch (q_idxStr q) (q_ins q) 0 (q_argv q) b (bmMeta t);
     Some (on_ok r (\<lambda>(b, bmMeta). Inr (b, t\<lparr>bmRows := bm, bmMeta := bmMeta\<rparr>))) }"

definition merge_chunk :: "nat \<Rightarrow> nat \<Rightarrow> f32 list \<Rightarrow> i64 list \<Rightarrow> u8 list \<Rightarrow> topk \<Rightarrow> topk option" where
  "merge_chunk k n distances chunkRowids b t = do {
     (chunk_topk_idxs, taken, used1) \<leftarrow> min_idx distances n b (replicate k 0) (min k n) (bTaken t);
     (tmp_distances, tmp_rowids, used) \<leftarrow> merge_sorted_lists (topk_distances t) (topk_rowids t) (k_used t) distances chunkRowids
        chunk_topk_idxs (min (min k n) used1) (tmp_topk_distances t) (tmp_topk_rowids t) k;
     Some (t\<lparr>topk_rowids := take used tmp_rowids @ drop used (topk_rowids t),
       topk_distances := take used tmp_distances @ drop used (topk_distances t),
       tmp_topk_rowids := tmp_rowids, tmp_topk_distances := tmp_distances, k_used := used, bTaken := taken\<rparr>) }"

definition knn_chunk ::
  "conversions \<Rightarrow> vec0_vtab \<Rightarrow> shadow \<Rightarrow> knn_query \<Rightarrow> nat \<Rightarrow> chunk \<Rightarrow> topk \<Rightarrow> topk result option" where
  "knn_chunk c p s q chunk_id ch t = (let n = rows_per_chunk p; col = vector_column_at p (q_column q) in
     if length (c_validity ch) \<noteq> n div 8 then Some (Inl SQLITE_ERROR)
     else if length (c_rowids ch) \<noteq> n then Some (Inl SQLITE_ERROR)
     else case rd (c_vectors ch) (q_column q) of
       None \<Rightarrow> Some (Inl SQLITE_ERROR)
     | Some baseVectors \<Rightarrow>
         if length baseVectors \<noteq> n * vector_column_byte_size col then Some (Inl SQLITE_ERROR)
         else do {
           r \<leftarrow> chunk_candidates c p s q chunk_id ch t;
           (case r of
              Inl e \<Rightarrow> Some (Inl e)
            | Inr (b, t) \<Rightarrow> do {
                distances \<leftarrow> chunk_distances col baseVectors (q_vector q) b n (replicate n 0);
                t \<leftarrow> merge_chunk (q_k q) n distances (c_rowids ch) b t;
                Some (Inr t) }) })"

fun knn_chunks :: "conversions \<Rightarrow> vec0_vtab \<Rightarrow> shadow \<Rightarrow> knn_query \<Rightarrow> (nat \<times> chunk) list \<Rightarrow> topk \<Rightarrow> topk result option" where
  "knn_chunks c p s q [] t = Some (Inr t)"
| "knn_chunks c p s q ((chunk_id, ch) # chunks) t = do {
     r \<leftarrow> knn_chunk c p s q chunk_id ch t;
     (case r of Inl e \<Rightarrow> Some (Inl e) | Inr t \<Rightarrow> knn_chunks c p s q chunks t) }"

definition new_topk :: "nat \<Rightarrow> nat \<Rightarrow> topk" where
  "new_topk k n = \<lparr>topk_rowids = replicate k 0, topk_distances = replicate k 0, tmp_topk_rowids = replicate k 0,
     tmp_topk_distances = replicate k 0, k_used = 0, bTaken = replicate (n div 8) 0, bmRows = replicate (n div 8) 0,
     bmMeta = replicate (n div 8) 0\<rparr>"

text \<open>The row ids, the distances and how many of them are used.\<close>

definition vec0Filter_knn_chunks_iter ::
  "conversions \<Rightarrow> vec0_vtab \<Rightarrow> shadow \<Rightarrow> (nat \<times> chunk) list \<Rightarrow> knn_query \<Rightarrow> (i64 list \<times> f32 list \<times> nat) result option" where
  "vec0Filter_knn_chunks_iter c p s chunks q = do {
     r \<leftarrow> knn_chunks c p s q chunks (new_topk (q_k q) (rows_per_chunk p));
     Some (on_ok r (\<lambda>t. Inr (topk_rowids t, topk_distances t, k_used t))) }"

section \<open>Row ids in a sorted array\<close>

text \<open>
  The difference is cut to an \<open>int\<close>, so the comparison orders row ids that are less than \<open>2\<^sup>3\<^sup>1\<close> apart
  only.
\<close>

definition near_rowids :: "i64 set" where
  "near_rowids = {x. - 1073741824 \<le> sint x \<and> sint x < 1073741824}"

lemma cmp_rowids_near:
  assumes "a \<in> near_rowids" "b \<in> near_rowids"
  shows "cmp_rowids a b = sint a - sint b"
proof -
  have w: "(ucast (word_of_int x :: i64) :: 32 word) = word_of_int x" for x by (rule bit_word_eqI) (simp add: bit_simps)
  define x where "x = sint a - sint b"
  have "a - b = word_of_int x" unfolding x_def by (simp flip: wi_hom_sub)
  then have "(ucast (a - b) :: 32 word) = word_of_int x" by (simp only: w)
  moreover have "- 2147483648 \<le> x" "x < 2147483648" using assms by (auto simp: near_rowids_def x_def)
  ultimately show ?thesis unfolding cmp_rowids_def x_def [symmetric] by (simp add: signed_of_int signed_take_bit_int_eq_self)
qed

interpretation rowids: comparison cmp_rowids near_rowids
  by unfold_locales (auto simp: cmp_rowids_near intro: signed_word_eqI)

lemma rowid_listed_near:
  assumes "set xs \<subseteq> near_rowids" "r \<in> near_rowids" "sorted_wrt (\<lambda>x y. cmp_rowids x y \<le> 0) xs"
  shows "rowid_listed xs r \<longleftrightarrow> r \<in> set xs"
  using rowids.bsearch_sorted [OF assms, of "\<lambda>a. cmp_rowids r (xs ! (a div 8))" 0 8]
  by (auto simp: rowid_listed_def split: option.splits)

lemma far_rowids_equal: "cmp_rowids (r + 4294967296) r = 0"
  by (simp add: cmp_rowids_def)

lemma rowid_listed_far: "rowid_listed [1] 4294967297"
  by code_simp

section \<open>The candidates of a chunk\<close>

text \<open>A bitmap of a chunk of \<open>n\<close> rows stands for a set of positions.\<close>

definition bitmap_is :: "nat \<Rightarrow> u8 list \<Rightarrow> nat set \<Rightarrow> bool" where
  "bitmap_is n b S \<longleftrightarrow> 8 * length b = n \<and> bits_of b = S"

lemma bitmap_is_get: "bitmap_is n b S \<Longrightarrow> i < n \<Longrightarrow> bitmap_get b i = Some (if i \<in> S then 1 else 0)"
  by (auto simp: bitmap_is_def)

lemma bitmap_is_bound: "bitmap_is n b S \<Longrightarrow> i \<in> S \<Longrightarrow> i < n"
  by (auto simp: bitmap_is_def dest: bits_of_bound)

lemma bitmap_is_clear:
  assumes "8 * length b = n"
  obtains b' where "bitmap_clear b n = Some b'" "bitmap_is n b' {}"
proof -
  have n: "n mod 8 = 0" using assms by auto
  obtain b' where b': "bitmap_clear b n = Some b'" "length b' = length b" "bits_of b' = {i \<in> bits_of b. n \<le> i}"
    using bitmap_clear_spec [OF n, of b] assms by auto
  have "bits_of b' = {}" unfolding b'(3) using assms by (auto dest: bits_of_bound)
  then show ?thesis using that b'(1,2) assms by (simp add: bitmap_is_def)
qed

lemma bitmap_is_and:
  assumes "bitmap_is n b S" "bitmap_is n b' S'"
  obtains b'' where "bitmap_and_inplace b b' n = Some b''" "bitmap_is n b'' (S \<inter> S')"
proof -
  have l: "n mod 8 = 0" "n \<le> 8 * length b" "n \<le> 8 * length b'" using assms by (auto simp: bitmap_is_def)
  obtain b'' where b'': "bitmap_and_inplace b b' n = Some b''" "length b'' = length b"
    "\<And>i. i \<in> bits_of b'' \<longleftrightarrow> i \<in> bits_of b \<and> (i < n \<longrightarrow> i \<in> bits_of b')" by (rule bitmap_and_inplace_spec [OF l]) blast
  have "bits_of b'' = S \<inter> S'" using b''(3) assms bitmap_is_bound [OF assms(1)] by (auto simp: bitmap_is_def)
  then show ?thesis using that b''(1,2) assms by (simp add: bitmap_is_def)
qed

lemma bitmap_is_copy:
  assumes "8 * length v = n"
  shows "bitmap_copy (replicate (n div 8) 0) v n = Some v"
proof -
  have "n div 8 = length v" "n mod 8 = 0" using assms by auto
  then show ?thesis by (simp add: bitmap_copy_def)
qed

lemma rowids_bitmap_spec:
  assumes v: "bitmap_is n validity V" and r: "length chunkRowids = n" and b: "bitmap_is n bm {}"
  shows "\<exists>bm'. rowids_bitmap validity chunkRowids xs n bm = Some bm' \<and> bitmap_is n bm' {i \<in> V. rowid_listed xs (chunkRowids ! i)}"
proof -
  let ?I = "\<lambda>k bm. bitmap_is n bm {i \<in> V. i < k \<and> rowid_listed xs (chunkRowids ! i)}"
  have "\<exists>bm'. rowids_bitmap validity chunkRowids xs n bm = Some bm' \<and> ?I (0 + n) bm'"
    unfolding rowids_bitmap_def
  proof (rule for_loop_invariant)
    fix j bm assume j: "0 \<le> j" "j < 0 + n" "?I j bm"
    show "\<exists>bm'. (do { valid \<leftarrow> bitmap_get validity j; if valid = 0 then Some bm
          else do { rowid \<leftarrow> rd chunkRowids j; bitmap_set bm j (if rowid_listed xs rowid then 1 else 0) } }) = Some bm' \<and> ?I (j + 1) bm'"
    proof (cases "j \<in> V")
      case True
      have jb: "j < 8 * length bm" using j by (simp add: bitmap_is_def)
      obtain bm' where bm': "bitmap_set bm j (if rowid_listed xs (chunkRowids ! j) then 1 else 0) = Some bm'" "length bm' = length bm"
        "bits_of bm' = (if rowid_listed xs (chunkRowids ! j) then insert j (bits_of bm) else bits_of bm - {j})"
        using bitmap_set_spec [OF jb, of "if rowid_listed xs (chunkRowids ! j) then 1 else 0"] by (metis zero_neq_one)
      have "?I (j + 1) bm'" using bm'(2,3) j(3) True by (auto simp: bitmap_is_def less_Suc_eq)
      then show ?thesis using bm'(1) True j r bitmap_is_get [OF v, of j] by (simp add: rd_Some)
    next
      case False
      then have "?I (j + 1) bm" using j(3) by (auto simp: bitmap_is_def less_Suc_eq)
      then show ?thesis using False j bitmap_is_get [OF v, of j] by simp
    qed
  qed (use b in simp)
  moreover have "{i \<in> V. i < 0 + n \<and> rowid_listed xs (chunkRowids ! i)} = {i \<in> V. rowid_listed xs (chunkRowids ! i)}"
    using bitmap_is_bound [OF v] by auto
  ultimately show ?thesis by simp
qed

text \<open>A metadata constraint on argument \<open>i\<close> admits the rows \<open>F i\<close> of the chunk.\<close>

definition metadata_entry :: "string \<Rightarrow> nat \<Rightarrow> bool" where
  "metadata_entry str i \<longleftrightarrow> entry_char str i 0 = Some VEC0_IDXSTR_KIND_METADATA_CONSTRAINT"

definition entry_filters ::
  "conversions \<Rightarrow> vec0_vtab \<Rightarrow> shadow \<Rightarrow> nat \<Rightarrow> chunk \<Rightarrow> string \<Rightarrow> metadata_in list \<Rightarrow> nat \<Rightarrow> filter_arg \<Rightarrow> nat set \<Rightarrow> bool" where
  "entry_filters c p s chunk_id ch str ins i a F \<longleftrightarrow> (\<exists>mc oc v col.
     entry_char str i 1 = Some mc \<and> entry_char str i 2 = Some oc \<and> operator_of oc = Some v \<and>
     metadata_at s chunk_id (of_char mc - 65) = Some col \<and>
     (\<forall>b. bitmap_is (rows_per_chunk p) b {} \<longrightarrow> (\<exists>b'.
        vec0_set_metadata_filter_bitmap c (metadata_kind_at p (of_char mc - 65)) col (c_rowids ch) v (f_value a) b (rows_per_chunk p) ins i =
          Some (Done b') \<and> bitmap_is (rows_per_chunk p) b' F)))"

lemma metadata_bitmaps_spec:
  "bitmap_is (rows_per_chunk p) b S \<Longrightarrow> 8 * length bm = rows_per_chunk p \<Longrightarrow>
    (\<And>j. j < length args \<Longrightarrow> entry_char str (i + j) 0 \<noteq> None) \<Longrightarrow>
    (\<And>j. j < length args \<Longrightarrow> metadata_entry str (i + j) \<Longrightarrow> entry_filters c p s chunk_id ch str ins (i + j) (args ! j) (F (i + j))) \<Longrightarrow>
    \<exists>b' bm'. metadata_bitmaps c p s chunk_id ch str ins i args b bm = Some (Inr (b', bm')) \<and> 8 * length bm' = rows_per_chunk p \<and>
      bitmap_is (rows_per_chunk p) b' {l \<in> S. \<forall>j<length args. metadata_entry str (i + j) \<longrightarrow> l \<in> F (i + j)}"
proof (induction args arbitrary: i b bm S)
  case (Cons a args)
  have first: "entry_char str i 0 \<noteq> None" using Cons.prems(3) [of 0] by simp
  have rest: "j < length args \<Longrightarrow> entry_char str (i + 1 + j) 0 \<noteq> None"
    "j < length args \<Longrightarrow> metadata_entry str (i + 1 + j) \<Longrightarrow>
      entry_filters c p s chunk_id ch str ins (i + 1 + j) (args ! j) (F (i + 1 + j))" for j
    using Cons.prems(3,4) [of "Suc j"] by simp_all
  have split: "(\<forall>j<length (a # args). metadata_entry str (i + j) \<longrightarrow> l \<in> F (i + j)) \<longleftrightarrow>
      (metadata_entry str i \<longrightarrow> l \<in> F i) \<and> (\<forall>j<length args. metadata_entry str (i + 1 + j) \<longrightarrow> l \<in> F (i + 1 + j))" for l
    by (simp add: All_less_Suc2)
  show ?case
  proof (cases "metadata_entry str i")
    case False
    then show ?thesis using Cons.IH [OF Cons.prems(1,2) rest] first unfolding split by (auto simp: metadata_entry_def)
  next
    case True
    obtain mc oc v col where e: "entry_char str i 1 = Some mc" "entry_char str i 2 = Some oc" "operator_of oc = Some v"
      "metadata_at s chunk_id (of_char mc - 65) = Some col"
      and f: "\<And>b. bitmap_is (rows_per_chunk p) b {} \<Longrightarrow> \<exists>b'.
        vec0_set_metadata_filter_bitmap c (metadata_kind_at p (of_char mc - 65)) col (c_rowids ch) v (f_value a) b (rows_per_chunk p) ins i =
          Some (Done b') \<and> bitmap_is (rows_per_chunk p) b' (F i)"
      using Cons.prems(4) [of 0] True unfolding entry_filters_def by auto
    obtain bm1 where bm1: "bitmap_clear bm (rows_per_chunk p) = Some bm1" "bitmap_is (rows_per_chunk p) bm1 {}"
      by (rule bitmap_is_clear [OF Cons.prems(2)])
    obtain bm2 where bm2: "vec0_set_metadata_filter_bitmap c (metadata_kind_at p (of_char mc - 65)) col (c_rowids ch) v (f_value a) bm1 (rows_per_chunk p) ins i =
          Some (Done bm2)" "bitmap_is (rows_per_chunk p) bm2 (F i)" using f [OF bm1(2)] by blast
    obtain b1 where b1: "bitmap_and_inplace b bm2 (rows_per_chunk p) = Some b1" "bitmap_is (rows_per_chunk p) b1 (S \<inter> F i)"
      by (rule bitmap_is_and [OF Cons.prems(1) bm2(2)])
    have "8 * length bm2 = rows_per_chunk p" using bm2(2) by (simp add: bitmap_is_def)
    moreover have "{l \<in> S \<inter> F i. P l} = {l \<in> S. l \<in> F i \<and> P l}" for P by auto
    ultimately show ?thesis using Cons.IH [OF b1(2) _ rest, of bm2] True e bm1(1) bm2(1) b1(1) unfolding split
      by (simp add: metadata_entry_def)
  qed
qed simp

end
