(* ===== verification/VecNearest.thy ===== *)
theory VecNearest
  imports VecKnn "HOL-Library.Multiset"
begin

text \<open>
  The nearest neighbour query returns the rows that satisfy its constraints with the smallest
  distances: the merge of the best rows of every chunk is the best of all rows.
\<close>

section \<open>The best of many lists\<close>

lemma sort_key_sorted: "sorted (map f xs) \<Longrightarrow> sort_key f xs = xs"
  by (simp add: sort_key_id_if_sorted)

lemma take_merge:
  fixes f :: "'a \<Rightarrow> int"
  shows "sorted (map f xs) \<Longrightarrow> sorted (map f ys) \<Longrightarrow> k \<le> m \<Longrightarrow> k \<le> n \<Longrightarrow>
    take k (sort_key f (take m xs @ take n ys)) = take k (sort_key f (xs @ ys))"
proof (induction k arbitrary: xs ys m n)
  case (Suc k)
  have st: "sorted (map f (take m zs))" if "sorted (map f zs)" for zs m using that by (simp add: sorted_wrt_take flip: take_map)
  show ?case
  proof (cases xs)
    case Nil
    then show ?thesis using Suc.prems st by (simp add: sort_key_sorted min_def)
  next
    case (Cons x xs')
    show ?thesis
    proof (cases ys)
      case Nil
      then show ?thesis using Suc.prems st by (simp add: sort_key_sorted min_def)
    next
      case c: (Cons y ys')
      obtain m' n' where mn: "m = Suc m'" "n = Suc n'" using Suc.prems(3,4) by (cases m; cases n) auto
      show ?thesis
      proof (cases "f x \<le> f y")
        case True
        have l: "\<forall>z\<in>set zs. f x \<le> f z" if "set zs \<subseteq> set xs' \<union> set ys" for zs
          using Suc.prems(1,2) True that unfolding Cons c by (fastforce dest!: subsetD)
        have t: "take m xs @ take n ys = x # take m' xs' @ take n ys" "xs @ ys = x # xs' @ ys" using mn by (simp_all add: Cons)
        have IH: "take k (sort_key f (take m' xs' @ take n ys)) = take k (sort_key f (xs' @ ys))"
          by (rule Suc.IH) (use Suc.prems mn Cons in auto)
        have "sort_key f (x # take m' xs' @ take n ys) = x # sort_key f (take m' xs' @ take n ys)"
          "sort_key f (x # xs' @ ys) = x # sort_key f (xs' @ ys)"
          by (rule sort_key_least_left, rule l, use set_take_subset [of m' xs'] set_take_subset [of n ys] in force)+
        then show ?thesis unfolding t using IH by simp
      next
        case False
        have l: "\<forall>z\<in>set zs. f y < f z" if "set zs \<subseteq> set xs" for zs
          using Suc.prems(1) False that unfolding Cons by (fastforce dest!: subsetD)
        have r: "\<forall>z\<in>set zs. f y \<le> f z" if "set zs \<subseteq> set ys'" for zs
          using Suc.prems(2) that unfolding c by (fastforce dest!: subsetD)
        have t: "take m xs @ take n ys = take m xs @ y # take n' ys'" "xs @ ys = xs @ y # ys'" using mn by (simp_all add: c)
        have IH: "take k (sort_key f (take m xs @ take n' ys')) = take k (sort_key f (xs @ ys'))"
          by (rule Suc.IH) (use Suc.prems mn c in auto)
        have "sort_key f (take m xs @ y # take n' ys') = y # sort_key f (take m xs @ take n' ys')"
          "sort_key f (xs @ y # ys') = y # sort_key f (xs @ ys')"
          by (rule sort_key_least_right, rule l, use set_take_subset [of m xs] in simp, rule r, use set_take_subset [of n' ys'] in simp)+
        then show ?thesis unfolding t using IH by simp
      qed
    qed
  qed
qed simp

lemma sort_key_append:
  fixes f :: "'a \<Rightarrow> int"
  shows "sort_key f (sort_key f xs @ sort_key f ys) = sort_key f (xs @ ys)"
proof (rule properties_for_sort_key)
  fix k
  have "filter (\<lambda>x. f k = f x) (sort_key f zs) = filter (\<lambda>x. f k = f x) zs" for zs
    using sort_key_stable [of f "f k" zs] by (simp add: eq_commute [of "f k"])
  then show "filter (\<lambda>x. f k = f x) (sort_key f (xs @ ys)) = filter (\<lambda>x. f k = f x) (sort_key f xs @ sort_key f ys)"
    unfolding filter_append by simp
qed simp_all

lemma take_sort_append:
  fixes f :: "'a \<Rightarrow> int"
  shows "take k (sort_key f (take k (sort_key f xs) @ take k (sort_key f ys))) = take k (sort_key f (xs @ ys))"
  using take_merge [of f "sort_key f xs" "sort_key f ys" k k k] by (simp add: sort_key_append)

lemma sort_key_map: "sort_key f (map g xs) = map g (sort_key (f \<circ> g) xs)"
proof -
  have "insort_key f (g x) (map g ys) = map g (insort_key (f \<circ> g) x ys)" for x ys by (induction ys) auto
  then show ?thesis by (induction xs) simp_all
qed

section \<open>One chunk\<close>

lemma chunk_distances_spec:
  assumes b: "bitmap_is n b S" and l: "length ds = n"
    and d: "\<And>i. i \<in> S \<Longrightarrow> vector_distance col (slot (vector_column_byte_size col) i base) query = Some (D i)"
  shows "\<exists>ds'. chunk_distances col base query b n ds = Some ds' \<and> length ds' = n \<and> (\<forall>i\<in>S. ds' ! i = D i)"
proof -
  have "\<exists>ds'. chunk_distances col base query b n ds = Some ds' \<and> (length ds' = n \<and> (\<forall>i\<in>S. i < 0 + n \<longrightarrow> ds' ! i = D i))"
    unfolding chunk_distances_def
  proof (rule for_loop_invariant)
    fix j and ds :: "f32 list" assume j: "0 \<le> j" "j < 0 + n" "length ds = n \<and> (\<forall>i\<in>S. i < j \<longrightarrow> ds ! i = D i)"
    show "\<exists>ds'. (do { candidate \<leftarrow> bitmap_get b j; if candidate = 0 then Some ds
        else do { result \<leftarrow> vector_distance col (slot (vector_column_byte_size col) j base) query; wr ds j result } }) = Some ds' \<and>
        (length ds' = n \<and> (\<forall>i\<in>S. i < j + 1 \<longrightarrow> ds' ! i = D i))"
      using j d [of j] bitmap_is_get [OF b, of j] by (cases "j \<in> S") (auto simp: wr_def less_Suc_eq nth_list_update)
  qed (use l in simp)
  then show ?thesis using bitmap_is_bound [OF b] by auto
qed

text \<open>The buffers hold the best \<open>k\<close> rows so far, in order.\<close>

definition best :: "nat \<Rightarrow> (f32 \<times> i64) list \<Rightarrow> (f32 \<times> i64) list" where
  "best k rows = take k (sort_key (f32_key \<circ> fst) rows)"

definition holds :: "nat \<Rightarrow> nat \<Rightarrow> topk \<Rightarrow> (f32 \<times> i64) list \<Rightarrow> bool" where
  "holds k n t rows \<longleftrightarrow> length (topk_rowids t) = k \<and> length (topk_distances t) = k \<and> length (tmp_topk_rowids t) = k \<and>
     length (tmp_topk_distances t) = k \<and> k_used t = length (best k rows) \<and>
     take (k_used t) (zip (topk_distances t) (topk_rowids t)) = best k rows \<and>
     8 * length (bTaken t) = n \<and> 8 * length (bmRows t) = n \<and> 8 * length (bmMeta t) = n \<and> (\<forall>r\<in>set rows. \<not> f32_nan (fst r))"

text \<open>The rows of a chunk, with the later positions first.\<close>

definition chunk_rows :: "nat \<Rightarrow> (nat \<Rightarrow> f32) \<Rightarrow> i64 list \<Rightarrow> nat set \<Rightarrow> (f32 \<times> i64) list" where
  "chunk_rows n D rowids S = map (\<lambda>i. (D i, rowids ! i)) (rev (filter (\<lambda>i. i \<in> S) [0..<n]))"

lemma best_best: "best k (best k xs @ best k ys) = best k (xs @ ys)"
  unfolding best_def by (rule take_sort_append)

lemma sorted_best: "sorted (map (f32_key \<circ> fst) (best k rows))"
  by (simp add: best_def sorted_wrt_take flip: take_map)

lemma set_best: "set (best k rows) \<subseteq> set rows"
  unfolding best_def using set_take_subset [of k "sort_key (f32_key \<circ> fst) rows"] by simp

lemma best_chunk_rows:
  "best k (chunk_rows n D rowids S) = map (\<lambda>i. (D i, rowids ! i)) (take k (ranking (f32_key \<circ> D) (\<lambda>i. i \<in> S) n))"
  by (simp add: best_def chunk_rows_def ranking_def sort_key_map take_map comp_def)

lemma chunk_rows_cong: "(\<And>i. i \<in> S \<Longrightarrow> D i = D' i) \<Longrightarrow> chunk_rows n D rowids S = chunk_rows n D' rowids S"
  by (simp add: chunk_rows_def)

lemma zip_take_drop:
  assumes "u \<le> length a" "length a = length b" "length a' = length a" "length b' = length a"
  shows "take u (zip (take u a' @ drop u a) (take u b' @ drop u b)) = take u (zip a' b')"
  using assms by (simp add: take_zip)

lemma merge_chunk_spec:
  assumes t: "holds k n t rows" and k: "0 < k" "0 < n" and b: "bitmap_is n b S" and ds: "length ds = n" "length chunkRowids = n"
    and num: "\<And>i. i \<in> S \<Longrightarrow> \<not> f32_nan (ds ! i)"
  shows "\<exists>t'. merge_chunk k n ds chunkRowids b t = Some t' \<and> bmRows t' = bmRows t \<and> bmMeta t' = bmMeta t \<and>
    holds k n t' (rows @ chunk_rows n (\<lambda>i. ds ! i) chunkRowids S)"
proof -
  define R where "R = ranking (\<lambda>l. f32_key (ds ! l)) (\<lambda>l. l \<in> bits_of b) n"
  have S: "bits_of b = S" "8 * length b = n" "n mod 8 = 0" using b by (auto simp: bitmap_is_def)
  have len: "length (topk_rowids t) = k" "length (topk_distances t) = k" "length (tmp_topk_rowids t) = k" "length (tmp_topk_distances t) = k"
    "k_used t = length (best k rows)" "take (k_used t) (zip (topk_distances t) (topk_rowids t)) = best k rows" "8 * length (bTaken t) = n"
    "\<forall>r\<in>set rows. \<not> f32_nan (fst r)"
    using t unfolding holds_def by blast+
  have used: "k_used t \<le> k" unfolding len(5) best_def by simp
  let ?B = "best k (chunk_rows n (\<lambda>i. ds ! i) chunkRowids S)"
  have B: "?B = map (\<lambda>i. (ds ! i, chunkRowids ! i)) (take k R)"
    by (simp add: best_chunk_rows R_def S(1) comp_def)
  have R: "length R \<le> n" "set R = S" using length_ranking set_ranking bitmap_is_bound [OF b] by (auto simp: R_def S(1))
  have n8: "n \<le> 8 * length b" "n \<le> 8 * length (bTaken t)" using S(2) len(7) by simp_all
  obtain idxs taken where m: "min_idx ds n b (replicate k 0) (min k n) (bTaken t) = Some (idxs, taken, min (min k n) (length R))"
    "length idxs = k" "take (min (min k n) (length R)) idxs = take (min k n) R" "length taken = length (bTaken t)"
    using min_idx_spec [OF _ _ S(3) _ n8 _ _ R_def, of "min k n" "replicate k 0"] k ds(1) num S(1) by auto
  let ?bl = "min (min k n) (min (min k n) (length R))"
  have bl: "?bl = min k (length R)" using R(1) by auto
  have idxs: "take ?bl idxs = take k R" using m(3) R(1) unfolding bl by (simp add: min_def split: if_splits)
  have nth: "idxs ! j < n" if "j < ?bl" for j
  proof -
    have "idxs ! j = take ?bl idxs ! j" using that by simp
    also have "\<dots> \<in> set R" unfolding idxs using that bl by (auto simp: in_set_conv_nth)
    finally show ?thesis using R(2) bitmap_is_bound [OF b] by auto
  qed
  have nan: "\<not> f32_nan (fst r)" if "r \<in> set (best k rows) \<union> set ?B" for r
    using that len(8) set_best [of k rows] num R(2) set_take_subset [of k R] unfolding B by auto
  have nth': "j < ?bl \<Longrightarrow> idxs ! j < length ds \<and> idxs ! j < length chunkRowids" for j using nth ds by simp
  have B': "?B = map (\<lambda>x. (ds ! x, chunkRowids ! x)) (take ?bl idxs)" unfolding B idxs ..
  obtain d' r' where g: "merge_sorted_lists (topk_distances t) (topk_rowids t) (k_used t) ds chunkRowids idxs ?bl
      (tmp_topk_distances t) (tmp_topk_rowids t) k = Some (d', r', min k (k_used t + ?bl))"
    "take (min k (k_used t + ?bl)) (zip d' r') = take k (sort_key (f32_key \<circ> fst) (best k rows @ ?B))" "length d' = k" "length r' = k"
    using merge_sorted_lists_spec [OF _ _ _ _ _ nth' len(6) [symmetric] B' nan sorted_best sorted_best, where n = k and out = "tmp_topk_distances t" and outr = "tmp_topk_rowids t"]
      len used m(2) bl by auto
  let ?u = "min k (k_used t + ?bl)"
  have bb: "best k (rows @ chunk_rows n (\<lambda>i. ds ! i) chunkRowids S) = best k (best k rows @ ?B)" by (rule best_best [symmetric])
  have best: "take ?u (zip d' r') = best k (rows @ chunk_rows n (\<lambda>i. ds ! i) chunkRowids S)"
    unfolding g(2) bb by (simp only: best_def)
  have "length ?B = ?bl" unfolding B bl by simp
  then have u: "?u = length (best k (rows @ chunk_rows n (\<lambda>i. ds ! i) chunkRowids S))"
    unfolding bb by (simp add: best_def [of k "best k rows @ ?B"] len(5))
  have "merge_chunk k n ds chunkRowids b t = Some (t\<lparr>topk_rowids := take ?u r' @ drop ?u (topk_rowids t),
       topk_distances := take ?u d' @ drop ?u (topk_distances t),
       tmp_topk_rowids := r', tmp_topk_distances := d', k_used := ?u, bTaken := taken\<rparr>)"
    unfolding merge_chunk_def using m(1) g(1) by simp
  moreover have "\<forall>r\<in>set (rows @ chunk_rows n (\<lambda>i. ds ! i) chunkRowids S). \<not> f32_nan (fst r)"
    using len(8) num by (auto simp: chunk_rows_def)
  moreover have "8 * length (bmRows t) = n" "8 * length (bmMeta t) = n" using t unfolding holds_def by blast+
  ultimately show ?thesis
    using best u len m(4) g(3,4) zip_take_drop [of ?u "topk_distances t" "topk_rowids t" d' r'] by (simp add: holds_def)
qed

text \<open>The positions of a chunk that the constraints of a query choose, given what each metadata constraint admits.\<close>

definition chosen :: "knn_query \<Rightarrow> chunk \<Rightarrow> (nat \<Rightarrow> nat set) \<Rightarrow> nat set" where
  "chosen q ch F = {i \<in> bits_of (c_validity ch). (\<forall>xs. q_rowids q = Some xs \<longrightarrow> rowid_listed xs (c_rowids ch ! i)) \<and>
     (\<forall>j<length (q_argv q). metadata_entry (q_idxStr q) j \<longrightarrow> i \<in> F j)}"

text \<open>The metadata constraints can be evaluated on a chunk, with this outcome.\<close>

definition filters_ok :: "conversions \<Rightarrow> vec0_vtab \<Rightarrow> shadow \<Rightarrow> knn_query \<Rightarrow> nat \<Rightarrow> chunk \<Rightarrow> (nat \<Rightarrow> nat set) \<Rightarrow> bool" where
  "filters_ok c p s q cid ch F \<longleftrightarrow> (\<forall>j<length (q_argv q). entry_char (q_idxStr q) j 0 \<noteq> None \<and>
     (metadata_entry (q_idxStr q) j \<longrightarrow> entry_filters c p s cid ch (q_idxStr q) (q_ins q) j (q_argv q ! j) (F j)))"

text \<open>The distances of the chosen rows of a chunk.\<close>

definition distances_ok :: "vec0_vtab \<Rightarrow> knn_query \<Rightarrow> chunk \<Rightarrow> nat set \<Rightarrow> (nat \<Rightarrow> f32) \<Rightarrow> bool" where
  "distances_ok p q ch S D \<longleftrightarrow> (\<forall>i\<in>S. \<not> f32_nan (D i) \<and>
     vector_distance (vector_column_at p (q_column q)) (slot (vector_size p (q_column q)) i (c_vectors ch ! q_column q)) (q_vector q) = Some (D i))"

lemma chunk_candidates_spec:
  assumes ch: "sized_chunk p ch" and t: "holds k (rows_per_chunk p) t rows" and f: "filters_ok c p s q cid ch F"
  shows "\<exists>b t'. chunk_candidates c p s q cid ch t = Some (Inr (b, t')) \<and> bitmap_is (rows_per_chunk p) b (chosen q ch F) \<and>
    holds k (rows_per_chunk p) t' rows"
proof -
  let ?n = "rows_per_chunk p"
  have len: "8 * length (bmRows t) = ?n" "8 * length (bmMeta t) = ?n" using t unfolding holds_def by blast+
  have v: "8 * length (c_validity ch) = ?n" "length (c_rowids ch) = ?n" using ch by (simp_all add: sized_chunk_def)
  have V: "bitmap_is ?n (c_validity ch) (bits_of (c_validity ch))" using v(1) by (simp add: bitmap_is_def)
  obtain b bm where b: "(case q_rowids q of
         None \<Rightarrow> Some (c_validity ch, bmRows t)
       | Some rowids \<Rightarrow> do {
           bm \<leftarrow> bitmap_clear (bmRows t) ?n;
           bm \<leftarrow> rowids_bitmap (c_validity ch) (c_rowids ch) rowids ?n bm;
           b \<leftarrow> bitmap_and_inplace (c_validity ch) bm ?n;
           Some (b, bm) }) = Some (b, bm)"
    "bitmap_is ?n b {i \<in> bits_of (c_validity ch). \<forall>xs. q_rowids q = Some xs \<longrightarrow> rowid_listed xs (c_rowids ch ! i)}" "8 * length bm = ?n"
  proof (cases "q_rowids q")
    case None
    then show ?thesis using that [of "c_validity ch" "bmRows t"] V len by simp
  next
    case (Some xs)
    obtain bm1 where bm1: "bitmap_clear (bmRows t) ?n = Some bm1" "bitmap_is ?n bm1 {}" by (rule bitmap_is_clear [OF len(1)])
    obtain bm2 where bm2: "rowids_bitmap (c_validity ch) (c_rowids ch) xs ?n bm1 = Some bm2"
      "bitmap_is ?n bm2 {i \<in> bits_of (c_validity ch). rowid_listed xs (c_rowids ch ! i)}" using rowids_bitmap_spec [OF V v(2) bm1(2)] by blast
    obtain b where "bitmap_and_inplace (c_validity ch) bm2 ?n = Some b"
      "bitmap_is ?n b (bits_of (c_validity ch) \<inter> {i \<in> bits_of (c_validity ch). rowid_listed xs (c_rowids ch ! i)})"
      by (rule bitmap_is_and [OF V bm2(2)])
    moreover have "bits_of (c_validity ch) \<inter> {i \<in> bits_of (c_validity ch). P i} = {i \<in> bits_of (c_validity ch). P i}" for P by auto
    ultimately show ?thesis using that [of b bm2] Some bm1(1) bm2 by (simp add: bitmap_is_def)
  qed
  have f': "entry_char (q_idxStr q) (0 + j) 0 \<noteq> None"
    "metadata_entry (q_idxStr q) (0 + j) \<Longrightarrow> entry_filters c p s cid ch (q_idxStr q) (q_ins q) (0 + j) (q_argv q ! j) (F (0 + j))"
    if "j < length (q_argv q)" for j using f that unfolding filters_ok_def by simp_all
  obtain b' bm' where m: "metadata_bitmaps c p s cid ch (q_idxStr q) (q_ins q) 0 (q_argv q) b (bmMeta t) = Some (Inr (b', bm'))"
    "8 * length bm' = ?n" "bitmap_is ?n b' (chosen q ch F)"
    using metadata_bitmaps_spec [OF b(2) len(2) f'] by (auto simp: chosen_def conj_assoc)
  have "holds k ?n (t\<lparr>bmRows := bm, bmMeta := bm'\<rparr>) rows" using t b(3) m(2) by (auto simp: holds_def)
  then show ?thesis using bitmap_is_copy [OF v(1)] b(1) m by (simp add: chunk_candidates_def)
qed

lemma knn_chunk_spec:
  assumes ch: "sized_chunk p ch" and p: "table_ok p" "q_column q < numVectorColumns p" "0 < q_k q"
    and t: "holds (q_k q) (rows_per_chunk p) t rows" and f: "filters_ok c p s q cid ch F" and d: "distances_ok p q ch (chosen q ch F) D"
  shows "\<exists>t'. knn_chunk c p s q cid ch t = Some (Inr t') \<and>
    holds (q_k q) (rows_per_chunk p) t' (rows @ chunk_rows (rows_per_chunk p) D (c_rowids ch) (chosen q ch F))"
proof -
  let ?n = "rows_per_chunk p"
  have v: "8 * length (c_validity ch) = ?n" "length (c_rowids ch) = ?n" "length (c_vectors ch ! q_column q) = ?n * vector_size p (q_column q)"
    "rd (c_vectors ch) (q_column q) = Some (c_vectors ch ! q_column q)"
    using ch p(2) by (simp_all add: sized_chunk_def rd_Some)
  obtain b t1 where b: "chunk_candidates c p s q cid ch t = Some (Inr (b, t1))" "bitmap_is ?n b (chosen q ch F)" "holds (q_k q) ?n t1 rows"
    using chunk_candidates_spec [OF ch t f] by blast
  obtain ds where ds: "chunk_distances (vector_column_at p (q_column q)) (c_vectors ch ! q_column q) (q_vector q) b ?n (replicate ?n 0) = Some ds"
    "length ds = ?n" "\<forall>i\<in>chosen q ch F. ds ! i = D i"
    using chunk_distances_spec [OF b(2), of "replicate ?n 0" "vector_column_at p (q_column q)" "c_vectors ch ! q_column q" "q_vector q" D] d
    by (auto simp: distances_ok_def vector_size_def)
  have num: "\<not> f32_nan (ds ! i)" if "i \<in> chosen q ch F" for i using ds(3) d that by (auto simp: distances_ok_def)
  have n: "0 < ?n" using rows_per_chunk [OF p(1)] by simp
  obtain t2 where "merge_chunk (q_k q) ?n ds (c_rowids ch) b t1 = Some t2"
    "holds (q_k q) ?n t2 (rows @ chunk_rows ?n (\<lambda>i. ds ! i) (c_rowids ch) (chosen q ch F))"
    using merge_chunk_spec [OF b(3) p(3) n b(2) ds(2) v(2) num] by blast
  moreover have "chunk_rows ?n (\<lambda>i. ds ! i) (c_rowids ch) (chosen q ch F) = chunk_rows ?n D (c_rowids ch) (chosen q ch F)"
    by (rule chunk_rows_cong) (use ds(3) in blast)
  moreover have "length (c_validity ch) = ?n div 8" using v(1) by simp
  ultimately show ?thesis using v b(1) ds(1) by (simp add: knn_chunk_def Let_def vector_size_def)
qed

lemma knn_chunks_spec:
  assumes p: "table_ok p" "q_column q < numVectorColumns p" "0 < q_k q"
  shows "holds (q_k q) (rows_per_chunk p) t rows \<Longrightarrow>
    (\<And>cid ch. (cid, ch) \<in> set chunks \<Longrightarrow> sized_chunk p ch \<and> filters_ok c p s q cid ch (F cid) \<and> distances_ok p q ch (chosen q ch (F cid)) (D cid)) \<Longrightarrow>
    \<exists>t'. knn_chunks c p s q chunks t = Some (Inr t') \<and> holds (q_k q) (rows_per_chunk p) t'
      (rows @ concat (map (\<lambda>(cid, ch). chunk_rows (rows_per_chunk p) (D cid) (c_rowids ch) (chosen q ch (F cid))) chunks))"
proof (induction chunks arbitrary: t rows)
  case (Cons x chunks)
  obtain cid ch where x: "x = (cid, ch)" by (cases x)
  have h: "sized_chunk p ch" "filters_ok c p s q cid ch (F cid)" "distances_ok p q ch (chosen q ch (F cid)) (D cid)"
    using Cons.prems(2) [of cid ch] x by auto
  obtain t1 where t1: "knn_chunk c p s q cid ch t = Some (Inr t1)"
    "holds (q_k q) (rows_per_chunk p) t1 (rows @ chunk_rows (rows_per_chunk p) (D cid) (c_rowids ch) (chosen q ch (F cid)))"
    using knn_chunk_spec [OF h(1) p Cons.prems(1) h(2,3)] by blast
  then show ?case using Cons.IH [OF t1(2)] Cons.prems(2) by (auto simp: x)
qed simp

lemma holds_new: "n mod 8 = 0 \<Longrightarrow> holds k n (new_topk k n) []"
  by (auto simp: holds_def new_topk_def best_def)

lemma knn_chunks_iter_spec:
  assumes "table_ok p" "q_column q < numVectorColumns p" "0 < q_k q"
    and "\<And>cid ch. (cid, ch) \<in> set chunks \<Longrightarrow> sized_chunk p ch \<and> filters_ok c p s q cid ch (F cid) \<and> distances_ok p q ch (chosen q ch (F cid)) (D cid)"
    and "rows = concat (map (\<lambda>(cid, ch). chunk_rows (rows_per_chunk p) (D cid) (c_rowids ch) (chosen q ch (F cid))) chunks)"
  shows "\<exists>rowids distances used. vec0Filter_knn_chunks_iter c p s chunks q = Some (Inr (rowids, distances, used)) \<and>
    used = length (best (q_k q) rows) \<and> used \<le> length rowids \<and> used \<le> length distances \<and>
    take used (zip distances rowids) = best (q_k q) rows"
proof -
  have n: "rows_per_chunk p mod 8 = 0" using rows_per_chunk [OF assms(1)] by simp
  obtain t where t: "knn_chunks c p s q chunks (new_topk (q_k q) (rows_per_chunk p)) = Some (Inr t)" "holds (q_k q) (rows_per_chunk p) t rows"
    using knn_chunks_spec [OF assms(1-3) holds_new [OF n] assms(4)] unfolding assms(5) append_Nil by blast
  have h: "length (topk_rowids t) = q_k q" "length (topk_distances t) = q_k q" "k_used t = length (best (q_k q) rows)"
    "take (k_used t) (zip (topk_distances t) (topk_rowids t)) = best (q_k q) rows" using t(2) unfolding holds_def by blast+
  have "length (best (q_k q) rows) \<le> q_k q" by (simp add: best_def)
  then show ?thesis using t(1) h by (simp add: vec0Filter_knn_chunks_iter_def)
qed

end
