(* ===== verification/VecQuery.thy ===== *)
theory VecQuery
  imports VecNearest
begin

text \<open>
  The cursor of a \<open>vec0\<close> table in \<^verbatim>\<open>extensions/sqlite-vec/cc/sqlite-vec.c\<close>: \<open>vec0Filter\<close> starts the
  query of a plan, \<open>vec0Next\<close> and \<open>vec0Eof\<close> go through its rows, \<open>vec0Rowid\<close> and \<open>vec0Column\<close> read
  the current one. The table does not change while the cursor is open; allocations do not fail, other
  than those of the query vector.
\<close>

section \<open>The state of a cursor\<close>

text \<open>The rows that the statement of a full scan has still to give, the current one first.\<close>

record fullscan_data =
  fs_rows :: "i64 list"
  fs_done :: bool

record knn_data =
  kd_k :: i64
  kd_used :: nat
  kd_rowids :: "i64 list"
  kd_distances :: "f32 list"
  kd_idx :: nat

record point_data =
  pt_rowid :: i64
  pt_vectors :: "u8 list list"
  pt_done :: bool

record cursor =
  query_plan :: char
  cur_fullscan :: "fullscan_data option"
  cur_knn :: "knn_data option"
  cur_point :: "point_data option"

definition vec0Open :: cursor where
  "vec0Open = \<lparr>query_plan = CHR 0x00, cur_fullscan = None, cur_knn = None, cur_point = None\<rparr>"

definition vec0_cursor_clear :: "cursor \<Rightarrow> cursor" where
  "vec0_cursor_clear cur = cur\<lparr>cur_fullscan := None, cur_knn := None, cur_point := None\<rparr>"

section \<open>Starting a nearest neighbour query\<close>

text \<open>The last argument of a kind.\<close>

definition last_entry :: "string \<Rightarrow> nat \<Rightarrow> char \<Rightarrow> nat option" where
  "last_entry str argc kind = (case filter (\<lambda>i. entry_char str i 0 = Some kind) [0..<argc] of [] \<Rightarrow> None | is \<Rightarrow> Some (last is))"

definition filter_value :: "filter_arg \<Rightarrow> sql_value" where
  "filter_value a = sql_value_of \<lparr>a_value = f_value a, a_subtype = f_subtype a, a_nochange = False\<rparr>"

text \<open>
  The row ids of \<open>rowid in (\<dots>)\<close>. An identifier that no row has is an error, which \<open>vec0Filter_knn\<close>
  does not report: its code is that of another variable of the same name.
\<close>

fun rowids_in :: "conversions \<Rightarrow> vec0_vtab \<Rightarrow> shadow \<Rightarrow> datum list \<Rightarrow> i64 list result" where
  "rowids_in c p s [] = Inr []"
| "rowids_in c p s (item # items) =
     on_ok (if pkIsText p then vec0_rowid_from_id s item else Inr (value_int64 c item)) (\<lambda>rowid.
     on_ok (rowids_in c p s items) (\<lambda>rowids. Inr (rowid # rowids)))"

text \<open>An entry of a list of texts: its length, and the copy that \<open>%.*s\<close> makes of it.\<close>

definition text_entry :: "conversions \<Rightarrow> datum \<Rightarrow> int \<times> u8 list" where
  "text_entry c v = (int (length (value_text c v)), takeWhile (\<lambda>b. b \<noteq> 0) (value_text c v) @ [0])"

text \<open>The lists of the \<open>in (\<dots>)\<close> constraints; \<open>None\<close> is the end of the query on a column of another kind.\<close>

fun metadata_lists :: "conversions \<Rightarrow> vec0_vtab \<Rightarrow> string \<Rightarrow> nat \<Rightarrow> filter_arg list \<Rightarrow> metadata_in list option" where
  "metadata_lists c p str i [] = Some []"
| "metadata_lists c p str i (a # args) =
     (if \<not> (metadata_entry str i \<and> entry_char str i 2 = Some (operator_char OP_IN)) then metadata_lists c p str (i + 1) args
      else do {
        metadata_char \<leftarrow> entry_char str i 1;
        let metadata_idx = of_char metadata_char - 65;
        array \<leftarrow> (case metadata_kind_at p metadata_idx of
            KIND_INTEGER \<Rightarrow> Some (In_Ints (map (value_int64 c) (f_items a)))
          | KIND_TEXT \<Rightarrow> Some (In_Texts (map (text_entry c) (f_items a)))
          | _ \<Rightarrow> None);
        ins \<leftarrow> metadata_lists c p str (i + 1) args;
        Some (\<lparr>mi_argv_idx = i, mi_metadata_idx = metadata_idx, mi_array = array\<rparr> # ins) })"

definition SQLITE_VEC_VEC0_K_MAX :: i64 where "SQLITE_VEC_VEC0_K_MAX = 4096"

text \<open>
  The search once the query vector and \<open>k\<close> are accepted. A result \<open>Inr None\<close> is the code
  \<open>SQLITE_OK\<close> without data for the cursor.
\<close>

definition knn_search ::
  "conversions \<Rightarrow> (i64 list \<Rightarrow> i64 list) \<Rightarrow> vec0_vtab \<Rightarrow> shadow \<Rightarrow> nat \<Rightarrow> string \<Rightarrow> filter_arg list \<Rightarrow> u8 list \<Rightarrow> i64 \<Rightarrow> knn_data option result option" where
  "knn_search c sort_rowids p s col str argv query k = (
     let rowids = (case last_entry str (length argv) VEC0_IDXSTR_KIND_KNN_ROWID_IN of
         None \<Rightarrow> Inr None
       | Some i \<Rightarrow> on_ok (rowids_in c p s (f_items (argv ! i))) (\<lambda>xs. Inr (Some (sort_rowids xs)))) in
     case (rowids, metadata_lists c p str 0 argv) of
       (Inr rowids, Some ins) \<Rightarrow> do {
         chunks \<leftarrow> vec0_chunks_iter p s str argv;
         (case chunks of
            Inl e \<Rightarrow> Some (Inl e)
          | Inr chunks \<Rightarrow> do {
              r \<leftarrow> vec0Filter_knn_chunks_iter c p s chunks \<lparr>q_column = col, q_vector = query, q_k = unat k, q_rowids = rowids,
                     q_ins = ins, q_idxStr = str, q_argv = argv\<rparr>;
              Some (on_ok r (\<lambda>(rowids, distances, used). Inr (Some
                \<lparr>kd_k = k, kd_used = used, kd_rowids = rowids, kd_distances = distances, kd_idx = 0\<rparr>))) }) }
     | _ \<Rightarrow> Some (Inr None))"

definition vec0Filter_knn ::
  "strtod_fn \<Rightarrow> conversions \<Rightarrow> (i64 list \<Rightarrow> i64 list) \<Rightarrow> vec0_vtab \<Rightarrow> shadow \<Rightarrow> nat \<Rightarrow> string \<Rightarrow> filter_arg list \<Rightarrow> heap \<Rightarrow>
     (knn_data option result \<times> heap) option" where
  "vec0Filter_knn strtod c sort_rowids p s idx_num str argv h = do {
     query_idx \<leftarrow> last_entry str (length argv) VEC0_IDXSTR_KIND_KNN_MATCH;
     k_idx \<leftarrow> last_entry str (length argv) VEC0_IDXSTR_KIND_KNN_K;
     (r, h) \<leftarrow> vector_from_value strtod (filter_value (argv ! query_idx)) h;
     (case r of
        Fail _ \<Rightarrow> Some (Inl SQLITE_ERROR, h)
      | Done (v, ty) \<Rightarrow> do {
          let col = vector_column_at p idx_num;
          let k = value_int64 c (f_value (argv ! k_idx));
          r \<leftarrow> (if ty \<noteq> element_type col then Some (Inl SQLITE_ERROR)
                else if v_dims v \<noteq> dimensions col then Some (Inl SQLITE_ERROR)
                else if k <s 0 then Some (Inl SQLITE_ERROR)
                else if SQLITE_VEC_VEC0_K_MAX <s k then Some (Inl SQLITE_ERROR)
                else if k = 0 then Some (Inr (Some \<lparr>kd_k = 0, kd_used = 0, kd_rowids = [], kd_distances = [], kd_idx = 0\<rparr>))
                else knn_search c sort_rowids p s idx_num str argv (v_data v) k);
          h \<leftarrow> cleanup v h;
          Some (r, h) }) }"

section \<open>Starting the other queries\<close>

text \<open>The rows in the order of their chunks and their offsets.\<close>

definition vec0Filter_fullscan :: "shadow \<Rightarrow> fullscan_data" where
  "vec0Filter_fullscan s = (let rows = map fst (sort_key (r_chunk \<circ> snd) (sort_key (r_offset \<circ> snd) (s_rows s))) in
     \<lparr>fs_rows = rows, fs_done = (rows = [])\<rparr>)"

fun point_vectors :: "vec0_vtab \<Rightarrow> shadow \<Rightarrow> i64 \<Rightarrow> nat \<Rightarrow> nat \<Rightarrow> u8 list list result" where
  "point_vectors p s rowid i 0 = Inr []"
| "point_vectors p s rowid i (Suc n) =
     on_ok (vec0_get_vector_data p s rowid i) (\<lambda>v. on_ok (point_vectors p s rowid (i + 1) n) (\<lambda>vs. Inr (v # vs)))"

text \<open>No row has the identifier, or no row has the row id: the query is done at once.\<close>

definition vec0Filter_point :: "conversions \<Rightarrow> vec0_vtab \<Rightarrow> shadow \<Rightarrow> filter_arg \<Rightarrow> point_data result" where
  "vec0Filter_point c p s a = (
     case (if pkIsText p then vec0_rowid_from_id s (f_value a) else Inr (value_int64 c (f_value a))) of
       Inl SQLITE_EMPTY \<Rightarrow> Inr \<lparr>pt_rowid = 0, pt_vectors = [], pt_done = True\<rparr>
     | Inl e \<Rightarrow> Inl e
     | Inr rowid \<Rightarrow> (case point_vectors p s rowid 0 (numVectorColumns p) of
           Inl SQLITE_EMPTY \<Rightarrow> Inr \<lparr>pt_rowid = rowid, pt_vectors = [], pt_done = True\<rparr>
         | Inl e \<Rightarrow> Inl e
         | Inr vs \<Rightarrow> Inr \<lparr>pt_rowid = rowid, pt_vectors = vs, pt_done = False\<rparr>))"

definition vec0Filter ::
  "strtod_fn \<Rightarrow> conversions \<Rightarrow> (i64 list \<Rightarrow> i64 list) \<Rightarrow> vec0_vtab \<Rightarrow> shadow \<Rightarrow> nat \<Rightarrow> string \<Rightarrow> filter_arg list \<Rightarrow> cursor \<Rightarrow> heap \<Rightarrow>
     (code \<times> cursor \<times> heap) option" where
  "vec0Filter strtod c sort_rowids p s idx_num str argv cur h = (let cur = vec0_cursor_clear cur in
     if str = [] then Some (SQLITE_ERROR, cur, h)
     else if (length str - 1) mod 4 \<noteq> 0 then Some (SQLITE_ERROR, cur, h)
     else if (length str - 1) div 4 \<noteq> length argv then Some (SQLITE_ERROR, cur, h)
     else if hd str = VEC0_QUERY_PLAN_FULLSCAN then
       Some (SQLITE_OK, cur\<lparr>query_plan := VEC0_QUERY_PLAN_FULLSCAN, cur_fullscan := Some (vec0Filter_fullscan s)\<rparr>, h)
     else if hd str = VEC0_QUERY_PLAN_KNN then do {
       (r, h) \<leftarrow> vec0Filter_knn strtod c sort_rowids p s idx_num str argv h;
       Some (case r of
         Inl e \<Rightarrow> (e, cur, h)
       | Inr None \<Rightarrow> (SQLITE_OK, cur, h)
       | Inr (Some d) \<Rightarrow> (SQLITE_OK, cur\<lparr>query_plan := VEC0_QUERY_PLAN_KNN, cur_knn := Some d\<rparr>, h)) }
     else if hd str = VEC0_QUERY_PLAN_POINT then do {
       a \<leftarrow> rd argv 0;
       Some (case vec0Filter_point c p s a of
         Inl e \<Rightarrow> (e, cur, h)
       | Inr d \<Rightarrow> (SQLITE_OK, cur\<lparr>query_plan := VEC0_QUERY_PLAN_POINT, cur_point := Some d\<rparr>, h)) }
     else Some (SQLITE_ERROR, cur, h))"

section \<open>Going through the rows\<close>

definition vec0Next :: "cursor \<Rightarrow> cursor result" where
  "vec0Next cur = (
     if query_plan cur = VEC0_QUERY_PLAN_FULLSCAN then (case cur_fullscan cur of
         None \<Rightarrow> Inl SQLITE_ERROR
       | Some d \<Rightarrow> Inr (cur\<lparr>cur_fullscan := Some (case tl (fs_rows d) of
             [] \<Rightarrow> d\<lparr>fs_rows := [], fs_done := True\<rparr>
           | rows \<Rightarrow> d\<lparr>fs_rows := rows\<rparr>)\<rparr>))
     else if query_plan cur = VEC0_QUERY_PLAN_KNN then (case cur_knn cur of
         None \<Rightarrow> Inl SQLITE_ERROR
       | Some d \<Rightarrow> Inr (cur\<lparr>cur_knn := Some (d\<lparr>kd_idx := kd_idx d + 1\<rparr>)\<rparr>))
     else if query_plan cur = VEC0_QUERY_PLAN_POINT then (case cur_point cur of
         None \<Rightarrow> Inl SQLITE_ERROR
       | Some d \<Rightarrow> Inr (cur\<lparr>cur_point := Some (d\<lparr>pt_done := True\<rparr>)\<rparr>))
     else Inl SQLITE_ERROR)"

definition vec0Eof :: "cursor \<Rightarrow> bool" where
  "vec0Eof cur = (
     if query_plan cur = VEC0_QUERY_PLAN_FULLSCAN then (case cur_fullscan cur of None \<Rightarrow> True | Some d \<Rightarrow> fs_done d)
     else if query_plan cur = VEC0_QUERY_PLAN_KNN then (case cur_knn cur of None \<Rightarrow> True | Some d \<Rightarrow> kd_used d \<le> kd_idx d)
     else if query_plan cur = VEC0_QUERY_PLAN_POINT then (case cur_point cur of None \<Rightarrow> True | Some d \<Rightarrow> pt_done d)
     else True)"

text \<open>\<open>None\<close> is an access to data that is not there.\<close>

definition vec0Rowid :: "cursor \<Rightarrow> i64 result option" where
  "vec0Rowid cur = (
     if query_plan cur = VEC0_QUERY_PLAN_FULLSCAN then do { d \<leftarrow> cur_fullscan cur; rowid \<leftarrow> rd (fs_rows d) 0; Some (Inr rowid) }
     else if query_plan cur = VEC0_QUERY_PLAN_POINT then do { d \<leftarrow> cur_point cur; Some (Inr (pt_rowid d)) }
     else Some (Inl SQLITE_ERROR))"

section \<open>Reading the current row\<close>

text \<open>What a column call leaves as its result; nothing is \<open>NULL\<close>, or the old value in an update.\<close>

datatype sql_result = R_Nothing | R_Datum datum | R_Vector "u8 list" element_type | R_Failed code

definition value_result :: "datum result \<Rightarrow> sql_result" where
  "value_result x = (case x of Inl e \<Rightarrow> R_Failed e | Inr v \<Rightarrow> R_Datum v)"

text \<open>A metadata value that cannot be read is an error with a message, whatever its code was.\<close>

definition metadata_result :: "datum result \<Rightarrow> sql_result" where
  "metadata_result x = (case x of Inl _ \<Rightarrow> R_Failed SQLITE_ERROR | Inr v \<Rightarrow> R_Datum v)"

text \<open>A partition key, an auxiliary or a metadata value of a row. An update does not ask for some of them.\<close>

definition stored_column :: "vec0_vtab \<Rightarrow> shadow \<Rightarrow> i64 \<Rightarrow> bool \<Rightarrow> bool \<Rightarrow> int \<Rightarrow> sql_result result option" where
  "stored_column p s rowid skip_keys skip_metadata i = do {
     partition \<leftarrow> vec0_column_idx_is_partition p i;
     auxiliary \<leftarrow> vec0_column_idx_is_auxiliary p i;
     metadata \<leftarrow> vec0_column_idx_is_metadata p i;
     if partition then
       (if skip_keys then Some (Inr R_Nothing)
        else do { x \<leftarrow> vec0_column_idx_to_partition_idx p i; Some (Inr (value_result (vec0_get_partition_value_for_rowid s rowid x))) })
     else if auxiliary then
       (if skip_keys then Some (Inr R_Nothing)
        else do { x \<leftarrow> vec0_column_idx_to_auxiliary_idx p i; Some (Inr (value_result (vec0_get_auxiliary_value_for_rowid s rowid x))) })
     else if metadata then
       (if skip_metadata then Some (Inr R_Nothing)
        else do { x \<leftarrow> vec0_column_idx_to_metadata_idx p i; Some (Inr (metadata_result (result_metadata p s rowid x))) })
     else Some (Inr R_Nothing) }"

definition vector_column_result :: "vec0_vtab \<Rightarrow> shadow \<Rightarrow> i64 \<Rightarrow> int \<Rightarrow> sql_result result option" where
  "vector_column_result p s rowid i = do {
     x \<leftarrow> vec0_column_idx_to_vector_idx p i;
     Some (on_ok (vec0_get_vector_data p s rowid x) (\<lambda>v. Inr (R_Vector v (element_type (vector_column_at p x))))) }"

definition vec0Column_fullscan :: "vec0_vtab \<Rightarrow> shadow \<Rightarrow> cursor \<Rightarrow> bool \<Rightarrow> int \<Rightarrow> sql_result result option" where
  "vec0Column_fullscan p s cur nochange i = (case cur_fullscan cur of
       None \<Rightarrow> Some (Inl SQLITE_ERROR)
     | Some d \<Rightarrow> do {
         rowid \<leftarrow> rd (fs_rows d) 0;
         vector \<leftarrow> vec0_column_idx_is_vector p i;
         if i = VEC0_COLUMN_ID then Some (on_ok (vec0_result_id p s rowid) (\<lambda>v. Inr (R_Datum v)))
         else if vector then vector_column_result p s rowid i
         else if i = vec0_column_distance_idx p then Some (Inr (R_Datum DNull))
         else stored_column p s rowid False nochange i })"

definition vec0Column_point :: "vec0_vtab \<Rightarrow> shadow \<Rightarrow> cursor \<Rightarrow> bool \<Rightarrow> int \<Rightarrow> sql_result result option" where
  "vec0Column_point p s cur nochange i = (case cur_point cur of
       None \<Rightarrow> Some (Inl SQLITE_ERROR)
     | Some d \<Rightarrow> do {
         vector \<leftarrow> vec0_column_idx_is_vector p i;
         if i = VEC0_COLUMN_ID then Some (on_ok (vec0_result_id p s (pt_rowid d)) (\<lambda>v. Inr (R_Datum v)))
         else if i = vec0_column_distance_idx p then Some (Inr (R_Datum DNull))
         else if vector then
           (if nochange then Some (Inr (R_Datum DNull))
            else do {
              x \<leftarrow> vec0_column_idx_to_vector_idx p i;
              v \<leftarrow> rd (pt_vectors d) x;
              Some (Inr (R_Vector v (element_type (vector_column_at p x)))) })
         else stored_column p s (pt_rowid d) nochange nochange i })"

definition vec0Column_knn :: "vec0_vtab \<Rightarrow> shadow \<Rightarrow> cursor \<Rightarrow> int \<Rightarrow> sql_result result option" where
  "vec0Column_knn p s cur i = (case cur_knn cur of
       None \<Rightarrow> Some (Inl SQLITE_ERROR)
     | Some d \<Rightarrow> do {
         rowid \<leftarrow> rd (kd_rowids d) (kd_idx d);
         vector \<leftarrow> vec0_column_idx_is_vector p i;
         if i = VEC0_COLUMN_ID then Some (on_ok (vec0_result_id p s rowid) (\<lambda>v. Inr (R_Datum v)))
         else if i = vec0_column_distance_idx p then do {
           x \<leftarrow> rd (kd_distances d) (kd_idx d); Some (Inr (R_Datum (DFloat (f64_of_f32 x)))) }
         else if vector then vector_column_result p s rowid i
         else stored_column p s rowid False False i })"

definition vec0Column :: "vec0_vtab \<Rightarrow> shadow \<Rightarrow> cursor \<Rightarrow> bool \<Rightarrow> int \<Rightarrow> sql_result result option" where
  "vec0Column p s cur nochange i = (
     if query_plan cur = VEC0_QUERY_PLAN_FULLSCAN then vec0Column_fullscan p s cur nochange i
     else if query_plan cur = VEC0_QUERY_PLAN_KNN then vec0Column_knn p s cur i
     else if query_plan cur = VEC0_QUERY_PLAN_POINT then vec0Column_point p s cur nochange i
     else Some (Inr R_Nothing))"

section \<open>The columns of a row\<close>

text \<open>A column of a row from what is read of the row, with the distance where there is one.\<close>

definition row_column :: "vec0_vtab \<Rightarrow> datum result \<times> u8 list result list \<times> datum result list \<times> datum result list \<times> datum result list \<Rightarrow>
    datum \<Rightarrow> int \<Rightarrow> sql_result result" where
  "row_column p row distance i = (case row of (ident, vectors, keys, aux, metadata) \<Rightarrow>
     if i = VEC0_COLUMN_ID then on_ok ident (\<lambda>v. Inr (R_Datum v))
     else if i = vec0_column_distance_idx p then Inr (R_Datum distance)
     else if i \<le> int (vec0_num_defined_user_columns p) then
       (let x = user_column_idxs p ! nat (i - 1) in case user_column_kinds p ! nat (i - 1) of
          Some VECTOR \<Rightarrow> on_ok (vectors ! x) (\<lambda>v. Inr (R_Vector v (element_type (vector_column_at p x))))
        | Some PARTITION \<Rightarrow> Inr (value_result (keys ! x))
        | Some AUXILIARY \<Rightarrow> Inr (value_result (aux ! x))
        | Some METADATA \<Rightarrow> Inr (metadata_result (metadata ! x))
        | None \<Rightarrow> Inr R_Nothing)
     else Inr R_Nothing)"

lemma user_column_cases:
  assumes "vtab_ok p" "1 \<le> i" "i \<le> int (vec0_num_defined_user_columns p)"
  obtains k x where "user_column_kinds p ! nat (i - 1) = Some k" "user_column_idxs p ! nat (i - 1) = x" "x < column_count k p"
    "\<And>k'. column_idx_is k' p i = Some (k' = k)" "rd (user_column_idxs p) (nat (i - 1)) = Some x"
proof -
  obtain k x where k: "user_columns p (vec0_num_defined_user_columns p) ! nat (i - 1) = (Some k, x)" "x < column_count k p"
    "\<forall>k'. column_idx_is k' p i = Some (k' = k)" "rd (user_column_idxs p) (nat (i - 1)) = Some x"
    using column_idx_is_iff [OF assms] by blast
  have l: "length (user_column_kinds p) = 52" "length (user_column_idxs p) = 52"
    using assms(1) by (simp_all add: vtab_ok_def listed_def)
  have "nat (i - 1) < vec0_num_defined_user_columns p" "vec0_num_defined_user_columns p \<le> 52" using assms user_columns_bound by auto
  then have "user_column_kinds p ! nat (i - 1) = Some k" "user_column_idxs p ! nat (i - 1) = x"
    using k(1) l by (simp_all add: user_columns_def)
  then show ?thesis using that k by blast
qed

lemma hidden_columns: "column_idx_is k p VEC0_COLUMN_ID = Some False" "int (vec0_num_defined_user_columns p) < i \<Longrightarrow> column_idx_is k p i = Some False"
  by (auto simp: column_idx_is_def VEC0_COLUMN_ID_def VEC0_COLUMN_USERN_START_def)

lemma distance_column: "vec0_column_distance_idx p = int (vec0_num_defined_user_columns p) + 1"
  by (simp add: vec0_column_distance_idx_def VEC0_COLUMN_USERN_START_def)

text \<open>What the three kinds of query read of the columns other than the distance.\<close>

definition plain_column :: "vec0_vtab \<Rightarrow> shadow \<Rightarrow> i64 \<Rightarrow> int \<Rightarrow> sql_result result option" where
  "plain_column p s rowid i = do {
     vector \<leftarrow> vec0_column_idx_is_vector p i;
     if i = VEC0_COLUMN_ID then Some (on_ok (vec0_result_id p s rowid) (\<lambda>v. Inr (R_Datum v)))
     else if vector then vector_column_result p s rowid i
     else stored_column p s rowid False False i }"

lemma plain_column_reads:
  assumes p: "vtab_ok p" and i: "0 \<le> i" "i \<noteq> vec0_column_distance_idx p"
  shows "plain_column p s r i = Some (row_column p (reads p s r) d i)"
proof (cases "i = VEC0_COLUMN_ID \<or> int (vec0_num_defined_user_columns p) < i")
  case True
  then show ?thesis
    using i hidden_columns [where p = p] by (auto simp: plain_column_def row_column_def reads_def column_idx_defs stored_column_def)
next
  case False
  then have u: "1 \<le> i" "i \<le> int (vec0_num_defined_user_columns p)" using i by (auto simp: VEC0_COLUMN_ID_def)
  obtain k x where k: "user_column_kinds p ! nat (i - 1) = Some k" "user_column_idxs p ! nat (i - 1) = x" "x < column_count k p"
    "\<And>k'. column_idx_is k' p i = Some (k' = k)" "rd (user_column_idxs p) (nat (i - 1)) = Some x"
    by (rule user_column_cases [OF p u]) blast
  show ?thesis
    using False i(2) u k
    by (cases k) (simp_all add: plain_column_def row_column_def reads_def column_idx_defs stored_column_def vector_column_result_def VEC0_COLUMN_USERN_START_def)
qed

section \<open>Going through a query\<close>

text \<open>
  The loop of the caller: while the cursor is not at the end, read the current row and move on. The
  number bounds the rows; \<open>None\<close> is a query that has more, or a failing \<open>vec0Next\<close>.
\<close>

fun fetch :: "(cursor \<Rightarrow> 'a) \<Rightarrow> nat \<Rightarrow> cursor \<Rightarrow> 'a list option" where
  "fetch f n cur =
     (if vec0Eof cur then Some []
      else case n of
        0 \<Rightarrow> None
      | Suc n \<Rightarrow> (case vec0Next cur of Inl _ \<Rightarrow> None | Inr cur' \<Rightarrow> map_option ((#) (f cur)) (fetch f n cur')))"

declare fetch.simps [simp del]

lemma fetch_end: "vec0Eof cur \<Longrightarrow> fetch f n cur = Some []"
  unfolding fetch.simps [of f n cur] by simp

lemma fetch_next: "\<not> vec0Eof cur \<Longrightarrow> vec0Next cur = Inr cur' \<Longrightarrow> fetch f n cur' = Some xs \<Longrightarrow> fetch f (Suc n) cur = Some (f cur # xs)"
  unfolding fetch.simps [of f "Suc n" cur] by simp

text \<open>The cursor of a full scan that has still to give some rows.\<close>

definition scan_at :: "i64 list \<Rightarrow> cursor \<Rightarrow> bool" where
  "scan_at rows cur \<longleftrightarrow> query_plan cur = VEC0_QUERY_PLAN_FULLSCAN \<and> cur_fullscan cur = Some \<lparr>fs_rows = rows, fs_done = (rows = [])\<rparr>"

lemma fetch_scan:
  assumes "\<And>r rows cur. scan_at (r # rows) cur \<Longrightarrow> f cur = g r"
  shows "scan_at rows cur \<Longrightarrow> fetch f (length rows) cur = Some (map g rows)"
proof (induction rows arbitrary: cur)
  case Nil
  then show ?case by (intro fetch_end [THEN trans]) (simp_all add: scan_at_def vec0Eof_def)
next
  case (Cons r rows)
  define cur' where "cur' = cur\<lparr>cur_fullscan := Some \<lparr>fs_rows = rows, fs_done = (rows = [])\<rparr>\<rparr>"
  have next': "vec0Next cur = Inr cur'" using Cons.prems by (cases rows) (simp_all add: scan_at_def vec0Next_def cur'_def)
  have "scan_at rows cur'" using Cons.prems by (simp add: scan_at_def cur'_def)
  moreover have "\<not> vec0Eof cur" using Cons.prems by (simp add: scan_at_def vec0Eof_def)
  ultimately show ?case using fetch_next [OF _ next' Cons.IH] assms [OF Cons.prems] by simp
qed

text \<open>The cursor of a nearest neighbour query from its \<open>m\<close>-th row on.\<close>

definition knn_at :: "knn_data \<Rightarrow> nat \<Rightarrow> cursor \<Rightarrow> bool" where
  "knn_at d m cur \<longleftrightarrow> query_plan cur = VEC0_QUERY_PLAN_KNN \<and> cur_knn cur = Some (d\<lparr>kd_idx := m\<rparr>)"

lemma fetch_knn:
  assumes "\<And>m cur. m < kd_used d \<Longrightarrow> knn_at d m cur \<Longrightarrow> f cur = g m"
  shows "knn_at d m cur \<Longrightarrow> m \<le> kd_used d \<Longrightarrow> fetch f (kd_used d - m) cur = Some (map g [m..<kd_used d])"
proof (induction "kd_used d - m" arbitrary: m cur)
  case 0
  then show ?case by (intro fetch_end [THEN trans]) (simp_all add: knn_at_def vec0Eof_def idxstr_chars)
next
  case (Suc n)
  define cur' where "cur' = cur\<lparr>cur_knn := Some (d\<lparr>kd_idx := m + 1\<rparr>)\<rparr>"
  have next': "vec0Next cur = Inr cur'" using Suc.prems by (simp add: knn_at_def vec0Next_def cur'_def idxstr_chars)
  have at: "knn_at d (m + 1) cur'" using Suc.prems by (simp add: knn_at_def cur'_def)
  have m: "m < kd_used d" "n = kd_used d - (m + 1)" using Suc.hyps(2) by simp_all
  have "\<not> vec0Eof cur" using Suc.prems m by (simp add: knn_at_def vec0Eof_def idxstr_chars)
  moreover have "kd_used d - m = Suc (kd_used d - (m + 1))" "[m..<kd_used d] = m # [m + 1..<kd_used d]"
    using m by (simp_all add: upt_conv_Cons)
  ultimately show ?case using fetch_next [OF _ next' Suc.hyps(1) [OF m(2) at]] m assms [OF m(1) Suc.prems(1)] by simp
qed

lemma fetch_point:
  assumes "query_plan cur = VEC0_QUERY_PLAN_POINT" "cur_point cur = Some d"
  shows "pt_done d \<Longrightarrow> fetch f n cur = Some []" "\<not> pt_done d \<Longrightarrow> fetch f (Suc n) cur = Some [f cur]"
proof -
  show "pt_done d \<Longrightarrow> fetch f n cur = Some []" using assms by (intro fetch_end) (simp add: vec0Eof_def idxstr_chars)
  assume n: "\<not> pt_done d"
  define cur' where "cur' = cur\<lparr>cur_point := Some (d\<lparr>pt_done := True\<rparr>)\<rparr>"
  have "vec0Next cur = Inr cur'" using assms by (simp add: vec0Next_def cur'_def idxstr_chars)
  moreover have "fetch f n cur' = Some []" using assms by (intro fetch_end) (simp add: vec0Eof_def idxstr_chars cur'_def)
  ultimately show "fetch f (Suc n) cur = Some [f cur]" using assms n by (intro fetch_next) (simp_all add: vec0Eof_def idxstr_chars)
qed

end
