(* ===== verification/VecAnswers.thy ===== *)
theory VecAnswers
  imports VecQuery
begin

text \<open>
  What a query of a \<^verbatim>\<open>vec0\<close> table answers, from the start of the cursor to its end: a full scan, the row of
  an identifier, the nearest neighbours of a vector.
\<close>

section \<open>Every row of a full scan\<close>

lemma stored_vectors:
  assumes "table_ok p" "consistent p s" "map_of (s_rows s) r \<noteq> None" "x < numVectorColumns p"
  obtains v where "vec0_get_vector_data p s r x = Inr v"
proof -
  obtain e where e: "map_of (s_rows s) r = Some e" using assms(3) by auto
  obtain c where c: "chunk_at s (r_chunk e) = Some c" "r_offset e < rows_per_chunk p"
    using consistentD(2) [OF assms(2) e] by (auto simp: placed_def)
  have "sized_chunk p c" by (rule chunk_at_sized [OF consistentD(1) [OF assms(2)] c(1)])
  then have "rd (c_vectors c) x = Some (c_vectors c ! x)" "length (c_vectors c ! x) = rows_per_chunk p * vector_size p x"
    using assms(4) by (simp_all add: sized_chunk_def rd_Some)
  then show ?thesis
    using that c slot_fits [OF c(2), of "c_vectors c ! x" "vector_size p x"] blob_read_slot [of "r_offset e" "vector_size p x" "c_vectors c ! x"]
    by (simp add: vec0_get_vector_data_def vec0_get_chunk_position_def e flip: vector_size_def)
qed

lemma fullscan_column:
  assumes p: "vtab_ok p" and cur: "query_plan cur = VEC0_QUERY_PLAN_FULLSCAN" "cur_fullscan cur = Some d" "fs_rows d = r # rows" and i: "0 \<le> i"
  shows "vec0Column p s cur False i = Some (row_column p (reads p s r) DNull i)"
proof (cases "i = vec0_column_distance_idx p")
  case True
  then have "vec0_column_idx_is_vector p i = Some False" "i \<noteq> VEC0_COLUMN_ID"
    by (simp_all add: column_idx_defs hidden_columns distance_column VEC0_COLUMN_ID_def)
  then show ?thesis using cur True by (simp add: vec0Column_def vec0Column_fullscan_def row_column_def split: prod.splits)
next
  case False
  have "vec0Column p s cur False i = plain_column p s r i"
    using cur False by (simp add: vec0Column_def vec0Column_fullscan_def plain_column_def cong: if_cong)
  then show ?thesis using plain_column_reads [OF p i False, of s r DNull] by simp
qed

lemma fullscan_spec:
  assumes "consistent p s"
  obtains rows where "scan_at rows (vec0Open\<lparr>query_plan := VEC0_QUERY_PLAN_FULLSCAN, cur_fullscan := Some (vec0Filter_fullscan s)\<rparr>)"
    "distinct rows" "set rows = dom (contents p s)"
proof -
  let ?rows = "map fst (sort_key (r_chunk \<circ> snd) (sort_key (r_offset \<circ> snd) (s_rows s)))"
  have "set ?rows = dom (contents p s)"
    by (auto simp: contents_def reads_def dom_def image_def map_of_eq_None_iff split: if_splits)
  moreover have "distinct ?rows"
    using consistentD(8) [OF assms] by (simp add: distinct_map)
  ultimately show ?thesis using that [of ?rows] by (simp add: scan_at_def vec0Filter_fullscan_def Let_def)
qed

text \<open>
  C6: A query without constraints gives every row of the table exactly once, with its row id and its
  columns, and ends. The distance is \<open>NULL\<close>.
\<close>

theorem fullscan_correct:
  assumes "table_ok p" "consistent p s"
  shows "\<exists>cur rows. vec0Filter strtod c sort_rowids p s n [VEC0_QUERY_PLAN_FULLSCAN] [] vec0Open h = Some (SQLITE_OK, cur, h) \<and>
    distinct rows \<and> set rows = dom (contents p s) \<and>
    fetch vec0Rowid (length rows) cur = Some (map (\<lambda>r. Some (Inr r)) rows) \<and>
    (\<forall>i\<ge>0. fetch (\<lambda>cur. vec0Column p s cur False i) (length rows) cur = Some (map (\<lambda>r. Some (row_column p (reads p s r) DNull i)) rows))"
proof -
  define cur where "cur = vec0Open\<lparr>query_plan := VEC0_QUERY_PLAN_FULLSCAN, cur_fullscan := Some (vec0Filter_fullscan s)\<rparr>"
  obtain rows where rows: "scan_at rows cur" "distinct rows" "set rows = dom (contents p s)"
    unfolding cur_def by (rule fullscan_spec [OF assms(2)])
  have "vtab_ok p" using assms(1) by (simp add: table_ok_def)
  then have "fetch (\<lambda>cur. vec0Column p s cur False i) (length rows) cur = Some (map (\<lambda>r. Some (row_column p (reads p s r) DNull i)) rows)"
    if "0 \<le> i" for i
    by (intro fetch_scan [OF fullscan_column [OF _ _ _ _ that] rows(1)]) (auto simp: scan_at_def)
  moreover have "fetch vec0Rowid (length rows) cur = Some (map (\<lambda>r. Some (Inr r)) rows)"
    by (rule fetch_scan [OF _ rows(1)]) (simp add: scan_at_def vec0Rowid_def rd_def)
  moreover have "vec0Filter strtod c sort_rowids p s n [VEC0_QUERY_PLAN_FULLSCAN] [] vec0Open h = Some (SQLITE_OK, cur, h)"
    by (simp add: vec0Filter_def vec0_cursor_clear_def cur_def) (simp add: vec0Open_def)
  ultimately show ?thesis using rows(2,3) by blast
qed

theorem fullscan_correct_witness:
  "\<exists>cur rows. vec0Filter no_strtod plain_conversions (\<lambda>xs. xs) example_table after_insert 0 [VEC0_QUERY_PLAN_FULLSCAN] [] vec0Open fresh_heap =
      Some (SQLITE_OK, cur, fresh_heap) \<and> 7 \<in> set rows \<and>
    fetch vec0Rowid (length rows) cur = Some (map (\<lambda>r. Some (Inr r)) rows)"
  using fullscan_correct [OF example_ok after_insert(1), of no_strtod plain_conversions "\<lambda>xs. xs" 0 fresh_heap] after_insert(2)
  by (fastforce simp: contents_def)


section \<open>The row with an identifier\<close>

text \<open>A row of the table has this identifier: its text, or its row id.\<close>

definition has_id :: "conversions \<Rightarrow> vec0_vtab \<Rightarrow> shadow \<Rightarrow> datum \<Rightarrow> i64 \<Rightarrow> bool" where
  "has_id c p s v r \<longleftrightarrow> r \<in> dom (contents p s) \<and>
     (if pkIsText p then \<exists>w. fst (reads p s r) = Inr w \<and> sql_eq w v else value_int64 c v = r)"

lemma rowid_from_id:
  assumes "distinct (map fst (s_rows s))"
  shows "vec0_rowid_from_id s v = Inl SQLITE_EMPTY \<and> (\<nexists>r e. map_of (s_rows s) r = Some e \<and> sql_eq (r_id e) v) \<or>
    (\<exists>r e. vec0_rowid_from_id s v = Inr r \<and> map_of (s_rows s) r = Some e \<and> sql_eq (r_id e) v)"
proof (cases "find (\<lambda>(_, r). sql_eq (r_id r) v) (s_rows s)")
  case None
  then have "vec0_rowid_from_id s v = Inl SQLITE_EMPTY" by (simp add: vec0_rowid_from_id_def)
  then show ?thesis using None by (auto simp: find_None_iff dest: map_of_SomeD)
next
  case (Some x)
  then obtain i where "i < length (s_rows s)" "x = s_rows s ! i" "sql_eq (r_id (snd x)) v" by (auto simp: find_Some_iff split_beta)
  then have "x \<in> set (s_rows s)" "sql_eq (r_id (snd x)) v" by simp_all
  moreover obtain r e where x: "x = (r, e)" by (cases x)
  ultimately have "map_of (s_rows s) r = Some e" "sql_eq (r_id e) v" using assms by simp_all
  moreover have "vec0_rowid_from_id s v = Inr r" using Some by (simp add: vec0_rowid_from_id_def x)
  ultimately show ?thesis by blast
qed

lemma point_vectors_spec:
  assumes "\<And>x. x < i + n \<Longrightarrow> vec0_get_vector_data p s r x = Inr (v x)"
  shows "point_vectors p s r i n = Inr (map v [i..<i + n])"
  using assms by (induction n arbitrary: i) (simp_all add: upt_conv_Cons del: upt_Suc)

lemma point_column:
  assumes p: "vtab_ok p" and cur: "query_plan cur = VEC0_QUERY_PLAN_POINT" "cur_point cur = Some d"
    and v: "\<And>x. x < numVectorColumns p \<Longrightarrow> vec0_get_vector_data p s (pt_rowid d) x = Inr (v x)"
    and d: "pt_vectors d = map v [0..<numVectorColumns p]" and i: "0 \<le> i"
  shows "vec0Column p s cur False i = Some (row_column p (reads p s (pt_rowid d)) DNull i)"
proof -
  have c: "vec0Column p s cur False i = vec0Column_point p s cur False i" using cur by (simp add: vec0Column_def idxstr_chars)
  show ?thesis
  proof (cases "i = vec0_column_distance_idx p")
    case True
    then have "vec0_column_idx_is_vector p i = Some False" "i \<noteq> VEC0_COLUMN_ID"
      by (simp_all add: column_idx_defs hidden_columns distance_column VEC0_COLUMN_ID_def)
    then show ?thesis unfolding c using cur True by (simp add: vec0Column_point_def row_column_def split: prod.splits)
  next
    case False
    have "vec0Column_point p s cur False i = plain_column p s (pt_rowid d) i"
    proof (cases "vec0_column_idx_is_vector p i = Some True")
      case True
      have "i \<noteq> VEC0_COLUMN_ID" using True hidden_columns(1) [where k = VECTOR and p = p] by (auto simp: column_idx_defs)
      moreover have "i \<le> int (vec0_num_defined_user_columns p)"
        using True hidden_columns(2) [where k = VECTOR and p = p and i = i] by (cases "int (vec0_num_defined_user_columns p) < i") (auto simp: column_idx_defs)
      ultimately have u: "1 \<le> i" "i \<le> int (vec0_num_defined_user_columns p)" using i by (simp_all add: VEC0_COLUMN_ID_def)
      obtain k x where k: "x < column_count k p" "\<And>k'. column_idx_is k' p i = Some (k' = k)" "rd (user_column_idxs p) (nat (i - 1)) = Some x"
        by (rule user_column_cases [OF p u]) blast
      have "k = VECTOR" using True k(2) [of VECTOR] by (simp add: column_idx_defs)
      then have "vec0_column_idx_to_vector_idx p i = Some x" "x < numVectorColumns p" "i \<noteq> VEC0_COLUMN_ID"
        using k u by (simp_all add: column_idx_defs VEC0_COLUMN_USERN_START_def VEC0_COLUMN_ID_def)
      then show ?thesis using True cur(2) False v d by (simp add: vec0Column_point_def plain_column_def vector_column_result_def rd_Some)
    next
      case not_vector: False
      then consider "vec0_column_idx_is_vector p i = None" | "vec0_column_idx_is_vector p i = Some False"
        by (cases "vec0_column_idx_is_vector p i") auto
      then show ?thesis using cur(2) False by cases (simp_all add: vec0Column_point_def plain_column_def)
    qed
    then show ?thesis using plain_column_reads [OF p i False, of s "pt_rowid d" DNull] c by simp
  qed
qed


text \<open>The row of a point query, and what its vectors are.\<close>

lemma filter_point_spec:
  assumes ok: "table_ok p" and con: "consistent p s"
  obtains (gone) d where "vec0Filter_point c p s a = Inr d" "pt_done d" "\<nexists>r. has_id c p s (f_value a) r"
    | (found) d v where "vec0Filter_point c p s a = Inr d" "\<not> pt_done d" "has_id c p s (f_value a) (pt_rowid d)"
      "\<And>x. x < numVectorColumns p \<Longrightarrow> vec0_get_vector_data p s (pt_rowid d) x = Inr (v x)" "pt_vectors d = map v [0..<numVectorColumns p]"
proof -
  let ?row = "if pkIsText p then vec0_rowid_from_id s (f_value a) else Inr (value_int64 c (f_value a))"
  have dom: "dom (contents p s) = dom (map_of (s_rows s))" by (auto simp: contents_def split: if_splits)
  have n: "0 < numVectorColumns p" using ok by (simp add: table_ok_def)
  consider (none) "?row = Inl SQLITE_EMPTY" "\<nexists>r. has_id c p s (f_value a) r"
    | (row) r where "?row = Inr r" "r \<in> dom (map_of (s_rows s))" "has_id c p s (f_value a) r"
    | (absent) r where "?row = Inr r" "r \<notin> dom (map_of (s_rows s))" "\<nexists>r. has_id c p s (f_value a) r"
  proof (cases "pkIsText p")
    case True
    have "has_id c p s v r \<longleftrightarrow> (\<exists>e. map_of (s_rows s) r = Some e \<and> sql_eq (r_id e) v)" for v r
      using True by (auto simp: has_id_def dom reads_def vec0_result_id_def vec0_get_id_value_from_rowid_def vec0_get_chunk_position_def)
    then show ?thesis using that True rowid_from_id [OF consistentD(8) [OF con], of "f_value a"] by fastforce
  next
    case False
    then show ?thesis using that by (cases "value_int64 c (f_value a) \<in> dom (map_of (s_rows s))") (auto simp: has_id_def dom)
  qed
  then show ?thesis
  proof cases
    case none
    then show ?thesis using gone [of "\<lparr>pt_rowid = 0, pt_vectors = [], pt_done = True\<rparr>"] by (simp add: vec0Filter_point_def)
  next
    case (row r)
    have "\<forall>x. \<exists>v. x < numVectorColumns p \<longrightarrow> vec0_get_vector_data p s r x = Inr v" using stored_vectors [OF ok con] row(2) by blast
    then obtain v where v: "\<And>x. x < numVectorColumns p \<Longrightarrow> vec0_get_vector_data p s r x = Inr (v x)" by metis
    have "point_vectors p s r 0 (numVectorColumns p) = Inr (map v [0..<numVectorColumns p])" using point_vectors_spec [of 0] v by simp
    then show ?thesis
      using found [of "\<lparr>pt_rowid = r, pt_vectors = map v [0..<numVectorColumns p], pt_done = False\<rparr>" v] v row by (simp add: vec0Filter_point_def)
  next
    case (absent r)
    have "vec0_get_vector_data p s r 0 = Inl SQLITE_EMPTY" using absent(2) by (auto simp: vec0_get_vector_data_def vec0_get_chunk_position_def split: option.splits)
    then have "point_vectors p s r 0 (numVectorColumns p) = Inl SQLITE_EMPTY" using n by (cases "numVectorColumns p") simp_all
    then show ?thesis using gone [of "\<lparr>pt_rowid = r, pt_vectors = [], pt_done = True\<rparr>"] absent by (simp add: vec0Filter_point_def)
  qed
qed



end
