(* ===== verification/Spec2Isabelle.thy ===== *)
theory Spec2Isabelle
  imports MuslString MuslStdlib VecBitmap VecInit PrintfText VecJson VecAnswers
begin

text \<open>Header.\<close>

end
